(* ===== verification/Prelude.thy ===== *)
theory Prelude
  imports Main "HOL-Library.Word" "HOL-Library.Monad_Syntax"
begin

text \<open>
  What every theory of the development shares: the machine word type of the uRISCV target, the
  collections of rewrite rules the component proofs are driven by, and a few facts on lists and
  words that the library does not have in the form needed here.

  Conventions. A C \<open>int\<close> or \<open>unsigned int\<close> is a value of type \<open>u32\<close>; the comparisons of
  the code that are signed are written with \<open>sint\<close>. A C function that may loop forever or use a
  pointer that does not point into an object returns an \<open>option\<close>, where \<open>None\<close> stands for
  exactly that: the C program has no defined result. A nullable pointer is an \<open>option\<close> too.
\<close>

unbundle bit_operations_syntax

type_synonym u32 = "32 word"

text \<open>Rules that push a component's operation through the fields it does not write.\<close>

named_theorems frame_simps
named_theorems heap_simps

section \<open>Lists\<close>

lemma last_Cons_append [simp]: "last (a # xs @ [x]) = x"
  by simp

lemma hd_append_singleton: "hd (ys @ [b]) = (if ys = [] then b else hd ys)"
  by (cases ys) auto

lemma find_append:
  "List.find P (xs @ ys) = (case List.find P xs of None \<Rightarrow> List.find P ys | Some x \<Rightarrow> Some x)"
  by (induction xs) auto

lemma find_eq_unique:
  "x \<in> set xs \<Longrightarrow> List.find (\<lambda>y. y = x) xs = Some x"
  by (induction xs) auto

lemma find_eq_notin:
  "x \<notin> set xs \<Longrightarrow> List.find (\<lambda>y. y = x) xs = None"
  by (induction xs) auto

text \<open>The unique element of a list with a given key, when the keys are distinct.\<close>

lemma find_key_unique:
  "x \<in> set xs \<Longrightarrow> inj_on f (set xs) \<Longrightarrow> f x = k \<Longrightarrow> List.find (\<lambda>y. f y = k) xs = Some x"
  by (induction xs) (auto simp: inj_on_def)

lemma remove1_split:
  "distinct (xs @ x # ys) \<Longrightarrow> remove1 x (xs @ x # ys) = xs @ ys"
  by (simp add: remove1_append)

lemma takeWhile_dropWhile_find_None:
  "List.find P xs = None \<Longrightarrow> takeWhile (\<lambda>x. \<not> P x) xs = xs \<and> dropWhile (\<lambda>x. \<not> P x) xs = []"
  by (induction xs) (auto split: if_splits)

lemma butlast_distinctD:
  "distinct xs \<Longrightarrow> x \<in> set (butlast xs) \<Longrightarrow> x \<in> set xs \<and> x \<noteq> last xs"
  by (induction xs) (auto split: if_splits)

lemma dropWhile_find_Some:
  "List.find P xs = Some y \<Longrightarrow> \<exists>ys. dropWhile (\<lambda>x. \<not> P x) xs = y # ys"
  by (induction xs) (auto split: if_splits)

section \<open>Words\<close>

lemma of_nat_u32_inject:
  "m < 2 ^ 32 \<Longrightarrow> n < 2 ^ 32 \<Longrightarrow> (of_nat m = (of_nat n :: u32)) = (m = n)"
  by (simp add: word_of_nat_eq_iff take_bit_nat_eq_self)

lemma of_nat_u32_Suc_diff:
  "0 < n \<Longrightarrow> (of_nat n :: u32) - 1 = of_nat (n - 1)"
  by simp

end
