(* ===== verification/Listx.thy ===== *)
theory Listx
  imports Prelude
begin

text \<open>
  \<^verbatim>\<open>headers/listx.h\<close>: the intrusive circular doubly linked lists every queue of the kernel is
  made of. A \<open>struct list_head\<close> lives inside another object, so an address of one is a value of
  \<open>lh\<close> saying which field of which object it is; the memory of all of them is the two maps of
  \<open>list_mem\<close>. The operations are the pointer writes of the C functions in the C order.

  A head \<open>h\<close> and the members \<open>xs\<close> of its list form a \<open>ring\<close>: following \<open>next\<close> from
  \<open>h\<close> visits \<open>xs\<close> and comes back to \<open>h\<close>, and \<open>prev\<close> is its converse. The lemmas say what
  each operation does to the ring it works on and, since all lists share one memory, that it
  leaves the other rings alone (\<open>rings\<close>).
\<close>

section \<open>The memory of the list heads\<close>

datatype lh =
    p_list nat       \<comment> \<open>field \<open>p_list\<close> of a \<open>pcb_t\<close>: link in a process queue\<close>
  | p_child nat      \<comment> \<open>field \<open>p_child\<close>: head of the children list\<close>
  | p_sib nat        \<comment> \<open>field \<open>p_sib\<close>: link in the parent's children list\<close>
  | s_procq nat      \<comment> \<open>field \<open>s_procq\<close> of a \<open>semd_t\<close>: head of the blocked processes\<close>
  | s_link nat       \<comment> \<open>field \<open>s_link\<close>: link in a list of semaphore descriptors\<close>
  | pcbFree_h | semdFree_h | semd_h | readyQueue
  | local_head nat   \<comment> \<open>a head declared in a function, \<open>LIST_HEAD(name)\<close>\<close>

record list_mem =
  nxt :: "lh \<Rightarrow> lh"
  prv :: "lh \<Rightarrow> lh"

definition set_next :: "lh \<Rightarrow> lh \<Rightarrow> list_mem \<Rightarrow> list_mem" where
  "set_next l v m = m\<lparr>nxt := (nxt m)(l := v)\<rparr>"

definition set_prev :: "lh \<Rightarrow> lh \<Rightarrow> list_mem \<Rightarrow> list_mem" where
  "set_prev l v m = m\<lparr>prv := (prv m)(l := v)\<rparr>"

lemma set_next_prev_sel [heap_simps]:
  "nxt (set_next l v m) x = (if x = l then v else nxt m x)"
  "prv (set_next l v m) x = prv m x"
  "nxt (set_prev l v m) x = nxt m x"
  "prv (set_prev l v m) x = (if x = l then v else prv m x)"
  by (simp_all add: set_next_def set_prev_def)

section \<open>The operations\<close>

definition INIT_LIST_HEAD :: "lh \<Rightarrow> list_mem \<Rightarrow> list_mem" where
  "INIT_LIST_HEAD l m = set_prev l l (set_next l l m)"

text \<open>\<open>__list_add\<close> and \<open>__list_del\<close>; an Isabelle name does not start with an underscore.\<close>

definition list_add_between :: "lh \<Rightarrow> lh \<Rightarrow> lh \<Rightarrow> list_mem \<Rightarrow> list_mem" where
  "list_add_between new prev next m =
     (let m = set_prev next new m;
          m = set_next new next m;
          m = set_prev new prev m
      in set_next prev new m)"

definition list_add :: "lh \<Rightarrow> lh \<Rightarrow> list_mem \<Rightarrow> list_mem" where
  "list_add new head m = list_add_between new head (nxt m head) m"

definition list_add_tail :: "lh \<Rightarrow> lh \<Rightarrow> list_mem \<Rightarrow> list_mem" where
  "list_add_tail new head m = list_add_between new (prv m head) head m"

definition list_del_between :: "lh \<Rightarrow> lh \<Rightarrow> list_mem \<Rightarrow> list_mem" where
  "list_del_between prev next m = set_next prev next (set_prev next prev m)"

definition list_del :: "lh \<Rightarrow> list_mem \<Rightarrow> list_mem" where
  "list_del entry m =
     (let m = list_del_between (prv m entry) (nxt m entry) m;
          m = set_next entry entry m
      in set_prev entry entry m)"

definition list_is_last :: "lh \<Rightarrow> lh \<Rightarrow> list_mem \<Rightarrow> bool" where
  "list_is_last l head m \<longleftrightarrow> nxt m l = head"

definition list_empty :: "lh \<Rightarrow> list_mem \<Rightarrow> bool" where
  "list_empty head m \<longleftrightarrow> nxt m head = head"

definition list_next :: "lh \<Rightarrow> list_mem \<Rightarrow> lh option" where
  "list_next current m = (if list_empty current m then None else Some (nxt m current))"

definition list_prev :: "lh \<Rightarrow> list_mem \<Rightarrow> lh option" where
  "list_prev current m = (if list_empty current m then None else Some (prv m current))"

text \<open>
  \<open>list_for_each\<close> with a body that either leaves the loop at \<open>pos\<close> or goes on without writing
  to the list, which is how every loop of the kernel uses it: the result is the \<open>pos\<close> at which
  the body left, \<open>Some None\<close> when the loop ran to the end. \<open>None\<close>: the loop never comes back
  to the head, or the body used a bad pointer.
\<close>

partial_function (option) list_for_each_from ::
  "(lh \<Rightarrow> bool option) \<Rightarrow> lh \<Rightarrow> list_mem \<Rightarrow> lh \<Rightarrow> lh option option" where
  "list_for_each_from body head m pos =
     (if pos = head then Some None
      else do {
        leave \<leftarrow> body pos;
        if leave then Some (Some pos) else list_for_each_from body head m (nxt m pos)
      })"

definition list_for_each :: "(lh \<Rightarrow> bool option) \<Rightarrow> lh \<Rightarrow> list_mem \<Rightarrow> lh option option" where
  "list_for_each body head m = list_for_each_from body head m (nxt m head)"

partial_function (option) list_for_each_prev_from ::
  "(lh \<Rightarrow> bool option) \<Rightarrow> lh \<Rightarrow> list_mem \<Rightarrow> lh \<Rightarrow> lh option option" where
  "list_for_each_prev_from body head m pos =
     (if pos = head then Some None
      else do {
        leave \<leftarrow> body pos;
        if leave then Some (Some pos) else list_for_each_prev_from body head m (prv m pos)
      })"

definition list_for_each_prev :: "(lh \<Rightarrow> bool option) \<Rightarrow> lh \<Rightarrow> list_mem \<Rightarrow> lh option option" where
  "list_for_each_prev body head m = list_for_each_prev_from body head m (prv m head)"

text \<open>
  \<open>list_for_each_entry\<close>: the loop variable is the object around the link. \<open>container_of\<close> is a
  parameter, one function per field the code names; \<open>None\<close> where the C expression would compute
  an address inside another object.
\<close>

definition list_for_each_entry ::
  "(lh \<Rightarrow> 'e option) \<Rightarrow> ('e \<Rightarrow> bool option) \<Rightarrow> lh \<Rightarrow> list_mem \<Rightarrow> 'e option option" where
  "list_for_each_entry container_of body head m =
     do {
       pos \<leftarrow> list_for_each (\<lambda>l. do { e \<leftarrow> container_of l; body e }) head m;
       case pos of None \<Rightarrow> Some None | Some l \<Rightarrow> map_option Some (container_of l)
     }"

definition list_for_each_entry_reverse ::
  "(lh \<Rightarrow> 'e option) \<Rightarrow> ('e \<Rightarrow> bool option) \<Rightarrow> lh \<Rightarrow> list_mem \<Rightarrow> 'e option option" where
  "list_for_each_entry_reverse container_of body head m =
     do {
       pos \<leftarrow> list_for_each_prev (\<lambda>l. do { e \<leftarrow> container_of l; body e }) head m;
       case pos of None \<Rightarrow> Some None | Some l \<Rightarrow> map_option Some (container_of l)
     }"

declare list_for_each_from.simps [code]
declare list_for_each_prev_from.simps [code]

section \<open>Rings\<close>

fun linked :: "list_mem \<Rightarrow> lh \<Rightarrow> lh list \<Rightarrow> lh \<Rightarrow> bool" where
  "linked m a [] b \<longleftrightarrow> nxt m a = b \<and> prv m b = a"
| "linked m a (x # xs) b \<longleftrightarrow> nxt m a = x \<and> prv m x = a \<and> linked m x xs b"

definition ring :: "list_mem \<Rightarrow> lh \<Rightarrow> lh list \<Rightarrow> bool" where
  "ring m h xs \<longleftrightarrow> linked m h xs h \<and> distinct (h # xs)"

lemma linked_append:
  "linked m a (xs @ ys) b \<longleftrightarrow> linked m a xs (hd (ys @ [b])) \<and> linked m (last (a # xs)) ys b"
proof (induction xs arbitrary: a)
  case Nil
  show ?case by (cases ys) auto
next
  case (Cons x xs)
  then show ?case by auto
qed

lemma linked_cong:
  assumes "\<And>x. x \<in> insert a (set xs) \<Longrightarrow> nxt m' x = nxt m x"
    and "\<And>x. x \<in> insert b (set xs) \<Longrightarrow> prv m' x = prv m x"
  shows "linked m' a xs b = linked m a xs b"
  using assms by (induction xs arbitrary: a) auto

text \<open>Redirecting the end of a segment to another node, and its start.\<close>

lemma linked_new_end:
  assumes "linked m a xs b" and "distinct (a # xs)"
    and "\<And>x. x \<in> set (butlast (a # xs)) \<Longrightarrow> nxt m' x = nxt m x"
    and "\<And>x. x \<in> set xs \<Longrightarrow> prv m' x = prv m x"
    and "nxt m' (last (a # xs)) = c" and "prv m' c = last (a # xs)"
  shows "linked m' a xs c"
  using assms by (induction xs arbitrary: a) (auto split: if_splits)

lemma linked_new_start:
  assumes "linked m a ys b" and "distinct ys" and "b \<notin> set ys"
    and "\<And>x. x \<in> set ys \<Longrightarrow> nxt m' x = nxt m x"
    and "\<And>x. x \<in> set (tl (ys @ [b])) \<Longrightarrow> prv m' x = prv m x"
    and "nxt m' c = hd (ys @ [b])" and "prv m' (hd (ys @ [b])) = c"
  shows "linked m' c ys b"
proof (cases ys)
  case Nil
  with assms show ?thesis by simp
next
  case (Cons y zs)
  with assms(1) have "linked m y zs b" by simp
  moreover from Cons assms have "linked m' y zs b = linked m y zs b"
    by (intro linked_cong) auto
  ultimately show ?thesis using Cons assms by simp
qed

lemma ring_nxt_head: "ring m h xs \<Longrightarrow> nxt m h = hd (xs @ [h])"
  by (cases xs) (auto simp: ring_def)

lemma ring_prv_head: "ring m h xs \<Longrightarrow> prv m h = last (h # xs)"
  using linked_append [of m h xs "[]" h] by (auto simp: ring_def)

lemma ring_nxt_mid: "ring m h (xs @ x # ys) \<Longrightarrow> nxt m x = hd (ys @ [h])"
  by (cases ys) (auto simp: ring_def linked_append)

lemma ring_prv_mid: "ring m h (xs @ x # ys) \<Longrightarrow> prv m x = last (h # xs)"
  by (auto simp: ring_def linked_append)

lemma ring_empty_iff: "ring m h xs \<Longrightarrow> list_empty h m \<longleftrightarrow> xs = []"
  by (cases xs) (auto simp: ring_def list_empty_def)

lemma ring_self [simp]: "ring m h [] \<longleftrightarrow> nxt m h = h \<and> prv m h = h"
  by (simp add: ring_def)

lemma linked_unique:
  assumes "linked m a xs h" and "linked m a ys h" and "h \<notin> set xs" and "h \<notin> set ys"
  shows "xs = ys"
  using assms
proof (induction xs arbitrary: a ys)
  case Nil
  then show ?case by (cases ys) auto
next
  case (Cons x xs)
  then show ?case by (cases ys) auto
qed

lemma ring_unique: "ring m h xs \<Longrightarrow> ring m h ys \<Longrightarrow> xs = ys"
  by (auto simp: ring_def intro: linked_unique)

lemma ring_cong:
  assumes "\<And>x. x \<in> insert h (set xs) \<Longrightarrow> nxt m' x = nxt m x \<and> prv m' x = prv m x"
  shows "ring m' h xs = ring m h xs"
  using linked_cong [of h xs m' m h] assms by (auto simp: ring_def)

section \<open>What one operation does to its ring\<close>

lemma list_add_between_sel [heap_simps]:
  "nxt (list_add_between n p q m) x = (if x = p then n else if x = n then q else nxt m x)"
  "prv (list_add_between n p q m) x = (if x = n then p else if x = q then n else prv m x)"
  by (simp_all add: list_add_between_def Let_def heap_simps)

lemma list_del_sel [heap_simps]:
  "nxt (list_del e m) x = (if x = e then e else if x = prv m e then nxt m e else nxt m x)"
  "prv (list_del e m) x = (if x = e then e else if x = nxt m e then prv m e else prv m x)"
  by (simp_all add: list_del_def list_del_between_def Let_def heap_simps)

lemma INIT_LIST_HEAD_sel [heap_simps]:
  "nxt (INIT_LIST_HEAD l m) x = (if x = l then l else nxt m x)"
  "prv (INIT_LIST_HEAD l m) x = (if x = l then l else prv m x)"
  by (simp_all add: INIT_LIST_HEAD_def heap_simps)

lemma ring_INIT: "ring (INIT_LIST_HEAD h m) h []"
  by (simp add: heap_simps)

lemma ring_add_between:
  assumes R: "ring m h (xs @ ys)" and n: "n \<notin> set (h # xs @ ys)"
  shows "ring (list_add_between n (last (h # xs)) (hd (ys @ [h])) m) h (xs @ n # ys)"
proof -
  let ?p = "last (h # xs)" and ?q = "hd (ys @ [h])"
  let ?m = "list_add_between n ?p ?q m"
  have l1: "linked m h xs ?q" and l2: "linked m ?p ys h"
    using R by (auto simp: ring_def linked_append)
  have d: "distinct (h # xs @ ys)" using R by (simp add: ring_def)
  have p: "?p \<in> set (h # xs)" by (rule last_in_set) simp
  have q: "?q \<in> set (ys @ [h])" by (rule hd_in_set) simp
  have "linked ?m h xs n"
  proof (rule linked_new_end [OF l1])
    show "distinct (h # xs)" using d by simp
    show "nxt ?m x = nxt m x" if "x \<in> set (butlast (h # xs))" for x
    proof -
      have "x \<in> set (h # xs) \<and> x \<noteq> ?p" using that d by (intro butlast_distinctD) auto
      then show ?thesis using n by (auto simp: list_add_between_sel simp del: last.simps)
    qed
    show "prv ?m x = prv m x" if "x \<in> set xs" for x
      using that d q n by (auto simp: heap_simps)
  qed (simp_all add: heap_simps)
  moreover have "linked ?m n ys h"
  proof (rule linked_new_start [OF l2])
    show "distinct ys" "h \<notin> set ys" using d by auto
    show "nxt ?m x = nxt m x" if "x \<in> set ys" for x
      using that d p n by (auto simp: heap_simps)
    show "prv ?m x = prv m x" if "x \<in> set (tl (ys @ [h]))" for x
      using that d n by (cases ys) (auto simp: heap_simps)
    show "prv ?m ?q = n" using q n by (auto simp: heap_simps)
    show "nxt ?m n = ?q" using p n by (auto simp: heap_simps)
  qed
  ultimately show ?thesis
    using d n by (auto simp: ring_def linked_append heap_simps)
qed

lemma ring_list_del:
  assumes R: "ring m h (xs @ e # ys)"
  shows "ring (list_del e m) h (xs @ ys)"
proof -
  let ?p = "last (h # xs)" and ?q = "hd (ys @ [h])"
  let ?m = "list_del e m"
  have l1: "linked m h xs e" and l2: "linked m e ys h"
    using R by (auto simp: ring_def linked_append)
  have d: "distinct (h # xs @ e # ys)" using R by (simp add: ring_def)
  have pe: "prv m e = ?p" using R by (rule ring_prv_mid)
  have qe: "nxt m e = ?q" using R by (rule ring_nxt_mid)
  have p: "?p \<in> set (h # xs)" by (rule last_in_set) simp
  have q: "?q \<in> set (ys @ [h])" by (rule hd_in_set) simp
  have pne: "?p \<noteq> e" using p d by auto
  have qne: "?q \<noteq> e" using q d by auto
  have "linked ?m h xs ?q"
  proof (rule linked_new_end [OF l1])
    show "distinct (h # xs)" using d by simp
    show "nxt ?m x = nxt m x" if "x \<in> set (butlast (h # xs))" for x
    proof -
      have "x \<in> set (h # xs) \<and> x \<noteq> ?p" using that d by (intro butlast_distinctD) auto
      then show ?thesis using d by (auto simp: list_del_sel pe simp del: last.simps)
    qed
    show "prv ?m x = prv m x" if "x \<in> set xs" for x
      using that d q by (auto simp: heap_simps qe)
  qed (use pne qne in \<open>simp_all add: heap_simps pe qe\<close>)
  moreover have "linked ?m ?p ys h"
  proof (rule linked_new_start [OF l2])
    show "distinct ys" "h \<notin> set ys" using d by auto
    show "nxt ?m x = nxt m x" if "x \<in> set ys" for x
      using that d p by (auto simp: heap_simps pe)
    show "prv ?m x = prv m x" if "x \<in> set (tl (ys @ [h]))" for x
      using that d by (cases ys) (auto simp: heap_simps qe)
  qed (use pne qne in \<open>simp_all add: heap_simps pe qe\<close>)
  ultimately show ?thesis
    using d by (auto simp: ring_def linked_append)
qed

section \<open>All the lists of one memory\<close>

text \<open>
  \<open>D\<close> is the set of initialised heads and \<open>L h\<close> the members of the list of \<open>h\<close>. No head is a
  member and no link is in two lists, so an operation on one list cannot disturb another.
\<close>

definition rings :: "lh set \<Rightarrow> list_mem \<Rightarrow> (lh \<Rightarrow> lh list) \<Rightarrow> bool" where
  "rings D m L \<longleftrightarrow>
     (\<forall>h\<in>D. ring m h (L h) \<and> set (L h) \<inter> D = {}) \<and>
     (\<forall>h\<in>D. \<forall>h'\<in>D. h \<noteq> h' \<longrightarrow> set (L h) \<inter> set (L h') = {})"

definition detached :: "lh set \<Rightarrow> (lh \<Rightarrow> lh list) \<Rightarrow> lh \<Rightarrow> bool" where
  "detached D L n \<longleftrightarrow> n \<notin> D \<and> (\<forall>h\<in>D. n \<notin> set (L h))"

lemma ringsD:
  assumes "rings D m L" and "h \<in> D"
  shows "ring m h (L h)" and "distinct (L h)" and "h \<notin> set (L h)" and "set (L h) \<inter> D = {}"
  using assms by (auto simp: rings_def ring_def)

lemma rings_disjoint:
  "rings D m L \<Longrightarrow> h \<in> D \<Longrightarrow> h' \<in> D \<Longrightarrow> x \<in> set (L h) \<Longrightarrow> x \<in> set (L h') \<Longrightarrow> h = h'"
  unfolding rings_def by blast

lemma rings_mono: "rings D m L \<Longrightarrow> D' \<subseteq> D \<Longrightarrow> rings D' m L"
  unfolding rings_def by blast

lemma detached_mono: "detached D L n \<Longrightarrow> D' \<subseteq> D \<Longrightarrow> detached D' L n"
  by (auto simp: detached_def)

text \<open>
  One list changes from \<open>L h\<close> to \<open>zs\<close> by an operation that touches no other list.
\<close>

lemma rings_update:
  assumes R: "rings D m L" and h: "h \<in> D" and r: "ring m' h zs"
    and new: "\<And>x. x \<in> set zs \<Longrightarrow> x \<in> set (L h) \<or> detached D L x"
    and same: "\<And>x. x \<noteq> h \<Longrightarrow> x \<notin> set (L h) \<Longrightarrow> \<not> detached D L x \<Longrightarrow>
      nxt m' x = nxt m x \<and> prv m' x = prv m x"
  shows "rings D m' (L(h := zs))"
proof -
  have other: "ring m' k (L k)" if k: "k \<in> D" "k \<noteq> h" for k
  proof -
    have "nxt m' x = nxt m x \<and> prv m' x = prv m x" if x: "x \<in> insert k (set (L k))" for x
    proof (rule same)
      show "x \<noteq> h" "x \<notin> set (L h)" "\<not> detached D L x"
        using x k h R by (auto simp: rings_def detached_def) (metis disjoint_iff)+
    qed
    then have "ring m' k (L k) = ring m k (L k)" by (rule ring_cong)
    with R k show ?thesis by (simp add: rings_def)
  qed
  have zs: "set zs \<inter> D = {}" and zs': "set zs \<inter> set (L k) = {}" if "k \<in> D" "k \<noteq> h" for k
    using new R h that by (auto simp: rings_def detached_def) (metis disjoint_iff)+
  have "set zs \<inter> D = {}"
    using new R h by (auto simp: rings_def detached_def)
  with r other zs' R h show ?thesis
    by (auto simp: rings_def)
qed

lemma rings_add_between:
  assumes R: "rings D m L" and h: "h \<in> D" and L: "L h = xs @ ys" and n: "detached D L n"
  shows "rings D (list_add_between n (last (h # xs)) (hd (ys @ [h])) m) (L(h := xs @ n # ys))"
proof (rule rings_update [OF R h])
  have "n \<notin> set (h # xs @ ys)" using n h L by (auto simp: detached_def)
  then show "ring (list_add_between n (last (h # xs)) (hd (ys @ [h])) m) h (xs @ n # ys)"
    using ringsD(1) [OF R h] L by (intro ring_add_between) auto
next
  fix x assume "x \<noteq> h" "x \<notin> set (L h)" "\<not> detached D L x"
  moreover have "last (h # xs) \<in> set (h # xs)" by (rule last_in_set) simp
  moreover have "hd (ys @ [h]) \<in> set (ys @ [h])" by (rule hd_in_set) simp
  ultimately show "nxt (list_add_between n (last (h # xs)) (hd (ys @ [h])) m) x = nxt m x \<and>
      prv (list_add_between n (last (h # xs)) (hd (ys @ [h])) m) x = prv m x"
    using n L by (auto simp: list_add_between_sel simp del: last.simps)
qed (use n L in auto)

lemma rings_add_tail:
  assumes R: "rings D m L" and h: "h \<in> D" and n: "detached D L n"
  shows "rings D (list_add_tail n h m) (L(h := L h @ [n]))"
  using rings_add_between [OF R h _ n, of "L h" "[]"] ring_prv_head [OF ringsD(1) [OF R h]]
  by (simp add: list_add_tail_def)

lemma rings_add:
  assumes R: "rings D m L" and h: "h \<in> D" and n: "detached D L n"
  shows "rings D (list_add n h m) (L(h := n # L h))"
  using rings_add_between [OF R h _ n, of "[]" "L h"] ring_nxt_head [OF ringsD(1) [OF R h]]
  by (simp add: list_add_def)

lemma rings_del_split:
  assumes R: "rings D m L" and h: "h \<in> D" and L: "L h = xs @ e # ys"
  shows "rings D (list_del e m) (L(h := xs @ ys))"
proof (rule rings_update [OF R h])
  have r: "ring m h (xs @ e # ys)" using ringsD(1) [OF R h] L by simp
  then show "ring (list_del e m) h (xs @ ys)" by (rule ring_list_del)
  fix x assume "x \<noteq> h" "x \<notin> set (L h)"
  moreover have "last (h # xs) \<in> set (h # xs)" by (rule last_in_set) simp
  moreover have "hd (ys @ [h]) \<in> set (ys @ [h])" by (rule hd_in_set) simp
  ultimately show "nxt (list_del e m) x = nxt m x \<and> prv (list_del e m) x = prv m x"
    using L ring_prv_mid [OF r] ring_nxt_mid [OF r]
    by (auto simp: list_del_sel simp del: last.simps)
qed (use L in auto)

lemma rings_del:
  assumes R: "rings D m L" and h: "h \<in> D" and e: "e \<in> set (L h)"
  shows "rings D (list_del e m) (L(h := remove1 e (L h)))"
proof -
  obtain xs ys where L: "L h = xs @ e # ys" using e by (meson split_list)
  then have "remove1 e (L h) = xs @ ys"
    using ringsD(2) [OF R h] by (simp add: remove1_split)
  with rings_del_split [OF R h L] show ?thesis by simp
qed

text \<open>Deleting a node that is linked to itself does nothing.\<close>

lemma list_del_self: "nxt m e = e \<Longrightarrow> prv m e = e \<Longrightarrow> list_del e m = m"
  by (rule list_mem.equality) (auto simp: heap_simps fun_eq_iff)

lemma rings_INIT_detached:
  assumes R: "rings D m L" and n: "detached D L n"
  shows "rings D (INIT_LIST_HEAD n m) L"
proof -
  have "ring (INIT_LIST_HEAD n m) h (L h) = ring m h (L h)" if "h \<in> D" for h
    using n that by (intro ring_cong) (auto simp: detached_def heap_simps)
  with R show ?thesis by (auto simp: rings_def)
qed

lemma rings_INIT_new:
  assumes R: "rings D m L" and n: "detached D L n" and D': "D' = insert n D"
  shows "rings D' (INIT_LIST_HEAD n m) (L(n := []))"
proof -
  have "ring (INIT_LIST_HEAD n m) h (L h)" if "h \<in> D" for h
    using rings_INIT_detached [OF R n] that by (auto simp: rings_def)
  moreover have "ring (INIT_LIST_HEAD n m) n []" by (rule ring_INIT)
  ultimately show ?thesis using R n
    by (auto simp: rings_def detached_def D')
qed

lemma rings_INIT_empty:
  assumes R: "rings D m L" and h: "h \<in> D" and L: "L h = []"
  shows "rings D (INIT_LIST_HEAD h m) L"
proof -
  have "INIT_LIST_HEAD h m = m"
    using ringsD(1) [OF R h] L
    by (intro list_mem.equality) (auto simp: heap_simps fun_eq_iff)
  with R show ?thesis by simp
qed

lemma detached_after_del:
  assumes R: "rings D m L" and h: "h \<in> D" and e: "e \<in> set (L h)"
  shows "detached D (L(h := remove1 e (L h))) e"
proof -
  have "e \<notin> D" using ringsD(4) [OF R h] e by blast
  moreover have "e \<notin> set (remove1 e (L h))"
    using ringsD(2) [OF R h] by (simp add: set_remove1_eq)
  moreover have "e \<notin> set (L k)" if "k \<in> D" "k \<noteq> h" for k
    using rings_disjoint [OF R h that(1) e] that(2) by blast
  ultimately show ?thesis by (auto simp: detached_def)
qed

section \<open>Loops over a ring\<close>

lemma list_for_each_from_linked:
  assumes "linked m a xs h" and "h \<notin> set xs" and "\<And>x. x \<in> set xs \<Longrightarrow> body x = Some (P x)"
  shows "list_for_each_from body h m (nxt m a) = Some (List.find P xs)"
  using assms
proof (induction xs arbitrary: a)
  case Nil
  then show ?case by (simp add: list_for_each_from.simps)
next
  case (Cons x xs)
  then show ?case
    by (subst list_for_each_from.simps) auto
qed

lemma list_for_each_ring:
  assumes "ring m h xs" and "\<And>x. x \<in> set xs \<Longrightarrow> body x = Some (P x)"
  shows "list_for_each body h m = Some (List.find P xs)"
  using assms list_for_each_from_linked [of m h xs h body P]
  by (auto simp: list_for_each_def ring_def)

text \<open>The backward loop visits the members in reverse.\<close>

lemma list_for_each_prev_from_linked:
  assumes "linked m h xs b" and "h \<notin> set xs" and "\<And>x. x \<in> set xs \<Longrightarrow> body x = Some (P x)"
  shows "list_for_each_prev_from body h m (prv m b) = Some (List.find P (rev xs))"
  using assms
proof (induction xs arbitrary: b rule: rev_induct)
  case Nil
  then show ?case by (simp add: list_for_each_prev_from.simps)
next
  case (snoc x xs)
  then have l: "linked m h xs x" "prv m b = x" by (auto simp: linked_append)
  with snoc show ?case
    by (subst list_for_each_prev_from.simps) auto
qed

lemma list_for_each_prev_ring:
  assumes "ring m h xs" and "\<And>x. x \<in> set xs \<Longrightarrow> body x = Some (P x)"
  shows "list_for_each_prev body h m = Some (List.find P (rev xs))"
  using assms list_for_each_prev_from_linked [of m h xs h body P]
  by (auto simp: list_for_each_prev_def ring_def)

end
