(* ===== verification/Pandos_Types.thy ===== *)
theory Pandos_Types
  imports Listx
begin

text \<open>
  \<^verbatim>\<open>headers/types.h\<close> and the constants of \<^verbatim>\<open>headers/const.h\<close> the kernel computes with. The
  processor state \<open>state_t\<close> is a type of the uRISCV library; the record has the fields the kernel
  names, and \<open>gpr_rest\<close> for the registers it only copies. The \<open>struct list_head\<close> fields of
  \<open>pcb_t\<close> and \<open>semd_t\<close> are in the list memory of \<^theory_text>\<open>Listx\<close>, under the addresses
  \<open>p_list i\<close>, \<open>p_child i\<close>, \<open>p_sib i\<close>, \<open>s_procq d\<close> and \<open>s_link d\<close>; \<open>i\<close> and \<open>d\<close> are the
  indices in \<open>pcbFree_table\<close> and \<open>semd_table\<close>.
\<close>

section \<open>Constants\<close>

abbreviation (input) MAXPROC :: nat where "MAXPROC \<equiv> 20"

abbreviation (input) PAGESIZE :: u32 where "PAGESIZE \<equiv> 4096"
abbreviation (input) WORDLEN :: u32 where "WORDLEN \<equiv> 4"

abbreviation (input) PGFAULTEXCEPT :: nat where "PGFAULTEXCEPT \<equiv> 0"
abbreviation (input) GENERALEXCEPT :: nat where "GENERALEXCEPT \<equiv> 1"

abbreviation (input) PROCESS_PRIO_LOW :: u32 where "PROCESS_PRIO_LOW \<equiv> 0"
abbreviation (input) PROCESS_PRIO_HIGH :: u32 where "PROCESS_PRIO_HIGH \<equiv> 1"

abbreviation (input) MSTATUS_MIE_MASK :: u32 where "MSTATUS_MIE_MASK \<equiv> 0x8"
abbreviation (input) MSTATUS_MPIE_MASK :: u32 where "MSTATUS_MPIE_MASK \<equiv> 0x80"
abbreviation (input) MIE_MTIE_MASK :: u32 where "MIE_MTIE_MASK \<equiv> 0x40"
abbreviation (input) MIE_ALL :: u32 where "MIE_ALL \<equiv> 0xFFFFFFFF"
abbreviation (input) MSTATUS_MPP_M :: u32 where "MSTATUS_MPP_M \<equiv> 0x1800"
abbreviation (input) MSTATUS_MPP_U :: u32 where "MSTATUS_MPP_U \<equiv> 0x0000"
abbreviation (input) MSTATUS_MPP_MASK :: u32 where "MSTATUS_MPP_MASK \<equiv> 0x1800"

section \<open>Data\<close>

record state_t =
  entry_hi :: u32
  cause :: u32
  status :: u32
  pc_epc :: u32
  mie :: u32
  reg_sp :: u32
  reg_a0 :: u32
  reg_a1 :: u32
  reg_a2 :: u32
  reg_a3 :: u32
  gpr_rest :: "nat \<Rightarrow> u32"

record pteEntry_t =
  pte_entryHI :: u32
  pte_entryLO :: u32

record context_t =
  stackPtr :: u32
  ctx_status :: u32
  ctx_pc :: u32

text \<open>The arrays of a \<open>support_t\<close>, indexed by natural numbers; the code checks or fixes the index.\<close>

record support_t =
  sup_asid :: u32
  sup_exceptState :: "nat \<Rightarrow> state_t"
  sup_exceptContext :: "nat \<Rightarrow> context_t"
  sup_privatePgTbl :: "nat \<Rightarrow> pteEntry_t"

text \<open>\<open>p_semAdd\<close> and \<open>p_supportStruct\<close> are addresses, with 0 for \<open>NULL\<close>.\<close>

record pcb_t =
  p_parent :: "nat option"
  p_s :: state_t
  p_time :: u32
  p_semAdd :: u32
  p_supportStruct :: u32
  p_prio :: u32
  p_pid :: u32

text \<open>
  The variables of \<^verbatim>\<open>pcb.c\<close> and \<^verbatim>\<open>asl.c\<close>: the list heads, the two tables (\<open>s_key d\<close> is the field
  of \<open>semd_table[d]\<close>) and \<open>next_pid\<close>. The Nucleus extends the record.
\<close>

record phase1 =
  lmem :: list_mem
  pcbs :: "nat \<Rightarrow> pcb_t"
  next_pid :: u32
  s_key :: "nat \<Rightarrow> u32"

definition upd_pcb :: "nat \<Rightarrow> (pcb_t \<Rightarrow> pcb_t) \<Rightarrow> 'a phase1_scheme \<Rightarrow> 'a phase1_scheme" where
  [simp]: "upd_pcb p f s = s\<lparr>pcbs := (pcbs s)(p := f (pcbs s p))\<rparr>"

section \<open>From a link to the object around it\<close>

fun container_of_p_list :: "lh \<Rightarrow> nat option" where
  "container_of_p_list (p_list i) = Some i"
| "container_of_p_list _ = None"

fun container_of_p_sib :: "lh \<Rightarrow> nat option" where
  "container_of_p_sib (p_sib i) = Some i"
| "container_of_p_sib _ = None"

fun container_of_s_link :: "lh \<Rightarrow> nat option" where
  "container_of_s_link (s_link d) = Some d"
| "container_of_s_link _ = None"

text \<open>
  What the queue code relies on: \<open>container_of\<close> recovers the object from its link, and from
  nothing else. A list whose members are links of this kind is a list of objects.
\<close>

locale link_field =
  fixes link :: "nat \<Rightarrow> lh"
    and container_of :: "lh \<Rightarrow> nat option"
  assumes container_of_iff: "container_of l = Some i \<longleftrightarrow> l = link i"
begin

lemma container_of_link [simp]: "container_of (link i) = Some i"
  by (simp add: container_of_iff)

lemma link_inject [simp]: "link i = link j \<longleftrightarrow> i = j"
  using container_of_iff [of "link i" j] by auto

lemma map_link_inject [simp]: "map link is = map link js \<longleftrightarrow> is = js"
  by (rule inj_map_eq_map) (simp add: inj_def)

lemma distinct_map_link [simp]: "distinct (map link is) \<longleftrightarrow> distinct is"
  by (simp add: distinct_map inj_on_def)

lemma remove1_map_link: "remove1 (link i) (map link is) = map link (remove1 i is)"
  by (induction "is") auto

lemma members_exist: "set ls \<subseteq> link ` A \<Longrightarrow> \<exists>is. ls = map link is \<and> set is \<subseteq> A"
proof (induction ls)
  case Nil
  then show ?case by simp
next
  case (Cons l ls)
  then obtain i "is" where "l = link i" "i \<in> A" "ls = map link is" "set is \<subseteq> A" by auto
  then show ?case by (intro exI [of _ "i # is"]) simp
qed

text \<open>The object at the front of a nonempty list.\<close>

lemma first_entry:
  "ring m h (map link (i # is)) \<Longrightarrow> nxt m h = link i \<and> container_of (nxt m h) = Some i"
  by (simp add: ring_def)

lemma find_link:
  "List.find (\<lambda>l. \<exists>i. l = link i \<and> P i) (map link is) = map_option link (List.find P is)"
  by (induction "is") auto

lemma for_each_link:
  assumes "ring m h (map link is)" and "\<And>i. i \<in> set is \<Longrightarrow> body i = Some (P i)"
  shows "list_for_each (\<lambda>l. do { i \<leftarrow> container_of l; body i }) h m =
    Some (map_option link (List.find P is))"
  unfolding find_link [symmetric] using assms by (intro list_for_each_ring) auto

lemma for_each_prev_link:
  assumes "ring m h (map link is)" and "\<And>i. i \<in> set is \<Longrightarrow> body i = Some (P i)"
  shows "list_for_each_prev (\<lambda>l. do { i \<leftarrow> container_of l; body i }) h m =
    Some (map_option link (List.find P (rev is)))"
  unfolding find_link [symmetric] rev_map [symmetric] using assms by (intro list_for_each_prev_ring) auto

lemma for_each_entry:
  assumes "ring m h (map link is)" and "\<And>i. i \<in> set is \<Longrightarrow> body i = Some (P i)"
  shows "list_for_each_entry container_of body h m = Some (List.find P is)"
  using for_each_link [OF assms]
  by (auto simp: list_for_each_entry_def split: option.splits)

lemma for_each_entry_reverse:
  assumes "ring m h (map link is)" and "\<And>i. i \<in> set is \<Longrightarrow> body i = Some (P i)"
  shows "list_for_each_entry_reverse container_of body h m = Some (List.find P (rev is))"
  using for_each_prev_link [OF assms]
  by (auto simp: list_for_each_entry_reverse_def split: option.splits)

end

interpretation plist: link_field p_list container_of_p_list
proof unfold_locales
  show "container_of_p_list l = Some i \<longleftrightarrow> l = p_list i" for l i
    by (cases l) auto
qed

interpretation psib: link_field p_sib container_of_p_sib
proof unfold_locales
  show "container_of_p_sib l = Some i \<longleftrightarrow> l = p_sib i" for l i
    by (cases l) auto
qed

interpretation slink: link_field s_link container_of_s_link
proof unfold_locales
  show "container_of_s_link l = Some d \<longleftrightarrow> l = s_link d" for l d
    by (cases l) auto
qed

end
