(* ===== verification/Pcb.thy ===== *)
theory Pcb
  imports Pandos_Types
begin

text \<open>
  \<^verbatim>\<open>phase1/pcb.c\<close>: the pool of process control blocks, the process queues ordered by priority,
  and the process tree. The operations work on the list memory; the lemmas say what they do to the
  lists of processes the rings stand for: an abstract queue is a \<open>nat list\<close>, insertion is
  \<open>ins_prio\<close>.
\<close>

section \<open>The operations\<close>

definition initPcbs_body :: "nat \<Rightarrow> 'a phase1_scheme \<Rightarrow> 'a phase1_scheme" where
  "initPcbs_body i s =
     (let s = s\<lparr>lmem := INIT_LIST_HEAD (p_list i) (lmem s)\<rparr>;
          s = upd_pcb i (\<lambda>p. p\<lparr>p_pid := 0\<rparr>) s
      in s\<lparr>lmem := list_add_tail (p_list i) pcbFree_h (lmem s)\<rparr>)"

definition initPcbs :: "'a phase1_scheme \<Rightarrow> 'a phase1_scheme" where
  "initPcbs s =
     fold initPcbs_body [0..<MAXPROC] (s\<lparr>lmem := INIT_LIST_HEAD pcbFree_h (lmem s)\<rparr>)"

fun freePcb :: "nat option \<Rightarrow> 'a phase1_scheme \<Rightarrow> 'a phase1_scheme" where
  "freePcb None s = s"
| "freePcb (Some p) s = s\<lparr>lmem := list_add_tail (p_list p) pcbFree_h (lmem s)\<rparr>"

definition allocPcb :: "'a phase1_scheme \<Rightarrow> (nat option \<times> 'a phase1_scheme) option" where
  "allocPcb s =
     (if list_empty pcbFree_h (lmem s) then Some (None, s)
      else
        let pos = nxt (lmem s) pcbFree_h;
            s = s\<lparr>lmem := list_del pos (lmem s)\<rparr>
        in do {
          new_pcb \<leftarrow> container_of_p_list pos;
          let s = upd_pcb new_pcb (\<lambda>p. p\<lparr>p_pid := next_pid s\<rparr>) s;
          let s = s\<lparr>next_pid := next_pid s + 1\<rparr>;
          let s = s\<lparr>lmem := INIT_LIST_HEAD (p_list new_pcb) (lmem s)\<rparr>;
          let s = s\<lparr>lmem := INIT_LIST_HEAD (p_child new_pcb) (lmem s)\<rparr>;
          let s = s\<lparr>lmem := INIT_LIST_HEAD (p_sib new_pcb) (lmem s)\<rparr>;
          let s = upd_pcb new_pcb (\<lambda>p. p\<lparr>p_parent := None, p_semAdd := 0,
                    p_supportStruct := 0, p_time := 0, p_prio := 0\<rparr>) s;
          Some (Some new_pcb, s)
        })"

definition mkEmptyProcQ :: "lh \<Rightarrow> 'a phase1_scheme \<Rightarrow> 'a phase1_scheme" where
  "mkEmptyProcQ head s = s\<lparr>lmem := INIT_LIST_HEAD head (lmem s)\<rparr>"

definition emptyProcQ :: "lh \<Rightarrow> 'a phase1_scheme \<Rightarrow> bool" where
  "emptyProcQ head s = list_empty head (lmem s)"

definition insertProcQ :: "lh \<Rightarrow> nat \<Rightarrow> 'a phase1_scheme \<Rightarrow> 'a phase1_scheme option" where
  "insertProcQ head p s =
     do {
       found \<leftarrow> list_for_each
         (\<lambda>pos. do {
            iter \<leftarrow> container_of_p_list pos;
            Some (sint (p_prio (pcbs s p)) > sint (p_prio (pcbs s iter)))
          }) head (lmem s);
       case found of
         Some pos \<Rightarrow>
           Some (s\<lparr>lmem := list_add_between (p_list p) (prv (lmem s) pos) pos (lmem s)\<rparr>)
       | None \<Rightarrow> Some (s\<lparr>lmem := list_add_tail (p_list p) head (lmem s)\<rparr>)
     }"

definition headProcQ :: "lh \<Rightarrow> 'a phase1_scheme \<Rightarrow> nat option option" where
  "headProcQ head s =
     (if list_empty head (lmem s) then Some None
      else map_option Some (container_of_p_list (nxt (lmem s) head)))"

definition removeProcQ :: "lh \<Rightarrow> 'a phase1_scheme \<Rightarrow> (nat option \<times> 'a phase1_scheme) option" where
  "removeProcQ head s =
     (if list_empty head (lmem s) then Some (None, s)
      else
        let first = nxt (lmem s) head;
            s = s\<lparr>lmem := list_del first (lmem s)\<rparr>;
            s = s\<lparr>lmem := INIT_LIST_HEAD first (lmem s)\<rparr>
        in map_option (\<lambda>p. (Some p, s)) (container_of_p_list first))"

definition outProcQ ::
  "lh \<Rightarrow> nat \<Rightarrow> 'a phase1_scheme \<Rightarrow> (nat option \<times> 'a phase1_scheme) option" where
  "outProcQ head p s =
     do {
       found \<leftarrow> list_for_each
         (\<lambda>pos. do { iter \<leftarrow> container_of_p_list pos; Some (iter = p) }) head (lmem s);
       case found of
         Some pos \<Rightarrow> Some (Some p, s\<lparr>lmem := list_del pos (lmem s)\<rparr>)
       | None \<Rightarrow> Some (None, s)
     }"

definition emptyChild :: "nat \<Rightarrow> 'a phase1_scheme \<Rightarrow> bool" where
  "emptyChild p s = list_empty (p_child p) (lmem s)"

definition insertChild :: "nat \<Rightarrow> nat \<Rightarrow> 'a phase1_scheme \<Rightarrow> 'a phase1_scheme" where
  "insertChild prnt p s =
     (let s = upd_pcb p (\<lambda>q. q\<lparr>p_parent := Some prnt\<rparr>) s
      in s\<lparr>lmem := list_add_tail (p_sib p) (p_child prnt) (lmem s)\<rparr>)"

fun removeChild :: "nat option \<Rightarrow> 'a phase1_scheme \<Rightarrow> (nat option \<times> 'a phase1_scheme) option" where
  "removeChild None s = Some (None, s)"
| "removeChild (Some p) s =
     (if list_empty (p_child p) (lmem s) then Some (None, s)
      else
        let first = nxt (lmem s) (p_child p)
        in do {
          child \<leftarrow> container_of_p_sib first;
          let s = s\<lparr>lmem := list_del (p_sib child) (lmem s)\<rparr>;
          let s = s\<lparr>lmem := INIT_LIST_HEAD (p_sib child) (lmem s)\<rparr>;
          let s = upd_pcb child (\<lambda>q. q\<lparr>p_parent := None\<rparr>) s;
          Some (Some child, s)
        })"

fun outChild :: "nat option \<Rightarrow> 'a phase1_scheme \<Rightarrow> nat option \<times> 'a phase1_scheme" where
  "outChild None s = (None, s)"
| "outChild (Some p) s =
     (if p_parent (pcbs s p) = None then (None, s)
      else
        let s = s\<lparr>lmem := list_del (p_sib p) (lmem s)\<rparr>;
            s = s\<lparr>lmem := INIT_LIST_HEAD (p_sib p) (lmem s)\<rparr>;
            s = upd_pcb p (\<lambda>q. q\<lparr>p_parent := None\<rparr>) s
        in (Some p, s))"

section \<open>The abstract queue\<close>

text \<open>A new process goes before the first one of strictly lower priority.\<close>

definition ins_prio :: "(nat \<Rightarrow> int) \<Rightarrow> nat \<Rightarrow> nat list \<Rightarrow> nat list" where
  "ins_prio pr p ps =
     takeWhile (\<lambda>q. \<not> pr p > pr q) ps @ p # dropWhile (\<lambda>q. \<not> pr p > pr q) ps"

definition prio_sorted :: "(nat \<Rightarrow> int) \<Rightarrow> nat list \<Rightarrow> bool" where
  "prio_sorted pr ps \<longleftrightarrow> sorted_wrt (\<lambda>p q. pr p \<ge> pr q) ps"

abbreviation prio_of :: "'a phase1_scheme \<Rightarrow> nat \<Rightarrow> int" where
  "prio_of s p \<equiv> sint (p_prio (pcbs s p))"

lemma ins_prio_Nil [simp]: "ins_prio pr p [] = [p]"
  by (simp add: ins_prio_def)

lemma ins_prio_Cons [simp]:
  "ins_prio pr p (q # qs) = (if pr p > pr q then p # q # qs else q # ins_prio pr p qs)"
  by (simp add: ins_prio_def)

lemma set_ins_prio [simp]: "set (ins_prio pr p ps) = insert p (set ps)"
  by (induction ps) auto

lemma distinct_ins_prio [simp]: "distinct (ins_prio pr p ps) \<longleftrightarrow> p \<notin> set ps \<and> distinct ps"
  by (induction ps) auto

lemma ins_prio_not_Nil [simp]: "ins_prio pr p ps \<noteq> []"
  by (cases ps) auto

lemma prio_sorted_Cons [simp]:
  "prio_sorted pr (p # ps) \<longleftrightarrow> (\<forall>q\<in>set ps. pr q \<le> pr p) \<and> prio_sorted pr ps"
  by (auto simp: prio_sorted_def)

lemma prio_sorted_Nil [simp]: "prio_sorted pr []"
  by (simp add: prio_sorted_def)

lemma prio_sorted_ins_prio: "prio_sorted pr ps \<Longrightarrow> prio_sorted pr (ins_prio pr p ps)"
  by (induction ps) auto

text \<open>Among processes of one priority the queue is first in, first out.\<close>

lemma ins_prio_fifo:
  "prio_sorted pr ps \<Longrightarrow>
   filter (\<lambda>q. pr q = k) (ins_prio pr p ps) =
   filter (\<lambda>q. pr q = k) ps @ (if pr p = k then [p] else [])"
proof (induction ps)
  case Nil
  then show ?case by simp
next
  case (Cons q ps)
  have "filter (\<lambda>r. pr r = pr p) ps = []" if "pr q < pr p"
    using that Cons.prems by (force simp: filter_empty_conv)
  with Cons show ?case by auto
qed

section \<open>What the operations do to the rings\<close>

lemma headProcQ_spec:
  assumes R: "rings D (lmem s) L" and h: "h \<in> D" and L: "L h = map p_list ps"
  shows "headProcQ h s = Some (case ps of [] \<Rightarrow> None | p # _ \<Rightarrow> Some p)"
proof -
  have r: "ring (lmem s) h (map p_list ps)" using ringsD(1) [OF R h] L by simp
  show ?thesis
    using ring_empty_iff [OF r] plist.first_entry [of "lmem s" h] r
    by (cases ps) (auto simp: headProcQ_def)
qed

lemma emptyProcQ_spec:
  "rings D (lmem s) L \<Longrightarrow> h \<in> D \<Longrightarrow> emptyProcQ h s \<longleftrightarrow> L h = []"
  using ring_empty_iff [OF ringsD(1)] by (auto simp: emptyProcQ_def)

lemma insertProcQ_spec:
  assumes R: "rings D (lmem s) L" and h: "h \<in> D" and L: "L h = map p_list ps"
    and p: "detached D L (p_list p)"
  shows "\<exists>m. insertProcQ h p s = Some (s\<lparr>lmem := m\<rparr>) \<and>
    rings D m (L(h := map p_list (ins_prio (prio_of s) p ps)))"
proof -
  have r: "ring (lmem s) h (map p_list ps)" using ringsD(1) [OF R h] L by simp
  let ?P = "\<lambda>q. prio_of s p > prio_of s q"
  have loop: "list_for_each (\<lambda>pos. do { iter \<leftarrow> container_of_p_list pos; Some (?P iter) }) h (lmem s) =
      Some (map_option p_list (List.find ?P ps))"
    by (rule plist.for_each_link [OF r]) simp
  show ?thesis
  proof (cases "List.find ?P ps")
    case None
    then have "ins_prio (prio_of s) p ps = ps @ [p]"
      using takeWhile_dropWhile_find_None [OF None] by (simp add: ins_prio_def)
    moreover have "insertProcQ h p s = Some (s\<lparr>lmem := list_add_tail (p_list p) h (lmem s)\<rparr>)"
      using loop None by (simp add: insertProcQ_def)
    ultimately show ?thesis
      using rings_add_tail [OF R h p] L by auto
  next
    case (Some q)
    define xs where "xs = takeWhile (\<lambda>q. \<not> ?P q) ps"
    obtain ys where ys: "dropWhile (\<lambda>q. \<not> ?P q) ps = q # ys"
      using dropWhile_find_Some [OF Some] by blast
    have ps: "ps = xs @ q # ys"
      using takeWhile_dropWhile_id [of "\<lambda>q. \<not> ?P q" ps] ys by (simp add: xs_def)
    have "prv (lmem s) (p_list q) = last (h # map p_list xs)"
      using r by (intro ring_prv_mid) (simp add: ps)
    moreover have "rings D (list_add_between (p_list p) (last (h # map p_list xs)) (p_list q) (lmem s))
        (L(h := map p_list xs @ p_list p # map p_list (q # ys)))"
      using rings_add_between [OF R h, of "map p_list xs" "map p_list (q # ys)", OF _ p] L ps
      by simp
    moreover have "ins_prio (prio_of s) p ps = xs @ p # q # ys"
      using ys by (simp add: ins_prio_def xs_def)
    ultimately show ?thesis
      using loop Some by (intro exI) (auto simp: insertProcQ_def simp del: last.simps)
  qed
qed

lemma removeProcQ_Nil:
  "rings D (lmem s) L \<Longrightarrow> h \<in> D \<Longrightarrow> L h = [] \<Longrightarrow> removeProcQ h s = Some (None, s)"
  using ring_empty_iff [OF ringsD(1)] by (auto simp: removeProcQ_def)

lemma removeProcQ_Cons:
  assumes R: "rings D (lmem s) L" and h: "h \<in> D" and L: "L h = map p_list (p # ps)"
  shows "\<exists>m. removeProcQ h s = Some (Some p, s\<lparr>lmem := m\<rparr>) \<and> rings D m (L(h := map p_list ps))"
proof -
  have r: "ring (lmem s) h (map p_list (p # ps))" using ringsD(1) [OF R h] L by simp
  let ?m = "list_del (p_list p) (lmem s)"
  have R1: "rings D ?m (L(h := map p_list ps))"
    using rings_del [OF R h, of "p_list p"] L by simp
  have "detached D (L(h := map p_list ps)) (p_list p)"
    using detached_after_del [OF R h, of "p_list p"] L by simp
  with R1 have "rings D (INIT_LIST_HEAD (p_list p) ?m) (L(h := map p_list ps))"
    by (rule rings_INIT_detached)
  then show ?thesis
    using ring_empty_iff [OF r] plist.first_entry [OF r] by (auto simp: removeProcQ_def Let_def)
qed

lemma outProcQ_spec:
  assumes R: "rings D (lmem s) L" and h: "h \<in> D" and L: "L h = map p_list ps"
  shows "\<exists>m. outProcQ h p s = Some (if p \<in> set ps then Some p else None, s\<lparr>lmem := m\<rparr>) \<and>
    rings D m (L(h := map p_list (remove1 p ps)))"
proof -
  have r: "ring (lmem s) h (map p_list ps)" using ringsD(1) [OF R h] L by simp
  have loop: "list_for_each (\<lambda>pos. do { iter \<leftarrow> container_of_p_list pos; Some (iter = p) }) h (lmem s) =
      Some (map_option p_list (List.find (\<lambda>iter. iter = p) ps))"
    by (rule plist.for_each_link [OF r]) simp
  show ?thesis
  proof (cases "p \<in> set ps")
    case True
    have "rings D (list_del (p_list p) (lmem s)) (L(h := map p_list (remove1 p ps)))"
      using rings_del [OF R h, of "p_list p"] L True by (simp add: plist.remove1_map_link)
    with True loop show ?thesis
      by (auto simp: outProcQ_def find_eq_unique)
  next
    case False
    then have "L(h := map p_list (remove1 p ps)) = L" using L by (auto simp: remove1_idem)
    with False loop R show ?thesis
      by (intro exI [of _ "lmem s"]) (simp add: outProcQ_def find_eq_notin)
  qed
qed

lemma freePcb_spec:
  assumes "rings D (lmem s) L" and "pcbFree_h \<in> D" and "detached D L (p_list p)"
  shows "\<exists>m. freePcb (Some p) s = s\<lparr>lmem := m\<rparr> \<and> rings D m (L(pcbFree_h := L pcbFree_h @ [p_list p]))"
  using rings_add_tail [OF assms] by auto

lemma allocPcb_none:
  "rings D (lmem s) L \<Longrightarrow> pcbFree_h \<in> D \<Longrightarrow> L pcbFree_h = [] \<Longrightarrow> allocPcb s = Some (None, s)"
  using ring_empty_iff [OF ringsD(1)] by (auto simp: allocPcb_def)

text \<open>\<open>new_pcb s\<close> is the contents of a freshly allocated block.\<close>

definition new_pcb :: "'a phase1_scheme \<Rightarrow> nat \<Rightarrow> pcb_t" where
  "new_pcb s p = (pcbs s p)\<lparr>p_pid := next_pid s, p_parent := None, p_semAdd := 0,
     p_supportStruct := 0, p_time := 0, p_prio := 0\<rparr>"

lemma allocPcb_some:
  assumes R: "rings D (lmem s) L" and h: "pcbFree_h \<in> D" and L: "L pcbFree_h = map p_list (p # fs)"
    and c: "detached D L (p_child p)" and b: "detached D L (p_sib p)"
  shows "\<exists>m. allocPcb s = Some (Some p, s\<lparr>next_pid := next_pid s + 1, lmem := m,
      pcbs := (pcbs s)(p := new_pcb s p)\<rparr>) \<and>
    rings (insert (p_child p) D) m (L(pcbFree_h := map p_list fs, p_child p := []))"
proof -
  let ?L = "L(pcbFree_h := map p_list fs)"
  have r: "ring (lmem s) pcbFree_h (map p_list (p # fs))" using ringsD(1) [OF R h] L by simp
  have R1: "rings D (list_del (p_list p) (lmem s)) ?L"
    using rings_del [OF R h, of "p_list p"] L by simp
  have "detached D ?L (p_list p)"
    using detached_after_del [OF R h, of "p_list p"] L by simp
  from rings_INIT_detached [OF R1 this]
  have R2: "rings D (INIT_LIST_HEAD (p_list p) (list_del (p_list p) (lmem s))) ?L" .
  have c': "detached D ?L (p_child p)" using c by (auto simp: detached_def)
  note R3 = rings_INIT_new [OF R2 c' refl]
  have "detached (insert (p_child p) D) (?L(p_child p := [])) (p_sib p)"
    using b by (auto simp: detached_def)
  note R4 = rings_INIT_detached [OF R3 this]
  show ?thesis
    using ring_empty_iff [OF r] plist.first_entry [OF r] R4
    by (intro exI) (auto simp: allocPcb_def Let_def new_pcb_def)
qed

lemma insertChild_spec:
  assumes "rings D (lmem s) L" and "p_child a \<in> D" and "detached D L (p_sib c)"
  shows "\<exists>m. insertChild a c s =
      s\<lparr>pcbs := (pcbs s)(c := (pcbs s c)\<lparr>p_parent := Some a\<rparr>), lmem := m\<rparr> \<and>
    rings D m (L(p_child a := L (p_child a) @ [p_sib c]))"
  using rings_add_tail [OF assms] by (auto simp: insertChild_def)

lemma removeChild_none:
  "rings D (lmem s) L \<Longrightarrow> p_child p \<in> D \<Longrightarrow> L (p_child p) = [] \<Longrightarrow>
   removeChild (Some p) s = Some (None, s)"
  using ring_empty_iff [OF ringsD(1)] by auto

lemma removeChild_some:
  assumes R: "rings D (lmem s) L" and h: "p_child p \<in> D" and L: "L (p_child p) = map p_sib (c # cs)"
  shows "\<exists>m. removeChild (Some p) s =
      Some (Some c, s\<lparr>lmem := m, pcbs := (pcbs s)(c := (pcbs s c)\<lparr>p_parent := None\<rparr>)\<rparr>) \<and>
    rings D m (L(p_child p := map p_sib cs))"
proof -
  have r: "ring (lmem s) (p_child p) (map p_sib (c # cs))" using ringsD(1) [OF R h] L by simp
  have R1: "rings D (list_del (p_sib c) (lmem s)) (L(p_child p := map p_sib cs))"
    using rings_del [OF R h, of "p_sib c"] L by simp
  have "detached D (L(p_child p := map p_sib cs)) (p_sib c)"
    using detached_after_del [OF R h, of "p_sib c"] L by simp
  note R2 = rings_INIT_detached [OF R1 this]
  show ?thesis
    using ring_empty_iff [OF r] psib.first_entry [OF r] R2 by (auto simp: Let_def)
qed

lemma outChild_none: "p_parent (pcbs s p) = None \<Longrightarrow> outChild (Some p) s = (None, s)"
  by simp

lemma outChild_some:
  assumes R: "rings D (lmem s) L" and h: "p_child a \<in> D" and L: "p_sib c \<in> set (L (p_child a))"
    and par: "p_parent (pcbs s c) \<noteq> None"
  shows "\<exists>m. outChild (Some c) s =
      (Some c, s\<lparr>lmem := m, pcbs := (pcbs s)(c := (pcbs s c)\<lparr>p_parent := None\<rparr>)\<rparr>) \<and>
    rings D m (L(p_child a := remove1 (p_sib c) (L (p_child a))))"
  using rings_INIT_detached [OF rings_del [OF R h L] detached_after_del [OF R h L]] par
  by (auto simp: Let_def)

section \<open>Initialisation\<close>

definition reset_pids :: "nat \<Rightarrow> (nat \<Rightarrow> pcb_t) \<Rightarrow> nat \<Rightarrow> pcb_t" where
  "reset_pids n f i = (if i < n then (f i)\<lparr>p_pid := 0\<rparr> else f i)"

lemma reset_pids_simps [simp]:
  "reset_pids 0 f = f"
  "(reset_pids n f)(n := (f n)\<lparr>p_pid := 0\<rparr>) = reset_pids (Suc n) f"
  "reset_pids n f n = f n"
  by (auto simp: reset_pids_def fun_eq_iff less_Suc_eq)

lemma initPcbs_fold:
  assumes R: "rings D (lmem s) L" and h: "pcbFree_h \<in> D" and L: "L pcbFree_h = []"
    and p: "\<And>i. i < n \<Longrightarrow> detached D L (p_list i)"
  shows "\<exists>m. fold initPcbs_body [0..<n] s =
      s\<lparr>pcbs := reset_pids n (pcbs s), lmem := m\<rparr> \<and>
    rings D m (L(pcbFree_h := map p_list [0..<n]))"
  using p
proof (induction n)
  case 0
  have "L(pcbFree_h := []) = L" using L by auto
  then show ?case using R by (intro exI [of _ "lmem s"]) simp
next
  case (Suc n)
  let ?L = "L(pcbFree_h := map p_list [0..<n])"
  obtain m where m: "fold initPcbs_body [0..<n] s = s\<lparr>pcbs := reset_pids n (pcbs s), lmem := m\<rparr>"
    and Rm: "rings D m ?L"
    using Suc.IH Suc.prems less_Suc_eq by blast
  have d: "detached D ?L (p_list n)" using Suc.prems [of n] by (auto simp: detached_def)
  let ?m = "list_add_tail (p_list n) pcbFree_h (INIT_LIST_HEAD (p_list n) m)"
  from rings_add_tail [OF rings_INIT_detached [OF Rm d] h d]
  have "rings D ?m (L(pcbFree_h := map p_list [0..<Suc n]))" by simp
  moreover have "fold initPcbs_body [0..<Suc n] s =
      s\<lparr>pcbs := reset_pids (Suc n) (pcbs s), lmem := ?m\<rparr>"
    using m by (simp add: initPcbs_body_def [of n] Let_def)
  ultimately show ?case by blast
qed

lemma initPcbs_spec:
  assumes R: "rings D (lmem s) L" and h: "detached D L pcbFree_h"
    and p: "\<And>i. i < MAXPROC \<Longrightarrow> detached D L (p_list i)"
  shows "\<exists>m. initPcbs s =
      s\<lparr>pcbs := reset_pids MAXPROC (pcbs s), lmem := m\<rparr> \<and>
    rings (insert pcbFree_h D) m (L(pcbFree_h := map p_list [0..<MAXPROC]))"
proof -
  let ?s = "s\<lparr>lmem := INIT_LIST_HEAD pcbFree_h (lmem s)\<rparr>"
  have "rings (insert pcbFree_h D) (lmem ?s) (L(pcbFree_h := []))"
    using rings_INIT_new [OF R h refl] by simp
  moreover have "detached (insert pcbFree_h D) (L(pcbFree_h := [])) (p_list i)" if "i < MAXPROC" for i
    using p [OF that] by (auto simp: detached_def)
  ultimately show ?thesis
    using initPcbs_fold [of "insert pcbFree_h D" ?s "L(pcbFree_h := [])" MAXPROC]
    by (auto simp: initPcbs_def)
qed

section \<open>The contract of a process queue\<close>

text \<open>
  What a user of the queues (the scheduler above all) relies on: \<open>rep s ps\<close> says that the queue
  holds \<open>ps\<close> in this order, \<open>ins\<close> keeps the order of \<open>ins_prio\<close>, and \<open>take_first\<close> takes the
  front.
\<close>

locale proc_queue =
  fixes rep :: "'s \<Rightarrow> nat list \<Rightarrow> bool"
    and prio :: "'s \<Rightarrow> nat \<Rightarrow> int"
    and ins :: "nat \<Rightarrow> 's \<Rightarrow> 's option"
    and first :: "'s \<Rightarrow> nat option option"
    and take_first :: "'s \<Rightarrow> (nat option \<times> 's) option"
  assumes ins_rep: "rep s ps \<Longrightarrow> p \<notin> set ps \<Longrightarrow>
      \<exists>s'. ins p s = Some s' \<and> rep s' (ins_prio (prio s) p ps) \<and> prio s' = prio s"
    and first_rep: "rep s ps \<Longrightarrow> first s = Some (case ps of [] \<Rightarrow> None | p # _ \<Rightarrow> Some p)"
    and take_first_Nil: "rep s [] \<Longrightarrow> take_first s = Some (None, s)"
    and take_first_Cons: "rep s (p # ps) \<Longrightarrow>
      \<exists>s'. take_first s = Some (Some p, s') \<and> rep s' ps \<and> prio s' = prio s"
begin

lemma ins_then_take:
  assumes r: "rep s ps" and p: "p \<notin> set ps" and srt: "prio_sorted (prio s) ps"
  shows "\<exists>q s' s'' qs. ins p s = Some s' \<and> take_first s' = Some (Some q, s'') \<and> rep s'' qs \<and>
    insert q (set qs) = insert p (set ps) \<and> (\<forall>x\<in>insert p (set ps). prio s x \<le> prio s q)"
proof -
  obtain s' where s': "ins p s = Some s'" "rep s' (ins_prio (prio s) p ps)" "prio s' = prio s"
    using ins_rep [OF r p] by blast
  obtain q qs where q: "ins_prio (prio s) p ps = q # qs"
    by (cases "ins_prio (prio s) p ps") auto
  obtain s'' where s'': "take_first s' = Some (Some q, s'')" "rep s'' qs"
    using take_first_Cons s'(2) q by fastforce
  have "prio_sorted (prio s) (q # qs)"
    using prio_sorted_ins_prio [OF srt, of p] q by simp
  then have "\<forall>x\<in>set (ins_prio (prio s) p ps). prio s x \<le> prio s q"
    unfolding q by auto
  moreover have "insert q (set qs) = insert p (set ps)"
    using q by (metis list.simps(15) set_ins_prio)
  ultimately show ?thesis using s'(1) s'' by auto
qed

text \<open>A process put back behind a front of at least its priority does not overtake it.\<close>

lemma ins_behind_front:
  assumes r: "rep s (q # qs)" and p: "p \<notin> set (q # qs)" and le: "prio s p \<le> prio s q"
  shows "\<exists>s' s''. ins p s = Some s' \<and> take_first s' = Some (Some q, s'') \<and>
    rep s'' (ins_prio (prio s) p qs)"
proof -
  obtain s' where s': "ins p s = Some s'" "rep s' (ins_prio (prio s) p (q # qs))"
    using ins_rep [OF r p] by blast
  then have "rep s' (q # ins_prio (prio s) p qs)" using le by simp
  then show ?thesis using take_first_Cons s'(1) by blast
qed

end

definition queue_rep :: "lh \<Rightarrow> 'a phase1_scheme \<Rightarrow> nat list \<Rightarrow> bool" where
  "queue_rep h s ps \<longleftrightarrow> h \<notin> range p_list \<and> ring (lmem s) h (map p_list ps)"

lemma rings_one: "rings {h} m L \<longleftrightarrow> ring m h (L h)"
  by (auto simp: rings_def ring_def)

lemma rings_queue_rep:
  "rings D (lmem s) L \<Longrightarrow> h \<in> D \<Longrightarrow> h \<notin> range p_list \<Longrightarrow> L h = map p_list ps \<Longrightarrow> queue_rep h s ps"
  using ringsD(1) by (fastforce simp: queue_rep_def)

interpretation procq: proc_queue "queue_rep h" prio_of "insertProcQ h" "headProcQ h" "removeProcQ h"
  for h
proof unfold_locales
  fix s :: "'a phase1_scheme" and p ps
  let ?L = "\<lambda>_ :: lh. map p_list ps"
  show "headProcQ h s = Some (case ps of [] \<Rightarrow> None | p # _ \<Rightarrow> Some p)" if "queue_rep h s ps"
    using that by (intro headProcQ_spec [of "{h}" _ ?L]) (auto simp: queue_rep_def rings_one)
  show "\<exists>s'. insertProcQ h p s = Some s' \<and> queue_rep h s' (ins_prio (prio_of s) p ps) \<and>
      prio_of s' = prio_of s" if r: "queue_rep h s ps" and p: "p \<notin> set ps"
  proof -
    have "rings {h} (lmem s) ?L" "detached {h} ?L (p_list p)"
      using r p by (auto simp: queue_rep_def rings_one detached_def)
    from insertProcQ_spec [OF this(1) _ refl this(2), of h] r
    show ?thesis by (auto simp: rings_one queue_rep_def)
  qed
next
  fix s :: "'a phase1_scheme" and p ps
  show "removeProcQ h s = Some (None, s)" if "queue_rep h s []"
    using that by (intro removeProcQ_Nil [of "{h}" _ "\<lambda>_. []"]) (auto simp: queue_rep_def rings_one)
  show "\<exists>s'. removeProcQ h s = Some (Some p, s') \<and> queue_rep h s' ps \<and> prio_of s' = prio_of s"
    if r: "queue_rep h s (p # ps)"
  proof -
    have "rings {h} (lmem s) (\<lambda>_. map p_list (p # ps))"
      using r by (auto simp: queue_rep_def rings_one)
    from removeProcQ_Cons [OF this _ refl, of h] r
    show ?thesis by (auto simp: rings_one queue_rep_def)
  qed
qed

end
