(* ===== verification/Asl.thy ===== *)
theory Asl
  imports Pcb
begin

text \<open>
  \<^verbatim>\<open>phase1/asl.c\<close>: the Active Semaphore List. A semaphore is known by the address of its integer
  (\<open>u32\<close>, 0 is \<open>NULL\<close>); a descriptor of \<open>semd_table\<close> holds the queue of the processes blocked on
  it while there is one, and goes back to the free list with the last of them. The abstract view
  is a function \<open>Q\<close> from semaphore addresses to queues, and \<open>asl_rep\<close> relates the two.
\<close>

section \<open>The operations\<close>

definition initASL_body :: "nat \<Rightarrow> 'a phase1_scheme \<Rightarrow> 'a phase1_scheme" where
  "initASL_body i s =
     (let s = s\<lparr>s_key := (s_key s)(i := 0)\<rparr>;
          s = s\<lparr>lmem := INIT_LIST_HEAD (s_procq i) (lmem s)\<rparr>
      in s\<lparr>lmem := list_add_tail (s_link i) semdFree_h (lmem s)\<rparr>)"

definition initASL :: "'a phase1_scheme \<Rightarrow> 'a phase1_scheme" where
  "initASL s =
     (let s = s\<lparr>lmem := INIT_LIST_HEAD semdFree_h (lmem s)\<rparr>;
          s = s\<lparr>lmem := INIT_LIST_HEAD semd_h (lmem s)\<rparr>
      in fold initASL_body [0..<MAXPROC] s)"

definition insertBlocked ::
  "u32 \<Rightarrow> nat option \<Rightarrow> 'a phase1_scheme \<Rightarrow> (int \<times> 'a phase1_scheme) option" where
  "insertBlocked semAdd p_opt s =
     (case p_opt of None \<Rightarrow> Some (1, s) | Some p \<Rightarrow>
      if semAdd = 0 then Some (1, s)
      else do {
        found \<leftarrow> list_for_each_entry container_of_s_link
          (\<lambda>d. Some (s_key s d = semAdd)) semd_h (lmem s);
        case found of
          Some d \<Rightarrow>
            let s = s\<lparr>lmem := list_add_tail (p_list p) (s_procq d) (lmem s)\<rparr>;
                s = upd_pcb p (\<lambda>q. q\<lparr>p_semAdd := semAdd\<rparr>) s
            in Some (0, s)
        | None \<Rightarrow>
            if list_empty semdFree_h (lmem s) then Some (1, s)
            else do {
              d \<leftarrow> container_of_s_link (nxt (lmem s) semdFree_h);
              let s = s\<lparr>lmem := list_del (s_link d) (lmem s)\<rparr>;
              let s = s\<lparr>s_key := (s_key s)(d := semAdd)\<rparr>;
              let s = s\<lparr>lmem := INIT_LIST_HEAD (s_procq d) (lmem s)\<rparr>;
              let s = s\<lparr>lmem := list_add_tail (p_list p) (s_procq d) (lmem s)\<rparr>;
              let s = upd_pcb p (\<lambda>q. q\<lparr>p_semAdd := semAdd\<rparr>) s;
              let s = s\<lparr>lmem := list_add_tail (s_link d) semd_h (lmem s)\<rparr>;
              Some (0, s)
            }
      })"

text \<open>The step \<open>removeBlocked\<close> and \<open>outBlocked\<close> share: an emptied descriptor is released.\<close>

definition free_semd :: "nat \<Rightarrow> 'a phase1_scheme \<Rightarrow> 'a phase1_scheme" where
  "free_semd d s =
     (if list_empty (s_procq d) (lmem s) then
        let s = s\<lparr>lmem := list_del (s_link d) (lmem s)\<rparr>;
            s = s\<lparr>s_key := (s_key s)(d := 0)\<rparr>
        in s\<lparr>lmem := list_add_tail (s_link d) semdFree_h (lmem s)\<rparr>
      else s)"

definition removeBlocked :: "u32 \<Rightarrow> 'a phase1_scheme \<Rightarrow> (nat option \<times> 'a phase1_scheme) option" where
  "removeBlocked semAdd s =
     (if semAdd = 0 then Some (None, s)
      else do {
        found \<leftarrow> list_for_each_entry container_of_s_link
          (\<lambda>d. Some (s_key s d = semAdd)) semd_h (lmem s);
        case found of
          None \<Rightarrow> Some (None, s)
        | Some d \<Rightarrow>
            if list_empty (s_procq d) (lmem s) then Some (None, s)
            else do {
              p \<leftarrow> container_of_p_list (nxt (lmem s) (s_procq d));
              let s = s\<lparr>lmem := list_del (p_list p) (lmem s)\<rparr>;
              let s = upd_pcb p (\<lambda>q. q\<lparr>p_semAdd := 0\<rparr>) s;
              Some (Some p, free_semd d s)
            }
      })"

definition outBlocked :: "nat option \<Rightarrow> 'a phase1_scheme \<Rightarrow> (nat option \<times> 'a phase1_scheme) option" where
  "outBlocked p_opt s =
     (case p_opt of None \<Rightarrow> Some (None, s) | Some p \<Rightarrow>
      if p_semAdd (pcbs s p) = 0 then Some (None, s)
      else do {
        found \<leftarrow> list_for_each_entry container_of_s_link
          (\<lambda>d. Some (s_key s d = p_semAdd (pcbs s p))) semd_h (lmem s);
        case found of
          None \<Rightarrow> Some (None, s)
        | Some d \<Rightarrow> do {
            pos \<leftarrow> list_for_each (\<lambda>pos. Some (pos = p_list p)) (s_procq d) (lmem s);
            case pos of
              None \<Rightarrow> Some (None, s)
            | Some _ \<Rightarrow>
                let s = s\<lparr>lmem := list_del (p_list p) (lmem s)\<rparr>;
                    s = upd_pcb p (\<lambda>q. q\<lparr>p_semAdd := 0\<rparr>) s
                in Some (Some p, free_semd d s)
          }
      })"

definition headBlocked :: "u32 \<Rightarrow> 'a phase1_scheme \<Rightarrow> nat option option" where
  "headBlocked semAdd s =
     (if semAdd = 0 then Some None
      else do {
        found \<leftarrow> list_for_each_entry container_of_s_link
          (\<lambda>d. Some (s_key s d = semAdd)) semd_h (lmem s);
        case found of
          None \<Rightarrow> Some None
        | Some d \<Rightarrow>
            if list_empty (s_procq d) (lmem s) then Some None
            else map_option Some (container_of_p_list (nxt (lmem s) (s_procq d)))
      })"

section \<open>The abstraction\<close>

definition asl_heads :: "lh set" where
  "asl_heads = insert semd_h (insert semdFree_h (s_procq ` {..<MAXPROC}))"

text \<open>
  \<open>act\<close> and \<open>fr\<close> are the active and the free descriptors. Every active one has a key of its own
  and at least one blocked process; \<open>Q\<close> is empty for any other key.
\<close>

definition asl_lists ::
  "(nat \<Rightarrow> u32) \<Rightarrow> (lh \<Rightarrow> lh list) \<Rightarrow> (u32 \<Rightarrow> nat list) \<Rightarrow> nat list \<Rightarrow> nat list \<Rightarrow> bool" where
  "asl_lists key L Q act fr \<longleftrightarrow>
     L semd_h = map s_link act \<and> L semdFree_h = map s_link fr \<and>
     set act \<union> set fr = {..<MAXPROC} \<and> set act \<inter> set fr = {} \<and> inj_on key (set act) \<and>
     (\<forall>d\<in>set act. key d \<noteq> 0 \<and> Q (key d) \<noteq> [] \<and> L (s_procq d) = map p_list (Q (key d))) \<and>
     (\<forall>d\<in>set fr. L (s_procq d) = []) \<and>
     (\<forall>k. k \<notin> key ` set act \<longrightarrow> Q k = [])"

definition asl_rep ::
  "lh set \<Rightarrow> 'a phase1_scheme \<Rightarrow> (lh \<Rightarrow> lh list) \<Rightarrow> (u32 \<Rightarrow> nat list) \<Rightarrow> bool" where
  "asl_rep D s L Q \<longleftrightarrow>
     asl_heads \<subseteq> D \<and> rings D (lmem s) L \<and>
     (\<exists>act fr. asl_lists (s_key s) L Q act fr) \<and>
     (\<forall>k. \<forall>p\<in>set (Q k). p_semAdd (pcbs s p) = k)"

text \<open>What an ASL operation leaves alone.\<close>

definition asl_frame :: "(lh \<Rightarrow> lh list) \<Rightarrow> (lh \<Rightarrow> lh list) \<Rightarrow> bool" where
  "asl_frame L L' \<longleftrightarrow> (\<forall>h. h \<notin> asl_heads \<longrightarrow> L' h = L h)"

lemma asl_headsI [simp]:
  "semd_h \<in> asl_heads" "semdFree_h \<in> asl_heads" "s_procq d \<in> asl_heads \<longleftrightarrow> d < MAXPROC"
  by (auto simp: asl_heads_def)

lemma asl_lists_member: "asl_lists key L Q act fr \<Longrightarrow> d \<in> set act \<or> d \<in> set fr \<Longrightarrow> d < MAXPROC"
  by (auto simp: asl_lists_def)

lemma asl_repE:
  assumes "asl_rep D s L Q"
  obtains act fr where "asl_lists (s_key s) L Q act fr" "asl_heads \<subseteq> D" "rings D (lmem s) L"
    "\<And>k p. p \<in> set (Q k) \<Longrightarrow> p_semAdd (pcbs s p) = k"
  using assms by (auto simp: asl_rep_def)

text \<open>The search loop finds the active descriptor of a key.\<close>

lemma find_semd:
  assumes A: "asl_lists key L Q act fr" and D: "asl_heads \<subseteq> D" and R: "rings D m L"
  shows "list_for_each_entry container_of_s_link (\<lambda>d. Some (key d = k)) semd_h m =
    Some (List.find (\<lambda>d. key d = k) act)"
proof (rule slink.for_each_entry)
  show "ring m semd_h (map s_link act)"
    using ringsD(1) [OF R, of semd_h] A subsetD [OF D, of semd_h] by (auto simp: asl_lists_def)
qed simp

lemma find_semd_cases:
  assumes A: "asl_lists key L Q act fr"
  shows "(Q k = [] \<and> List.find (\<lambda>d. key d = k) act = None) \<or>
    (\<exists>d\<in>set act. key d = k \<and> Q k \<noteq> [] \<and> List.find (\<lambda>d. key d = k) act = Some d)"
proof (cases "k \<in> key ` set act")
  case True
  then obtain d where d: "d \<in> set act" "key d = k" by auto
  then have "List.find (\<lambda>d. key d = k) act = Some d"
    using A by (intro find_key_unique) (auto simp: asl_lists_def)
  with d A show ?thesis by (auto simp: asl_lists_def)
next
  case False
  then have "List.find (\<lambda>d. key d = k) act = None"
    by (auto simp: find_None_iff)
  with False A show ?thesis by (auto simp: asl_lists_def)
qed

lemma semd_queue:
  assumes A: "asl_lists key L Q act fr" and D: "asl_heads \<subseteq> D" and R: "rings D m L"
    and d: "d \<in> set act" "key d = k"
  shows "ring m (s_procq d) (map p_list (Q k))" and "s_procq d \<in> D"
    and "L (s_procq d) = map p_list (Q k)" and "d < MAXPROC" and "k \<noteq> 0"
proof -
  show dm: "d < MAXPROC" using A d by (auto dest: asl_lists_member)
  then show sd: "s_procq d \<in> D" using D by auto
  show L: "L (s_procq d) = map p_list (Q k)" and "k \<noteq> 0" using A d by (auto simp: asl_lists_def)
  then show "ring m (s_procq d) (map p_list (Q k))" using ringsD(1) [OF R sd] by simp
qed

lemma asl_rep_key_0: "asl_rep D s L Q \<Longrightarrow> Q 0 = []"
  unfolding asl_rep_def asl_lists_def by (metis imageE)

lemma asl_rep_disjoint: "asl_rep D s L Q \<Longrightarrow> p \<in> set (Q k) \<Longrightarrow> p \<in> set (Q k') \<Longrightarrow> k = k'"
  unfolding asl_rep_def by metis

lemma asl_rep_queued:
  assumes rep: "asl_rep D s L Q" and Q: "Q k \<noteq> []"
  shows "\<exists>d<MAXPROC. s_procq d \<in> D \<and> L (s_procq d) = map p_list (Q k)"
proof -
  obtain act fr where A: "asl_lists (s_key s) L Q act fr" and D: "asl_heads \<subseteq> D"
    and R: "rings D (lmem s) L"
    using rep by (rule asl_repE)
  from find_semd_cases [OF A, of k] Q obtain d where d: "d \<in> set act" "s_key s d = k" by blast
  from semd_queue [OF A D R d] show ?thesis by blast
qed

lemma asl_rep_detached: "asl_rep D s L Q \<Longrightarrow> detached D L (p_list p) \<Longrightarrow> p \<notin> set (Q k)"
  using asl_rep_queued [of D s L Q k] by (force simp: detached_def)

lemma headBlocked_spec:
  assumes rep: "asl_rep D s L Q"
  shows "headBlocked k s = Some (case Q k of [] \<Rightarrow> None | p # _ \<Rightarrow> Some p)"
proof -
  obtain act fr where A: "asl_lists (s_key s) L Q act fr" and D: "asl_heads \<subseteq> D"
    and R: "rings D (lmem s) L"
    using rep by (rule asl_repE)
  note loop = find_semd [OF A D R, of k]
  from find_semd_cases [OF A, of k] show ?thesis
  proof (elim disjE conjE bexE)
    fix d assume d: "d \<in> set act" "s_key s d = k" and Q: "Q k \<noteq> []"
      and f: "List.find (\<lambda>d. s_key s d = k) act = Some d"
    obtain p ps where ps: "Q k = p # ps" using Q by (cases "Q k") auto
    note q = semd_queue [OF A D R d]
    have "ring (lmem s) (s_procq d) (map p_list (p # ps))" using q ps by simp
    from plist.first_entry [OF this] ring_empty_iff [OF this] loop f q ps show ?thesis
      by (simp add: headBlocked_def)
  qed (use loop asl_rep_key_0 [OF rep] in \<open>auto simp: headBlocked_def\<close>)
qed

section \<open>Blocking\<close>

lemma asl_lists_grow:
  assumes A: "asl_lists key L Q act fr" and d: "d \<in> set act" "key d = k"
  shows "asl_lists key (L(s_procq d := L (s_procq d) @ [p_list p])) (Q(k := Q k @ [p])) act fr"
proof -
  have other: "key e = k \<longleftrightarrow> e = d" if "e \<in> set act" for e
    using A d that by (auto simp: asl_lists_def inj_on_def)
  have "d \<notin> set fr" using A d by (auto simp: asl_lists_def)
  with A d other show ?thesis
    unfolding asl_lists_def by (intro conjI ballI allI impI) auto
qed

lemma asl_lists_new:
  assumes A: "asl_lists key L Q act (d # fr)" and k: "k \<noteq> 0" "Q k = []" and d: "d \<notin> set fr"
  shows "asl_lists (key(d := k)) (L(semdFree_h := map s_link fr, s_procq d := [p_list p],
      semd_h := map s_link act @ [s_link d])) (Q(k := [p])) (act @ [d]) fr"
proof -
  have dact: "d \<notin> set act" using A by (auto simp: asl_lists_def)
  have kact: "key e \<noteq> k" if "e \<in> set act" for e
    using A that k(2) by (auto simp: asl_lists_def)
  have "inj_on (key(d := k)) (set (act @ [d]))"
    using A kact dact by (auto simp: asl_lists_def inj_on_def)
  moreover have "set (act @ [d]) \<union> set fr = {..<MAXPROC}"
    using A by (simp add: asl_lists_def)
  moreover have "(Q(k := [p])) k' = []" if "k' \<notin> (key(d := k)) ` set (act @ [d])" for k'
  proof -
    have "k' \<noteq> k" using that by auto
    moreover have "k' \<notin> key ` set act"
    proof
      assume "k' \<in> key ` set act"
      then obtain e where "e \<in> set act" "k' = key e" by auto
      with dact have "k' = (key(d := k)) e" "e \<in> set (act @ [d])" by auto
      with that show False by blast
    qed
    ultimately show ?thesis using A by (auto simp: asl_lists_def)
  qed
  ultimately show ?thesis
    using A kact dact k d unfolding asl_lists_def
    by (intro conjI ballI allI impI) auto
qed

text \<open>
  There are as many descriptors as processes, and every active descriptor holds one, so a process
  that is not blocked always finds a descriptor.
\<close>

lemma asl_free_available:
  assumes rep: "asl_rep D s L Q" and A: "asl_lists (s_key s) L Q act fr"
    and lt: "\<And>k q. q \<in> set (Q k) \<Longrightarrow> q < MAXPROC"
    and p: "p < MAXPROC" "\<And>k. p \<notin> set (Q k)"
  shows "fr \<noteq> []"
proof
  assume "fr = []"
  with A have act: "set act = {..<MAXPROC}" by (simp add: asl_lists_def)
  let ?f = "\<lambda>d. hd (Q (s_key s d))"
  have ne: "Q (s_key s d) \<noteq> []" if "d \<in> set act" for d
    using A that by (simp add: asl_lists_def)
  have "inj_on ?f (set act)"
  proof (rule inj_onI)
    fix d d' assume d: "d \<in> set act" "d' \<in> set act" and eq: "?f d = ?f d'"
    have "?f d \<in> set (Q (s_key s d))" "?f d' \<in> set (Q (s_key s d'))" using ne d by auto
    then have "s_key s d = s_key s d'" using asl_rep_disjoint [OF rep] eq by simp
    then show "d = d'" using A d by (auto simp: asl_lists_def inj_on_def)
  qed
  moreover have "?f ` set act \<subseteq> {..<MAXPROC} - {p}"
  proof
    fix q assume "q \<in> ?f ` set act"
    then obtain d where "d \<in> set act" "q = ?f d" by auto
    then have "q \<in> set (Q (s_key s d))" using ne by auto
    then show "q \<in> {..<MAXPROC} - {p}" using lt p(2) by auto
  qed
  ultimately have "card (set act) \<le> card ({..<MAXPROC} - {p})"
    by (intro card_inj_on_le) auto
  then show False using p(1) act by simp
qed

lemma insertBlocked_spec:
  assumes rep: "asl_rep D s L Q" and k: "k \<noteq> 0" and p: "detached D L (p_list p)"
    and lt: "\<And>k q. q \<in> set (Q k) \<Longrightarrow> q < MAXPROC" and pm: "p < MAXPROC"
  shows "\<exists>m key L'. let s' = s\<lparr>pcbs := (pcbs s)(p := (pcbs s p)\<lparr>p_semAdd := k\<rparr>),
        lmem := m, s_key := key\<rparr> in
    insertBlocked k (Some p) s = Some (0, s') \<and> asl_rep D s' L' (Q(k := Q k @ [p])) \<and>
    asl_frame L L'"
proof -
  obtain act fr where A: "asl_lists (s_key s) L Q act fr" and D: "asl_heads \<subseteq> D"
    and R: "rings D (lmem s) L" and sem: "\<And>k p. p \<in> set (Q k) \<Longrightarrow> p_semAdd (pcbs s p) = k"
    using rep by (rule asl_repE) blast
  note loop = find_semd [OF A D R, of k]
  let ?Q = "Q(k := Q k @ [p])"
  have pQ: "p \<notin> set (Q k')" for k'
    using rep p by (rule asl_rep_detached)
  from find_semd_cases [OF A, of k] show ?thesis
  proof (elim disjE conjE bexE)
    fix d assume d: "d \<in> set act" "s_key s d = k" and Q: "Q k \<noteq> []"
      and f: "List.find (\<lambda>d. s_key s d = k) act = Some d"
    note q = semd_queue [OF A D R d]
    let ?m = "list_add_tail (p_list p) (s_procq d) (lmem s)"
    let ?L = "L(s_procq d := L (s_procq d) @ [p_list p])"
    have "rings D ?m ?L" by (rule rings_add_tail [OF R q(2) p])
    moreover have "asl_lists (s_key s) ?L ?Q act fr" by (rule asl_lists_grow [OF A d])
    moreover have "asl_frame L ?L" using q(4) by (auto simp: asl_frame_def)
    ultimately show ?thesis
      using loop f k D sem pQ
      by (intro exI [of _ ?m] exI [of _ "s_key s"] exI [of _ ?L])
        (auto simp: insertBlocked_def asl_rep_def Let_def)
  next
    assume Q: "Q k = []" and f: "List.find (\<lambda>d. s_key s d = k) act = None"
    have "fr \<noteq> []" by (rule asl_free_available [OF rep A lt pm pQ])
    then obtain d fr' where fr: "fr = d # fr'" by (cases fr) auto
    have dm: "d < MAXPROC" and dact: "d \<notin> set act" using A fr by (auto simp: asl_lists_def)
    have h: "semdFree_h \<in> D" "semd_h \<in> D" "s_procq d \<in> D" using D dm by auto
    have Lfr: "L semdFree_h = map s_link (d # fr')" and Lq: "L (s_procq d) = []"
      using A fr by (auto simp: asl_lists_def)
    let ?m1 = "list_del (s_link d) (lmem s)" and ?L1 = "L(semdFree_h := map s_link fr')"
    let ?m2 = "INIT_LIST_HEAD (s_procq d) ?m1"
    let ?m3 = "list_add_tail (p_list p) (s_procq d) ?m2" and ?L3 = "?L1(s_procq d := [p_list p])"
    let ?m4 = "list_add_tail (s_link d) semd_h ?m3" and ?L4 = "?L3(semd_h := L semd_h @ [s_link d])"
    have R1: "rings D ?m1 ?L1" using rings_del [OF R h(1), of "s_link d"] Lfr by simp
    have d1: "detached D ?L1 (s_link d)"
      using detached_after_del [OF R h(1), of "s_link d"] Lfr by simp
    have R2: "rings D ?m2 ?L1" using rings_INIT_empty [OF R1 h(3)] Lq by simp
    have "detached D ?L1 (p_list p)" using p by (auto simp: detached_def)
    from rings_add_tail [OF R2 h(3) this] have R3: "rings D ?m3 ?L3" using Lq by simp
    have "detached D ?L3 (s_link d)" using d1 by (auto simp: detached_def)
    from rings_add_tail [OF R3 h(2) this] have R4: "rings D ?m4 ?L4" by simp
    have "d \<notin> set fr'" using ringsD(2) [OF R h(1)] Lfr by auto
    from asl_lists_new [OF A [unfolded fr] k Q this, of p] A Q
    have "asl_lists ((s_key s)(d := k)) ?L4 ?Q (act @ [d]) fr'" by (simp add: asl_lists_def)
    moreover have "asl_frame L ?L4" using dm by (auto simp: asl_frame_def)
    moreover have "list_empty semdFree_h (lmem s) = False" "nxt (lmem s) semdFree_h = s_link d"
      using ring_empty_iff [OF ringsD(1) [OF R h(1)]] Lfr
        ring_nxt_head [OF ringsD(1) [OF R h(1)]] by auto
    ultimately show ?thesis
      using loop f k D sem pQ R4
      by (intro exI [of _ ?m4] exI [of _ "(s_key s)(d := k)"] exI [of _ ?L4])
        (auto simp: insertBlocked_def asl_rep_def Let_def)
  qed
qed

section \<open>Unblocking\<close>

lemma asl_lists_shrink:
  assumes A: "asl_lists key L Q act fr" and d: "d \<in> set act" "key d = k" and ps: "ps \<noteq> []"
  shows "asl_lists key (L(s_procq d := map p_list ps)) (Q(k := ps)) act fr"
proof -
  have other: "key e = k \<longleftrightarrow> e = d" if "e \<in> set act" for e
    using A d that by (auto simp: asl_lists_def inj_on_def)
  have "d \<notin> set fr" using A d by (auto simp: asl_lists_def)
  with A d ps other show ?thesis
    unfolding asl_lists_def by (intro conjI ballI allI impI) auto
qed

lemma asl_lists_release:
  assumes A: "asl_lists key L Q act fr" and d: "d \<in> set act" "key d = k" and dist: "distinct act"
  shows "asl_lists (key(d := 0)) (L(s_procq d := [], semd_h := map s_link (remove1 d act),
      semdFree_h := map s_link fr @ [s_link d])) (Q(k := [])) (remove1 d act) (fr @ [d])"
proof -
  have other: "key e = k \<longleftrightarrow> e = d" if "e \<in> set act" for e
    using A d that by (auto simp: asl_lists_def inj_on_def)
  have dfr: "d \<notin> set fr" using A d by (auto simp: asl_lists_def)
  have act: "set (remove1 d act) = set act - {d}" using dist by (rule set_remove1_eq)
  have "inj_on (key(d := 0)) (set (remove1 d act))"
    using A unfolding act by (auto simp: asl_lists_def inj_on_def)
  moreover have "(Q(k := [])) k' = []" if "k' \<notin> (key(d := 0)) ` set (remove1 d act)" for k'
  proof (cases "k' = k")
    case False
    have "k' \<notin> key ` set act"
    proof
      assume "k' \<in> key ` set act"
      then obtain e where e: "e \<in> set act" "k' = key e" by auto
      with other False have "e \<noteq> d" by auto
      with e that show False unfolding act by (auto simp: image_iff)
    qed
    with A False show ?thesis by (auto simp: asl_lists_def)
  qed simp
  moreover have "set (remove1 d act) \<union> set (fr @ [d]) = {..<MAXPROC}"
    using A d unfolding act by (auto simp: asl_lists_def)
  ultimately show ?thesis
    using A dfr d other unfolding asl_lists_def act
    by (intro conjI ballI allI impI) auto
qed

lemma unblock_spec:
  assumes rep: "asl_rep D s L Q" and A: "asl_lists (s_key s) L Q act fr"
    and d: "d \<in> set act" "s_key s d = k" and p: "p \<in> set (Q k)"
    and s1: "s1 = s\<lparr>lmem := list_del (p_list p) (lmem s),
        pcbs := (pcbs s)(p := (pcbs s p)\<lparr>p_semAdd := 0\<rparr>)\<rparr>"
  shows "\<exists>m key L'. free_semd d s1 = s1\<lparr>lmem := m, s_key := key\<rparr> \<and>
    asl_rep D (s1\<lparr>lmem := m, s_key := key\<rparr>) L' (Q(k := remove1 p (Q k))) \<and>
    asl_frame L L' \<and> detached D L' (p_list p)"
proof -
  have D: "asl_heads \<subseteq> D" and R: "rings D (lmem s) L"
    and sem: "\<And>k p. p \<in> set (Q k) \<Longrightarrow> p_semAdd (pcbs s p) = k"
    using rep by (auto simp: asl_rep_def)
  note q = semd_queue [OF A D R d]
  let ?ps = "remove1 p (Q k)"
  let ?m1 = "list_del (p_list p) (lmem s)" and ?L1 = "L(s_procq d := map p_list ?ps)"
  have pL: "p_list p \<in> set (L (s_procq d))" using p q(3) by auto
  have R1: "rings D ?m1 ?L1"
    using rings_del [OF R q(2) pL] q(3) by (simp add: plist.remove1_map_link)
  have p1: "detached D ?L1 (p_list p)"
    using detached_after_del [OF R q(2) pL] q(3) by (simp add: plist.remove1_map_link)
  have dQ: "distinct (Q k)" using ringsD(2) [OF R q(2)] q(3) by simp
  have notp: "p \<notin> set ((Q(k := ?ps)) k')" for k'
    using dQ sem p by (auto simp: set_remove1_eq)
  have sem': "p_semAdd (((pcbs s)(p := (pcbs s p)\<lparr>p_semAdd := 0\<rparr>)) x) = k'"
    if "x \<in> set ((Q(k := ?ps)) k')" for k' x
    using that notp [of k'] sem by (auto split: if_splits dest: notin_set_remove1)
  have r1: "list_empty (s_procq d) ?m1 \<longleftrightarrow> ?ps = []"
    using ring_empty_iff [OF ringsD(1) [OF R1 q(2)]] by simp
  show ?thesis
  proof (cases "?ps = []")
    case False
    have "asl_lists (s_key s) ?L1 (Q(k := ?ps)) act fr"
      by (rule asl_lists_shrink [OF A d False])
    moreover have "asl_frame L ?L1" using q(4) by (auto simp: asl_frame_def)
    ultimately show ?thesis
      using False r1 p1 D R1 sem' unfolding s1
      by (intro exI [of _ ?m1] exI [of _ "s_key s"] exI [of _ ?L1])
        (auto simp: free_semd_def asl_rep_def)
  next
    case True
    have h: "semd_h \<in> D" "semdFree_h \<in> D" using D by auto
    have Lh: "L semd_h = map s_link act" "L semdFree_h = map s_link fr"
      using A by (auto simp: asl_lists_def)
    let ?m2 = "list_del (s_link d) ?m1" and ?L2 = "?L1(semd_h := map s_link (remove1 d act))"
    let ?m3 = "list_add_tail (s_link d) semdFree_h ?m2"
    let ?L3 = "?L2(semdFree_h := map s_link fr @ [s_link d])"
    have L1h: "?L1 semd_h = map s_link act" using Lh by simp
    have dL: "s_link d \<in> set (?L1 semd_h)" using d L1h by auto
    have R2: "rings D ?m2 ?L2"
      using rings_del [OF R1 h(1) dL] unfolding L1h slink.remove1_map_link .
    have d2: "detached D ?L2 (s_link d)"
      using detached_after_del [OF R1 h(1) dL] unfolding L1h slink.remove1_map_link .
    have R3: "rings D ?m3 ?L3" using rings_add_tail [OF R2 h(2) d2] Lh by simp
    have dist: "distinct act" using ringsD(2) [OF R h(1)] Lh by simp
    have "asl_lists ((s_key s)(d := 0)) ?L3 (Q(k := ?ps)) (remove1 d act) (fr @ [d])"
      using asl_lists_release [OF A d dist] True by simp
    moreover have "asl_frame L ?L3" using q(4) by (auto simp: asl_frame_def)
    moreover have "detached D ?L3 (p_list p)" using p1 by (auto simp: detached_def)
    ultimately show ?thesis
      using True r1 D R3 sem' unfolding s1
      by (intro exI [of _ ?m3] exI [of _ "(s_key s)(d := 0)"] exI [of _ ?L3])
        (auto simp: free_semd_def asl_rep_def)
  qed
qed

lemma removeBlocked_none:
  assumes rep: "asl_rep D s L Q" and Q: "Q k = []"
  shows "removeBlocked k s = Some (None, s)"
proof -
  obtain act fr where A: "asl_lists (s_key s) L Q act fr" and D: "asl_heads \<subseteq> D"
    and R: "rings D (lmem s) L"
    using rep by (rule asl_repE)
  show ?thesis
    using find_semd [OF A D R, of k] find_semd_cases [OF A, of k] Q
    by (auto simp: removeBlocked_def)
qed

lemma removeBlocked_some:
  assumes rep: "asl_rep D s L Q" and Q: "Q k = p # ps"
  shows "\<exists>m key L'. let s' = s\<lparr>pcbs := (pcbs s)(p := (pcbs s p)\<lparr>p_semAdd := 0\<rparr>),
        lmem := m, s_key := key\<rparr> in
    removeBlocked k s = Some (Some p, s') \<and> asl_rep D s' L' (Q(k := ps)) \<and>
    asl_frame L L' \<and> detached D L' (p_list p)"
proof -
  obtain act fr where A: "asl_lists (s_key s) L Q act fr" and D: "asl_heads \<subseteq> D"
    and R: "rings D (lmem s) L"
    using rep by (rule asl_repE)
  obtain d where d: "d \<in> set act" "s_key s d = k"
    and f: "List.find (\<lambda>d. s_key s d = k) act = Some d"
    using find_semd_cases [OF A, of k] Q by auto
  note q = semd_queue [OF A D R d]
  have r: "ring (lmem s) (s_procq d) (map p_list (p # ps))" using q(1) Q by simp
  have p: "p \<in> set (Q k)" using Q by simp
  from unblock_spec [OF rep A d p refl] find_semd [OF A D R, of k] f q(5)
    plist.first_entry [OF r] ring_empty_iff [OF r] Q
  show ?thesis by (auto simp: removeBlocked_def Let_def)
qed

lemma outBlocked_none:
  assumes rep: "asl_rep D s L Q" and p: "p \<notin> set (Q (p_semAdd (pcbs s p)))"
  shows "outBlocked (Some p) s = Some (None, s)"
proof -
  obtain act fr where A: "asl_lists (s_key s) L Q act fr" and D: "asl_heads \<subseteq> D"
    and R: "rings D (lmem s) L"
    using rep by (rule asl_repE)
  let ?k = "p_semAdd (pcbs s p)"
  note loop = find_semd [OF A D R, of ?k]
  from find_semd_cases [OF A, of ?k] show ?thesis
  proof (elim disjE conjE bexE)
    fix d assume d: "d \<in> set act" "s_key s d = ?k"
      and f: "List.find (\<lambda>d. s_key s d = ?k) act = Some d"
    note q = semd_queue [OF A D R d]
    have "list_for_each (\<lambda>pos. Some (pos = p_list p)) (s_procq d) (lmem s) =
        Some (List.find (\<lambda>pos. pos = p_list p) (map p_list (Q ?k)))"
      by (rule list_for_each_ring [OF q(1)]) simp
    then show ?thesis using loop f p
      by (simp add: outBlocked_def find_eq_notin image_iff)
  qed (use loop in \<open>auto simp: outBlocked_def\<close>)
qed

lemma outBlocked_some:
  assumes rep: "asl_rep D s L Q" and p: "p \<in> set (Q k)"
  shows "\<exists>m key L'. let s' = s\<lparr>pcbs := (pcbs s)(p := (pcbs s p)\<lparr>p_semAdd := 0\<rparr>),
        lmem := m, s_key := key\<rparr> in
    outBlocked (Some p) s = Some (Some p, s') \<and> asl_rep D s' L' (Q(k := remove1 p (Q k))) \<and>
    asl_frame L L' \<and> detached D L' (p_list p)"
proof -
  obtain act fr where A: "asl_lists (s_key s) L Q act fr" and D: "asl_heads \<subseteq> D"
    and R: "rings D (lmem s) L" and k: "p_semAdd (pcbs s p) = k"
    using rep p by (auto elim: asl_repE)
  obtain d where d: "d \<in> set act" "s_key s d = k"
    and f: "List.find (\<lambda>d. s_key s d = k) act = Some d"
    using find_semd_cases [OF A, of k] p by auto
  note q = semd_queue [OF A D R d]
  have "list_for_each (\<lambda>pos. Some (pos = p_list p)) (s_procq d) (lmem s) =
      Some (List.find (\<lambda>pos. pos = p_list p) (map p_list (Q k)))"
    by (rule list_for_each_ring [OF q(1)]) simp
  moreover have "List.find (\<lambda>pos. pos = p_list p) (map p_list (Q k)) = Some (p_list p)"
    using p by (intro find_eq_unique) simp
  ultimately show ?thesis
    using unblock_spec [OF rep A d p refl] find_semd [OF A D R, of k] f q(5) k
    by (auto simp: outBlocked_def Let_def)
qed

section \<open>Initialisation\<close>

definition zero_keys :: "nat \<Rightarrow> (nat \<Rightarrow> u32) \<Rightarrow> nat \<Rightarrow> u32" where
  "zero_keys n key i = (if i < n then 0 else key i)"

lemma zero_keys_simps [simp]:
  "zero_keys 0 key = key"
  "(zero_keys n key)(n := 0) = zero_keys (Suc n) key"
  by (auto simp: zero_keys_def fun_eq_iff less_Suc_eq)

text \<open>The rings after \<open>n\<close> rounds of the loop.\<close>

definition asl_init_lists :: "nat \<Rightarrow> (lh \<Rightarrow> lh list) \<Rightarrow> lh \<Rightarrow> lh list" where
  "asl_init_lists n L h = (if h = semdFree_h then map s_link [0..<n]
     else if h \<in> s_procq ` {..<n} then [] else L h)"

lemma asl_init_lists_0: "L semdFree_h = [] \<Longrightarrow> asl_init_lists 0 L = L"
  by (auto simp: asl_init_lists_def fun_eq_iff)

lemma asl_init_lists_Suc:
  "((asl_init_lists n L)(s_procq n := []))(semdFree_h := asl_init_lists n L semdFree_h @ [s_link n]) =
   asl_init_lists (Suc n) L"
  by (auto simp: asl_init_lists_def fun_eq_iff less_Suc_eq)

lemma initASL_fold:
  assumes R: "rings D (lmem s) L" and h: "semdFree_h \<in> D" and L: "L semdFree_h = []"
    and l: "\<And>i. i < n \<Longrightarrow> detached D L (s_link i)" and q: "\<And>i. i < n \<Longrightarrow> detached D L (s_procq i)"
  shows "\<exists>m. fold initASL_body [0..<n] s =
      s\<lparr>s_key := zero_keys n (s_key s), lmem := m\<rparr> \<and>
    rings (D \<union> s_procq ` {..<n}) m (asl_init_lists n L)"
  using l q
proof (induction n)
  case 0
  show ?case using R by (intro exI [of _ "lmem s"]) (simp add: asl_init_lists_0 [of L, OF L])
next
  case (Suc n)
  let ?L = "asl_init_lists n L" and ?D = "\<lambda>n. D \<union> s_procq ` {..<n}"
  obtain m where m: "fold initASL_body [0..<n] s = s\<lparr>s_key := zero_keys n (s_key s), lmem := m\<rparr>"
    and Rm: "rings (?D n) m ?L"
    using Suc.IH Suc.prems less_Suc_eq by blast
  have dq: "detached (?D n) ?L (s_procq n)"
    using Suc.prems(2) [of n] by (auto simp: detached_def asl_init_lists_def)
  have D: "?D (Suc n) = insert (s_procq n) (?D n)" by (auto simp: less_Suc_eq)
  have Rq: "rings (?D (Suc n)) (INIT_LIST_HEAD (s_procq n) m) (?L(s_procq n := []))"
    by (rule rings_INIT_new [OF Rm dq D])
  have dl: "detached (?D (Suc n)) (?L(s_procq n := [])) (s_link n)"
    using Suc.prems(1) [of n] by (auto simp: detached_def asl_init_lists_def)
  have hD: "semdFree_h \<in> ?D (Suc n)" using h by simp
  from rings_add_tail [OF Rq hD dl] asl_init_lists_Suc [of n L]
  have "rings (?D (Suc n)) (list_add_tail (s_link n) semdFree_h (INIT_LIST_HEAD (s_procq n) m))
      (asl_init_lists (Suc n) L)" by simp
  with m show ?case by (auto simp: initASL_body_def [of n] Let_def)
qed

lemma initASL_spec:
  assumes R: "rings D (lmem s) L" and h: "detached D L semdFree_h" "detached D L semd_h"
    and l: "\<And>i. i < MAXPROC \<Longrightarrow> detached D L (s_link i)"
    and q: "\<And>i. i < MAXPROC \<Longrightarrow> detached D L (s_procq i)"
  shows "\<exists>m L'. initASL s = s\<lparr>s_key := zero_keys MAXPROC (s_key s), lmem := m\<rparr> \<and>
    asl_rep (D \<union> asl_heads) (initASL s) L' (\<lambda>_. []) \<and> asl_frame L L'"
proof -
  let ?m1 = "INIT_LIST_HEAD semdFree_h (lmem s)" and ?D1 = "insert semdFree_h D"
    and ?L1 = "L(semdFree_h := [])"
  let ?m2 = "INIT_LIST_HEAD semd_h ?m1" and ?D2 = "insert semd_h ?D1" and ?L2 = "?L1(semd_h := [])"
  let ?s = "s\<lparr>lmem := ?m2\<rparr>"
  have R1: "rings ?D1 ?m1 ?L1" by (rule rings_INIT_new [OF R h(1) refl])
  have "detached ?D1 ?L1 semd_h" using h by (auto simp: detached_def)
  from rings_INIT_new [OF R1 this refl] have R2: "rings ?D2 (lmem ?s) ?L2" by simp
  have "detached ?D2 ?L2 (s_link i)" "detached ?D2 ?L2 (s_procq i)" if "i < MAXPROC" for i
    using l [OF that] q [OF that] by (auto simp: detached_def)
  then obtain m where m: "fold initASL_body [0..<MAXPROC] ?s =
      ?s\<lparr>s_key := zero_keys MAXPROC (s_key ?s), lmem := m\<rparr>"
    and Rm: "rings (?D2 \<union> s_procq ` {..<MAXPROC}) m (asl_init_lists MAXPROC ?L2)"
    using initASL_fold [OF R2, of MAXPROC] by auto
  let ?L = "asl_init_lists MAXPROC ?L2"
  have D: "?D2 \<union> s_procq ` {..<MAXPROC} = D \<union> asl_heads" by (auto simp: asl_heads_def)
  have "asl_lists key ?L (\<lambda>_. []) [] [0..<MAXPROC]" for key
    unfolding asl_lists_def by (intro conjI ballI allI impI) (auto simp: asl_init_lists_def)
  moreover have "asl_frame L ?L" by (auto simp: asl_frame_def asl_heads_def asl_init_lists_def)
  moreover have "initASL s = s\<lparr>s_key := zero_keys MAXPROC (s_key s), lmem := m\<rparr>"
    using m by (simp add: initASL_def Let_def)
  ultimately show ?thesis
    using Rm unfolding D by (intro exI [of _ m] exI [of _ ?L]) (simp add: asl_rep_def, blast)
qed

end
