(* ===== verification/Nucleus.thy ===== *)
theory Nucleus
  imports Asl
begin

text \<open>
  The state of the Nucleus (\<^verbatim>\<open>phase2/headers/globals.h\<close>, \<^verbatim>\<open>phase2/initial.c\<close>) and the hardware
  primitives of the uRISCV library it uses. The record extends the one of phase 1.

  \<^item> \<open>mem\<close> holds the C integers that processes and the kernel reach by address: the semaphores,
    among them the array \<open>devSems\<close> at \<open>devSems_addr\<close>, and the memory mapped device registers.
    \<open>state_mem\<close> and \<open>support_mem\<close> hold the \<open>state_t\<close> and \<open>support_t\<close> objects that system calls
    name by address.
  \<^item> \<open>bios_state\<close> is the processor state the hardware saves at \<open>BIOSDATAPAGE\<close>.
  \<^item> The \<open>n\<close>-th reading of the clock is \<open>tod s n\<close>; \<open>tod_reads\<close> counts the readings made.

  \<open>LDST\<close>, \<open>LDCXT\<close>, \<open>HALT\<close>, \<open>PANIC\<close> and \<open>WAIT\<close> do not return to the code after them: a handler
  that reaches one ends with an \<open>outcome\<close>. After \<open>WAIT\<close> the processor runs again when an interrupt
  has made the hardware enter the exception handler.
\<close>

section \<open>State\<close>

abbreviation (input) PSEUDOCLK_SEM :: nat where "PSEUDOCLK_SEM \<equiv> 48"
abbreviation (input) TOT_SEMS :: nat where "TOT_SEMS \<equiv> 49"

definition DEV_SEM_BASE :: "nat \<Rightarrow> nat \<Rightarrow> nat" where
  "DEV_SEM_BASE line dev = (line - 3) * 8 + dev"

definition TERM_TX_SEM :: "nat \<Rightarrow> nat" where
  "TERM_TX_SEM dev = 32 + dev"

definition TERM_RX_SEM :: "nat \<Rightarrow> nat" where
  "TERM_RX_SEM dev = 40 + dev"

record passupvector_t =
  tlb_refill_handler :: u32
  tlb_refill_stackPtr :: u32
  exception_handler :: u32
  exception_stackPtr :: u32

record nucleus = phase1 +
  processCount :: u32
  softBlockCount :: u32
  currentProcess :: "nat option"
  yieldedProcess :: "nat option"
  startTOD :: u32
  activeProcs :: "nat \<Rightarrow> nat option"
  devSems_addr :: u32
  mem :: "u32 \<Rightarrow> u32"
  state_mem :: "u32 \<Rightarrow> state_t"
  support_mem :: "u32 \<Rightarrow> support_t"
  bios_state :: state_t
  passUpVec :: passupvector_t
  tod :: "nat \<Rightarrow> u32"
  tod_reads :: nat
  plt_timer :: u32
  interval_timer :: u32
  mie_reg :: u32
  status_reg :: u32
  entryhi_reg :: u32
  entrylo_reg :: u32
  tlb :: "(u32 \<times> u32) list"

datatype outcome =
    Ldst state_t            \<comment> \<open>\<open>LDST(&s)\<close>: the processor continues from \<open>s\<close>\<close>
  | Ldcxt u32 u32 u32       \<comment> \<open>\<open>LDCXT(stackPtr, status, pc)\<close>\<close>
  | Halt | Panic | Wait

section \<open>Hardware primitives\<close>

abbreviation (input) TIMESCALEADDR :: u32 where "TIMESCALEADDR \<equiv> 0x10000024"
abbreviation (input) TIMESLICE :: u32 where "TIMESLICE \<equiv> 5000000"
abbreviation (input) PSECOND :: u32 where "PSECOND \<equiv> 100000"
abbreviation (input) NEVER :: u32 where "NEVER \<equiv> 0x7FFFFFFF"

definition STCK :: "nucleus \<Rightarrow> u32 \<times> nucleus" where
  "STCK s = (tod s (tod_reads s), s\<lparr>tod_reads := Suc (tod_reads s)\<rparr>)"

definition setTIMER :: "u32 \<Rightarrow> nucleus \<Rightarrow> nucleus" where
  "setTIMER v s = s\<lparr>plt_timer := v\<rparr>"

definition LDIT :: "u32 \<Rightarrow> nucleus \<Rightarrow> nucleus" where
  "LDIT v s = s\<lparr>interval_timer := v\<rparr>"

section \<open>Addresses of the device semaphores\<close>

text \<open>\<open>&devSems[i]\<close>.\<close>

definition devSem :: "nat \<Rightarrow> nucleus \<Rightarrow> u32" where
  "devSem i s = devSems_addr s + 4 * of_nat i"

definition isDeviceSemaphore :: "u32 \<Rightarrow> nucleus \<Rightarrow> bool" where
  "isDeviceSemaphore semAdd s =
     (let base = devSem 0 s; top = devSem TOT_SEMS s in
      if semAdd < base \<or> semAdd \<ge> top then False
      else
        let idx = unat (semAdd - base) div 4 in
        if idx = PSEUDOCLK_SEM then False else True)"

section \<open>Copying a processor state\<close>

text \<open>
  \<open>copyState\<close> copies \<open>STATE_T_SIZE_IN_BYTES / WORDLEN\<close> words. Word \<open>i\<close> of a \<open>state_t\<close>: the five
  control registers, then the general registers \<open>x0\<close> to \<open>x31\<close>, of which \<open>sp\<close> is \<open>x2\<close> and
  \<open>a0\<close> to \<open>a3\<close> are \<open>x10\<close> to \<open>x13\<close>.
\<close>

abbreviation (input) STATE_T_SIZE_IN_BYTES :: nat where "STATE_T_SIZE_IN_BYTES \<equiv> 148"

definition state_word :: "nat \<Rightarrow> state_t \<Rightarrow> u32" where
  "state_word i st =
     (if i = 0 then entry_hi st else if i = 1 then cause st else if i = 2 then status st
      else if i = 3 then pc_epc st else if i = 4 then mie st else if i = 7 then reg_sp st
      else if i = 15 then reg_a0 st else if i = 16 then reg_a1 st else if i = 17 then reg_a2 st
      else if i = 18 then reg_a3 st else gpr_rest st i)"

definition set_state_word :: "nat \<Rightarrow> u32 \<Rightarrow> state_t \<Rightarrow> state_t" where
  "set_state_word i w st =
     (if i = 0 then st\<lparr>entry_hi := w\<rparr> else if i = 1 then st\<lparr>cause := w\<rparr>
      else if i = 2 then st\<lparr>status := w\<rparr> else if i = 3 then st\<lparr>pc_epc := w\<rparr>
      else if i = 4 then st\<lparr>mie := w\<rparr> else if i = 7 then st\<lparr>reg_sp := w\<rparr>
      else if i = 15 then st\<lparr>reg_a0 := w\<rparr> else if i = 16 then st\<lparr>reg_a1 := w\<rparr>
      else if i = 17 then st\<lparr>reg_a2 := w\<rparr> else if i = 18 then st\<lparr>reg_a3 := w\<rparr>
      else st\<lparr>gpr_rest := (gpr_rest st)(i := w)\<rparr>)"

definition copyState :: "state_t \<Rightarrow> state_t \<Rightarrow> state_t" where
  "copyState dst src =
     fold (\<lambda>i d. set_state_word i (state_word i src) d) [0..<STATE_T_SIZE_IN_BYTES div 4] dst"

lemma state_word_set [simp]: "state_word i (set_state_word j w st) = (if i = j then w else state_word i st)"
  by (auto simp: state_word_def set_state_word_def)

lemma state_word_fold:
  "state_word j (fold (\<lambda>i d. set_state_word i (state_word i src) d) is dst) =
   (if j \<in> set is then state_word j src else state_word j dst)"
  by (induction "is" arbitrary: dst) auto

text \<open>All 37 words are copied, in particular every register the kernel names.\<close>

lemma state_word_copyState: "i < 37 \<Longrightarrow> state_word i (copyState dst src) = state_word i src"
  unfolding copyState_def by (simp only: state_word_fold) simp

lemma copyState_sel [simp]:
  "entry_hi (copyState d s) = entry_hi s" "cause (copyState d s) = cause s"
  "status (copyState d s) = status s" "pc_epc (copyState d s) = pc_epc s"
  "mie (copyState d s) = mie s" "reg_sp (copyState d s) = reg_sp s"
  "reg_a0 (copyState d s) = reg_a0 s" "reg_a1 (copyState d s) = reg_a1 s"
  "reg_a2 (copyState d s) = reg_a2 s" "reg_a3 (copyState d s) = reg_a3 s"
  using state_word_copyState [of 0 d s] state_word_copyState [of 1 d s]
    state_word_copyState [of 2 d s] state_word_copyState [of 3 d s]
    state_word_copyState [of 4 d s] state_word_copyState [of 7 d s]
    state_word_copyState [of 15 d s] state_word_copyState [of 16 d s]
    state_word_copyState [of 17 d s] state_word_copyState [of 18 d s]
  by (simp_all add: state_word_def)

text \<open>\<open>&currentProcess->p_s\<close> is the destination of most copies.\<close>

definition save_state :: "nat \<Rightarrow> state_t \<Rightarrow> nucleus \<Rightarrow> nucleus" where
  "save_state p st s = upd_pcb p (\<lambda>q. q\<lparr>p_s := copyState (p_s q) st\<rparr>) s"

end
