(* ===== verification/Scheduler.thy ===== *)
theory Scheduler
  imports Nucleus
begin

text \<open>
  \<^verbatim>\<open>phase2/scheduler.c\<close>: the dispatcher. \<open>None\<close> stands for a dereference of \<open>NULL\<close> or a corrupt
  ready queue.
\<close>

section \<open>The scheduler\<close>

text \<open>The common tail of the two places where a process is given the processor.\<close>

definition dispatch :: "nat \<Rightarrow> nucleus \<Rightarrow> outcome \<times> nucleus" where
  "dispatch p s =
     (let s = s\<lparr>currentProcess := Some p\<rparr>;
          (now, s) = STCK s;
          s = s\<lparr>startTOD := now\<rparr>;
          s = setTIMER (TIMESLICE * mem s TIMESCALEADDR) s
      in (Ldst (p_s (pcbs s p)), s))"

text \<open>Step 0: \<open>Inl\<close> when the process that yielded goes on at once.\<close>

definition resolve_yield :: "nucleus \<Rightarrow> ((outcome \<times> nucleus) + nucleus) option" where
  "resolve_yield s =
     (case yieldedProcess s of
        None \<Rightarrow> Some (Inr s)
      | Some y \<Rightarrow>
          let s = s\<lparr>yieldedProcess := None\<rparr> in
          do {
            give_way \<leftarrow> (if emptyProcQ readyQueue s then Some False
              else do {
                front \<leftarrow> headProcQ readyQueue s;
                h \<leftarrow> front;
                Some (sint (p_prio (pcbs s h)) \<ge> sint (p_prio (pcbs s y)))
              });
            if give_way then map_option Inr (insertProcQ readyQueue y s)
            else Some (Inl (dispatch y s))
          })"

text \<open>Steps 2 to 4: no process is ready.\<close>

definition scheduler_idle :: "nucleus \<Rightarrow> outcome \<times> nucleus" where
  "scheduler_idle s =
     (let s = s\<lparr>currentProcess := None\<rparr> in
      if processCount s = 0 then (Halt, s)
      else if sint (softBlockCount s) > 0 then
        let s = s\<lparr>mie_reg := MIE_ALL AND NOT MIE_MTIE_MASK\<rparr>;
            s = s\<lparr>status_reg := status_reg s OR MSTATUS_MIE_MASK\<rparr>
        in (Wait, s)
      else (Panic, s))"

definition scheduler :: "nucleus \<Rightarrow> (outcome \<times> nucleus) option" where
  "scheduler s =
     do {
       y \<leftarrow> resolve_yield s;
       case y of
         Inl r \<Rightarrow> Some r
       | Inr s \<Rightarrow>
           if \<not> emptyProcQ readyQueue s then do {
             (first, s) \<leftarrow> removeProcQ readyQueue s;
             p \<leftarrow> first;
             Some (dispatch p s)
           }
           else Some (scheduler_idle s)
     }"

end
