(* ===== verification/Interrupts.thy ===== *)
theory Interrupts
  imports Scheduler
begin

text \<open>
  \<^verbatim>\<open>phase2/interrupts.c\<close>: the processor local timer, the interval timer behind the pseudo-clock and
  the devices. A device register is a word of \<open>mem\<close>; what a device does when it reads a command
  is not part of the kernel, so a write to a command register only stores the word.
\<close>

section \<open>Device registers\<close>

abbreviation (input) CAUSE_EXCCODE_MASK :: u32 where "CAUSE_EXCCODE_MASK \<equiv> 0xFF"
abbreviation (input) INT_BITMAP_BASE :: u32 where "INT_BITMAP_BASE \<equiv> 0x10000040"
abbreviation (input) START_DEVREG :: u32 where "START_DEVREG \<equiv> 0x10000054"
abbreviation (input) ACK :: u32 where "ACK \<equiv> 1"
abbreviation (input) OKCHARTRANS :: u32 where "OKCHARTRANS \<equiv> 5"
abbreviation (input) CHARRECV :: u32 where "CHARRECV \<equiv> 5"

definition store :: "u32 \<Rightarrow> u32 \<Rightarrow> nucleus \<Rightarrow> nucleus" where
  [simp]: "store a v s = s\<lparr>mem := (mem s)(a := v)\<rparr>"

definition INT_BITMAP :: "nat \<Rightarrow> nucleus \<Rightarrow> u32" where
  "INT_BITMAP line s = mem s (INT_BITMAP_BASE + of_nat ((line - 3) * 4))"

definition DEV_REG_BASE :: "nat \<Rightarrow> nat \<Rightarrow> u32" where
  "DEV_REG_BASE line dev = START_DEVREG + of_nat ((line - 3) * 0x80 + dev * 0x10)"

text \<open>Word \<open>i\<close> of a device register: \<open>base[i]\<close>.\<close>

definition reg_word :: "u32 \<Rightarrow> nat \<Rightarrow> u32" where
  "reg_word base i = base + 4 * of_nat i"

definition DEV_STATUS :: "u32 \<Rightarrow> u32" where "DEV_STATUS base = reg_word base 0"
definition DEV_COMMAND :: "u32 \<Rightarrow> u32" where "DEV_COMMAND base = reg_word base 1"
definition TERM_RECV_STATUS :: "u32 \<Rightarrow> u32" where "TERM_RECV_STATUS base = reg_word base 0"
definition TERM_RECV_COMMAND :: "u32 \<Rightarrow> u32" where "TERM_RECV_COMMAND base = reg_word base 1"
definition TERM_TRANSM_STATUS :: "u32 \<Rightarrow> u32" where "TERM_TRANSM_STATUS base = reg_word base 2"
definition TERM_TRANSM_COMMAND :: "u32 \<Rightarrow> u32" where "TERM_TRANSM_COMMAND base = reg_word base 3"

text \<open>The least set bit among the low eight; the \<open>-1\<close> of the code is \<open>None\<close>.\<close>

definition getHighestPriorityDevice :: "u32 \<Rightarrow> nat option" where
  "getHighestPriorityDevice bitmap = List.find (\<lambda>i. bitmap AND push_bit i 1 \<noteq> 0) [0..<8]"

section \<open>Waking the waiters\<close>

text \<open>
  The step every device line shares: if the semaphore says that somebody waits, the first waiter
  gets the device status and becomes ready. The transmitter of a terminal puts it at the end of
  the ready queue, the other lines use \<open>insertProcQ\<close>.
\<close>

definition enqueue_tail :: "nat \<Rightarrow> nucleus \<Rightarrow> nucleus option" where
  "enqueue_tail p s = Some (s\<lparr>lmem := list_add_tail (p_list p) readyQueue (lmem s)\<rparr>)"

definition wake_device ::
  "(nat \<Rightarrow> nucleus \<Rightarrow> nucleus option) \<Rightarrow> nat \<Rightarrow> u32 \<Rightarrow> nucleus \<Rightarrow> nucleus option" where
  "wake_device enqueue semIdx savedStatus s =
     (if sint (mem s (devSem semIdx s)) < 0 then
        let s = store (devSem semIdx s) (mem s (devSem semIdx s) + 1) s
        in do {
          (unblocked, s) \<leftarrow> removeBlocked (devSem semIdx s) s;
          case unblocked of
            None \<Rightarrow> Some s
          | Some p \<Rightarrow>
              let s = upd_pcb p (\<lambda>q. q\<lparr>p_s := (p_s q)\<lparr>reg_a0 := savedStatus\<rparr>\<rparr>) s;
                  s = upd_pcb p (\<lambda>q. q\<lparr>p_semAdd := 0\<rparr>) s
              in do {
                s \<leftarrow> enqueue p s;
                Some (s\<lparr>softBlockCount := softBlockCount s - 1\<rparr>)
              }
        }
      else Some s)"

text \<open>The loop of the pseudo-clock: every waiter is released.\<close>

partial_function (option) wake_clock :: "nucleus \<Rightarrow> nucleus option" where
  "wake_clock s =
     do {
       (unblocked, s) \<leftarrow> removeBlocked (devSem PSEUDOCLK_SEM s) s;
       case unblocked of
         None \<Rightarrow> Some s
       | Some p \<Rightarrow>
           let s = upd_pcb p (\<lambda>q. q\<lparr>p_semAdd := 0\<rparr>) s;
               s = upd_pcb p (\<lambda>q. q\<lparr>p_s := (p_s q)\<lparr>reg_a0 := 0\<rparr>\<rparr>) s
           in do {
             s \<leftarrow> insertProcQ readyQueue p s;
             wake_clock (s\<lparr>softBlockCount := softBlockCount s - 1\<rparr>)
           }
     }"

declare wake_clock.simps [code]

section \<open>The handler\<close>

definition resume_or_schedule :: "nucleus \<Rightarrow> (outcome \<times> nucleus) option" where
  "resume_or_schedule s =
     (if currentProcess s \<noteq> None then Some (Ldst (bios_state s), s) else scheduler s)"

definition charge_interrupt :: "nucleus \<Rightarrow> nucleus" where
  "charge_interrupt s =
     (let (now, s) = STCK s;
          s = (case currentProcess s of
                 None \<Rightarrow> s
               | Some p \<Rightarrow> upd_pcb p (\<lambda>q. q\<lparr>p_time := p_time q + (now - startTOD s)\<rparr>) s)
      in s\<lparr>startTOD := now\<rparr>)"

definition plt_interrupt :: "nucleus \<Rightarrow> (outcome \<times> nucleus) option" where
  "plt_interrupt s =
     (let s = setTIMER NEVER s in
      case currentProcess s of
        None \<Rightarrow> scheduler s
      | Some p \<Rightarrow>
          let s = save_state p (bios_state s) s;
              s = upd_pcb p (\<lambda>q. q\<lparr>p_s := (p_s q)\<lparr>status := status (p_s q) OR MSTATUS_MIE_MASK\<rparr>\<rparr>) s
          in do {
            s \<leftarrow> insertProcQ readyQueue p s;
            scheduler (s\<lparr>currentProcess := None\<rparr>)
          })"

definition clock_interrupt :: "nucleus \<Rightarrow> (outcome \<times> nucleus) option" where
  "clock_interrupt s =
     do {
       s \<leftarrow> wake_clock (LDIT PSECOND s);
       resume_or_schedule (store (devSem PSEUDOCLK_SEM s) 0 s)
     }"

definition terminal_interrupt :: "nat \<Rightarrow> nucleus \<Rightarrow> nucleus option" where
  "terminal_interrupt devNo s =
     (let termBase = DEV_REG_BASE 7 devNo;
          txStatus = mem s (TERM_TRANSM_STATUS termBase) AND 0xFF;
          rxStatus = mem s (TERM_RECV_STATUS termBase) AND 0xFF
      in do {
        s \<leftarrow> (if txStatus = OKCHARTRANS then
               let savedStatus = mem s (TERM_TRANSM_STATUS termBase);
                   s = store (TERM_TRANSM_COMMAND termBase) ACK s
               in wake_device enqueue_tail (TERM_TX_SEM devNo) savedStatus s
             else Some s);
        (if rxStatus = CHARRECV then
           let savedStatus = mem s (TERM_RECV_STATUS termBase);
               s = store (TERM_RECV_COMMAND termBase) ACK s
           in wake_device (insertProcQ readyQueue) (TERM_RX_SEM devNo) savedStatus s
         else Some s)
      })"

definition other_device_interrupt :: "nat \<Rightarrow> nat \<Rightarrow> nucleus \<Rightarrow> nucleus option" where
  "other_device_interrupt intLineNo devNo s =
     (let devBase = DEV_REG_BASE intLineNo devNo;
          savedStatus = mem s (DEV_STATUS devBase);
          s = store (DEV_COMMAND devBase) ACK s
      in wake_device (insertProcQ readyQueue) (DEV_SEM_BASE intLineNo devNo) savedStatus s)"

definition device_interrupt :: "nat \<Rightarrow> nucleus \<Rightarrow> (outcome \<times> nucleus) option" where
  "device_interrupt intLineNo s =
     (case getHighestPriorityDevice (INT_BITMAP intLineNo s) of
        None \<Rightarrow> resume_or_schedule s
      | Some devNo \<Rightarrow> do {
          s \<leftarrow> (if intLineNo = 7 then terminal_interrupt devNo s
               else other_device_interrupt intLineNo devNo s);
          resume_or_schedule s
        })"

definition interruptHandler :: "nucleus \<Rightarrow> (outcome \<times> nucleus) option" where
  "interruptHandler s =
     (let excCode = cause (bios_state s) AND CAUSE_EXCCODE_MASK;
          s = charge_interrupt s
      in if excCode = 7 then plt_interrupt s
         else if excCode = 3 then clock_interrupt s
         else if excCode \<ge> 17 \<and> excCode \<le> 21 then device_interrupt (unat (excCode - 14)) s
         else resume_or_schedule s)"

end
