(* ===== verification/Exceptions.thy ===== *)
theory Exceptions
  imports Interrupts
begin

text \<open>
  \<^verbatim>\<open>phase2/exceptions.c\<close>: the exception entry point, the ten system calls, process termination and
  the pass up to the support level. Each system call is a definition of its own; a handler ends
  with an \<open>outcome\<close>, and \<open>None\<close> stands for a dereference of \<open>NULL\<close>.
\<close>

section \<open>CPU time, blocking and the table of the live processes\<close>

definition updateCPUTime :: "nucleus \<Rightarrow> nucleus" where
  "updateCPUTime s =
     (case currentProcess s of
        None \<Rightarrow> s
      | Some p \<Rightarrow>
          let (now, s) = STCK s;
              s = upd_pcb p (\<lambda>q. q\<lparr>p_time := p_time q + (now - startTOD s)\<rparr>) s
          in s\<lparr>startTOD := now\<rparr>)"

definition blockCurrentProcess :: "u32 \<Rightarrow> nucleus \<Rightarrow> (outcome \<times> nucleus) option" where
  "blockCurrentProcess sem s =
     (case currentProcess s of
        None \<Rightarrow> Some (Panic, s)
      | Some p \<Rightarrow>
          let (now, s) = STCK s;
              s = upd_pcb p (\<lambda>q. q\<lparr>p_time := p_time q + (now - startTOD s)\<rparr>) s;
              s = s\<lparr>startTOD := now\<rparr>;
              s = upd_pcb p (\<lambda>q. q\<lparr>p_semAdd := sem\<rparr>) s;
              s = (if isDeviceSemaphore sem s then s\<lparr>softBlockCount := softBlockCount s + 1\<rparr> else s)
          in do {
            (r, s) \<leftarrow> insertBlocked sem (currentProcess s) s;
            scheduler (s\<lparr>currentProcess := None\<rparr>)
          })"

text \<open>\<open>Inl\<close> is the call of \<open>PANIC\<close> when the table is full.\<close>

definition activeProcs_add :: "nat \<Rightarrow> nucleus \<Rightarrow> nucleus + nucleus" where
  "activeProcs_add p s =
     (case List.find (\<lambda>i. activeProcs s i = None) [0..<MAXPROC] of
        Some i \<Rightarrow> Inr (s\<lparr>activeProcs := (activeProcs s)(i := Some p)\<rparr>)
      | None \<Rightarrow> Inl s)"

definition activeProcs_remove :: "nat \<Rightarrow> nucleus \<Rightarrow> nucleus" where
  "activeProcs_remove p s =
     (case List.find (\<lambda>i. activeProcs s i = Some p) [0..<MAXPROC] of
        Some i \<Rightarrow> s\<lparr>activeProcs := (activeProcs s)(i := None)\<rparr>
      | None \<Rightarrow> s)"

definition findProcessByPid :: "u32 \<Rightarrow> nucleus \<Rightarrow> nat option" where
  "findProcessByPid target s =
     (case List.find (\<lambda>i. case activeProcs s i of None \<Rightarrow> False
                          | Some p \<Rightarrow> p_pid (pcbs s p) = target) [0..<MAXPROC] of
        Some i \<Rightarrow> activeProcs s i
      | None \<Rightarrow> None)"

section \<open>Termination\<close>

text \<open>What follows the loop over the children.\<close>

definition terminate_unblock :: "nat \<Rightarrow> nucleus \<Rightarrow> nucleus option" where
  "terminate_unblock p s =
     (if p_semAdd (pcbs s p) \<noteq> 0 then
        let sem = p_semAdd (pcbs s p) in
        do {
          (removed, s) \<leftarrow> outBlocked (Some p) s;
          let s = upd_pcb p (\<lambda>q. q\<lparr>p_semAdd := 0\<rparr>) s;
          Some (if removed \<noteq> None then
                  if isDeviceSemaphore sem s \<or> sem = devSem PSEUDOCLK_SEM s
                  then s\<lparr>softBlockCount := softBlockCount s - 1\<rparr>
                  else store sem (mem s sem + 1) s
                else s)
        }
      else Some s)"

definition terminate_finish :: "nat \<Rightarrow> nucleus \<Rightarrow> nucleus option" where
  "terminate_finish p s =
     (let (_, s) = outChild (Some p) s;
          s = activeProcs_remove p s
      in do {
        s \<leftarrow> terminate_unblock p s;
        (_, s) \<leftarrow> outProcQ readyQueue p s;
        let s = (if Some p = currentProcess s then s\<lparr>currentProcess := None\<rparr> else s);
        let s = freePcb (Some p) s;
        Some (s\<lparr>processCount := processCount s - 1\<rparr>)
      })"

text \<open>
  \<open>terminateProcess\<close> calls itself from the loop over the children; the loop of \<open>p\<close> is the job
  \<open>Kids p\<close>.
\<close>

datatype term_job = Proc nat | Kids nat

partial_function (option) terminate_job :: "term_job \<Rightarrow> nucleus \<Rightarrow> nucleus option" where
  "terminate_job j s =
     (case j of
        Proc p \<Rightarrow>
          if p_pid (pcbs s p) = -1 then Some s
          else do {
            s \<leftarrow> terminate_job (Kids p) (upd_pcb p (\<lambda>q. q\<lparr>p_pid := -1\<rparr>) s);
            terminate_finish p s
          }
      | Kids p \<Rightarrow> do {
          (child, s) \<leftarrow> removeChild (Some p) s;
          case child of
            None \<Rightarrow> Some s
          | Some c \<Rightarrow> do {
              s \<leftarrow> terminate_job (Proc c) s;
              terminate_job (Kids p) s
            }
        })"

declare terminate_job.simps [code]

definition terminateProcess :: "nat option \<Rightarrow> nucleus \<Rightarrow> nucleus option" where
  "terminateProcess p_opt s =
     (case p_opt of None \<Rightarrow> Some s | Some p \<Rightarrow> terminate_job (Proc p) s)"

section \<open>Pass up or die\<close>

definition passUpOrDie :: "nat \<Rightarrow> nucleus \<Rightarrow> (outcome \<times> nucleus) option" where
  "passUpOrDie exceptionType s =
     (let die = (do {
            s \<leftarrow> terminateProcess (currentProcess (updateCPUTime s)) (updateCPUTime s);
            scheduler (s\<lparr>currentProcess := None\<rparr>)
          })
      in case currentProcess s of
        None \<Rightarrow> die
      | Some p \<Rightarrow>
          if p_supportStruct (pcbs s p) = 0 then die
          else
            let a = p_supportStruct (pcbs s p);
                sup = support_mem s a;
                st = copyState (sup_exceptState sup exceptionType) (bios_state s);
                sup = sup\<lparr>sup_exceptState := (sup_exceptState sup)(exceptionType := st)\<rparr>;
                s = s\<lparr>support_mem := (support_mem s)(a := sup)\<rparr>;
                ctx = sup_exceptContext sup exceptionType
            in Some (Ldcxt (stackPtr ctx) (ctx_status ctx) (ctx_pc ctx), s))"

definition tlbExceptionHandler :: "nucleus \<Rightarrow> (outcome \<times> nucleus) option" where
  "tlbExceptionHandler s = passUpOrDie PGFAULTEXCEPT s"

definition programTrapHandler :: "nucleus \<Rightarrow> (outcome \<times> nucleus) option" where
  "programTrapHandler s = passUpOrDie GENERALEXCEPT s"

section \<open>The system calls\<close>

abbreviation (input) CREATEPROCESS :: int where "CREATEPROCESS \<equiv> -1"
abbreviation (input) TERMPROCESS :: int where "TERMPROCESS \<equiv> -2"
abbreviation (input) PASSEREN :: int where "PASSEREN \<equiv> -3"
abbreviation (input) VERHOGEN :: int where "VERHOGEN \<equiv> -4"
abbreviation (input) DOIO :: int where "DOIO \<equiv> -5"
abbreviation (input) GETTIME :: int where "GETTIME \<equiv> -6"
abbreviation (input) CLOCKWAIT :: int where "CLOCKWAIT \<equiv> -7"
abbreviation (input) GETSUPPORTPTR :: int where "GETSUPPORTPTR \<equiv> -8"
abbreviation (input) GETPROCESSID :: int where "GETPROCESSID \<equiv> -9"
abbreviation (input) YIELD :: int where "YIELD \<equiv> -10"
abbreviation (input) PRIVINSTR :: u32 where "PRIVINSTR \<equiv> 10"

text \<open>The result register of the caller, and \<open>LDST(&currentProcess->p_s)\<close>.\<close>

definition set_result :: "u32 \<Rightarrow> nucleus \<Rightarrow> nucleus" where
  [simp]: "set_result v s = s\<lparr>bios_state := (bios_state s)\<lparr>reg_a0 := v\<rparr>\<rparr>"

definition load_current :: "nucleus \<Rightarrow> (outcome \<times> nucleus) option" where
  "load_current s = do { p \<leftarrow> currentProcess s; Some (Ldst (p_s (pcbs s p)), s) }"

definition save_current :: "nucleus \<Rightarrow> nucleus option" where
  "save_current s = do { p \<leftarrow> currentProcess s; Some (save_state p (bios_state s) s) }"

text \<open>\<open>CREATEPROCESS\<close>: the fields of the new process, then its entry into the kernel's structures.\<close>

definition setup_child :: "nat \<Rightarrow> nucleus \<Rightarrow> nucleus" where
  "setup_child c s =
     (let newState = reg_a1 (bios_state s);
          prio = reg_a2 (bios_state s);
          support = reg_a3 (bios_state s);
          s = save_state c (state_mem s newState) s;
          s = upd_pcb c (\<lambda>q. q\<lparr>p_supportStruct := support\<rparr>) s
      in upd_pcb c (\<lambda>q. q\<lparr>p_prio := prio\<rparr>) s)"

definition enter_child :: "nat \<Rightarrow> nucleus \<Rightarrow> (outcome \<times> nucleus) option" where
  "enter_child c s =
     do {
       p \<leftarrow> currentProcess s;
       let s = insertChild p c s;
       let s = s\<lparr>processCount := processCount s + 1\<rparr>;
       let s = set_result (p_pid (pcbs s c)) s;
       s \<leftarrow> save_current s;
       s \<leftarrow> insertProcQ readyQueue p s;
       s \<leftarrow> insertProcQ readyQueue c s;
       scheduler (s\<lparr>currentProcess := None\<rparr>)
     }"

definition sys_createprocess :: "nucleus \<Rightarrow> (outcome \<times> nucleus) option" where
  "sys_createprocess s =
     do {
       (child, s) \<leftarrow> allocPcb s;
       case child of
         None \<Rightarrow> do { s \<leftarrow> save_current (set_result (-1) s); load_current s }
       | Some c \<Rightarrow>
           (case activeProcs_add c (setup_child c s) of
              Inl s \<Rightarrow> Some (Panic, s)
            | Inr s \<Rightarrow> enter_child c s)
     }"

definition sys_termprocess :: "nucleus \<Rightarrow> (outcome \<times> nucleus) option" where
  "sys_termprocess s =
     (let targetPid = reg_a1 (bios_state s);
          s = updateCPUTime s;
          target = (if targetPid = 0 then currentProcess s else findProcessByPid targetPid s)
      in if target = None then Some (Ldst (bios_state s), s)
         else
           let terminatingSelf = (target = currentProcess s)
           in do {
             s \<leftarrow> terminateProcess target s;
             let s = (if terminatingSelf then s\<lparr>currentProcess := None\<rparr> else s);
             if currentProcess s = None then scheduler s
             else do { s \<leftarrow> save_current s; load_current s }
           })"

definition sys_passeren :: "nucleus \<Rightarrow> (outcome \<times> nucleus) option" where
  "sys_passeren s =
     (let semAddr = reg_a1 (bios_state s) in
      do {
        s \<leftarrow> save_current (updateCPUTime s);
        let s = store semAddr (mem s semAddr - 1) s;
        if sint (mem s semAddr) < 0 then blockCurrentProcess semAddr s
        else load_current s
      })"

definition verhogen_wake :: "u32 \<Rightarrow> nucleus \<Rightarrow> nucleus option" where
  "verhogen_wake semAddr s =
     do {
       (unblocked, s) \<leftarrow> removeBlocked semAddr s;
       case unblocked of
         None \<Rightarrow> Some s
       | Some u \<Rightarrow> insertProcQ readyQueue u (upd_pcb u (\<lambda>q. q\<lparr>p_semAdd := 0\<rparr>) s)
     }"

definition sys_verhogen :: "nucleus \<Rightarrow> (outcome \<times> nucleus) option" where
  "sys_verhogen s =
     (let semAddr = reg_a1 (bios_state s) in
      do {
        s \<leftarrow> save_current (updateCPUTime s);
        let s = store semAddr (mem s semAddr + 1) s;
        s \<leftarrow> (if sint (mem s semAddr) \<le> 0 then verhogen_wake semAddr s else Some s);
        load_current s
      })"

text \<open>The index in \<open>devSems\<close> for a command register.\<close>

definition doio_sem :: "u32 \<Rightarrow> nat" where
  "doio_sem commandAddr =
     (let offset = unat (commandAddr - START_DEVREG);
          line = offset div 0x80 + 3;
          dev = (offset mod 0x80) div 0x10;
          subword = (offset mod 0x10) div 4
      in if line = 7 then (if subword = 3 then TERM_TX_SEM dev else TERM_RX_SEM dev)
         else DEV_SEM_BASE line dev)"

definition sys_doio :: "nucleus \<Rightarrow> (outcome \<times> nucleus) option" where
  "sys_doio s =
     (let commandAddr = reg_a1 (bios_state s);
          commandValue = reg_a2 (bios_state s);
          semIdx = doio_sem commandAddr
      in do {
        s \<leftarrow> save_current (updateCPUTime s);
        let s = store commandAddr commandValue s;
        let s = store (devSem semIdx s) (mem s (devSem semIdx s) - 1) s;
        blockCurrentProcess (devSem semIdx s) s
      })"

definition sys_gettime :: "nucleus \<Rightarrow> (outcome \<times> nucleus) option" where
  "sys_gettime s =
     (let s = updateCPUTime s in
      do {
        p \<leftarrow> currentProcess s;
        let s = set_result (p_time (pcbs s p)) s;
        Some (Ldst (bios_state s), s)
      })"

definition sys_clockwait :: "nucleus \<Rightarrow> (outcome \<times> nucleus) option" where
  "sys_clockwait s =
     do {
       s \<leftarrow> save_current (updateCPUTime s);
       let sem = devSem PSEUDOCLK_SEM s;
       let s = store sem (mem s sem - 1) s;
       let s = s\<lparr>softBlockCount := softBlockCount s + 1\<rparr>;
       blockCurrentProcess sem s
     }"

definition sys_getsupportptr :: "nucleus \<Rightarrow> (outcome \<times> nucleus) option" where
  "sys_getsupportptr s =
     do {
       p \<leftarrow> currentProcess s;
       let s = set_result (p_supportStruct (pcbs s p)) s;
       Some (Ldst (bios_state s), s)
     }"

definition sys_getprocessid :: "nucleus \<Rightarrow> (outcome \<times> nucleus) option" where
  "sys_getprocessid s =
     (let wantParent = reg_a1 (bios_state s) in
      do {
        p \<leftarrow> currentProcess s;
        let s = set_result (if wantParent = 0 then p_pid (pcbs s p)
                  else (case p_parent (pcbs s p) of None \<Rightarrow> 0 | Some f \<Rightarrow> p_pid (pcbs s f))) s;
        Some (Ldst (bios_state s), s)
      })"

definition sys_yield :: "nucleus \<Rightarrow> (outcome \<times> nucleus) option" where
  "sys_yield s =
     do {
       s \<leftarrow> save_current (updateCPUTime s);
       let s = s\<lparr>yieldedProcess := currentProcess s\<rparr>;
       scheduler (s\<lparr>currentProcess := None\<rparr>)
     }"

definition syscallHandler :: "nucleus \<Rightarrow> (outcome \<times> nucleus) option" where
  "syscallHandler s =
     (let sysCode = sint (reg_a0 (bios_state s)) in
      if status (bios_state s) AND MSTATUS_MPP_MASK = 0 \<and> sysCode < 0
      then programTrapHandler (s\<lparr>bios_state := (bios_state s)\<lparr>cause := PRIVINSTR\<rparr>\<rparr>)
      else if sysCode \<ge> 1 then passUpOrDie GENERALEXCEPT s
      else if sysCode = CREATEPROCESS then sys_createprocess s
      else if sysCode = TERMPROCESS then sys_termprocess s
      else if sysCode = PASSEREN then sys_passeren s
      else if sysCode = VERHOGEN then sys_verhogen s
      else if sysCode = DOIO then sys_doio s
      else if sysCode = GETTIME then sys_gettime s
      else if sysCode = CLOCKWAIT then sys_clockwait s
      else if sysCode = GETSUPPORTPTR then sys_getsupportptr s
      else if sysCode = GETPROCESSID then sys_getprocessid s
      else if sysCode = YIELD then sys_yield s
      else passUpOrDie GENERALEXCEPT s)"

section \<open>The entry points\<close>

definition exceptionHandler :: "nucleus \<Rightarrow> (outcome \<times> nucleus) option" where
  "exceptionHandler s =
     (let cause = cause (bios_state s);
          s = updateCPUTime s
      in if cause AND 0x80000000 \<noteq> 0 then interruptHandler s
         else
           let excCode = cause AND CAUSE_EXCCODE_MASK in
           if excCode = 8 \<or> excCode = 11 then
             syscallHandler (s\<lparr>bios_state := (bios_state s)\<lparr>pc_epc := pc_epc (bios_state s) + WORDLEN\<rparr>\<rparr>)
           else if excCode \<in> {12, 13, 15, 24, 25, 26, 27, 28} then tlbExceptionHandler s
           else programTrapHandler s)"

text \<open>
  The TLB refill handler of the build with \<open>SUPPORT_LEVEL\<close>, then the placeholder of the other one.
  \<open>tlb_slot\<close> is the entry the processor chooses for \<open>TLBWR\<close>. An index outside the page table is
  an access outside the array.
\<close>

definition refill_index :: "u32 \<Rightarrow> u32" where
  "refill_index hi =
     (let vpn = drop_bit 12 hi AND 0xFFFFF in if vpn = 0xBFFFF then 31 else vpn - 0x80000)"

definition TLBWR :: "nat \<Rightarrow> nucleus \<Rightarrow> nucleus" where
  "TLBWR tlb_slot s = s\<lparr>tlb := (tlb s)[tlb_slot := (entryhi_reg s, entrylo_reg s)]\<rparr>"

definition uTLB_RefillHandler :: "nat \<Rightarrow> nucleus \<Rightarrow> (outcome \<times> nucleus) option" where
  "uTLB_RefillHandler tlb_slot s =
     (let index = refill_index (entry_hi (bios_state s)) in
      do {
        p \<leftarrow> currentProcess s;
        let a = p_supportStruct (pcbs s p);
        if a = 0 \<or> unat index \<ge> 32 then None
        else
          let pte = sup_privatePgTbl (support_mem s a) (unat index);
              s = s\<lparr>entryhi_reg := pte_entryHI pte\<rparr>;
              s = s\<lparr>entrylo_reg := pte_entryLO pte\<rparr>;
              s = TLBWR tlb_slot s
          in Some (Ldst (bios_state s), s)
      })"

definition uTLB_RefillHandler_phase2 :: "nat \<Rightarrow> nucleus \<Rightarrow> (outcome \<times> nucleus) option" where
  "uTLB_RefillHandler_phase2 tlb_slot s =
     (let s = s\<lparr>entryhi_reg := 0x80000000\<rparr>;
          s = s\<lparr>entrylo_reg := 0\<rparr>;
          s = TLBWR tlb_slot s
      in Some (Ldst (bios_state s), s))"

end
