(* ===== verification/Initial.thy ===== *)
theory Initial
  imports Exceptions
begin

text \<open>
  \<^verbatim>\<open>phase2/initial.c\<close>: \<open>main\<close> fills the pass up vector, initialises phase 1 and the variables of
  the Nucleus, creates the first process and enters the scheduler. The addresses the linker gives
  to the handlers and to \<open>test\<close> are the arguments.
\<close>

record code_addrs =
  addr_refill :: u32
  addr_exception :: u32
  addr_test :: u32

abbreviation (input) RAMBASEADDR :: u32 where "RAMBASEADDR \<equiv> 0x10000000"
abbreviation (input) RAMBASESIZE :: u32 where "RAMBASESIZE \<equiv> 0x10000004"

definition RAMTOP :: "nucleus \<Rightarrow> u32" where
  "RAMTOP s = mem s RAMBASEADDR + mem s RAMBASESIZE"

definition set_passUpVec :: "code_addrs \<Rightarrow> u32 \<Rightarrow> nucleus \<Rightarrow> nucleus" where
  "set_passUpVec code ramtop s =
     s\<lparr>passUpVec := \<lparr>tlb_refill_handler = addr_refill code, tlb_refill_stackPtr = ramtop,
         exception_handler = addr_exception code, exception_stackPtr = ramtop - PAGESIZE\<rparr>\<rparr>"

definition init_globals :: "nucleus \<Rightarrow> nucleus" where
  "init_globals s =
     (let s = s\<lparr>processCount := 0\<rparr>;
          s = s\<lparr>softBlockCount := 0\<rparr>;
          s = s\<lparr>currentProcess := None\<rparr>;
          s = mkEmptyProcQ readyQueue s;
          s = fold (\<lambda>i s. store (devSem i s) 0 s) [0..<TOT_SEMS] s;
          (now, s) = STCK s;
          s = s\<lparr>startTOD := now\<rparr>;
          s = fold (\<lambda>i s. s\<lparr>activeProcs := (activeProcs s)(i := None)\<rparr>) [0..<MAXPROC] s
      in LDIT PSECOND s)"

definition first_state :: "code_addrs \<Rightarrow> u32 \<Rightarrow> state_t \<Rightarrow> state_t" where
  "first_state code ramtop st =
     st\<lparr>status := MSTATUS_MIE_MASK OR MSTATUS_MPIE_MASK OR MSTATUS_MPP_M, mie := MIE_ALL,
        reg_sp := ramtop - 2 * PAGESIZE, pc_epc := addr_test code\<rparr>"

definition nucleus_main :: "code_addrs \<Rightarrow> nucleus \<Rightarrow> (outcome \<times> nucleus) option" where
  "nucleus_main code s =
     (let ramtop = RAMTOP s;
          s = set_passUpVec code ramtop s;
          s = init_globals (initASL (initPcbs s))
      in do {
        (testPcb, s) \<leftarrow> allocPcb s;
        case testPcb of
          None \<Rightarrow> Some (Panic, s)
        | Some t \<Rightarrow>
            let s = upd_pcb t (\<lambda>q. q\<lparr>p_s := first_state code ramtop (p_s q)\<rparr>) s;
                s = upd_pcb t (\<lambda>q. q\<lparr>p_prio := PROCESS_PRIO_LOW\<rparr>) s;
                s = s\<lparr>activeProcs := (activeProcs s)(0 := Some t)\<rparr>
            in do {
              s \<leftarrow> insertProcQ readyQueue t s;
              scheduler (s\<lparr>processCount := 1\<rparr>)
            }
      })"

end
