(* ===== verification/Kernel_View.thy ===== *)
theory Kernel_View
  imports Asl
begin

text \<open>
  The lists of the kernel seen together. A \<open>view\<close> holds the free list, the ready queue, the queue
  of every semaphore and the children of every process, as plain lists; \<open>krep C s v\<close> says that
  the rings in memory represent \<open>v\<close>, where \<open>C\<close> is the set of processes whose list of children is
  initialised. Every operation of phase 1 on the kernel's own lists is a functional update of the
  view: these are the refinement lemmas the Nucleus is verified with.
\<close>

section \<open>The view\<close>

record view =
  v_free :: "nat list"
  v_ready :: "nat list"
  v_blocked :: "u32 \<Rightarrow> nat list"
  v_kids :: "nat \<Rightarrow> nat list"

definition kheads :: "nat set \<Rightarrow> lh set" where
  "kheads C = insert pcbFree_h (insert readyQueue (asl_heads \<union> p_child ` C))"

definition klists :: "nat set \<Rightarrow> (lh \<Rightarrow> lh list) \<Rightarrow> view \<Rightarrow> bool" where
  "klists C L v \<longleftrightarrow> L pcbFree_h = map p_list (v_free v) \<and> L readyQueue = map p_list (v_ready v) \<and>
     (\<forall>p\<in>C. L (p_child p) = map p_sib (v_kids v p))"

definition krep :: "nat set \<Rightarrow> 'a phase1_scheme \<Rightarrow> view \<Rightarrow> bool" where
  "krep C s v \<longleftrightarrow> (\<exists>L. asl_rep (kheads C) s L (v_blocked v) \<and> klists C L v)"

lemma kheadsI [simp]:
  "pcbFree_h \<in> kheads C" "readyQueue \<in> kheads C" "p_child p \<in> kheads C \<longleftrightarrow> p \<in> C"
  "p_list p \<notin> kheads C" "p_sib p \<notin> kheads C" "s_link d \<notin> kheads C"
  "semd_h \<in> kheads C" "semdFree_h \<in> kheads C"
  by (auto simp: kheads_def asl_heads_def)

lemma asl_heads_notin [simp]:
  "pcbFree_h \<notin> asl_heads" "readyQueue \<notin> asl_heads" "p_child p \<notin> asl_heads"
  by (auto simp: asl_heads_def)

lemma asl_heads_sub: "asl_heads \<subseteq> kheads C"
  by (auto simp: kheads_def)

lemma s_procq_kheads [simp]: "s_procq d \<in> kheads C \<longleftrightarrow> d < MAXPROC"
  by (auto simp: kheads_def)

lemma kheads_insert: "kheads (insert p C) = insert (p_child p) (kheads C)"
  by (auto simp: kheads_def)

lemma kheads_mono: "C' \<subseteq> C \<Longrightarrow> kheads C' \<subseteq> kheads C"
  by (auto simp: kheads_def)

lemma krepE:
  assumes "krep C s v"
  obtains L where "asl_rep (kheads C) s L (v_blocked v)" "klists C L v" "rings (kheads C) (lmem s) L"
  using assms by (auto simp: krep_def asl_rep_def)

text \<open>The representation depends on the links, the keys and the semaphore of the blocked ones.\<close>

lemma krep_cong:
  assumes "krep C s v" and "lmem s' = lmem s" and "s_key s' = s_key s"
    and "\<And>k p. p \<in> set (v_blocked v k) \<Longrightarrow> p_semAdd (pcbs s' p) = p_semAdd (pcbs s p)"
  shows "krep C s' v"
  using assms by (auto simp: krep_def asl_rep_def)

lemma krep_semAdd: "krep C s v \<Longrightarrow> p \<in> set (v_blocked v k) \<Longrightarrow> p_semAdd (pcbs s p) = k"
  by (auto simp: krep_def asl_rep_def)

lemma krep_key_0: "krep C s v \<Longrightarrow> v_blocked v 0 = []"
  unfolding krep_def by (blast dest: asl_rep_key_0)

lemma krep_shrink: "krep C s v \<Longrightarrow> C' \<subseteq> C \<Longrightarrow> krep C' s v"
  unfolding krep_def asl_rep_def klists_def
  by (meson asl_heads_sub kheads_mono rings_mono subsetD)

section \<open>The lists are disjoint\<close>

text \<open>A process queued at one head is queued at no other; a child has one parent.\<close>

lemma krep_queued:
  assumes "asl_rep (kheads C) s L (v_blocked v)" and "p \<in> set (v_blocked v k)"
  shows "\<exists>d<MAXPROC. L (s_procq d) = map p_list (v_blocked v k)"
  using assms asl_rep_queued by (metis empty_iff empty_set)

lemma krep_distinct:
  assumes K: "krep C s v"
  shows "distinct (v_free v)" and "distinct (v_ready v)" and "distinct (v_blocked v k)"
    and "p \<in> C \<Longrightarrow> distinct (v_kids v p)"
proof -
  obtain L where A: "asl_rep (kheads C) s L (v_blocked v)" and L: "klists C L v"
    and R: "rings (kheads C) (lmem s) L"
    using K by (rule krepE)
  show "distinct (v_free v)" using ringsD(2) [OF R, of pcbFree_h] L by (simp add: klists_def)
  show "distinct (v_ready v)" using ringsD(2) [OF R, of readyQueue] L by (simp add: klists_def)
  show "distinct (v_kids v p)" if "p \<in> C"
    using ringsD(2) [OF R, of "p_child p"] L that by (simp add: klists_def)
  show "distinct (v_blocked v k)"
  proof (cases "v_blocked v k")
    case (Cons p ps)
    then obtain d where "d < MAXPROC" "L (s_procq d) = map p_list (v_blocked v k)"
      using krep_queued [OF A, of p k] by auto
    then show ?thesis using ringsD(2) [OF R, of "s_procq d"] by simp
  qed simp
qed

lemma krep_disjoint:
  assumes K: "krep C s v"
  shows "p \<in> set (v_free v) \<Longrightarrow> p \<notin> set (v_ready v)"
    and "p \<in> set (v_free v) \<Longrightarrow> p \<notin> set (v_blocked v k)"
    and "p \<in> set (v_ready v) \<Longrightarrow> p \<notin> set (v_blocked v k)"
    and "p \<in> set (v_blocked v k) \<Longrightarrow> p \<in> set (v_blocked v k') \<Longrightarrow> k = k'"
    and "a \<in> C \<Longrightarrow> b \<in> C \<Longrightarrow> c \<in> set (v_kids v a) \<Longrightarrow> c \<in> set (v_kids v b) \<Longrightarrow> a = b"
proof -
  obtain L where A: "asl_rep (kheads C) s L (v_blocked v)" and L: "klists C L v"
    and R: "rings (kheads C) (lmem s) L"
    using K by (rule krepE)
  note disj = rings_disjoint [OF R]
  have q: "\<exists>h. h \<in> kheads C \<and> h \<notin> {pcbFree_h, readyQueue} \<and> p_list p \<in> set (L h)"
    if "p \<in> set (v_blocked v k)" for p k
  proof -
    from krep_queued [OF A that] obtain d where d: "d < MAXPROC"
      "L (s_procq d) = map p_list (v_blocked v k)" by blast
    then have "s_procq d \<in> kheads C" by simp
    with d that show ?thesis by (intro exI [of _ "s_procq d"]) auto
  qed
  have f: "p_list p \<in> set (L pcbFree_h)" if "p \<in> set (v_free v)" for p
    using that L by (auto simp: klists_def)
  have r: "p_list p \<in> set (L readyQueue)" if "p \<in> set (v_ready v)" for p
    using that L by (auto simp: klists_def)
  show "p \<in> set (v_free v) \<Longrightarrow> p \<notin> set (v_ready v)"
    using disj [of pcbFree_h readyQueue] f r by auto
  show "p \<in> set (v_free v) \<Longrightarrow> p \<notin> set (v_blocked v k)"
    using disj [of pcbFree_h] f q by (metis insertI1 kheadsI(1))
  show "p \<in> set (v_ready v) \<Longrightarrow> p \<notin> set (v_blocked v k)"
    using disj [of readyQueue] r q by (metis insertI1 insertI2 kheadsI(2))
  show "p \<in> set (v_blocked v k) \<Longrightarrow> p \<in> set (v_blocked v k') \<Longrightarrow> k = k'"
    using asl_rep_disjoint [OF A] by blast
  assume "a \<in> C" "b \<in> C" "c \<in> set (v_kids v a)" "c \<in> set (v_kids v b)"
  then show "a = b"
    using disj [of "p_child a" "p_child b" "p_sib c"] L by (auto simp: klists_def)
qed

text \<open>Queued nowhere.\<close>

definition unqueued :: "view \<Rightarrow> nat \<Rightarrow> bool" where
  "unqueued v p \<longleftrightarrow> p \<notin> set (v_free v) \<and> p \<notin> set (v_ready v) \<and> (\<forall>k. p \<notin> set (v_blocked v k))"

definition childless :: "nat set \<Rightarrow> view \<Rightarrow> nat \<Rightarrow> bool" where
  "childless C v c \<longleftrightarrow> (\<forall>p\<in>C. c \<notin> set (v_kids v p))"

lemma asl_member:
  assumes A: "asl_lists key L Q act fr" and h: "h \<in> asl_heads" and x: "x \<in> set (L h)"
  shows "x \<in> range s_link \<or> (\<exists>k p. p \<in> set (Q k) \<and> x = p_list p)"
proof -
  consider "h = semd_h" | "h = semdFree_h" | d where "h = s_procq d" "d < MAXPROC"
    using h by (auto simp: asl_heads_def)
  then show ?thesis
  proof cases
    case 3
    then have "d \<in> set act \<or> d \<in> set fr" using A by (auto simp: asl_lists_def)
    moreover have "\<exists>p\<in>set (Q (key d)). x = p_list p" if "d \<in> set act"
      using A x 3 that by (auto simp: asl_lists_def)
    moreover have "x \<notin> set (L h)" if "d \<in> set fr"
      using A 3 that by (auto simp: asl_lists_def)
    ultimately show ?thesis using x by blast
  qed (use A x in \<open>auto simp: asl_lists_def\<close>)
qed

lemma detached_link:
  assumes A: "asl_rep (kheads C) s L (v_blocked v)" and L: "klists C L v"
  shows "unqueued v p \<Longrightarrow> detached (kheads C) L (p_list p)"
    and "childless C v p \<Longrightarrow> detached (kheads C) L (p_sib p)"
    and "p \<notin> C \<Longrightarrow> detached (kheads C) L (p_child p)"
proof -
  obtain act fr where al: "asl_lists (s_key s) L (v_blocked v) act fr"
    using A by (auto simp: asl_rep_def)
  have mem: "x \<in> p_list ` set (v_free v) \<or> x \<in> p_list ` set (v_ready v) \<or>
      (\<exists>p\<in>C. x \<in> p_sib ` set (v_kids v p)) \<or> x \<in> range s_link \<or>
      (\<exists>k p. p \<in> set (v_blocked v k) \<and> x = p_list p)"
    if "h \<in> kheads C" "x \<in> set (L h)" for h x
    using that asl_member [OF al, of h x] L by (auto simp: kheads_def klists_def)
  show "detached (kheads C) L (p_list p)" if "unqueued v p"
    unfolding detached_def using that mem [of _ "p_list p"]
    by (auto simp: unqueued_def)
  show "detached (kheads C) L (p_sib p)" if "childless C v p"
    unfolding detached_def using that mem [of _ "p_sib p"]
    by (auto simp: childless_def)
  show "detached (kheads C) L (p_child p)" if "p \<notin> C"
    unfolding detached_def using that mem [of _ "p_child p"] by auto
qed

section \<open>The operations on the view\<close>

text \<open>An update of a list that is not one of the ASL.\<close>

lemma asl_rep_update:
  assumes A: "asl_rep D s L Q" and R: "rings D' m L'" and D: "asl_heads \<subseteq> D'"
    and L: "\<And>h. h \<in> asl_heads \<Longrightarrow> L' h = L h" and m: "lmem s' = m" and k: "s_key s' = s_key s"
    and b: "\<And>k p. p \<in> set (Q k) \<Longrightarrow> p_semAdd (pcbs s' p) = p_semAdd (pcbs s p)"
  shows "asl_rep D' s' L' Q"
proof -
  have "asl_lists (s_key s) L' Q act fr" if "asl_lists (s_key s) L Q act fr" for act fr
  proof -
    have "L' (s_procq d) = L (s_procq d)" if "d \<in> set act \<or> d \<in> set fr" for d
      using asl_lists_member [OF \<open>asl_lists (s_key s) L Q act fr\<close> that] L by auto
    with that L show ?thesis by (auto simp: asl_lists_def)
  qed
  with A R D m k b show ?thesis unfolding asl_rep_def by (metis (no_types, lifting))
qed

lemma krep_ready_head:
  assumes "krep C s v"
  shows "emptyProcQ readyQueue s \<longleftrightarrow> v_ready v = []"
    and "headProcQ readyQueue s = Some (case v_ready v of [] \<Rightarrow> None | p # _ \<Rightarrow> Some p)"
  using assms headProcQ_spec [of "kheads C" s] emptyProcQ_spec [of "kheads C" s]
  by (auto elim!: krepE simp: klists_def)

lemma krep_insert_ready:
  assumes K: "krep C s v" and p: "unqueued v p"
  shows "\<exists>m. insertProcQ readyQueue p s = Some (s\<lparr>lmem := m\<rparr>) \<and>
    krep C (s\<lparr>lmem := m\<rparr>) (v\<lparr>v_ready := ins_prio (prio_of s) p (v_ready v)\<rparr>)"
proof -
  obtain L where A: "asl_rep (kheads C) s L (v_blocked v)" and L: "klists C L v"
    and R: "rings (kheads C) (lmem s) L"
    using K by (rule krepE)
  let ?L = "L(readyQueue := map p_list (ins_prio (prio_of s) p (v_ready v)))"
  obtain m where m: "insertProcQ readyQueue p s = Some (s\<lparr>lmem := m\<rparr>)" and Rm: "rings (kheads C) m ?L"
    using insertProcQ_spec [OF R kheadsI(2) _ detached_link(1) [OF A L p]] L
    by (auto simp: klists_def)
  have "asl_rep (kheads C) (s\<lparr>lmem := m\<rparr>) ?L (v_blocked v)"
    by (rule asl_rep_update [OF A Rm asl_heads_sub]) auto
  with m L show ?thesis by (auto simp: krep_def klists_def intro!: exI [of _ ?L])
qed

lemma krep_append_ready:
  assumes K: "krep C s v" and p: "unqueued v p"
  shows "krep C (s\<lparr>lmem := list_add_tail (p_list p) readyQueue (lmem s)\<rparr>)
    (v\<lparr>v_ready := v_ready v @ [p]\<rparr>)"
proof -
  obtain L where A: "asl_rep (kheads C) s L (v_blocked v)" and L: "klists C L v"
    and R: "rings (kheads C) (lmem s) L"
    using K by (rule krepE)
  let ?L = "L(readyQueue := map p_list (v_ready v @ [p]))"
  have Rm: "rings (kheads C) (list_add_tail (p_list p) readyQueue (lmem s)) ?L"
    using rings_add_tail [OF R kheadsI(2) detached_link(1) [OF A L p]] L by (simp add: klists_def)
  have "asl_rep (kheads C) (s\<lparr>lmem := list_add_tail (p_list p) readyQueue (lmem s)\<rparr>) ?L (v_blocked v)"
    by (rule asl_rep_update [OF A Rm asl_heads_sub]) auto
  with L show ?thesis by (auto simp: krep_def klists_def intro!: exI [of _ ?L])
qed

lemma krep_take_ready:
  assumes K: "krep C s v" and v: "v_ready v = p # ps"
  shows "\<exists>m. removeProcQ readyQueue s = Some (Some p, s\<lparr>lmem := m\<rparr>) \<and>
    krep C (s\<lparr>lmem := m\<rparr>) (v\<lparr>v_ready := ps\<rparr>)"
proof -
  obtain L where A: "asl_rep (kheads C) s L (v_blocked v)" and L: "klists C L v"
    and R: "rings (kheads C) (lmem s) L"
    using K by (rule krepE)
  let ?L = "L(readyQueue := map p_list ps)"
  obtain m where m: "removeProcQ readyQueue s = Some (Some p, s\<lparr>lmem := m\<rparr>)"
    and Rm: "rings (kheads C) m ?L"
    using removeProcQ_Cons [OF R kheadsI(2), of p ps] L v by (auto simp: klists_def)
  have "asl_rep (kheads C) (s\<lparr>lmem := m\<rparr>) ?L (v_blocked v)"
    by (rule asl_rep_update [OF A Rm asl_heads_sub]) auto
  with m L show ?thesis by (auto simp: krep_def klists_def intro!: exI [of _ ?L])
qed

lemma krep_out_ready:
  assumes K: "krep C s v"
  shows "\<exists>m. outProcQ readyQueue p s = Some (if p \<in> set (v_ready v) then Some p else None, s\<lparr>lmem := m\<rparr>) \<and>
    krep C (s\<lparr>lmem := m\<rparr>) (v\<lparr>v_ready := remove1 p (v_ready v)\<rparr>)"
proof -
  obtain L where A: "asl_rep (kheads C) s L (v_blocked v)" and L: "klists C L v"
    and R: "rings (kheads C) (lmem s) L"
    using K by (rule krepE)
  let ?L = "L(readyQueue := map p_list (remove1 p (v_ready v)))"
  have Lr: "L readyQueue = map p_list (v_ready v)" using L by (simp add: klists_def)
  obtain m where m: "outProcQ readyQueue p s =
      Some (if p \<in> set (v_ready v) then Some p else None, s\<lparr>lmem := m\<rparr>)"
    and Rm: "rings (kheads C) m ?L"
    using outProcQ_spec [OF R kheadsI(2) Lr, of p] by blast
  have "asl_rep (kheads C) (s\<lparr>lmem := m\<rparr>) ?L (v_blocked v)"
    by (rule asl_rep_update [OF A Rm asl_heads_sub]) auto
  with m L show ?thesis by (intro exI [of _ m]) (auto simp: krep_def klists_def intro!: exI [of _ ?L])
qed

lemma krep_free:
  assumes K: "krep C s v" and p: "unqueued v p"
  shows "\<exists>m. freePcb (Some p) s = s\<lparr>lmem := m\<rparr> \<and>
    krep C (s\<lparr>lmem := m\<rparr>) (v\<lparr>v_free := v_free v @ [p]\<rparr>)"
proof -
  obtain L where A: "asl_rep (kheads C) s L (v_blocked v)" and L: "klists C L v"
    and R: "rings (kheads C) (lmem s) L"
    using K by (rule krepE)
  let ?L = "L(pcbFree_h := L pcbFree_h @ [p_list p])"
  obtain m where m: "freePcb (Some p) s = s\<lparr>lmem := m\<rparr>" and Rm: "rings (kheads C) m ?L"
    using freePcb_spec [OF R kheadsI(1) detached_link(1) [OF A L p]] by blast
  have "asl_rep (kheads C) (s\<lparr>lmem := m\<rparr>) ?L (v_blocked v)"
    by (rule asl_rep_update [OF A Rm asl_heads_sub]) auto
  with m L show ?thesis by (auto simp: krep_def klists_def intro!: exI [of _ ?L])
qed

lemma krep_alloc_none:
  "krep C s v \<Longrightarrow> v_free v = [] \<Longrightarrow> allocPcb s = Some (None, s)"
  by (erule krepE, rule allocPcb_none, assumption) (auto simp: klists_def)

lemma krep_alloc_some:
  assumes K: "krep C s v" and v: "v_free v = p # fs" and p: "p \<notin> C" "childless C v p"
  shows "\<exists>m. allocPcb s = Some (Some p, s\<lparr>next_pid := next_pid s + 1, lmem := m,
      pcbs := (pcbs s)(p := new_pcb s p)\<rparr>) \<and>
    krep (insert p C) (s\<lparr>next_pid := next_pid s + 1, lmem := m, pcbs := (pcbs s)(p := new_pcb s p)\<rparr>)
      (v\<lparr>v_free := fs, v_kids := (v_kids v)(p := [])\<rparr>)"
proof -
  obtain L where A: "asl_rep (kheads C) s L (v_blocked v)" and L: "klists C L v"
    and R: "rings (kheads C) (lmem s) L"
    using K by (rule krepE)
  let ?L = "L(pcbFree_h := map p_list fs, p_child p := [])"
  have "L pcbFree_h = map p_list (p # fs)" using L v by (simp add: klists_def)
  note al = allocPcb_some [OF R kheadsI(1) this detached_link(3) [OF A L p(1)] detached_link(2) [OF A L p(2)]]
  then obtain m where m: "allocPcb s = Some (Some p, s\<lparr>next_pid := next_pid s + 1, lmem := m,
      pcbs := (pcbs s)(p := new_pcb s p)\<rparr>)" and Rm: "rings (kheads (insert p C)) m ?L"
    unfolding kheads_insert by blast
  let ?s = "s\<lparr>next_pid := next_pid s + 1, lmem := m, pcbs := (pcbs s)(p := new_pcb s p)\<rparr>"
  have "p \<in> set (v_free v)" using v by simp
  then have nb: "p \<notin> set (v_blocked v k)" for k using krep_disjoint(2) [OF K] by blast
  have "asl_rep (kheads (insert p C)) ?s ?L (v_blocked v)"
    by (rule asl_rep_update [OF A Rm asl_heads_sub]) (use nb in auto)
  moreover have "klists (insert p C) ?L (v\<lparr>v_free := fs, v_kids := (v_kids v)(p := [])\<rparr>)"
    using L p(1) by (auto simp: klists_def)
  ultimately show ?thesis using m unfolding krep_def by auto
qed

lemma krep_insert_child:
  assumes K: "krep C s v" and a: "a \<in> C" and c: "childless C v c"
  shows "\<exists>m. insertChild a c s =
      s\<lparr>pcbs := (pcbs s)(c := (pcbs s c)\<lparr>p_parent := Some a\<rparr>), lmem := m\<rparr> \<and>
    krep C (s\<lparr>pcbs := (pcbs s)(c := (pcbs s c)\<lparr>p_parent := Some a\<rparr>), lmem := m\<rparr>)
      (v\<lparr>v_kids := (v_kids v)(a := v_kids v a @ [c])\<rparr>)"
proof -
  obtain L where A: "asl_rep (kheads C) s L (v_blocked v)" and L: "klists C L v"
    and R: "rings (kheads C) (lmem s) L"
    using K by (rule krepE)
  let ?L = "L(p_child a := L (p_child a) @ [p_sib c])"
  have "p_child a \<in> kheads C" using a by simp
  then obtain m where m: "insertChild a c s =
      s\<lparr>pcbs := (pcbs s)(c := (pcbs s c)\<lparr>p_parent := Some a\<rparr>), lmem := m\<rparr>" and Rm: "rings (kheads C) m ?L"
    using insertChild_spec [OF R _ detached_link(2) [OF A L c]] by blast
  have "asl_rep (kheads C) (s\<lparr>pcbs := (pcbs s)(c := (pcbs s c)\<lparr>p_parent := Some a\<rparr>), lmem := m\<rparr>)
      ?L (v_blocked v)"
    by (rule asl_rep_update [OF A Rm asl_heads_sub]) auto
  moreover have "klists C ?L (v\<lparr>v_kids := (v_kids v)(a := v_kids v a @ [c])\<rparr>)"
    using L a by (auto simp: klists_def)
  ultimately show ?thesis using m unfolding krep_def by auto
qed

lemma krep_remove_child_none:
  "krep C s v \<Longrightarrow> p \<in> C \<Longrightarrow> v_kids v p = [] \<Longrightarrow> removeChild (Some p) s = Some (None, s)"
  by (erule krepE, rule removeChild_none, assumption) (auto simp: klists_def)

lemma krep_remove_child_some:
  assumes K: "krep C s v" and p: "p \<in> C" and v: "v_kids v p = c # cs"
  shows "\<exists>m. removeChild (Some p) s =
      Some (Some c, s\<lparr>lmem := m, pcbs := (pcbs s)(c := (pcbs s c)\<lparr>p_parent := None\<rparr>)\<rparr>) \<and>
    krep C (s\<lparr>lmem := m, pcbs := (pcbs s)(c := (pcbs s c)\<lparr>p_parent := None\<rparr>)\<rparr>)
      (v\<lparr>v_kids := (v_kids v)(p := cs)\<rparr>)"
proof -
  obtain L where A: "asl_rep (kheads C) s L (v_blocked v)" and L: "klists C L v"
    and R: "rings (kheads C) (lmem s) L"
    using K by (rule krepE)
  let ?L = "L(p_child p := map p_sib cs)"
  obtain m where m: "removeChild (Some p) s =
      Some (Some c, s\<lparr>lmem := m, pcbs := (pcbs s)(c := (pcbs s c)\<lparr>p_parent := None\<rparr>)\<rparr>)"
    and Rm: "rings (kheads C) m ?L"
    using removeChild_some [OF R, of p c cs] L p v by (auto simp: klists_def)
  have "asl_rep (kheads C) (s\<lparr>lmem := m, pcbs := (pcbs s)(c := (pcbs s c)\<lparr>p_parent := None\<rparr>)\<rparr>)
      ?L (v_blocked v)"
    by (rule asl_rep_update [OF A Rm asl_heads_sub]) auto
  moreover have "klists C ?L (v\<lparr>v_kids := (v_kids v)(p := cs)\<rparr>)"
    using L p by (auto simp: klists_def)
  ultimately show ?thesis using m unfolding krep_def by auto
qed

lemma krep_out_child_some:
  assumes K: "krep C s v" and a: "a \<in> C" and c: "c \<in> set (v_kids v a)" "p_parent (pcbs s c) \<noteq> None"
  shows "\<exists>m. outChild (Some c) s =
      (Some c, s\<lparr>lmem := m, pcbs := (pcbs s)(c := (pcbs s c)\<lparr>p_parent := None\<rparr>)\<rparr>) \<and>
    krep C (s\<lparr>lmem := m, pcbs := (pcbs s)(c := (pcbs s c)\<lparr>p_parent := None\<rparr>)\<rparr>)
      (v\<lparr>v_kids := (v_kids v)(a := remove1 c (v_kids v a))\<rparr>)"
proof -
  obtain L where A: "asl_rep (kheads C) s L (v_blocked v)" and L: "klists C L v"
    and R: "rings (kheads C) (lmem s) L"
    using K by (rule krepE)
  let ?L = "L(p_child a := map p_sib (remove1 c (v_kids v a)))"
  have La: "L (p_child a) = map p_sib (v_kids v a)" using L a by (simp add: klists_def)
  have "p_child a \<in> kheads C" "p_sib c \<in> set (L (p_child a))" using a c La by auto
  from outChild_some [OF R this c(2)] obtain m where m: "outChild (Some c) s =
      (Some c, s\<lparr>lmem := m, pcbs := (pcbs s)(c := (pcbs s c)\<lparr>p_parent := None\<rparr>)\<rparr>)"
    and Rm: "rings (kheads C) m ?L"
    unfolding La psib.remove1_map_link by blast
  have "asl_rep (kheads C) (s\<lparr>lmem := m, pcbs := (pcbs s)(c := (pcbs s c)\<lparr>p_parent := None\<rparr>)\<rparr>)
      ?L (v_blocked v)"
    by (rule asl_rep_update [OF A Rm asl_heads_sub]) auto
  moreover have "klists C ?L (v\<lparr>v_kids := (v_kids v)(a := remove1 c (v_kids v a))\<rparr>)"
    using L a by (auto simp: klists_def)
  ultimately show ?thesis using m unfolding krep_def by auto
qed

lemma klists_frame: "klists C L v \<Longrightarrow> asl_frame L L' \<Longrightarrow> klists C L' (v\<lparr>v_blocked := Q\<rparr>)"
  by (auto simp: klists_def asl_frame_def)

lemma krep_insert_blocked:
  assumes K: "krep C s v" and k: "k \<noteq> 0" and p: "unqueued v p" "p < MAXPROC"
    and lt: "\<And>k q. q \<in> set (v_blocked v k) \<Longrightarrow> q < MAXPROC"
  shows "\<exists>m key. let s' = s\<lparr>pcbs := (pcbs s)(p := (pcbs s p)\<lparr>p_semAdd := k\<rparr>), lmem := m, s_key := key\<rparr>
    in insertBlocked k (Some p) s = Some (0, s') \<and>
      krep C s' (v\<lparr>v_blocked := (v_blocked v)(k := v_blocked v k @ [p])\<rparr>)"
proof -
  obtain L where A: "asl_rep (kheads C) s L (v_blocked v)" and L: "klists C L v"
    using K by (rule krepE)
  from insertBlocked_spec [OF A k detached_link(1) [OF A L p(1)] lt p(2)] klists_frame [OF L]
  show ?thesis unfolding krep_def Let_def by fastforce
qed

lemma krep_remove_blocked_none:
  "krep C s v \<Longrightarrow> v_blocked v k = [] \<Longrightarrow> removeBlocked k s = Some (None, s)"
  by (erule krepE, rule removeBlocked_none)

lemma krep_remove_blocked_some:
  assumes K: "krep C s v" and v: "v_blocked v k = p # ps"
  shows "\<exists>m key. let s' = s\<lparr>pcbs := (pcbs s)(p := (pcbs s p)\<lparr>p_semAdd := 0\<rparr>), lmem := m, s_key := key\<rparr>
    in removeBlocked k s = Some (Some p, s') \<and> krep C s' (v\<lparr>v_blocked := (v_blocked v)(k := ps)\<rparr>)"
proof -
  obtain L where A: "asl_rep (kheads C) s L (v_blocked v)" and L: "klists C L v"
    using K by (rule krepE)
  from removeBlocked_some [OF A v] klists_frame [OF L]
  show ?thesis unfolding krep_def Let_def by fastforce
qed

lemma krep_out_blocked_some:
  assumes K: "krep C s v" and p: "p \<in> set (v_blocked v k)"
  shows "\<exists>m key. let s' = s\<lparr>pcbs := (pcbs s)(p := (pcbs s p)\<lparr>p_semAdd := 0\<rparr>), lmem := m, s_key := key\<rparr>
    in outBlocked (Some p) s = Some (Some p, s') \<and>
      krep C s' (v\<lparr>v_blocked := (v_blocked v)(k := remove1 p (v_blocked v k))\<rparr>)"
proof -
  obtain L where A: "asl_rep (kheads C) s L (v_blocked v)" and L: "klists C L v"
    using K by (rule krepE)
  from outBlocked_some [OF A p] klists_frame [OF L]
  show ?thesis unfolding krep_def Let_def by fastforce
qed

end
