(* ===== verification/Kernel_Invariant.thy ===== *)
theory Kernel_Invariant
  imports Initial Kernel_View
begin

text \<open>
  The invariant of the Nucleus. \<open>core K X s v\<close> relates the state to a view: every process control
  block is on the free list, ready, blocked on one semaphore, or in the set \<open>X\<close> of the processes
  the running handler has in its hands; \<open>activeProcs\<close> is the set of the live ones; they form a
  forest; process identifiers are distinct. \<open>K\<close> is the set of the processes whose termination
  has begun: they have lost their identifier, and maybe their slot in \<open>activeProcs\<close>. \<open>kinv\<close> is what holds between two activations of the Nucleus.
\<close>

section \<open>Definitions\<close>

definition live :: "view \<Rightarrow> nat set" where
  "live v = {..<MAXPROC} - set (v_free v)"

definition child_rel :: "view \<Rightarrow> (nat \<times> nat) set" where
  "child_rel v = {(a, c). a \<in> live v \<and> c \<in> set (v_kids v a)}"

text \<open>The addresses of the array \<open>devSems\<close>, and the processes soft-blocked on an element of it.\<close>

definition dev_range :: "nucleus \<Rightarrow> u32 set" where
  "dev_range s = {devSem 0 s..<devSem TOT_SEMS s}"

definition soft_blocked :: "nucleus \<Rightarrow> view \<Rightarrow> nat set" where
  "soft_blocked s v = {p. \<exists>i<TOT_SEMS. p \<in> set (v_blocked v (devSem i s))}"

definition places_ok :: "nat set \<Rightarrow> view \<Rightarrow> bool" where
  "places_ok X v \<longleftrightarrow>
     (\<forall>p\<in>X. p < MAXPROC \<and> unqueued v p) \<and> (\<forall>p\<in>set (v_free v). p < MAXPROC) \<and>
     (\<forall>p\<in>set (v_ready v). p < MAXPROC) \<and> (\<forall>k. \<forall>p\<in>set (v_blocked v k). p < MAXPROC) \<and>
     (\<forall>p<MAXPROC. p \<in> set (v_free v) \<or> p \<in> set (v_ready v) \<or> (\<exists>k. p \<in> set (v_blocked v k)) \<or> p \<in> X)"

definition table_ok :: "nat set \<Rightarrow> nucleus \<Rightarrow> view \<Rightarrow> bool" where
  "table_ok K s v \<longleftrightarrow>
     (\<forall>p\<in>live v - K. \<exists>i<MAXPROC. activeProcs s i = Some p) \<and>
     (\<forall>i<MAXPROC. \<forall>p. activeProcs s i = Some p \<longrightarrow> p \<in> live v) \<and>
     (\<forall>i j p. i < MAXPROC \<longrightarrow> j < MAXPROC \<longrightarrow> activeProcs s i = Some p \<longrightarrow> activeProcs s j = Some p \<longrightarrow> i = j)"

definition tree_ok :: "nucleus \<Rightarrow> view \<Rightarrow> bool" where
  "tree_ok s v \<longleftrightarrow>
     (\<forall>c\<in>live v. \<forall>a. p_parent (pcbs s c) = Some a \<longleftrightarrow> a \<in> live v \<and> c \<in> set (v_kids v a)) \<and>
     (\<forall>a\<in>live v. set (v_kids v a) \<subseteq> live v) \<and> acyclic (child_rel v)"

definition pids_ok :: "nat set \<Rightarrow> nucleus \<Rightarrow> view \<Rightarrow> bool" where
  "pids_ok K s v \<longleftrightarrow>
     K \<subseteq> live v \<and> (\<forall>p\<in>K. p_pid (pcbs s p) = -1) \<and>
     (\<forall>p\<in>live v - K. p_pid (pcbs s p) \<noteq> 0 \<and> p_pid (pcbs s p) < next_pid s) \<and>
     inj_on (\<lambda>p. p_pid (pcbs s p)) (live v - K) \<and> 0 < next_pid s \<and> next_pid s \<le> 0x80000000"

definition sems_ok :: "nucleus \<Rightarrow> view \<Rightarrow> bool" where
  "sems_ok s v \<longleftrightarrow>
     (\<forall>p\<in>live v. (\<forall>k. p \<notin> set (v_blocked v k)) \<longrightarrow> p_semAdd (pcbs s p) = 0) \<and>
     (\<forall>k\<in>dev_range s. v_blocked v k \<noteq> [] \<longrightarrow> (\<exists>i<TOT_SEMS. k = devSem i s)) \<and>
     devSems_addr s \<noteq> 0 \<and> unat (devSems_addr s) + 4 * TOT_SEMS < 2 ^ 32"

definition core :: "nat set \<Rightarrow> nat set \<Rightarrow> nucleus \<Rightarrow> view \<Rightarrow> bool" where
  "core K X s v \<longleftrightarrow> krep (live v) s v \<and> places_ok X v \<and> table_ok K s v \<and> tree_ok s v \<and>
     pids_ok K s v \<and> sems_ok s v"

definition counts_ok :: "nucleus \<Rightarrow> view \<Rightarrow> bool" where
  "counts_ok s v \<longleftrightarrow> processCount s = of_nat (card (live v)) \<and>
     softBlockCount s = of_nat (card (soft_blocked s v))"

definition kinv :: "nucleus \<Rightarrow> view \<Rightarrow> bool" where
  "kinv s v \<longleftrightarrow> core {} (set_option (currentProcess s)) s v \<and> counts_ok s v \<and> yieldedProcess s = None"

lemmas core_defs = places_ok_def table_ok_def tree_ok_def pids_ok_def sems_ok_def

section \<open>Addresses of the device semaphores\<close>

lemma devSem_cong: "devSems_addr s' = devSems_addr s \<Longrightarrow> devSem i s' = devSem i s"
  by (simp add: devSem_def)

lemma unat_devSem:
  assumes "sems_ok s v" and "i \<le> TOT_SEMS"
  shows "unat (devSem i s) = unat (devSems_addr s) + 4 * i"
proof -
  let ?b = "unat (devSems_addr s)"
  have lt: "?b + 4 * i < 2 ^ 32" using assms by (simp add: sems_ok_def)
  have "devSem i s = of_nat (?b + 4 * i)" by (simp add: devSem_def)
  then show ?thesis using lt by (simp only: unat_of_nat) (simp add: take_bit_nat_eq_self)
qed

lemma devSem_inject:
  assumes "sems_ok s v" and "i \<le> TOT_SEMS" "j \<le> TOT_SEMS"
  shows "devSem i s = devSem j s \<longleftrightarrow> i = j"
  using unat_devSem [OF assms(1,2)] unat_devSem [OF assms(1,3)]
  by (metis add_left_cancel mult_cancel1 zero_neq_numeral)

lemma devSem_in_range:
  assumes "sems_ok s v" and "i < TOT_SEMS"
  shows "devSem i s \<in> dev_range s" and "devSem i s \<noteq> 0"
proof -
  have "unat (devSems_addr s) \<noteq> 0"
    using assms(1) by (simp add: sems_ok_def unat_eq_0)
  then show "devSem i s \<noteq> 0"
    using unat_devSem [OF assms(1), of i] assms(2) by (metis add_is_0 less_imp_le unat_eq_0)
  show "devSem i s \<in> dev_range s"
    using unat_devSem [OF assms(1), of i] unat_devSem [OF assms(1), of 0]
      unat_devSem [OF assms(1), of TOT_SEMS] assms(2)
    by (simp add: dev_range_def word_le_nat_alt word_less_nat_alt)
qed

lemma isDeviceSemaphore_devSem:
  assumes "sems_ok s v" and "i < TOT_SEMS"
  shows "isDeviceSemaphore (devSem i s) s \<longleftrightarrow> i \<noteq> PSEUDOCLK_SEM"
proof -
  have "unat (devSem i s - devSem 0 s) = 4 * i"
  proof -
    have "devSem 0 s \<le> devSem i s"
      using devSem_in_range [OF assms] by (simp add: dev_range_def)
    then show ?thesis
      using unat_devSem [OF assms(1), of i] unat_devSem [OF assms(1), of 0] assms(2)
      by (simp add: unat_sub)
  qed
  then show ?thesis
    using devSem_in_range [OF assms]
    by (auto simp: isDeviceSemaphore_def Let_def dev_range_def)
qed

lemma isDeviceSemaphore_outside: "k \<notin> dev_range s \<Longrightarrow> \<not> isDeviceSemaphore k s"
  by (auto simp: isDeviceSemaphore_def dev_range_def Let_def)

section \<open>What the invariant does not depend on\<close>

lemma core_cong:
  assumes C: "core K X s v" and "lmem s' = lmem s" "s_key s' = s_key s" "next_pid s' = next_pid s"
    and "activeProcs s' = activeProcs s" "devSems_addr s' = devSems_addr s"
    and "\<And>p. p_parent (pcbs s' p) = p_parent (pcbs s p)"
    and "\<And>p. p_semAdd (pcbs s' p) = p_semAdd (pcbs s p)"
    and "\<And>p. p_pid (pcbs s' p) = p_pid (pcbs s p)"
  shows "core K X s' v"
proof -
  have "krep (live v) s' v" using C assms(2,3,8) krep_cong [of "live v" s v s'] by (simp add: core_def)
  with C show ?thesis
    using assms by (simp add: core_def core_defs devSem_def dev_range_def)
qed

lemma pids_cong:
  assumes "pids_ok K s v" and "next_pid s' = next_pid s" "live v' = live v"
    and "\<And>p. p_pid (pcbs s' p) = p_pid (pcbs s p)"
  shows "pids_ok K s' v'"
  using assms by (simp add: pids_ok_def)

lemma tree_cong:
  assumes "tree_ok s v" and "live v' = live v" "v_kids v' = v_kids v"
    and "\<And>p. p_parent (pcbs s' p) = p_parent (pcbs s p)"
  shows "tree_ok s' v'"
  using assms by (simp add: tree_ok_def child_rel_def)

lemma counts_cong:
  assumes "counts_ok s v" and "processCount s' = processCount s" "softBlockCount s' = softBlockCount s"
    and "devSems_addr s' = devSems_addr s"
  shows "counts_ok s' v"
  using assms by (simp add: counts_ok_def soft_blocked_def devSem_def)

lemma soft_cong: "devSems_addr s' = devSems_addr s \<Longrightarrow> soft_blocked s' v = soft_blocked s v"
  by (simp add: soft_blocked_def devSem_def)

lemma coreD:
  assumes "core K X s v"
  shows "krep (live v) s v" "places_ok X v" "table_ok K s v" "tree_ok s v" "pids_ok K s v" "sems_ok s v"
  using assms by (auto simp: core_def)

lemma live_iff:
  "places_ok X v \<Longrightarrow> krep (live v) s v \<Longrightarrow>
   p \<in> live v \<longleftrightarrow> p \<in> set (v_ready v) \<or> (\<exists>k. p \<in> set (v_blocked v k)) \<or> p \<in> X"
  unfolding places_ok_def live_def unqueued_def
  using krep_disjoint(1,2) [of "live v" s v p, unfolded live_def] by (auto simp: live_def)

lemma finite_live [simp]: "finite (live v)"
  by (simp add: live_def)

lemma card_live_le: "card (live v) \<le> MAXPROC"
proof -
  have "card (live v) \<le> card {..<MAXPROC}" by (rule card_mono) (auto simp: live_def)
  then show ?thesis by simp
qed

lemma soft_blocked_live:
  assumes "core K X s v"
  shows "soft_blocked s v \<subseteq> live v" and "finite (soft_blocked s v)"
    and "card (soft_blocked s v) \<le> MAXPROC"
proof -
  show sub: "soft_blocked s v \<subseteq> live v"
    using live_iff [OF coreD(2,1) [OF assms]] by (auto simp: soft_blocked_def)
  then show "finite (soft_blocked s v)" by (rule finite_subset) simp
  show "card (soft_blocked s v) \<le> MAXPROC"
    using card_mono [OF finite_live sub] card_live_le [of v] by simp
qed

section \<open>The queue operations keep the core\<close>

lemma places_insert_ready:
  "places_ok X v \<Longrightarrow> p \<in> X \<Longrightarrow> set r = insert p (set (v_ready v)) \<Longrightarrow>
   places_ok (X - {p}) (v\<lparr>v_ready := r\<rparr>)"
  by (auto simp: places_ok_def unqueued_def)

lemma live_update [simp]:
  "live (v\<lparr>v_ready := r\<rparr>) = live v" "live (v\<lparr>v_blocked := b\<rparr>) = live v" "live (v\<lparr>v_kids := c\<rparr>) = live v"
  by (simp_all add: live_def)

lemma child_rel_update [simp]:
  "child_rel (v\<lparr>v_ready := r\<rparr>) = child_rel v" "child_rel (v\<lparr>v_blocked := b\<rparr>) = child_rel v"
  by (simp_all add: child_rel_def)

lemma core_ready_update:
  assumes C: "core K X s v" and m: "krep (live v) (s\<lparr>lmem := m\<rparr>) (v\<lparr>v_ready := r\<rparr>)"
    and P: "places_ok X' (v\<lparr>v_ready := r\<rparr>)"
  shows "core K X' (s\<lparr>lmem := m\<rparr>) (v\<lparr>v_ready := r\<rparr>)"
  using C m P by (simp add: core_def table_ok_def tree_ok_def pids_ok_def sems_ok_def devSem_def dev_range_def)

lemma core_insert_ready:
  assumes C: "core K X s v" and p: "p \<in> X"
  shows "\<exists>m. insertProcQ readyQueue p s = Some (s\<lparr>lmem := m\<rparr>) \<and>
    core K (X - {p}) (s\<lparr>lmem := m\<rparr>) (v\<lparr>v_ready := ins_prio (prio_of s) p (v_ready v)\<rparr>)"
proof -
  note P = coreD(2) [OF C]
  have "unqueued v p" using P p by (simp add: places_ok_def)
  from krep_insert_ready [OF coreD(1) [OF C] this] core_ready_update [OF C] places_insert_ready [OF P p]
  show ?thesis by fastforce
qed

lemma core_append_ready:
  assumes C: "core K X s v" and p: "p \<in> X"
  shows "core K (X - {p}) (s\<lparr>lmem := list_add_tail (p_list p) readyQueue (lmem s)\<rparr>)
    (v\<lparr>v_ready := v_ready v @ [p]\<rparr>)"
proof -
  note P = coreD(2) [OF C]
  have "unqueued v p" using P p by (simp add: places_ok_def)
  from krep_append_ready [OF coreD(1) [OF C] this] core_ready_update [OF C] places_insert_ready [OF P p]
  show ?thesis by simp
qed

lemma core_take_ready:
  assumes C: "core K X s v" and v: "v_ready v = p # ps"
  shows "\<exists>m. removeProcQ readyQueue s = Some (Some p, s\<lparr>lmem := m\<rparr>) \<and>
    core K (insert p X) (s\<lparr>lmem := m\<rparr>) (v\<lparr>v_ready := ps\<rparr>)"
proof -
  note R = coreD(1) [OF C]
  have d: "p \<notin> set (v_free v)" "p \<notin> set (v_blocked v k)" "p \<notin> set ps" for k
    using krep_disjoint(1,3) [OF R, of p] krep_distinct(2) [OF R] v by auto
  have "places_ok (insert p X) (v\<lparr>v_ready := ps\<rparr>)"
    using coreD(2) [OF C] v d by (auto simp: places_ok_def unqueued_def)
  then show ?thesis using krep_take_ready [OF R v] core_ready_update [OF C] by blast
qed

text \<open>Blocking and unblocking.\<close>

lemma core_block:
  assumes C: "core K X s v" and p: "p \<in> X" and k: "k \<noteq> 0"
    and dev: "k \<in> dev_range s \<Longrightarrow> \<exists>i<TOT_SEMS. k = devSem i s"
  shows "\<exists>m key. let s' = s\<lparr>pcbs := (pcbs s)(p := (pcbs s p)\<lparr>p_semAdd := k\<rparr>), lmem := m, s_key := key\<rparr>
    in insertBlocked k (Some p) s = Some (0, s') \<and>
      core K (X - {p}) s' (v\<lparr>v_blocked := (v_blocked v)(k := v_blocked v k @ [p])\<rparr>)"
proof -
  note P = coreD(2) [OF C]
  have u: "unqueued v p" and lt: "p < MAXPROC" "\<And>k q. q \<in> set (v_blocked v k) \<Longrightarrow> q < MAXPROC"
    using P p by (auto simp: places_ok_def)
  let ?v = "v\<lparr>v_blocked := (v_blocked v)(k := v_blocked v k @ [p])\<rparr>"
  have P': "places_ok (X - {p}) ?v" using P p by (auto simp: places_ok_def unqueued_def)
  obtain m key where ins: "insertBlocked k (Some p) s = Some (0, s\<lparr>pcbs := (pcbs s)(p := (pcbs s p)\<lparr>p_semAdd := k\<rparr>),
        lmem := m, s_key := key\<rparr>)"
    and R: "krep (live v) (s\<lparr>pcbs := (pcbs s)(p := (pcbs s p)\<lparr>p_semAdd := k\<rparr>), lmem := m, s_key := key\<rparr>) ?v"
    using krep_insert_blocked [OF coreD(1) [OF C] k u lt(1)] lt(2) unfolding Let_def by metis
  let ?s = "s\<lparr>pcbs := (pcbs s)(p := (pcbs s p)\<lparr>p_semAdd := k\<rparr>), lmem := m, s_key := key\<rparr>"
  have "table_ok K ?s ?v" using coreD(3) [OF C] by (simp add: table_ok_def)
  moreover have "tree_ok ?s ?v" by (rule tree_cong [OF coreD(4) [OF C]]) auto
  moreover have "pids_ok K ?s ?v" by (rule pids_cong [OF coreD(5) [OF C]]) auto
  moreover have "sems_ok ?s ?v"
  proof -
    have "p_semAdd (pcbs ?s q) = 0" if "q \<in> live v" "\<forall>k. q \<notin> set (v_blocked ?v k)" for q
      using that coreD(6) [OF C] by (auto simp: sems_ok_def split: if_splits)
    moreover have "\<exists>i<TOT_SEMS. k' = devSem i s" if "k' \<in> dev_range s" "v_blocked ?v k' \<noteq> []" for k'
      using that coreD(6) [OF C] dev by (auto simp: sems_ok_def split: if_splits)
    ultimately show ?thesis
      using coreD(6) [OF C] by (simp add: sems_ok_def devSem_def dev_range_def)
  qed
  ultimately have "core K (X - {p}) ?s ?v" using R P' by (simp add: core_def)
  with ins show ?thesis unfolding Let_def by blast
qed

lemma core_unblock:
  assumes C: "core K X s v" and p: "p \<in> set (v_blocked v k)"
    and b: "b = (v_blocked v)(k := remove1 p (v_blocked v k))"
    and R: "krep (live v) (s\<lparr>pcbs := (pcbs s)(p := (pcbs s p)\<lparr>p_semAdd := 0\<rparr>), lmem := m, s_key := key\<rparr>)
      (v\<lparr>v_blocked := b\<rparr>)"
  shows "core K (insert p X) (s\<lparr>pcbs := (pcbs s)(p := (pcbs s p)\<lparr>p_semAdd := 0\<rparr>), lmem := m, s_key := key\<rparr>)
    (v\<lparr>v_blocked := b\<rparr>)"
proof -
  note R0 = coreD(1) [OF C]
  have bl: "set (b k') = set (v_blocked v k') - {p}" for k'
    using krep_distinct(3) [OF R0] krep_disjoint(4) [OF R0 p, of k'] by (auto simp: b set_remove1_eq)
  have "places_ok (insert p X) (v\<lparr>v_blocked := b\<rparr>)"
    using coreD(2) [OF C] p krep_disjoint(2,3) [OF R0, of p]
    by (auto simp: places_ok_def unqueued_def bl)
  moreover have "sems_ok (s\<lparr>pcbs := (pcbs s)(p := (pcbs s p)\<lparr>p_semAdd := 0\<rparr>), lmem := m, s_key := key\<rparr>)
      (v\<lparr>v_blocked := b\<rparr>)"
  proof -
    have "v_blocked v k' \<noteq> []" if "b k' \<noteq> []" for k' using that by (auto simp: b split: if_splits)
    moreover have "p_semAdd (((pcbs s)(p := (pcbs s p)\<lparr>p_semAdd := 0\<rparr>)) q) = 0"
      if "q \<in> live v" "\<forall>k. q \<notin> set (b k)" for q
      using that coreD(6) [OF C] by (auto simp: sems_ok_def bl)
    ultimately show ?thesis
      using coreD(6) [OF C] by (simp add: sems_ok_def devSem_def dev_range_def)
  qed
  moreover have "tree_ok (s\<lparr>pcbs := (pcbs s)(p := (pcbs s p)\<lparr>p_semAdd := 0\<rparr>), lmem := m, s_key := key\<rparr>)
      (v\<lparr>v_blocked := b\<rparr>)" by (rule tree_cong [OF coreD(4) [OF C]]) auto
  moreover have "pids_ok K (s\<lparr>pcbs := (pcbs s)(p := (pcbs s p)\<lparr>p_semAdd := 0\<rparr>), lmem := m, s_key := key\<rparr>)
      (v\<lparr>v_blocked := b\<rparr>)" by (rule pids_cong [OF coreD(5) [OF C]]) auto
  ultimately show ?thesis
    using R coreD(3) [OF C] by (simp add: core_def table_ok_def)
qed

lemma core_remove_blocked:
  assumes C: "core K X s v" and v: "v_blocked v k = p # ps"
  shows "\<exists>m key. let s' = s\<lparr>pcbs := (pcbs s)(p := (pcbs s p)\<lparr>p_semAdd := 0\<rparr>), lmem := m, s_key := key\<rparr>
    in removeBlocked k s = Some (Some p, s') \<and>
      core K (insert p X) s' (v\<lparr>v_blocked := (v_blocked v)(k := ps)\<rparr>)"
proof -
  have p: "p \<in> set (v_blocked v k)" and b: "(v_blocked v)(k := ps) = (v_blocked v)(k := remove1 p (v_blocked v k))"
    using v by auto
  from krep_remove_blocked_some [OF coreD(1) [OF C] v] core_unblock [OF C p b]
  show ?thesis unfolding Let_def by blast
qed

lemma core_out_blocked:
  assumes C: "core K X s v" and p: "p \<in> set (v_blocked v k)"
  shows "\<exists>m key. let s' = s\<lparr>pcbs := (pcbs s)(p := (pcbs s p)\<lparr>p_semAdd := 0\<rparr>), lmem := m, s_key := key\<rparr>
    in outBlocked (Some p) s = Some (Some p, s') \<and>
      core K (insert p X) s' (v\<lparr>v_blocked := (v_blocked v)(k := remove1 p (v_blocked v k))\<rparr>)"
  using krep_out_blocked_some [OF coreD(1) [OF C] p] core_unblock [OF C p refl]
  unfolding Let_def by blast

section \<open>How many processes are soft-blocked\<close>

lemma soft_blocked_add:
  assumes C: "core K X s v" and p: "p \<in> X"
    and dev: "k \<in> dev_range s \<Longrightarrow> \<exists>i<TOT_SEMS. k = devSem i s"
  shows "card (soft_blocked s (v\<lparr>v_blocked := (v_blocked v)(k := v_blocked v k @ [p])\<rparr>)) =
    card (soft_blocked s v) + (if k \<in> dev_range s then 1 else 0)"
proof -
  note S = coreD(6) [OF C]
  have np: "p \<notin> soft_blocked s v"
    using coreD(2) [OF C] p by (auto simp: places_ok_def unqueued_def soft_blocked_def)
  have "soft_blocked s (v\<lparr>v_blocked := (v_blocked v)(k := v_blocked v k @ [p])\<rparr>) =
      (if k \<in> dev_range s then insert p (soft_blocked s v) else soft_blocked s v)"
    using dev devSem_in_range(1) [OF S] by (auto simp: soft_blocked_def)
  then show ?thesis using np soft_blocked_live(2) [OF C] by auto
qed

lemma soft_blocked_remove:
  assumes C: "core K X s v" and p: "p \<in> set (v_blocked v k)"
  shows "card (soft_blocked s (v\<lparr>v_blocked := (v_blocked v)(k := remove1 p (v_blocked v k))\<rparr>)) +
    (if k \<in> dev_range s then 1 else 0) = card (soft_blocked s v)"
proof -
  note R = coreD(1) [OF C] and S = coreD(6) [OF C]
  have bl: "set (((v_blocked v)(k := remove1 p (v_blocked v k))) k') = set (v_blocked v k') - {p}" for k'
    using krep_distinct(3) [OF R] krep_disjoint(4) [OF R p, of k'] by (auto simp: set_remove1_eq)
  have eq: "soft_blocked s (v\<lparr>v_blocked := (v_blocked v)(k := remove1 p (v_blocked v k))\<rparr>) =
      soft_blocked s v - {p}"
    by (auto simp: soft_blocked_def bl simp del: fun_upd_apply)
  have "p \<in> soft_blocked s v \<longleftrightarrow> k \<in> dev_range s"
  proof
    assume "p \<in> soft_blocked s v"
    then obtain i where "i < TOT_SEMS" "p \<in> set (v_blocked v (devSem i s))" by (auto simp: soft_blocked_def)
    then show "k \<in> dev_range s"
      using krep_disjoint(4) [OF R p] devSem_in_range(1) [OF S] by blast
  next
    assume k: "k \<in> dev_range s"
    have "v_blocked v k \<noteq> []" using p by auto
    then show "p \<in> soft_blocked s v" using k S p by (auto simp: sems_ok_def soft_blocked_def)
  qed
  then show ?thesis
    using soft_blocked_live(2) [OF C] card_Suc_Diff1 [of "soft_blocked s v" p] by (auto simp: eq)
qed

end
