(* ===== verification/Kernel_Create.thy ===== *)
theory Kernel_Create
  imports Kernel_Invariant
begin

text \<open>
  A new process enters the invariant: the allocation of its block together with its slot in
  \<open>activeProcs\<close>, which is always there, and its place in the process tree.
\<close>

lemma live_alloc:
  assumes "places_ok X v" and "v_free v = c # fs" and "distinct (v_free v)"
  shows "live (v\<lparr>v_free := fs, v_kids := ks\<rparr>) = insert c (live v)" and "c \<notin> live v"
  using assms by (auto simp: live_def places_ok_def)

text \<open>There are as many slots as blocks, so a free block means a free slot.\<close>

lemma slot_available:
  assumes T: "table_ok K s v" and c: "c < MAXPROC" "c \<notin> live v"
  shows "\<exists>i<MAXPROC. List.find (\<lambda>i. activeProcs s i = None) [0..<MAXPROC] = Some i \<and> activeProcs s i = None"
proof (cases "List.find (\<lambda>i. activeProcs s i = None) [0..<MAXPROC]")
  case None
  then have full: "activeProcs s i \<noteq> None" if "i < MAXPROC" for i
    using that by (simp add: find_None_iff)
  let ?f = "\<lambda>i. the (activeProcs s i)"
  have "inj_on ?f {..<MAXPROC}"
  proof (rule inj_onI)
    fix i j assume ij: "i \<in> {..<MAXPROC}" "j \<in> {..<MAXPROC}" "?f i = ?f j"
    then have "activeProcs s i = Some (?f i)" "activeProcs s j = Some (?f i)"
      using full [of i] full [of j] by auto
    with ij T show "i = j" unfolding table_ok_def by blast
  qed
  moreover have "?f ` {..<MAXPROC} \<subseteq> live v"
  proof
    fix q assume "q \<in> ?f ` {..<MAXPROC}"
    then obtain i where "i < MAXPROC" "q = ?f i" by auto
    with full [of i] have "activeProcs s i = Some q" by auto
    with T \<open>i < MAXPROC\<close> show "q \<in> live v" unfolding table_ok_def by blast
  qed
  ultimately have "card {..<MAXPROC} \<le> card (live v)" by (intro card_inj_on_le) auto
  also have "card (live v) < card {..<MAXPROC}"
  proof (rule psubset_card_mono)
    show "live v \<subset> {..<MAXPROC}" using c by (auto simp: live_def)
  qed simp
  finally show ?thesis by simp
next
  case (Some i)
  then have "i \<in> set [0..<MAXPROC]" "activeProcs s i = None"
    by (auto simp: find_Some_iff)
  with Some show ?thesis by auto
qed

lemma table_add:
  assumes T: "table_ok K s v" and i: "i < MAXPROC" "activeProcs s i = None" and l: "live v' = insert c (live v)"
    and c: "c \<notin> live v" and a: "activeProcs s' = (activeProcs s)(i := Some c)"
  shows "table_ok K s' v'"
proof -
  have nc: "activeProcs s j \<noteq> Some c" if "j < MAXPROC" for j
    using T that c unfolding table_ok_def by blast
  have "\<exists>j<MAXPROC. activeProcs s' j = Some p" if "p \<in> live v' - K" for p
  proof (cases "p = c")
    case True
    then show ?thesis using i(1) unfolding a by (intro exI [of _ i]) simp
  next
    case False
    then obtain j where "j < MAXPROC" "activeProcs s j = Some p"
      using T \<open>p \<in> live v' - K\<close> unfolding table_ok_def l by blast
    then show ?thesis using i(2) unfolding a by (intro exI [of _ j]) auto
  qed
  moreover have "p \<in> live v'" if "j < MAXPROC" "activeProcs s' j = Some p" for j p
    using T that unfolding table_ok_def l a by (auto split: if_splits)
  moreover have "j = k" if "j < MAXPROC" "k < MAXPROC" "activeProcs s' j = Some p" "activeProcs s' k = Some p"
    for j k p
    using T i nc that unfolding table_ok_def a by (auto split: if_splits)
  ultimately show ?thesis unfolding table_ok_def by blast
qed

lemma pids_alloc:
  assumes P: "pids_ok K s v" and l: "live v' = insert c (live v)" and c: "c \<notin> live v"
    and n: "next_pid s < 0x80000000" "next_pid s' = next_pid s + 1"
    and p: "\<And>q. p_pid (pcbs s' q) = (if q = c then next_pid s else p_pid (pcbs s q))"
  shows "pids_ok K s' v'"
proof -
  have suc: "next_pid s < next_pid s + 1"
  proof -
    have "unat (next_pid s) < 0x80000000" using n(1) by (simp add: word_less_nat_alt)
    then have "unat (next_pid s + 1) = Suc (unat (next_pid s))"
      using unat_word_ariths(1) [of "next_pid s" 1] by simp
    then show ?thesis by (simp add: word_less_nat_alt)
  qed
  have K: "K \<subseteq> live v" "c \<notin> K" "live v' - K = insert c (live v - K)"
    using P c l by (auto simp: pids_ok_def)
  have "next_pid s + 1 \<le> 0x80000000" using n(1) inc_le by blast
  moreover have "p_pid (pcbs s q) < next_pid s + 1" if "q \<in> live v - K" for q
  proof -
    have "p_pid (pcbs s q) < next_pid s" using P that unfolding pids_ok_def by blast
    with suc show ?thesis by order
  qed
  moreover have "inj_on (\<lambda>q. p_pid (pcbs s' q)) (live v' - K)"
  proof -
    have "p_pid (pcbs s q) < next_pid s" if "q \<in> live v - K" for q
      using P that unfolding pids_ok_def by blast
    then have "p_pid (pcbs s q) \<noteq> next_pid s" if "q \<in> live v - K" for q
      using that by (metis order_less_irrefl)
    then show ?thesis using P c unfolding K(3) pids_ok_def by (force simp: inj_on_def p)
  qed
  moreover have "0 < next_pid s + 1" using suc by (metis word_gt_0 word_not_simps(1))
  moreover have "K \<subseteq> live v'" using K(1) l by auto
  ultimately show ?thesis
    using P K c suc n unfolding pids_ok_def by (auto simp: p)
qed

lemma core_alloc:
  assumes C: "core K X s v" and v: "v_free v = c # fs" and n: "next_pid s < 0x80000000"
  defines "s1 m \<equiv> s\<lparr>next_pid := next_pid s + 1, lmem := m, pcbs := (pcbs s)(c := new_pcb s c)\<rparr>"
    and "v1 \<equiv> v\<lparr>v_free := fs, v_kids := (v_kids v)(c := [])\<rparr>"
  shows "\<exists>m i. allocPcb s = Some (Some c, s1 m) \<and>
    List.find (\<lambda>i. activeProcs s i = None) [0..<MAXPROC] = Some i \<and>
    core K (insert c X) (s1 m\<lparr>activeProcs := (activeProcs s)(i := Some c)\<rparr>) v1"
proof -
  note R = coreD(1) [OF C] and P = coreD(2) [OF C] and T = coreD(4) [OF C]
  note l = live_alloc [OF P v krep_distinct(1) [OF R]]
  have l1: "live v1 = insert c (live v)" using l(1) by (simp add: v1_def)
  have cm: "c < MAXPROC" using P v by (simp add: places_ok_def)
  have cl: "childless (live v) v c" using T l(2) by (auto simp: childless_def tree_ok_def)
  obtain m where al: "allocPcb s = Some (Some c, s1 m)" and R1: "krep (live v1) (s1 m) v1"
    using krep_alloc_some [OF R v l(2) cl] unfolding s1_def v1_def l(1) by blast
  obtain i where i: "i < MAXPROC" "List.find (\<lambda>i. activeProcs s i = None) [0..<MAXPROC] = Some i"
      "activeProcs s i = None"
    using slot_available [OF coreD(3) [OF C] cm l(2)] by blast
  let ?s = "s1 m\<lparr>activeProcs := (activeProcs s)(i := Some c)\<rparr>"
  have "krep (live v1) ?s v1" by (rule krep_cong [OF R1]) auto
  moreover have "places_ok (insert c X) v1"
  proof -
    have "c \<in> set (v_free v)" using v by simp
    then have "c \<notin> set (v_ready v)" "c \<notin> set (v_blocked v k)" "c \<notin> set fs" for k
      using krep_disjoint(1,2) [OF R] krep_distinct(1) [OF R] v by auto
    then show ?thesis using P v by (auto simp: places_ok_def unqueued_def v1_def)
  qed
  moreover have "table_ok K ?s v1"
    by (rule table_add [OF coreD(3) [OF C] i(1,3) l1 l(2)]) simp
  moreover have "tree_ok ?s v1"
  proof -
    have "child_rel v1 = child_rel v"
      using l(2) unfolding child_rel_def l1 by (auto simp: v1_def split: if_splits)
    then show ?thesis
      using T l(2) unfolding tree_ok_def l1 by (auto simp: s1_def v1_def new_pcb_def split: if_splits)
  qed
  moreover have "pids_ok K ?s v1"
    by (rule pids_alloc [OF coreD(5) [OF C] l1 l(2) n]) (auto simp: s1_def new_pcb_def)
  moreover have "sems_ok ?s v1"
  proof -
    have "p_semAdd (pcbs ?s q) = 0" if "q \<in> live v1" "\<forall>k. q \<notin> set (v_blocked v1 k)" for q
      using that coreD(6) [OF C] unfolding l1 by (auto simp: sems_ok_def v1_def s1_def new_pcb_def)
    then show ?thesis
      using coreD(6) [OF C] by (simp add: sems_ok_def devSem_def dev_range_def s1_def v1_def)
  qed
  ultimately show ?thesis using al i(2) unfolding core_def by blast
qed

text \<open>A process without parent and children becomes the last child of another one.\<close>

lemma core_insert_child:
  assumes C: "core K X s v" and p: "p \<in> live v" "c \<in> live v" "p \<noteq> c"
    and c: "p_parent (pcbs s c) = None" "v_kids v c = []"
  defines "s1 m \<equiv> s\<lparr>pcbs := (pcbs s)(c := (pcbs s c)\<lparr>p_parent := Some p\<rparr>), lmem := m\<rparr>"
    and "v1 \<equiv> v\<lparr>v_kids := (v_kids v)(p := v_kids v p @ [c])\<rparr>"
  shows "\<exists>m. insertChild p c s = s1 m \<and> core K X (s1 m) v1"
proof -
  note T = coreD(4) [OF C]
  have orphan: "c \<notin> set (v_kids v a)" if "a \<in> live v" for a
    using T p(2) c(1) that by (auto simp: tree_ok_def)
  then have cl: "childless (live v) v c" by (simp add: childless_def)
  obtain m where ins: "insertChild p c s = s1 m" and R1: "krep (live v) (s1 m) v1"
    using krep_insert_child [OF coreD(1) [OF C] p(1) cl] unfolding s1_def v1_def by blast
  have l1: "live v1 = live v" by (simp add: v1_def live_def)
  have rel: "child_rel v1 = insert (p, c) (child_rel v)"
    using p by (auto simp: child_rel_def l1 v1_def split: if_splits)
  have "(c, p) \<notin> (child_rel v)\<^sup>*"
  proof
    assume "(c, p) \<in> (child_rel v)\<^sup>*"
    then show False
      by (cases rule: converse_rtranclE) (use p c(2) in \<open>auto simp: child_rel_def\<close>)
  qed
  then have acyc: "acyclic (child_rel v1)"
    using T by (simp add: rel acyclic_insert tree_ok_def)
  have "tree_ok (s1 m) v1"
  proof -
    have "p_parent (pcbs (s1 m) q) = Some a \<longleftrightarrow> a \<in> live v \<and> q \<in> set (v_kids v1 a)"
      if "q \<in> live v" for q a
      using T that p orphan unfolding tree_ok_def by (auto simp: s1_def v1_def)
    moreover have "set (v_kids v1 a) \<subseteq> live v" if "a \<in> live v" for a
      using T that p unfolding tree_ok_def by (auto simp: v1_def)
    ultimately show ?thesis using acyc unfolding tree_ok_def l1 by blast
  qed
  moreover have "pids_ok K (s1 m) v1" by (rule pids_cong [OF coreD(5) [OF C]]) (auto simp: s1_def l1)
  moreover have "places_ok X v1" using coreD(2) [OF C] by (simp add: places_ok_def unqueued_def v1_def)
  moreover have "table_ok K (s1 m) v1" using coreD(3) [OF C] l1 by (simp add: table_ok_def s1_def)
  moreover have "sems_ok (s1 m) v1"
    using coreD(6) [OF C] l1 by (auto simp: sems_ok_def devSem_def dev_range_def s1_def v1_def)
  ultimately show ?thesis using ins R1 l1 unfolding core_def by auto
qed

end
