(* ===== verification/Kernel_Terminate.thy ===== *)
theory Kernel_Terminate
  imports Kernel_Invariant
begin

text \<open>
  Process termination. \<open>terminateProcess\<close> ends on every state of the invariant and removes exactly
  the process and its descendants: from the queues, the tree, the table and the counters; the
  semaphore of a process that was blocked gets its unit back unless the kernel owns it.
\<close>

section \<open>The families of a view\<close>

definition below :: "view \<Rightarrow> nat \<Rightarrow> nat set" where
  "below v p = (child_rel v)\<^sup>+ `` {p}"

definition family :: "view \<Rightarrow> nat \<Rightarrow> nat set" where
  "family v p = (child_rel v)\<^sup>* `` {p}"

lemma family_below: "family v p = insert p (below v p)"
  by (auto simp: family_def below_def rtrancl_eq_or_trancl)

lemma tree_below:
  assumes "tree_ok s v"
  shows "p \<notin> below v p" and "below v p \<subseteq> live v"
proof -
  show "p \<notin> below v p" using assms by (auto simp: tree_ok_def below_def acyclic_def)
  have "(child_rel v) `` A \<subseteq> live v" for A
    using assms by (auto simp: tree_ok_def child_rel_def)
  then show "below v p \<subseteq> live v"
    unfolding below_def by (auto simp: trancl_unfold_right)
qed

section \<open>What a termination leaves behind\<close>

definition term_frame :: "nucleus \<Rightarrow> nucleus \<Rightarrow> bool" where
  "term_frame s s' \<longleftrightarrow> s' = s\<lparr>lmem := lmem s', pcbs := pcbs s', s_key := s_key s',
     processCount := processCount s', softBlockCount := softBlockCount s',
     currentProcess := currentProcess s', activeProcs := activeProcs s', mem := mem s'\<rparr>"

lemma term_frame_sel:
  assumes "term_frame s s'"
  shows "next_pid s' = next_pid s" "devSems_addr s' = devSems_addr s" "bios_state s' = bios_state s"
    "yieldedProcess s' = yieldedProcess s" "tod_reads s' = tod_reads s" "tod s' = tod s"
    "startTOD s' = startTOD s" "support_mem s' = support_mem s" "state_mem s' = state_mem s"
  by (subst assms [unfolded term_frame_def], simp)+

lemma term_frame_refl [simp]: "term_frame s s"
  by (simp add: term_frame_def)

lemma term_frame_trans: "term_frame s t \<Longrightarrow> term_frame t u \<Longrightarrow> term_frame s u"
  unfolding term_frame_def by (cases s, cases t, cases u) simp

definition without :: "nat set \<Rightarrow> nat list \<Rightarrow> nat list" where
  "without D = filter (\<lambda>p. p \<notin> D)"

definition killed :: "nat set \<Rightarrow> nucleus \<Rightarrow> view \<Rightarrow> nucleus \<Rightarrow> view \<Rightarrow> bool" where
  "killed D s v s' v' \<longleftrightarrow>
     live v' = live v - D \<and> v_ready v' = without D (v_ready v) \<and>
     (\<forall>k. v_blocked v' k = without D (v_blocked v k)) \<and>
     (\<forall>a\<in>live v'. v_kids v' a = without D (v_kids v a)) \<and>
     (\<forall>q. q \<notin> D \<longrightarrow> pcbs s' q = pcbs s q) \<and>
     currentProcess s' = (case currentProcess s of None \<Rightarrow> None | Some p \<Rightarrow> if p \<in> D then None else Some p) \<and>
     (\<forall>a. mem s' a = (if a \<in> dev_range s then mem s a
        else mem s a + of_nat (length (filter (\<lambda>p. p \<in> D) (v_blocked v a))))) \<and>
     term_frame s s'"

lemma without_Nil [simp]: "without D [] = []"
  by (simp add: without_def)

lemma without_without: "without E (without D ps) = without (D \<union> E) ps"
  by (induction ps) (auto simp: without_def)

lemma without_single: "distinct ps \<Longrightarrow> without {p} ps = remove1 p ps"
  by (induction ps) (auto simp: without_def remove1_idem filter_id_conv)

lemma set_without [simp]: "set (without D ps) = set ps - D"
  by (auto simp: without_def)

lemma without_id: "set ps \<inter> D = {} \<Longrightarrow> without D ps = ps"
  by (auto simp: without_def filter_id_conv)

lemma killed_count:
  "length (filter (\<lambda>p. p \<in> D) ps) + length (filter (\<lambda>p. p \<in> E) (without D ps)) =
   length (filter (\<lambda>p. p \<in> D \<or> p \<in> E) ps)"
  by (induction ps) (auto simp: without_def)

lemma killed_trans:
  assumes 1: "killed D s v t w" and 2: "killed E t w u x"
  shows "killed (D \<union> E) s v u x"
proof -
  have fr: "term_frame s t" "term_frame t u" using 1 2 by (auto simp: killed_def)
  have dev: "dev_range t = dev_range s"
    using term_frame_sel(2) [OF fr(1)] by (simp add: dev_range_def devSem_def)
  have bl: "v_blocked w k = without D (v_blocked v k)" for k using 1 by (simp add: killed_def)
  have "mem u a = (if a \<in> dev_range s then mem s a
      else mem s a + of_nat (length (filter (\<lambda>p. p \<in> D \<union> E) (v_blocked v a))))" for a
  proof -
    have "mem u a = (if a \<in> dev_range s then mem t a
        else mem t a + of_nat (length (filter (\<lambda>p. p \<in> E) (v_blocked w a))))"
      using 2 by (simp add: killed_def dev)
    moreover have "mem t a = (if a \<in> dev_range s then mem s a
        else mem s a + of_nat (length (filter (\<lambda>p. p \<in> D) (v_blocked v a))))"
      using 1 by (simp add: killed_def)
    ultimately show ?thesis
      by (simp add: bl killed_count add.assoc flip: of_nat_add)
  qed
  moreover have "live x = live v - (D \<union> E)" using 1 2 by (auto simp: killed_def)
  moreover have "v_kids x a = without (D \<union> E) (v_kids v a)" if "a \<in> live x" for a
    using 1 2 that unfolding killed_def without_without [symmetric] by simp
  ultimately show ?thesis
    using 1 2 term_frame_trans [OF fr] unfolding killed_def
    by (simp add: without_without split: option.splits)
qed

section \<open>The steps of one termination\<close>

lemma krep_kids_cong:
  "krep C s v \<Longrightarrow> (\<And>a. a \<in> C \<Longrightarrow> ks a = v_kids v a) \<Longrightarrow> krep C s (v\<lparr>v_kids := ks\<rparr>)"
  by (auto simp: krep_def klists_def)

lemma core_mark:
  assumes C: "core K X s v" and p: "p \<in> live v"
  shows "core (insert p K) X (upd_pcb p (\<lambda>q. q\<lparr>p_pid := -1\<rparr>) s) v"
proof -
  let ?s = "upd_pcb p (\<lambda>q. q\<lparr>p_pid := -1\<rparr>) s"
  have "krep (live v) ?s v" by (rule krep_cong [OF coreD(1) [OF C]]) auto
  moreover have "table_ok (insert p K) ?s v" using coreD(3) [OF C] by (simp add: table_ok_def)
  moreover have "tree_ok ?s v" by (rule tree_cong [OF coreD(4) [OF C]]) auto
  moreover have "pids_ok (insert p K) ?s v"
  proof -
    have "live v - insert p K \<subseteq> live v - K" by auto
    then have "inj_on (\<lambda>q. p_pid (pcbs s q)) (live v - insert p K)"
      using coreD(5) [OF C] inj_on_subset unfolding pids_ok_def by blast
    then have "inj_on (\<lambda>q. p_pid (pcbs ?s q)) (live v - insert p K)" by (simp add: inj_on_def)
    then show ?thesis using coreD(5) [OF C] p by (simp add: pids_ok_def)
  qed
  moreover have "sems_ok ?s v"
    using coreD(6) [OF C] by (simp add: sems_ok_def devSem_def dev_range_def)
  ultimately show ?thesis using coreD(2) [OF C] by (simp add: core_def)
qed

text \<open>\<open>outChild\<close>: the process leaves its parent.\<close>

lemma core_out_child:
  assumes C: "core K X s v" and p: "p \<in> live v"
  defines "s1 m \<equiv> s\<lparr>lmem := m, pcbs := (pcbs s)(p := (pcbs s p)\<lparr>p_parent := None\<rparr>)\<rparr>"
    and "v1 \<equiv> v\<lparr>v_kids := \<lambda>a. without {p} (v_kids v a)\<rparr>"
  shows "\<exists>m r. outChild (Some p) s = (r, s1 m) \<and> core K X (s1 m) v1"
proof -
  note R = coreD(1) [OF C] and T = coreD(4) [OF C]
  have step: "\<exists>m r. outChild (Some p) s = (r, s1 m) \<and> krep (live v) (s1 m) v1"
  proof (cases "p_parent (pcbs s p)")
    case None
    then have "p \<notin> set (v_kids v a)" if "a \<in> live v" for a using T p that by (auto simp: tree_ok_def)
    then have "krep (live v) s v1"
      unfolding v1_def by (intro krep_kids_cong [OF R] without_id) auto
    moreover have "s1 (lmem s) = s"
      using None unfolding s1_def by (cases "pcbs s p") (auto intro!: phase1.equality simp: fun_eq_iff)
    ultimately show ?thesis using outChild_none [of s p, OF None] by (intro exI [of _ "lmem s"]) simp
  next
    case (Some a)
    then have a: "a \<in> live v" "p \<in> set (v_kids v a)" using T p by (auto simp: tree_ok_def)
    have "p_parent (pcbs s p) \<noteq> None" using Some by simp
    from krep_out_child_some [OF R a this] obtain m where o: "outChild (Some p) s = (Some p, s1 m)"
      and R1: "krep (live v) (s1 m) (v\<lparr>v_kids := (v_kids v)(a := remove1 p (v_kids v a))\<rparr>)"
      unfolding s1_def by blast
    have "krep (live v) (s1 m) (v\<lparr>v_kids := (v_kids v)(a := remove1 p (v_kids v a)),
        v_kids := \<lambda>a. without {p} (v_kids v a)\<rparr>)"
    proof (rule krep_kids_cong [OF R1])
      fix b assume b: "b \<in> live v"
      show "without {p} (v_kids v b) = v_kids (v\<lparr>v_kids := (v_kids v)(a := remove1 p (v_kids v a))\<rparr>) b"
        using krep_distinct(4) [OF R a(1)] krep_disjoint(5) [OF R a(1) b a(2)]
        by (auto simp: without_single intro!: without_id)
    qed
    then show ?thesis using o by (auto simp: v1_def)
  qed
  then obtain m r where o: "outChild (Some p) s = (r, s1 m)" and R1: "krep (live v) (s1 m) v1" by blast
  have l1: "live v1 = live v" by (simp add: v1_def)
  have "child_rel v1 \<subseteq> child_rel v" by (auto simp: child_rel_def l1) (auto simp: v1_def)
  then have "acyclic (child_rel v1)" using T by (auto simp: tree_ok_def intro: acyclic_subset)
  then have "tree_ok (s1 m) v1"
    using T unfolding tree_ok_def l1 by (auto simp: s1_def v1_def split: if_splits)
  moreover have "pids_ok K (s1 m) v1" by (rule pids_cong [OF coreD(5) [OF C]]) (auto simp: s1_def l1)
  moreover have "places_ok X v1" using coreD(2) [OF C] by (simp add: places_ok_def unqueued_def v1_def)
  moreover have "table_ok K (s1 m) v1" using coreD(3) [OF C] l1 by (simp add: table_ok_def s1_def)
  moreover have "sems_ok (s1 m) v1"
    using coreD(6) [OF C] l1 by (auto simp: sems_ok_def devSem_def dev_range_def s1_def v1_def)
  ultimately show ?thesis using o R1 l1 unfolding core_def by metis
qed

lemma core_table_remove:
  assumes C: "core K X s v" and p: "p \<in> K"
  shows "\<exists>act. activeProcs_remove p s = s\<lparr>activeProcs := act\<rparr> \<and>
    core K X (s\<lparr>activeProcs := act\<rparr>) v \<and> (\<forall>i<MAXPROC. act i \<noteq> Some p)"
proof (cases "List.find (\<lambda>i. activeProcs s i = Some p) [0..<MAXPROC]")
  case None
  then have "\<forall>i<MAXPROC. activeProcs s i \<noteq> Some p" by (auto simp: find_None_iff)
  then show ?thesis
    using None C by (intro exI [of _ "activeProcs s"]) (simp add: activeProcs_remove_def)
next
  case (Some i)
  then have "i \<in> set [0..<MAXPROC]" "activeProcs s i = Some p" by (auto simp: find_Some_iff)
  then have i: "i < MAXPROC" "activeProcs s i = Some p" by auto
  let ?a = "(activeProcs s)(i := None)" and ?s = "s\<lparr>activeProcs := (activeProcs s)(i := None)\<rparr>"
  note T = coreD(3) [OF C]
  have gone: "?a j \<noteq> Some p" if "j < MAXPROC" for j
    using T i that unfolding table_ok_def by (auto split: if_splits)
  have "\<exists>j<MAXPROC. ?a j = Some q" if q: "q \<in> live v - K" for q
  proof -
    obtain j where "j < MAXPROC" "activeProcs s j = Some q" using T q unfolding table_ok_def by blast
    moreover have "j \<noteq> i" using calculation i p q by auto
    ultimately show ?thesis by (intro exI [of _ j]) simp
  qed
  moreover have "q \<in> live v" if "j < MAXPROC" "?a j = Some q" for j q
    using T that unfolding table_ok_def by (auto split: if_splits)
  moreover have "j = k" if "j < MAXPROC" "k < MAXPROC" "?a j = Some q" "?a k = Some q" for j k q
    using T that unfolding table_ok_def by (auto split: if_splits)
  ultimately have "table_ok K ?s v" unfolding table_ok_def by simp
  moreover have "krep (live v) ?s v" by (rule krep_cong [OF coreD(1) [OF C]]) auto
  ultimately have "core K X ?s v"
    using coreD(2,4-) [OF C] by (simp add: core_def tree_ok_def pids_ok_def sems_ok_def devSem_def dev_range_def)
  moreover have "activeProcs_remove p s = ?s" using Some by (simp add: activeProcs_remove_def)
  ultimately show ?thesis using gone by blast
qed

lemma kernel_semaphore:
  assumes S: "sems_ok s v" and k: "v_blocked v k \<noteq> []"
  shows "isDeviceSemaphore k s \<or> k = devSem PSEUDOCLK_SEM s \<longleftrightarrow> k \<in> dev_range s"
proof (cases "k \<in> dev_range s")
  case True
  then obtain i where "i < TOT_SEMS" "k = devSem i s" using S k by (auto simp: sems_ok_def)
  then show ?thesis using isDeviceSemaphore_devSem [OF S] True by auto
next
  case False
  then show ?thesis
    using isDeviceSemaphore_outside devSem_in_range(1) [OF S, of PSEUDOCLK_SEM] by auto
qed

lemma terminate_unblock_core:
  assumes C: "core K X s v" and p: "p \<in> live v" and n: "softBlockCount s = of_nat (card (soft_blocked s v))"
  defines "s1 m key n mm \<equiv> s\<lparr>lmem := m, pcbs := (pcbs s)(p := (pcbs s p)\<lparr>p_semAdd := 0\<rparr>), s_key := key,
      softBlockCount := n, mem := mm\<rparr>"
    and "v1 \<equiv> v\<lparr>v_blocked := \<lambda>k. without {p} (v_blocked v k)\<rparr>"
  shows "\<exists>m key n mm. terminate_unblock p s = Some (s1 m key n mm) \<and>
    core K (if \<exists>k. p \<in> set (v_blocked v k) then insert p X else X) (s1 m key n mm) v1 \<and>
    n = of_nat (card (soft_blocked s v1)) \<and>
    (\<forall>a. mm a = (if a \<in> dev_range s then mem s a
       else mem s a + of_nat (length (filter (\<lambda>q. q \<in> {p}) (v_blocked v a)))))"
proof (cases "\<exists>k. p \<in> set (v_blocked v k)")
  case False
  then have "p_semAdd (pcbs s p) = 0" using coreD(6) [OF C] p by (auto simp: sems_ok_def)
  moreover from this have "s1 (lmem s) (s_key s) (softBlockCount s) (mem s) = s"
    unfolding s1_def by (cases "pcbs s p") (auto intro!: nucleus.equality simp: fun_eq_iff)
  moreover have "v1 = v" using False by (simp add: v1_def without_id)
  moreover have "filter (\<lambda>q. q \<in> {p}) (v_blocked v a) = []" for a using False by (auto simp: filter_empty_conv)
  ultimately show ?thesis
    using C n False unfolding terminate_unblock_def
    by (intro exI [of _ "lmem s"] exI [of _ "s_key s"] exI [of _ "softBlockCount s"] exI [of _ "mem s"]) simp
next
  case True
  then obtain k where k: "p \<in> set (v_blocked v k)" by blast
  note R = coreD(1) [OF C] and S = coreD(6) [OF C]
  have dist: "distinct (v_blocked v a)" for a by (rule krep_distinct(3) [OF R])
  have other: "p \<notin> set (v_blocked v a)" if "a \<noteq> k" for a using krep_disjoint(4) [OF R k] that by blast
  have sem: "p_semAdd (pcbs s p) = k" by (rule krep_semAdd [OF R k])
  have k0: "k \<noteq> 0" using krep_key_0 [OF R] k by auto
  have v1: "v1 = v\<lparr>v_blocked := (v_blocked v)(k := remove1 p (v_blocked v k))\<rparr>"
  proof -
    have "without {p} (v_blocked v a) = ((v_blocked v)(k := remove1 p (v_blocked v k))) a" for a
    proof (cases "a = k")
      case False
      with other [OF this] show ?thesis by (simp add: without_id)
    qed (simp add: without_single [OF dist])
    then show ?thesis unfolding v1_def by presburger
  qed
  have cnt: "length (filter (\<lambda>q. q \<in> {p}) (v_blocked v a)) = (if a = k then 1 else 0)" for a
    using dist [of a] k other [of a] distinct_length_filter [of "v_blocked v a" "\<lambda>q. q = p"]
    by (auto simp: filter_empty_conv)
  obtain m key where o: "outBlocked (Some p) s =
      Some (Some p, s\<lparr>pcbs := (pcbs s)(p := (pcbs s p)\<lparr>p_semAdd := 0\<rparr>), lmem := m, s_key := key\<rparr>)"
    and C1: "core K (insert p X) (s\<lparr>pcbs := (pcbs s)(p := (pcbs s p)\<lparr>p_semAdd := 0\<rparr>), lmem := m, s_key := key\<rparr>) v1"
    using core_out_blocked [OF C k] unfolding v1 Let_def by blast
  let ?dev = "k \<in> dev_range s"
  let ?n = "if ?dev then softBlockCount s - 1 else softBlockCount s"
  let ?mm = "if ?dev then mem s else (mem s)(k := mem s k + 1)"
  have isdev: "isDeviceSemaphore k t \<or> k = devSem PSEUDOCLK_SEM t \<longleftrightarrow> ?dev"
    if "devSems_addr t = devSems_addr s" for t
  proof -
    have "v_blocked v k \<noteq> []" using k by auto
    from kernel_semaphore [OF S this] that show ?thesis
      by (simp add: isDeviceSemaphore_def devSem_def)
  qed
  have "terminate_unblock p s = Some (s1 m key ?n ?mm)"
    using o sem k0 isdev [of s] isdev [of "s\<lparr>pcbs := (pcbs s)(p := (pcbs s p)\<lparr>p_semAdd := 0\<rparr>), lmem := m, s_key := key\<rparr>"]
    by (simp add: terminate_unblock_def s1_def isDeviceSemaphore_def devSem_def)
  moreover have "core K (insert p X) (s1 m key ?n ?mm) v1"
    by (rule core_cong [OF C1]) (auto simp: s1_def)
  moreover have "?n = of_nat (card (soft_blocked s v1))"
  proof -
    have "card (soft_blocked s v) = card (soft_blocked s v1) + (if ?dev then 1 else 0)"
      using soft_blocked_remove [OF C k] unfolding v1 by simp
    then show ?thesis using n by simp
  qed
  moreover have "?mm a = (if a \<in> dev_range s then mem s a
      else mem s a + of_nat (length (filter (\<lambda>q. q \<in> {p}) (v_blocked v a))))" for a
    unfolding cnt by auto
  ultimately show ?thesis unfolding if_P [OF True] by (intro exI conjI allI)
qed

lemma core_out_ready:
  assumes C: "core K X s v"
  shows "\<exists>m r. outProcQ readyQueue p s = Some (r, s\<lparr>lmem := m\<rparr>) \<and>
    core K (if p \<in> set (v_ready v) then insert p X else X) (s\<lparr>lmem := m\<rparr>)
      (v\<lparr>v_ready := without {p} (v_ready v)\<rparr>)"
proof -
  note R = coreD(1) [OF C]
  have w: "without {p} (v_ready v) = remove1 p (v_ready v)"
    by (rule without_single [OF krep_distinct(2) [OF R]])
  have "places_ok (if p \<in> set (v_ready v) then insert p X else X) (v\<lparr>v_ready := without {p} (v_ready v)\<rparr>)"
    using coreD(2) [OF C] krep_disjoint(1,3) [OF R, of p] by (auto simp: places_ok_def unqueued_def)
  then show ?thesis
    using krep_out_ready [OF R, of p] core_ready_update [OF C] unfolding w by blast
qed

lemma core_free:
  assumes C: "core K X s v" and p: "p \<in> X" "p \<in> K" "p \<in> live v" and k: "v_kids v p = []"
    and orphan: "\<And>a. a \<in> live v \<Longrightarrow> p \<notin> set (v_kids v a)"
    and t: "\<And>i. i < MAXPROC \<Longrightarrow> activeProcs s i \<noteq> Some p"
  defines "v1 \<equiv> v\<lparr>v_free := v_free v @ [p]\<rparr>"
  shows "\<exists>m. freePcb (Some p) s = s\<lparr>lmem := m\<rparr> \<and> core (K - {p}) (X - {p}) (s\<lparr>lmem := m\<rparr>) v1"
proof -
  note R = coreD(1) [OF C] and P = coreD(2) [OF C]
  have u: "unqueued v p" using P p(1) by (simp add: places_ok_def)
  have l1: "live v1 = live v - {p}" by (auto simp: live_def v1_def)
  obtain m where f: "freePcb (Some p) s = s\<lparr>lmem := m\<rparr>" and R1: "krep (live v) (s\<lparr>lmem := m\<rparr>) v1"
    using krep_free [OF R u] unfolding v1_def by blast
  let ?s = "s\<lparr>lmem := m\<rparr>"
  have "krep (live v1) ?s v1" by (rule krep_shrink [OF R1]) (auto simp: l1)
  moreover have "places_ok (X - {p}) v1"
    using P u p(1) by (auto simp: places_ok_def unqueued_def v1_def)
  moreover have "table_ok (K - {p}) ?s v1"
    using coreD(3) [OF C] t p(2) unfolding table_ok_def l1 by auto
  moreover have "tree_ok ?s v1"
  proof -
    have "child_rel v1 \<subseteq> child_rel v" by (auto simp: child_rel_def l1) (auto simp: v1_def)
    then have "acyclic (child_rel v1)" using coreD(4) [OF C] by (auto simp: tree_ok_def intro: acyclic_subset)
    moreover have "p_parent (pcbs s c) \<noteq> Some p" if "c \<in> live v" for c
      using coreD(4) [OF C] that k by (auto simp: tree_ok_def)
    ultimately show ?thesis
      using coreD(4) [OF C] orphan unfolding tree_ok_def l1 by (auto simp: v1_def)
  qed
  moreover have "pids_ok (K - {p}) ?s v1"
  proof -
    have "live v1 - (K - {p}) = live v - K" using p(2) l1 by auto
    then show ?thesis using coreD(5) [OF C] by (auto simp: pids_ok_def l1)
  qed
  moreover have "sems_ok ?s v1"
    using coreD(6) [OF C] unfolding sems_ok_def l1 by (auto simp: devSem_def dev_range_def v1_def)
  ultimately show ?thesis using f unfolding core_def by blast
qed

text \<open>The end of a termination, after the children.\<close>

lemma terminate_finish_core:
  assumes C: "core (insert p K) X s v" and N: "counts_ok s v" and p: "p \<in> live v" "p \<notin> K"
    and k: "v_kids v p = []"
  shows "\<exists>s' v'. terminate_finish p s = Some s' \<and> core K (X - {p}) s' v' \<and> counts_ok s' v' \<and>
    killed {p} s v s' v'"
proof -
  obtain m1 r1 where o1: "outChild (Some p) s =
      (r1, s\<lparr>lmem := m1, pcbs := (pcbs s)(p := (pcbs s p)\<lparr>p_parent := None\<rparr>)\<rparr>)"
    and C1: "core (insert p K) X (s\<lparr>lmem := m1, pcbs := (pcbs s)(p := (pcbs s p)\<lparr>p_parent := None\<rparr>)\<rparr>)
      (v\<lparr>v_kids := \<lambda>a. without {p} (v_kids v a)\<rparr>)" (is "core _ _ ?s1 ?v1")
    using core_out_child [OF C p(1)] by blast
  obtain act where o2: "activeProcs_remove p ?s1 = ?s1\<lparr>activeProcs := act\<rparr>"
    and C2: "core (insert p K) X (?s1\<lparr>activeProcs := act\<rparr>) ?v1" (is "core _ _ ?s2 _")
    and act: "\<forall>i<MAXPROC. act i \<noteq> Some p"
    using core_table_remove [OF C1, of p] by blast
  let ?t3 = "\<lambda>m3 key n mm. ?s2\<lparr>lmem := m3,
      pcbs := (pcbs ?s2)(p := (pcbs ?s2 p)\<lparr>p_semAdd := 0\<rparr>), s_key := key, softBlockCount := n, mem := mm\<rparr>"
  let ?v3 = "?v1\<lparr>v_blocked := \<lambda>k. without {p} (v_blocked ?v1 k)\<rparr>"
  have "p \<in> live ?v1" using p by simp
  moreover have "softBlockCount ?s2 = of_nat (card (soft_blocked ?s2 ?v1))"
    using N by (simp add: counts_ok_def soft_blocked_def devSem_def)
  ultimately obtain m3 key n mm where o3: "terminate_unblock p ?s2 = Some (?t3 m3 key n mm)"
    and C3: "core (insert p K) (if \<exists>k. p \<in> set (v_blocked ?v1 k) then insert p X else X) (?t3 m3 key n mm) ?v3"
      (is "core _ ?X3 ?s3 _")
    and n: "n = of_nat (card (soft_blocked ?s2 ?v3))"
    and mm: "\<forall>a. mm a = (if a \<in> dev_range ?s2 then mem ?s2 a
       else mem ?s2 a + of_nat (length (filter (\<lambda>q. q \<in> {p}) (v_blocked ?v1 a))))"
    using terminate_unblock_core [OF C2] by blast
  obtain m4 r4 where o4: "outProcQ readyQueue p ?s3 = Some (r4, ?s3\<lparr>lmem := m4\<rparr>)"
    and C4: "core (insert p K) (if p \<in> set (v_ready ?v3) then insert p ?X3 else ?X3) (?s3\<lparr>lmem := m4\<rparr>)
      (?v3\<lparr>v_ready := without {p} (v_ready ?v3)\<rparr>)" (is "core _ ?X4 _ ?v4")
    using core_out_ready [OF C3, of p] by blast
  define s5 where "s5 = (if Some p = currentProcess (?s3\<lparr>lmem := m4\<rparr>)
    then ?s3\<lparr>lmem := m4, currentProcess := None\<rparr> else ?s3\<lparr>lmem := m4\<rparr>)"
  have C5: "core (insert p K) ?X4 s5 ?v4" by (rule core_cong [OF C4]) (auto simp: s5_def)
  have pX: "p \<in> ?X4"
    using live_iff [OF coreD(2,1) [OF C]] p(1) by auto
  have l4: "live ?v4 = live v" by (simp add: live_def)
  have "p \<in> live ?v4" "v_kids ?v4 p = []" "\<And>a. p \<notin> set (v_kids ?v4 a)"
    "\<And>i. i < MAXPROC \<Longrightarrow> activeProcs s5 i \<noteq> Some p"
    using p k act unfolding l4 by (auto simp: s5_def)
  from core_free [OF C5 pX _ this(1,2,3,4)] obtain m6 where o6: "freePcb (Some p) s5 = s5\<lparr>lmem := m6\<rparr>"
    and C6: "core (insert p K - {p}) (?X4 - {p}) (s5\<lparr>lmem := m6\<rparr>) (?v4\<lparr>v_free := v_free ?v4 @ [p]\<rparr>)"
      (is "core _ _ _ ?v6")
    by blast
  let ?s6 = "s5\<lparr>lmem := m6, processCount := processCount s5 - 1\<rparr>"
  have fin: "terminate_finish p s = Some ?s6"
    using o1 o2 o3 o4 o6 by (simp add: terminate_finish_def s5_def Let_def del: outChild.simps freePcb.simps split: if_splits)
  have X: "?X4 - {p} = X - {p}" and K: "insert p K - {p} = K" using p(2) by auto
  have "core K (X - {p}) ?s6 ?v6" by (rule core_cong [OF C6 [unfolded X K]]) auto
  moreover have l6: "live ?v6 = live v - {p}" by (auto simp: live_def)
  moreover have "counts_ok ?s6 ?v6"
  proof -
    have "card (live v - {p}) + 1 = card (live v)" 
      using card_Suc_Diff1 [OF finite_live p(1)] by (simp only: Suc_eq_plus1)
    then have "processCount s - 1 = of_nat (card (live v - {p}))"
      using N unfolding counts_ok_def by (metis add_diff_cancel_right' of_nat_1 of_nat_add)
    moreover have "soft_blocked ?s6 ?v6 = soft_blocked ?s2 ?v3"
      by (simp add: soft_blocked_def devSem_def s5_def)
    ultimately show ?thesis unfolding counts_ok_def l6 using n by (simp add: s5_def)
  qed
  moreover have "killed {p} s v ?s6 ?v6"
    unfolding killed_def l6 using mm
    by (auto simp: s5_def term_frame_def dev_range_def devSem_def split: option.splits)
  ultimately show ?thesis using fin by blast
qed

section \<open>Termination of the whole family\<close>

lemma killed_child_rel:
  assumes K: "killed D s v s' v'" and e: "(a, b) \<in> child_rel v" "a \<notin> D" "b \<notin> D"
  shows "(a, b) \<in> child_rel v'"
  using assms by (auto simp: killed_def child_rel_def)

lemma killed_child_rel_sub: "killed D s v s' v' \<Longrightarrow> child_rel v' \<subseteq> child_rel v"
  by (auto simp: killed_def child_rel_def)

text \<open>
  What is below \<open>p\<close> is the family of its first child and what is below \<open>p\<close> when this family is gone.
\<close>

lemma below_step:
  assumes e: "(p, c) \<in> child_rel v" and sub1: "child_rel v1 \<subseteq> child_rel v"
    and same: "\<And>a b. (a, b) \<in> child_rel v \<Longrightarrow> (a, b) \<noteq> (p, c) \<Longrightarrow> (a, b) \<in> child_rel v1"
    and K: "killed (family v1 c) s v1 s' v2" and p: "p \<notin> below v p"
  shows "family v1 c \<union> below v2 p = below v p" and "family v1 c = family v c"
proof -
  have keep: "(c, x) \<in> (child_rel v1)\<^sup>*" if "(c, x) \<in> (child_rel v)\<^sup>*" for x
    using that
  proof (induction rule: rtrancl_induct)
    case (step y z)
    have "y \<noteq> p"
    proof
      assume "y = p"
      then have "(p, p) \<in> (child_rel v)\<^sup>+" using e step(1) by (meson rtrancl_into_trancl2)
      with p show False by (simp add: below_def)
    qed
    then have "(y, z) \<in> child_rel v1" using same step(2) by auto
    with step.IH show ?case by (rule rtrancl_into_rtrancl)
  qed simp
  show fam: "family v1 c = family v c"
    using keep rtrancl_mono [OF sub1] by (auto simp: family_def)
  let ?D = "family v1 c"
  have sub: "family v c \<subseteq> below v p"
    using e by (auto simp: family_def below_def dest: rtrancl_into_trancl2)
  then have pD: "p \<notin> ?D" using p fam by auto
  show "?D \<union> below v2 p = below v p"
  proof
    have "?D \<subseteq> below v p" using sub fam by simp
    moreover have "below v2 p \<subseteq> below v p"
      using trancl_mono_subset [of "child_rel v2" "child_rel v"] killed_child_rel_sub [OF K] sub1
      by (auto simp: below_def)
    ultimately show "?D \<union> below v2 p \<subseteq> below v p" by blast
  next
    show "below v p \<subseteq> ?D \<union> below v2 p"
    proof
      fix x assume "x \<in> below v p"
      then have "(p, x) \<in> (child_rel v)\<^sup>+" by (simp add: below_def)
      then show "x \<in> ?D \<union> below v2 p"
      proof (induction rule: trancl_induct)
        case (base y)
        show ?case
        proof (cases "y = c")
          case True
          then show ?thesis by (simp add: family_def)
        next
          case False
          then have "(p, y) \<in> child_rel v1" using same base by auto
          then show ?thesis
            using killed_child_rel [OF K, of p y] pD by (auto simp: below_def)
        qed
      next
        case (step y z)
        show ?case
        proof (cases "y \<in> ?D \<or> z \<in> ?D")
          case True
          then show ?thesis
            using step(2) unfolding fam by (auto simp: family_def intro: rtrancl_into_rtrancl)
        next
          case False
          then have "y \<in> below v2 p" "(y, z) \<in> child_rel v1"
            using step same [OF step(2)] by (auto simp: family_def)
          then show ?thesis
            using killed_child_rel [OF K, of y z] False by (auto simp: below_def intro: trancl_into_trancl)
        qed
      qed
    qed
  qed
qed

lemma core_remove_child:
  assumes C: "core K X s v" and p: "p \<in> live v" and k: "v_kids v p = c # cs"
  defines "s1 m \<equiv> s\<lparr>lmem := m, pcbs := (pcbs s)(c := (pcbs s c)\<lparr>p_parent := None\<rparr>)\<rparr>"
    and "v1 \<equiv> v\<lparr>v_kids := (v_kids v)(p := cs)\<rparr>"
  shows "\<exists>m. removeChild (Some p) s = Some (Some c, s1 m) \<and> core K X (s1 m) v1"
proof -
  note R = coreD(1) [OF C] and T = coreD(4) [OF C]
  obtain m where o: "removeChild (Some p) s = Some (Some c, s1 m)" and R1: "krep (live v) (s1 m) v1"
    using krep_remove_child_some [OF R p k] unfolding s1_def v1_def by blast
  have c: "c \<in> set (v_kids v p)" "c \<notin> set cs" using k krep_distinct(4) [OF R p] by auto
  have other: "c \<notin> set (v_kids v a)" if "a \<in> live v" "a \<noteq> p" for a
    using krep_disjoint(5) [OF R p that(1) c(1)] that(2) by blast
  have l1: "live v1 = live v" by (simp add: v1_def)
  have kids: "set (v_kids v1 a) = set (v_kids v a) - {c}" if "a \<in> live v" for a
    using that c k other by (auto simp: v1_def)
  have "child_rel v1 \<subseteq> child_rel v" using kids by (auto simp: child_rel_def l1)
  then have "acyclic (child_rel v1)" using T by (auto simp: tree_ok_def intro: acyclic_subset)
  moreover have "p_parent (pcbs (s1 m) q) = Some a \<longleftrightarrow> a \<in> live v \<and> q \<in> set (v_kids v1 a)"
    if "q \<in> live v" for q a
    using T that kids [of a] unfolding tree_ok_def by (auto simp: s1_def)
  moreover have "set (v_kids v1 a) \<subseteq> live v" if "a \<in> live v" for a
    using T that kids [OF that] unfolding tree_ok_def by blast
  ultimately have "tree_ok (s1 m) v1" unfolding tree_ok_def l1 by blast
  moreover have "pids_ok K (s1 m) v1" by (rule pids_cong [OF coreD(5) [OF C]]) (auto simp: s1_def l1)
  moreover have "places_ok X v1" using coreD(2) [OF C] by (simp add: places_ok_def unqueued_def v1_def)
  moreover have "table_ok K (s1 m) v1" using coreD(3) [OF C] l1 by (simp add: table_ok_def s1_def)
  moreover have "sems_ok (s1 m) v1"
    using coreD(6) [OF C] l1 by (auto simp: sems_ok_def devSem_def dev_range_def s1_def v1_def)
  ultimately show ?thesis using o R1 l1 unfolding core_def by metis
qed

lemma killed_pre:
  assumes K: "killed D t w s' v'" and "\<And>q. q \<notin> D \<Longrightarrow> pcbs t q = pcbs s q" and fr: "term_frame s t"
    and "mem t = mem s" "currentProcess t = currentProcess s"
    and "live w = live v" "v_ready w = v_ready v" "v_blocked w = v_blocked v"
    and "\<And>a. a \<in> live v - D \<Longrightarrow> without D (v_kids w a) = without D (v_kids v a)"
  shows "killed D s v s' v'"
proof -
  have "dev_range t = dev_range s"
    using term_frame_sel(2) [OF fr] by (simp add: dev_range_def devSem_def)
  with assms term_frame_trans [OF fr, of s'] show ?thesis by (simp add: killed_def)
qed

text \<open>The job on \<open>s\<close> ends, with the processes \<open>D\<close> gone and the invariant intact.\<close>

definition ends :: "nat set \<Rightarrow> nat set \<Rightarrow> nat set \<Rightarrow> nucleus \<Rightarrow> view \<Rightarrow> nucleus option \<Rightarrow> bool" where
  "ends D K X s v r \<longleftrightarrow>
     (\<exists>s' v'. r = Some s' \<and> core K (X - D) s' v' \<and> counts_ok s' v' \<and> killed D s v s' v')"

lemma terminate_proc_step:
  assumes C: "core K X s v" and N: "counts_ok s v" and p: "p \<in> live v" and F: "family v p \<inter> K = {}"
    and IH: "ends (below v p) (insert p K) X (upd_pcb p (\<lambda>q. q\<lparr>p_pid := -1\<rparr>) s) v
      (terminate_job (Kids p) (upd_pcb p (\<lambda>q. q\<lparr>p_pid := -1\<rparr>) s))"
  shows "ends (family v p) K X s v (terminate_job (Proc p) s)"
proof -
  let ?s1 = "upd_pcb p (\<lambda>q. q\<lparr>p_pid := -1\<rparr>) s"
  obtain s2 v2 where j: "terminate_job (Kids p) ?s1 = Some s2"
    and C2: "core (insert p K) (X - below v p) s2 v2" and N2: "counts_ok s2 v2"
    and K2: "killed (below v p) ?s1 v s2 v2"
    using IH unfolding ends_def by blast
  note tb = tree_below(1) [OF coreD(4) [OF C], of p]
  have pK: "p \<notin> K" using F by (auto simp: family_below)
  have p2: "p \<in> live v2" using K2 p tb by (simp add: killed_def)
  have "set (v_kids v p) \<subseteq> below v p" using p by (auto simp: below_def child_rel_def)
  then have k2: "v_kids v2 p = []"
    using K2 p2 by (auto simp: killed_def without_def filter_empty_conv)
  obtain s3 v3 where f: "terminate_finish p s2 = Some s3" and C3: "core K (X - below v p - {p}) s3 v3"
    and N3: "counts_ok s3 v3" and K3: "killed {p} s2 v2 s3 v3"
    using terminate_finish_core [OF C2 N2 p2 pK k2] by blast
  have fam: "below v p \<union> {p} = family v p" by (auto simp: family_below)
  have "killed (family v p) s v s3 v3"
    using killed_trans [OF K2 K3] unfolding fam
    by (rule killed_pre) (auto simp: family_below term_frame_def)
  moreover have "terminate_job (Proc p) s = Some s3"
  proof -
    have "p_pid (pcbs s p) \<noteq> -1"
    proof -
      have "p_pid (pcbs s p) < next_pid s" "next_pid s \<le> 0x80000000"
        using coreD(5) [OF C] p pK by (auto simp: pids_ok_def)
      then have "p_pid (pcbs s p) < 0x80000000" by order
      then show ?thesis
        by (auto simp: word_less_nat_alt unsigned_minus_1_eq_mask mask_eq_exp_minus_1)
    qed
    then show ?thesis using j f by (simp add: terminate_job.simps [of "Proc p"])
  qed
  moreover have "X - below v p - {p} = X - family v p" by (auto simp: family_below)
  ultimately show ?thesis using C3 N3 unfolding ends_def by metis
qed

lemma terminate_kids_nil:
  assumes C: "core K X s v" and N: "counts_ok s v" and p: "p \<in> live v" and k: "v_kids v p = []"
  shows "ends (below v p) K X s v (terminate_job (Kids p) s)"
proof -
  have below: "below v p = {}"
    using k by (auto simp: below_def child_rel_def elim: converse_tranclE)
  have "terminate_job (Kids p) s = Some s"
    using krep_remove_child_none [OF coreD(1) [OF C] p k]
    by (simp add: terminate_job.simps [of "Kids p"])
  then show ?thesis
    using C N unfolding ends_def below by (auto simp: killed_def without_id split: option.splits)
qed

lemma terminate_kids_cons:
  assumes C: "core K X s v" and N: "counts_ok s v" and p: "p \<in> live v" "p \<in> K" and F: "below v p \<inter> K = {}"
    and k: "v_kids v p = c # cs"
    and IH1: "\<And>s' v'. core K X s' v' \<Longrightarrow> counts_ok s' v' \<Longrightarrow> c \<in> live v' \<Longrightarrow> family v' c \<inter> K = {} \<Longrightarrow>
      live v' = live v \<Longrightarrow> ends (family v' c) K X s' v' (terminate_job (Proc c) s')"
    and IH2: "\<And>X s' v'. core K X s' v' \<Longrightarrow> counts_ok s' v' \<Longrightarrow> p \<in> live v' \<Longrightarrow> below v' p \<inter> K = {} \<Longrightarrow>
      live v' \<subseteq> live v - {c} \<Longrightarrow> ends (below v' p) K X s' v' (terminate_job (Kids p) s')"
  shows "ends (below v p) K X s v (terminate_job (Kids p) s)"
proof -
  let ?v1 = "v\<lparr>v_kids := (v_kids v)(p := cs)\<rparr>"
  obtain m where o: "removeChild (Some p) s =
      Some (Some c, s\<lparr>lmem := m, pcbs := (pcbs s)(c := (pcbs s c)\<lparr>p_parent := None\<rparr>)\<rparr>)" (is "_ = Some (_, ?s1)")
    and C1: "core K X (s\<lparr>lmem := m, pcbs := (pcbs s)(c := (pcbs s c)\<lparr>p_parent := None\<rparr>)\<rparr>) ?v1"
    using core_remove_child [OF C p(1) k] by blast
  have N1: "counts_ok ?s1 ?v1" using N by (simp add: counts_ok_def soft_blocked_def devSem_def)
  have e: "(p, c) \<in> child_rel v" using p k by (simp add: child_rel_def)
  have c: "c \<in> live ?v1" using coreD(4) [OF C] p k by (auto simp: tree_ok_def)
  have sub: "child_rel ?v1 \<subseteq> child_rel v" by (auto simp: child_rel_def k split: if_splits)
  have same: "(a, b) \<in> child_rel ?v1" if "(a, b) \<in> child_rel v" "(a, b) \<noteq> (p, c)" for a b
    using that k by (auto simp: child_rel_def)
  note tb = tree_below(1) [OF coreD(4) [OF C], of p]
  have "family ?v1 c \<subseteq> below v p"
    unfolding family_def below_def using rtrancl_mono [OF sub] e by (auto dest: rtrancl_into_trancl2)
  then have F1: "family ?v1 c \<inter> K = {}" and p1: "p \<notin> family ?v1 c" using F tb by auto
  obtain s2 v2 where j1: "terminate_job (Proc c) ?s1 = Some s2" and C2: "core K (X - family ?v1 c) s2 v2"
    and N2: "counts_ok s2 v2" and K2: "killed (family ?v1 c) ?s1 ?v1 s2 v2"
    using IH1 [OF C1 N1 c F1] unfolding ends_def by auto
  note step = below_step(1) [OF e sub same K2 tb]
  have l2: "live v2 = live v - family ?v1 c" using K2 by (simp add: killed_def)
  have "p \<in> live v2" "below v2 p \<inter> K = {}" "live v2 \<subseteq> live v - {c}"
    using p p1 l2 F step by (auto simp: family_def)
  from IH2 [OF C2 N2 this] obtain s3 v3 where j2: "terminate_job (Kids p) s2 = Some s3"
    and C3: "core K (X - family ?v1 c - below v2 p) s3 v3" and N3: "counts_ok s3 v3"
    and K3: "killed (below v2 p) s2 v2 s3 v3"
    unfolding ends_def by blast
  have "c \<in> family ?v1 c" by (simp add: family_def)
  then have "killed (family ?v1 c) s v s2 v2"
    by (intro killed_pre [OF K2]) (auto simp: term_frame_def k without_def)
  then have "killed (below v p) s v s3 v3"
    using killed_trans [OF _ K3] step by metis
  moreover have "terminate_job (Kids p) s = Some s3"
    using o j1 j2 by (simp add: terminate_job.simps [of "Kids p" s])
  moreover have "X - family ?v1 c - below v2 p = X - below v p" using step by auto
  ultimately show ?thesis using C3 N3 unfolding ends_def by metis
qed

lemma terminate_ends:
  assumes "card (live v - K) \<le> n"
  shows "core K X s v \<Longrightarrow> counts_ok s v \<Longrightarrow> p \<in> live v \<Longrightarrow> family v p \<inter> K = {} \<Longrightarrow>
      ends (family v p) K X s v (terminate_job (Proc p) s)"
    and "core K X s v \<Longrightarrow> counts_ok s v \<Longrightarrow> p \<in> live v \<Longrightarrow> p \<in> K \<Longrightarrow> below v p \<inter> K = {} \<Longrightarrow>
      ends (below v p) K X s v (terminate_job (Kids p) s)"
  using assms
proof (induction n arbitrary: K X s v p rule: less_induct)
  case (less n)
  have proc: "ends (family v p) K X s v (terminate_job (Proc p) s)"
    if C: "core K X s v" and N: "counts_ok s v" and p: "p \<in> live v" and F: "family v p \<inter> K = {}"
      and n: "card (live v - K) \<le> n" for K X s v p
  proof (rule terminate_proc_step [OF C N p F])
    let ?s1 = "upd_pcb p (\<lambda>q. q\<lparr>p_pid := -1\<rparr>) s"
    have pK: "p \<notin> K" and F': "below v p \<inter> insert p K = {}"
      using F tree_below(1) [OF coreD(4) [OF C], of p] by (auto simp: family_below)
    have "live v - insert p K \<subset> live v - K" using p pK by auto
    then have "card (live v - insert p K) < card (live v - K)" by (intro psubset_card_mono) simp
    with n have "card (live v - insert p K) < n" by simp
    moreover have "counts_ok ?s1 v" by (rule counts_cong [OF N]) auto
    ultimately show "ends (below v p) (insert p K) X ?s1 v (terminate_job (Kids p) ?s1)"
      by (intro less.IH(2) [OF _ core_mark [OF C p] _ p _ F' order_refl]) simp_all
  qed
  have kids: "ends (below v p) K X s v (terminate_job (Kids p) s)"
    if C: "core K X s v" and N: "counts_ok s v" and p: "p \<in> live v" "p \<in> K" and F: "below v p \<inter> K = {}"
      and n: "card (live v - K) \<le> n" for K X s v p
  proof (cases "v_kids v p")
    case Nil
    then show ?thesis by (rule terminate_kids_nil [OF C N p(1)])
  next
    case (Cons c cs)
    have "(p, c) \<in> child_rel v" using p Cons by (simp add: child_rel_def)
    then have "c \<in> below v p" by (auto simp: below_def)
    then have cl: "c \<in> live v" "c \<notin> K"
      using tree_below(2) [OF coreD(4) [OF C]] F by auto
    show ?thesis
    proof (rule terminate_kids_cons [OF C N p F Cons])
      fix s' v' assume *: "core K X s' v'" "counts_ok s' v'" "c \<in> live v'" "family v' c \<inter> K = {}" "live v' = live v"
      show "ends (family v' c) K X s' v' (terminate_job (Proc c) s')"
        by (rule proc [OF *(1-4)]) (use n *(5) in simp)
    next
      fix X s' v' assume *: "core K X s' v'" "counts_ok s' v'" "p \<in> live v'" "below v' p \<inter> K = {}" "live v' \<subseteq> live v - {c}"
      have "live v' - K \<subset> live v - K" using *(5) cl by auto
      then have "card (live v' - K) < card (live v - K)" by (intro psubset_card_mono) simp
      with n have "card (live v' - K) < n" by simp
      then show "ends (below v' p) K X s' v' (terminate_job (Kids p) s')"
        by (rule less.IH(2) [OF _ *(1-3) p(2) *(4) order_refl])
    qed
  qed
  { case 1 then show ?case by (rule proc) }
  { case 2 then show ?case by (rule kids) }
qed

text \<open>The whole of \<open>terminateProcess\<close>.\<close>

lemma terminateProcess_core:
  assumes C: "core {} X s v" and N: "counts_ok s v" and p: "p \<in> live v"
  shows "\<exists>s' v'. terminateProcess (Some p) s = Some s' \<and> core {} (X - family v p) s' v' \<and>
    counts_ok s' v' \<and> killed (family v p) s v s' v'"
  using terminate_ends(1) [OF order_refl C N p] by (simp add: terminateProcess_def ends_def)

end
