(* ===== verification/Kernel_Handlers.thy ===== *)
theory Kernel_Handlers
  imports Kernel_Create Kernel_Terminate
begin

text \<open>
  Every activation of the Nucleus, by an interrupt, a system call or another exception, returns
  and keeps the invariant. \<open>outcome_ok\<close> says what each way of leaving the Nucleus means: the
  machine halts when no process is left, waits when nobody is ready and somebody waits for a
  device or the pseudo-clock, and panics in a real deadlock.
\<close>

section \<open>Outcomes\<close>

fun outcome_ok :: "outcome \<Rightarrow> nucleus \<Rightarrow> view \<Rightarrow> bool" where
  "outcome_ok (Ldst st) s v \<longleftrightarrow> currentProcess s \<noteq> None"
| "outcome_ok (Ldcxt sp sts pc) s v \<longleftrightarrow> currentProcess s \<noteq> None"
| "outcome_ok Halt s v \<longleftrightarrow> currentProcess s = None \<and> live v = {}"
| "outcome_ok Wait s v \<longleftrightarrow> currentProcess s = None \<and> v_ready v = [] \<and> soft_blocked s v \<noteq> {}"
| "outcome_ok Panic s v \<longleftrightarrow> currentProcess s = None \<and> v_ready v = [] \<and> live v \<noteq> {} \<and>
     (\<forall>p\<in>live v. \<exists>k. k \<notin> dev_range s \<and> p \<in> set (v_blocked v k))"

definition handled :: "(outcome \<times> nucleus) option \<Rightarrow> bool" where
  "handled r \<longleftrightarrow> (\<exists>out s' v'. r = Some (out, s') \<and> kinv s' v' \<and> outcome_ok out s' v')"

lemma handledI: "r = Some (out, s') \<Longrightarrow> kinv s' v' \<Longrightarrow> outcome_ok out s' v' \<Longrightarrow> handled r"
  by (auto simp: handled_def)

lemma kinvI:
  "core {} (set_option (currentProcess s)) s v \<Longrightarrow> counts_ok s v \<Longrightarrow> yieldedProcess s = None \<Longrightarrow> kinv s v"
  by (simp add: kinv_def)

lemma kinv_cong:
  assumes "kinv s v" and "lmem s' = lmem s" "s_key s' = s_key s" "next_pid s' = next_pid s"
    and "activeProcs s' = activeProcs s" "devSems_addr s' = devSems_addr s"
    and "processCount s' = processCount s" "softBlockCount s' = softBlockCount s"
    and "currentProcess s' = currentProcess s" "yieldedProcess s' = yieldedProcess s"
    and "\<And>p. p_parent (pcbs s' p) = p_parent (pcbs s p)"
    and "\<And>p. p_semAdd (pcbs s' p) = p_semAdd (pcbs s p)"
    and "\<And>p. p_pid (pcbs s' p) = p_pid (pcbs s p)"
  shows "kinv s' v"
  using assms core_cong [of "{}" _ s v s'] counts_cong [of s v s'] by (simp add: kinv_def)

section \<open>What the bookkeeping leaves alone\<close>

lemma updateCPUTime_sel [simp]:
  "lmem (updateCPUTime s) = lmem s" "s_key (updateCPUTime s) = s_key s"
  "next_pid (updateCPUTime s) = next_pid s" "activeProcs (updateCPUTime s) = activeProcs s"
  "devSems_addr (updateCPUTime s) = devSems_addr s" "processCount (updateCPUTime s) = processCount s"
  "softBlockCount (updateCPUTime s) = softBlockCount s" "currentProcess (updateCPUTime s) = currentProcess s"
  "yieldedProcess (updateCPUTime s) = yieldedProcess s" "bios_state (updateCPUTime s) = bios_state s"
  "mem (updateCPUTime s) = mem s" "state_mem (updateCPUTime s) = state_mem s"
  "support_mem (updateCPUTime s) = support_mem s"
  "p_parent (pcbs (updateCPUTime s) p) = p_parent (pcbs s p)"
  "p_semAdd (pcbs (updateCPUTime s) p) = p_semAdd (pcbs s p)"
  "p_pid (pcbs (updateCPUTime s) p) = p_pid (pcbs s p)"
  "p_prio (pcbs (updateCPUTime s) p) = p_prio (pcbs s p)"
  "p_s (pcbs (updateCPUTime s) p) = p_s (pcbs s p)"
  "p_supportStruct (pcbs (updateCPUTime s) p) = p_supportStruct (pcbs s p)"
  by (auto simp: updateCPUTime_def STCK_def split: option.splits)

lemma charge_interrupt_sel [simp]:
  "lmem (charge_interrupt s) = lmem s" "s_key (charge_interrupt s) = s_key s"
  "next_pid (charge_interrupt s) = next_pid s" "activeProcs (charge_interrupt s) = activeProcs s"
  "devSems_addr (charge_interrupt s) = devSems_addr s" "processCount (charge_interrupt s) = processCount s"
  "softBlockCount (charge_interrupt s) = softBlockCount s"
  "currentProcess (charge_interrupt s) = currentProcess s"
  "yieldedProcess (charge_interrupt s) = yieldedProcess s" "bios_state (charge_interrupt s) = bios_state s"
  "mem (charge_interrupt s) = mem s"
  "p_parent (pcbs (charge_interrupt s) p) = p_parent (pcbs s p)"
  "p_semAdd (pcbs (charge_interrupt s) p) = p_semAdd (pcbs s p)"
  "p_pid (pcbs (charge_interrupt s) p) = p_pid (pcbs s p)"
  "p_prio (pcbs (charge_interrupt s) p) = p_prio (pcbs s p)"
  by (auto simp: charge_interrupt_def STCK_def split: option.splits)

lemma save_state_sel [simp]:
  "lmem (save_state q st s) = lmem s" "s_key (save_state q st s) = s_key s"
  "next_pid (save_state q st s) = next_pid s" "activeProcs (save_state q st s) = activeProcs s"
  "devSems_addr (save_state q st s) = devSems_addr s" "processCount (save_state q st s) = processCount s"
  "softBlockCount (save_state q st s) = softBlockCount s"
  "currentProcess (save_state q st s) = currentProcess s"
  "yieldedProcess (save_state q st s) = yieldedProcess s" "bios_state (save_state q st s) = bios_state s"
  "mem (save_state q st s) = mem s" "state_mem (save_state q st s) = state_mem s"
  "p_parent (pcbs (save_state q st s) p) = p_parent (pcbs s p)"
  "p_semAdd (pcbs (save_state q st s) p) = p_semAdd (pcbs s p)"
  "p_pid (pcbs (save_state q st s) p) = p_pid (pcbs s p)"
  "p_prio (pcbs (save_state q st s) p) = p_prio (pcbs s p)"
  "p_time (pcbs (save_state q st s) p) = p_time (pcbs s p)"
  "p_supportStruct (pcbs (save_state q st s) p) = p_supportStruct (pcbs s p)"
  by (simp_all add: save_state_def)

lemma kinv_updateCPUTime: "kinv s v \<Longrightarrow> kinv (updateCPUTime s) v"
  by (erule kinv_cong) auto

lemma kinv_charge_interrupt: "kinv s v \<Longrightarrow> kinv (charge_interrupt s) v"
  by (erule kinv_cong) auto

lemma kinv_save_state: "kinv s v \<Longrightarrow> kinv (save_state q st s) v"
  by (erule kinv_cong) auto

lemma kinv_bios: "kinv s v \<Longrightarrow> kinv (s\<lparr>bios_state := b\<rparr>) v"
  by (erule kinv_cong) auto

lemma kinv_mem: "kinv s v \<Longrightarrow> kinv (s\<lparr>mem := m\<rparr>) v"
  by (erule kinv_cong) auto

section \<open>The scheduler\<close>

lemma small_count:
  assumes "n \<le> 20"
  shows "(of_nat n :: u32) = 0 \<longleftrightarrow> n = 0" and "0 < sint (of_nat n :: u32) \<longleftrightarrow> n \<noteq> 0"
proof -
  show "(of_nat n :: u32) = 0 \<longleftrightarrow> n = 0"
    using of_nat_u32_inject [of n 0] assms by simp
  have "sint (of_nat n :: u32) = int n"
    using assms by (simp add: signed_of_nat signed_take_bit_int_eq_self)
  then show "0 < sint (of_nat n :: u32) \<longleftrightarrow> n \<noteq> 0" by simp
qed

lemma kinv_dispatch:
  assumes "core {} {p} s v" and "counts_ok s v" and "yieldedProcess s = None"
  shows "handled (Some (dispatch p s))"
proof -
  obtain out s' where d: "dispatch p s = (out, s')" by force
  have "core {} {p} s' v"
    by (rule core_cong [OF assms(1)]) (use d in \<open>auto simp: dispatch_def STCK_def setTIMER_def Let_def\<close>)
  moreover have "counts_ok s' v"
    by (rule counts_cong [OF assms(2)]) (use d in \<open>auto simp: dispatch_def STCK_def setTIMER_def Let_def\<close>)
  moreover have "currentProcess s' = Some p" "yieldedProcess s' = None" "\<exists>st. out = Ldst st"
    using d assms(3) by (auto simp: dispatch_def STCK_def setTIMER_def Let_def)
  ultimately show ?thesis using d by (auto simp: handled_def kinv_def)
qed

lemma idle_frame:
  assumes "scheduler_idle s = (out, s')"
  shows "currentProcess s' = None" "pcbs s' = pcbs s" "mem s' = mem s" "yieldedProcess s' = yieldedProcess s"
    "lmem s' = lmem s" "s_key s' = s_key s" "next_pid s' = next_pid s" "activeProcs s' = activeProcs s"
    "devSems_addr s' = devSems_addr s" "processCount s' = processCount s" "softBlockCount s' = softBlockCount s"
  using assms by (auto simp: scheduler_idle_def Let_def split: if_splits)

lemma idle_outcome:
  assumes C: "core {} {} s v" and N: "counts_ok s v" and r: "v_ready v = []"
    and d: "scheduler_idle s = (out, s')"
  shows "outcome_ok out s' v"
proof -
  have soft: "soft_blocked s' v = soft_blocked s v" "dev_range s' = dev_range s"
    using idle_frame(9) [OF d] by (simp_all add: soft_blocked_def dev_range_def devSem_def)
  have live: "processCount s = 0 \<longleftrightarrow> live v = {}"
    using N small_count(1) [OF card_live_le, of v] by (simp add: counts_ok_def)
  have sb: "sint (softBlockCount s) > 0 \<longleftrightarrow> soft_blocked s v \<noteq> {}"
    using N small_count(2) [OF soft_blocked_live(3) [OF C]] soft_blocked_live(2) [OF C]
    by (simp add: counts_ok_def)
  have "\<exists>k. k \<notin> dev_range s \<and> p \<in> set (v_blocked v k)" if "p \<in> live v" "soft_blocked s v = {}" for p
  proof -
    have "p \<in> set (v_ready v) \<or> (\<exists>k. p \<in> set (v_blocked v k)) \<or> p \<in> {}"
      using live_iff [OF coreD(2,1) [OF C], of p] that(1) by (rule iffD1)
    then obtain k where k: "p \<in> set (v_blocked v k)" using r by auto
    have "v_blocked v k \<noteq> []" using k by auto
    then have "k \<notin> dev_range s"
      using coreD(6) [OF C] that(2) k by (auto simp: sems_ok_def soft_blocked_def)
    with k show ?thesis by blast
  qed
  then show ?thesis
    using d r live sb soft idle_frame(1) [OF d] by (auto simp: scheduler_idle_def Let_def split: if_splits)
qed

lemma idle_kinv:
  assumes C: "core {} {} s v" and N: "counts_ok s v" and y: "yieldedProcess s = None"
    and d: "scheduler_idle s = (out, s')"
  shows "kinv s' v"
proof -
  note f = idle_frame [OF d]
  have "core {} {} s' v" by (rule core_cong [OF C]) (simp_all add: f)
  then show ?thesis using f y counts_cong [OF N, of s'] by (simp add: kinv_def)
qed

text \<open>The process at the front of the ready queue is dispatched.\<close>

lemma scheduler_ready:
  assumes C: "core {} {} s v" and y: "yieldedProcess s = None" and r: "v_ready v = p # ps"
  shows "\<exists>m. scheduler s = Some (dispatch p (s\<lparr>lmem := m\<rparr>)) \<and>
    core {} {p} (s\<lparr>lmem := m\<rparr>) (v\<lparr>v_ready := ps\<rparr>)"
  using core_take_ready [OF C r] krep_ready_head(1) [OF coreD(1) [OF C]] y r
  by (auto simp: scheduler_def resolve_yield_def)

lemma scheduler_empty:
  assumes C: "core {} {} s v" and y: "yieldedProcess s = None" and r: "v_ready v = []"
  shows "scheduler s = Some (scheduler_idle s)"
  using krep_ready_head(1) [OF coreD(1) [OF C]] y r by (simp add: scheduler_def resolve_yield_def)

lemma counts_ready: "counts_ok s v \<Longrightarrow> counts_ok (s\<lparr>lmem := m\<rparr>) (v\<lparr>v_ready := r\<rparr>)"
  by (simp add: counts_ok_def soft_blocked_def devSem_def)

lemma scheduler_handled:
  assumes C: "core {} {} s v" and N: "counts_ok s v" and y: "yieldedProcess s = None"
  shows "handled (scheduler s)"
proof (cases "v_ready v")
  case Nil
  obtain out s' where "scheduler_idle s = (out, s')" by force
  then show ?thesis
    using idle_kinv [OF C N y] idle_outcome [OF C N Nil] scheduler_empty [OF C y Nil] by (auto intro: handledI)
next
  case (Cons p ps)
  obtain m where "scheduler s = Some (dispatch p (s\<lparr>lmem := m\<rparr>))"
    and "core {} {p} (s\<lparr>lmem := m\<rparr>) (v\<lparr>v_ready := ps\<rparr>)"
    using scheduler_ready [OF C y Cons] by blast
  then show ?thesis using kinv_dispatch counts_ready [OF N] y by simp
qed

lemma scheduler_yield:
  assumes C: "core {} {y} s v" and N: "counts_ok s v" and y: "yieldedProcess s = Some y"
  shows "handled (scheduler s)"
proof -
  let ?s = "s\<lparr>yieldedProcess := None\<rparr>"
  have C1: "core {} {y} ?s v" by (rule core_cong [OF C]) auto
  have N1: "counts_ok ?s v" by (rule counts_cong [OF N]) auto
  note hd = krep_ready_head [OF coreD(1) [OF C1]]
  obtain m where i: "insertProcQ readyQueue y ?s = Some (?s\<lparr>lmem := m\<rparr>)"
    and C2: "core {} {} (?s\<lparr>lmem := m\<rparr>) (v\<lparr>v_ready := ins_prio (prio_of ?s) y (v_ready v)\<rparr>)"
    using core_insert_ready [OF C1, of y] by auto
  have "handled (scheduler (?s\<lparr>lmem := m\<rparr>))"
    using scheduler_handled [OF C2] counts_ready [OF N1] by simp
  moreover have "scheduler s = scheduler (?s\<lparr>lmem := m\<rparr>) \<or> scheduler s = Some (dispatch y ?s)"
    using y hd i by (cases "v_ready v") (auto simp: scheduler_def resolve_yield_def Let_def)
  ultimately show ?thesis using kinv_dispatch [OF C1 N1] by auto
qed

section \<open>System calls that do not block\<close>

lemma handled_ldst:
  "kinv s v \<Longrightarrow> currentProcess s \<noteq> None \<Longrightarrow> handled (Some (Ldst st, s))"
  by (auto intro: handledI)

lemma kinv_current:
  "kinv s v \<Longrightarrow> currentProcess s = Some p \<Longrightarrow> core {} {p} s v \<and> p \<in> live v \<and> counts_ok s v \<and> yieldedProcess s = None"
  unfolding kinv_def using live_iff coreD(1,2) by fastforce

lemma gettime_handled: "kinv s v \<Longrightarrow> currentProcess s = Some p \<Longrightarrow> handled (sys_gettime s)"
  using handled_ldst [OF kinv_bios [OF kinv_updateCPUTime]] by (simp add: sys_gettime_def Let_def)

lemma getsupportptr_handled: "kinv s v \<Longrightarrow> currentProcess s = Some p \<Longrightarrow> handled (sys_getsupportptr s)"
  using handled_ldst [OF kinv_bios] by (simp add: sys_getsupportptr_def Let_def)

lemma getprocessid_handled: "kinv s v \<Longrightarrow> currentProcess s = Some p \<Longrightarrow> handled (sys_getprocessid s)"
  using handled_ldst [OF kinv_bios] by (simp add: sys_getprocessid_def Let_def)

lemma save_current_eq: "currentProcess s = Some p \<Longrightarrow> save_current s = Some (save_state p (bios_state s) s)"
  by (simp add: save_current_def)

lemma load_current_handled:
  "kinv s v \<Longrightarrow> currentProcess s = Some p \<Longrightarrow> handled (load_current s)"
  using handled_ldst by (simp add: load_current_def)

lemma yield_handled:
  assumes K: "kinv s v" and p: "currentProcess s = Some p"
  shows "handled (sys_yield s)"
proof -
  let ?s = "save_state p (bios_state s) (updateCPUTime s)"
  let ?t = "?s\<lparr>yieldedProcess := Some p, currentProcess := None\<rparr>"
  have kc: "core {} {p} s v" "counts_ok s v" using kinv_current [OF K p] by auto
  have "core {} {p} ?t v" by (rule core_cong [OF kc(1)]) auto
  moreover have "counts_ok ?t v" by (rule counts_cong [OF kc(2)]) auto
  ultimately have "handled (scheduler ?t)" by (intro scheduler_yield) auto
  then show ?thesis using p by (simp add: sys_yield_def save_current_def)
qed

section \<open>Blocking\<close>

text \<open>
  The running process blocks on \<open>k\<close>. \<open>d\<close> is what the caller has already added to the counter of
  the soft-blocked processes: 1 for the pseudo-clock, which \<open>isDeviceSemaphore\<close> leaves out.
\<close>

lemma block_core:
  assumes C: "core {} {p} s v" and cur: "currentProcess s = Some p" and y: "yieldedProcess s = None"
    and n: "processCount s = of_nat (card (live v))"
    and d: "softBlockCount s = of_nat (card (soft_blocked s v)) + d"
      "d = (if k \<in> dev_range s \<and> \<not> isDeviceSemaphore k s then 1 else 0)"
    and k: "k \<noteq> 0" "k \<in> dev_range s \<Longrightarrow> \<exists>i<TOT_SEMS. k = devSem i s"
  shows "\<exists>t. blockCurrentProcess k s = scheduler t \<and>
    core {} {} t (v\<lparr>v_blocked := (v_blocked v)(k := v_blocked v k @ [p])\<rparr>) \<and>
    counts_ok t (v\<lparr>v_blocked := (v_blocked v)(k := v_blocked v k @ [p])\<rparr>) \<and>
    yieldedProcess t = None \<and> mem t = mem s \<and> next_pid t = next_pid s \<and> devSems_addr t = devSems_addr s \<and>
    pcbs t = (pcbs s)(p := (pcbs s p)\<lparr>p_time := p_time (pcbs s p) + (tod s (tod_reads s) - startTOD s), p_semAdd := k\<rparr>)"
proof -
  let ?now = "tod s (tod_reads s)"
  let ?q = "(pcbs s p)\<lparr>p_time := p_time (pcbs s p) + (?now - startTOD s), p_semAdd := k\<rparr>"
  let ?n = "if isDeviceSemaphore k s then softBlockCount s + 1 else softBlockCount s"
  define s1 where "s1 = s\<lparr>tod_reads := Suc (tod_reads s), startTOD := ?now, softBlockCount := ?n,
    pcbs := (pcbs s)(p := (pcbs s p)\<lparr>p_time := p_time (pcbs s p) + (?now - startTOD s)\<rparr>)\<rparr>"
  have C1: "core {} {p} s1 v" by (rule core_cong [OF C]) (auto simp: s1_def)
  have dr: "dev_range s1 = dev_range s" "devSem i s1 = devSem i s" for i
    by (simp_all add: dev_range_def devSem_def s1_def)
  let ?v = "v\<lparr>v_blocked := (v_blocked v)(k := v_blocked v k @ [p])\<rparr>"
  obtain m key where i: "insertBlocked k (Some p) s1 =
      Some (0, s1\<lparr>pcbs := (pcbs s1)(p := (pcbs s1 p)\<lparr>p_semAdd := k\<rparr>), lmem := m, s_key := key\<rparr>)"
    and C2: "core {} ({p} - {p}) (s1\<lparr>pcbs := (pcbs s1)(p := (pcbs s1 p)\<lparr>p_semAdd := k\<rparr>), lmem := m, s_key := key\<rparr>) ?v"
    (is "core _ _ ?s2 _")
    using core_block [OF C1 _ k(1), of p] k(2) unfolding dr Let_def by blast
  text \<open>\<open>insertBlocked\<close> writes the field \<open>p_semAdd\<close> the caller has already written.\<close>
  have i': "insertBlocked k (Some p) (s\<lparr>tod_reads := Suc (tod_reads s), startTOD := ?now,
      pcbs := (pcbs s)(p := ?q), softBlockCount := ?n\<rparr>) = Some (0, ?s2)"
    using i by (auto simp: insertBlocked_def s1_def Let_def split: bind_splits option.splits if_splits)
  have isd: "isDeviceSemaphore k (s\<lparr>tod_reads := t, startTOD := u, pcbs := w\<rparr>) = isDeviceSemaphore k s" for t u w
    by (simp add: isDeviceSemaphore_def devSem_def)
  have "blockCurrentProcess k s = scheduler (?s2\<lparr>currentProcess := None\<rparr>)"
  proof (cases "isDeviceSemaphore k s")
    case True
    then show ?thesis using cur i' isd by (simp add: blockCurrentProcess_def STCK_def Let_def)
  next
    case False
    have "s\<lparr>tod_reads := Suc (tod_reads s), startTOD := ?now, pcbs := (pcbs s)(p := ?q),
        softBlockCount := softBlockCount s\<rparr> =
      s\<lparr>tod_reads := Suc (tod_reads s), startTOD := ?now, pcbs := (pcbs s)(p := ?q)\<rparr>" by simp
    with False show ?thesis using cur i' isd by (simp add: blockCurrentProcess_def STCK_def Let_def)
  qed
  moreover have "core {} {} (?s2\<lparr>currentProcess := None\<rparr>) ?v"
    by (rule core_cong [OF C2 [simplified]]) auto
  moreover have "counts_ok (?s2\<lparr>currentProcess := None\<rparr>) ?v"
  proof -
    have "card (soft_blocked s ?v) = card (soft_blocked s v) + (if k \<in> dev_range s then 1 else 0)"
      using soft_blocked_add [OF C _ k(2), of p] by simp
    moreover have "isDeviceSemaphore k s \<Longrightarrow> k \<in> dev_range s"
      using isDeviceSemaphore_outside by blast
    ultimately have "?n = of_nat (card (soft_blocked s ?v))" using d by auto
    then show ?thesis
      using n by (simp add: counts_ok_def s1_def soft_blocked_def devSem_def)
  qed
  moreover have "yieldedProcess (?s2\<lparr>currentProcess := None\<rparr>) = None"
    "mem (?s2\<lparr>currentProcess := None\<rparr>) = mem s" "next_pid (?s2\<lparr>currentProcess := None\<rparr>) = next_pid s"
    "devSems_addr (?s2\<lparr>currentProcess := None\<rparr>) = devSems_addr s"
    "pcbs (?s2\<lparr>currentProcess := None\<rparr>) = (pcbs s)(p := ?q)"
    using y by (simp_all add: s1_def)
  ultimately show ?thesis by blast
qed

text \<open>The state after the running process has been charged and saved.\<close>

definition saved :: "nat \<Rightarrow> nucleus \<Rightarrow> nucleus" where
  "saved p s = save_state p (bios_state s) (updateCPUTime s)"

lemma save_current_saved:
  "currentProcess s = Some p \<Longrightarrow> save_current (updateCPUTime s) = Some (saved p s)"
  by (simp add: save_current_def saved_def)

lemma saved_sel [simp]:
  "currentProcess (saved p s) = currentProcess s" "devSems_addr (saved p s) = devSems_addr s"
  "mem (saved p s) = mem s" "bios_state (saved p s) = bios_state s" "next_pid (saved p s) = next_pid s"
  "p_prio (pcbs (saved p s) q) = p_prio (pcbs s q)"
  by (simp_all add: saved_def)

lemma kinv_saved: "kinv s v \<Longrightarrow> kinv (saved p s) v"
  by (simp add: saved_def kinv_save_state kinv_updateCPUTime)

lemma block_kinv_core:
  assumes K: "kinv s v" and cur: "currentProcess s = Some p" and k: "k \<noteq> 0"
    "k \<in> dev_range s \<Longrightarrow> \<exists>i<TOT_SEMS. k = devSem i s"
    and d: "d = (if k \<in> dev_range s \<and> \<not> isDeviceSemaphore k s then 1 else 0)"
  shows "\<exists>t. blockCurrentProcess k (s\<lparr>softBlockCount := softBlockCount s + d\<rparr>) = scheduler t \<and>
    core {} {} t (v\<lparr>v_blocked := (v_blocked v)(k := v_blocked v k @ [p])\<rparr>) \<and>
    counts_ok t (v\<lparr>v_blocked := (v_blocked v)(k := v_blocked v k @ [p])\<rparr>) \<and>
    yieldedProcess t = None \<and> mem t = mem s \<and> next_pid t = next_pid s \<and> devSems_addr t = devSems_addr s \<and>
    pcbs t = (pcbs s)(p := (pcbs s p)\<lparr>p_time := p_time (pcbs s p) + (tod s (tod_reads s) - startTOD s), p_semAdd := k\<rparr>)"
proof -
  let ?s = "s\<lparr>softBlockCount := softBlockCount s + d\<rparr>"
  note kc = kinv_current [OF K cur]
  have C: "core {} {p} ?s v" by (rule core_cong [OF conjunct1 [OF kc]]) auto
  have n: "processCount ?s = of_nat (card (live v))" and c: "currentProcess ?s = Some p" and y: "yieldedProcess ?s = None"
    using kc cur by (simp_all add: counts_ok_def)
  have sb: "softBlockCount ?s = of_nat (card (soft_blocked ?s v)) + d"
    using kc by (simp add: counts_ok_def soft_blocked_def devSem_def)
  have d': "d = (if k \<in> dev_range ?s \<and> \<not> isDeviceSemaphore k ?s then 1 else 0)"
    using d by (simp add: dev_range_def devSem_def isDeviceSemaphore_def)
  have k': "\<exists>i<TOT_SEMS. k = devSem i ?s" if "k \<in> dev_range ?s"
    using k(2) that by (simp add: dev_range_def devSem_def)
  from block_core [OF C c y n sb d' k(1) k'] show ?thesis by simp
qed

lemma block_kinv:
  assumes "kinv s v" and "currentProcess s = Some p" and "k \<noteq> 0"
    and "k \<in> dev_range s \<Longrightarrow> \<exists>i<TOT_SEMS. k = devSem i s"
    and "d = (if k \<in> dev_range s \<and> \<not> isDeviceSemaphore k s then 1 else 0)"
  shows "handled (blockCurrentProcess k (s\<lparr>softBlockCount := softBlockCount s + d\<rparr>))"
  using block_kinv_core [OF assms] scheduler_handled by auto

lemma passeren_handled:
  assumes K: "kinv s v" and p: "currentProcess s = Some p"
    and a: "reg_a1 (bios_state s) \<noteq> 0" "reg_a1 (bios_state s) \<notin> dev_range s"
  shows "handled (sys_passeren s)"
proof -
  let ?k = "reg_a1 (bios_state s)" and ?s = "store (reg_a1 (bios_state s)) (mem s (reg_a1 (bios_state s)) - 1) (saved p s)"
  have K1: "kinv ?s v" using kinv_mem [OF kinv_saved [OF K]] by simp
  have "?s\<lparr>softBlockCount := softBlockCount ?s + 0\<rparr> = ?s" by simp
  moreover have "handled (blockCurrentProcess ?k (?s\<lparr>softBlockCount := softBlockCount ?s + 0\<rparr>))"
    by (rule block_kinv [OF K1, of p]) (use p a in \<open>auto simp: dev_range_def devSem_def\<close>)
  ultimately have "handled (blockCurrentProcess ?k ?s)" by metis
  then show ?thesis
    using load_current_handled [OF K1, of p] p save_current_saved [OF p]
    by (auto simp: sys_passeren_def Let_def)
qed

lemma dev_block:
  assumes K: "kinv s v" and cur: "currentProcess s = Some p" and i: "i < TOT_SEMS"
    and d: "d = (if i = PSEUDOCLK_SEM then 1 else 0)"
  shows "handled (blockCurrentProcess (devSem i s) (s\<lparr>softBlockCount := softBlockCount s + d\<rparr>))"
proof -
  have S: "sems_ok s v" using K coreD(6) by (auto simp: kinv_def)
  show ?thesis
    using devSem_in_range [OF S i] isDeviceSemaphore_devSem [OF S i] i d
    by (intro block_kinv [OF K cur]) auto
qed

lemma doio_handled:
  assumes K: "kinv s v" and p: "currentProcess s = Some p"
    and a: "doio_sem (reg_a1 (bios_state s)) < PSEUDOCLK_SEM"
  shows "handled (sys_doio s)"
proof -
  let ?i = "doio_sem (reg_a1 (bios_state s))"
  let ?s1 = "store (reg_a1 (bios_state s)) (reg_a2 (bios_state s)) (saved p s)"
  let ?s2 = "store (devSem ?i ?s1) (mem ?s1 (devSem ?i ?s1) - 1) ?s1"
  have K2: "kinv ?s2 v" using kinv_mem [OF kinv_saved [OF K]] by simp
  have "?s2\<lparr>softBlockCount := softBlockCount ?s2 + 0\<rparr> = ?s2" by simp
  moreover have "handled (blockCurrentProcess (devSem ?i ?s2) (?s2\<lparr>softBlockCount := softBlockCount ?s2 + 0\<rparr>))"
    by (rule dev_block [OF K2, of p]) (use p a in auto)
  ultimately have h: "handled (blockCurrentProcess (devSem ?i ?s2) ?s2)" by metis
  have "sys_doio s = blockCurrentProcess (devSem ?i ?s2) ?s2"
    using p save_current_saved [OF p] by (simp add: sys_doio_def Let_def del: store_def)
  then show ?thesis using h by (simp only:)
qed

lemma clockwait_handled:
  assumes K: "kinv s v" and p: "currentProcess s = Some p"
  shows "handled (sys_clockwait s)"
proof -
  let ?k = "devSem PSEUDOCLK_SEM (saved p s)"
  let ?s = "store ?k (mem s ?k - 1) (saved p s)"
  have K1: "kinv ?s v" using kinv_mem [OF kinv_saved [OF K]] by simp
  have "handled (blockCurrentProcess (devSem PSEUDOCLK_SEM ?s) (?s\<lparr>softBlockCount := softBlockCount ?s + 1\<rparr>))"
    by (rule dev_block [OF K1, of p]) (use p in auto)
  moreover have "devSem PSEUDOCLK_SEM ?s = ?k" by (simp add: devSem_def)
  ultimately show ?thesis
    using save_current_saved [OF p] by (simp add: sys_clockwait_def Let_def)
qed

section \<open>Waking\<close>

text \<open>One process leaves the semaphore \<open>k\<close> and the handler holds it.\<close>

lemma unblock_counts:
  assumes C: "core {} X s v" and N: "counts_ok s v" and b: "v_blocked v k = p # ps"
  shows "counts_ok (s\<lparr>softBlockCount := softBlockCount s - (if k \<in> dev_range s then 1 else 0)\<rparr>)
    (v\<lparr>v_blocked := (v_blocked v)(k := ps), v_ready := r\<rparr>)"
proof -
  have "p \<in> set (v_blocked v k)" "ps = remove1 p (v_blocked v k)" using b by auto
  from soft_blocked_remove [OF C this(1)] this(2)
  have "card (soft_blocked s v) = card (soft_blocked s (v\<lparr>v_blocked := (v_blocked v)(k := ps)\<rparr>)) +
      (if k \<in> dev_range s then 1 else 0)" by simp
  moreover have "soft_blocked (s\<lparr>softBlockCount := n\<rparr>) (v\<lparr>v_blocked := (v_blocked v)(k := ps), v_ready := r\<rparr>) =
      soft_blocked s (v\<lparr>v_blocked := (v_blocked v)(k := ps)\<rparr>)" for n
    by (simp add: soft_blocked_def devSem_def)
  ultimately show ?thesis using N by (simp add: counts_ok_def)
qed

lemma verhogen_handled:
  assumes K: "kinv s v" and p: "currentProcess s = Some p"
    and a: "reg_a1 (bios_state s) \<notin> dev_range s"
  shows "handled (sys_verhogen s)"
proof -
  let ?k = "reg_a1 (bios_state s)" and ?s = "store (reg_a1 (bios_state s)) (mem s (reg_a1 (bios_state s)) + 1) (saved p s)"
  have K1: "kinv ?s v" using kinv_mem [OF kinv_saved [OF K]] by simp
  have p1: "currentProcess ?s = Some p" using p by simp
  have C1: "core {} {p} ?s v" and N1: "counts_ok ?s v" and y1: "yieldedProcess ?s = None"
    using kinv_current [OF K1 p1] by auto
  have w: "\<exists>s' v'. verhogen_wake ?k ?s = Some s' \<and> kinv s' v' \<and> currentProcess s' = Some p"
  proof (cases "v_blocked v ?k")
    case Nil
    then show ?thesis
      using krep_remove_blocked_none [OF coreD(1) [OF C1] Nil] K1 p1 by (auto simp: verhogen_wake_def)
  next
    case (Cons u us)
    obtain m key where r: "removeBlocked ?k ?s =
        Some (Some u, ?s\<lparr>pcbs := (pcbs ?s)(u := (pcbs ?s u)\<lparr>p_semAdd := 0\<rparr>), lmem := m, s_key := key\<rparr>)" (is "_ = Some (_, ?t)")
      and C2: "core {} (insert u {p}) (?s\<lparr>pcbs := (pcbs ?s)(u := (pcbs ?s u)\<lparr>p_semAdd := 0\<rparr>), lmem := m, s_key := key\<rparr>)
          (v\<lparr>v_blocked := (v_blocked v)(?k := us)\<rparr>)" (is "core _ _ _ ?w")
      using core_remove_blocked [OF C1 Cons] unfolding Let_def by blast
    obtain m' where i: "insertProcQ readyQueue u ?t = Some (?t\<lparr>lmem := m'\<rparr>)"
      and C3: "core {} (insert u {p} - {u}) (?t\<lparr>lmem := m'\<rparr>)
        (?w\<lparr>v_ready := ins_prio (prio_of ?t) u (v_ready ?w)\<rparr>)" (is "core _ _ _ ?w'")
      using core_insert_ready [OF C2, of u] by blast
    have "u \<noteq> p"
      using coreD(2) [OF C1] Cons by (auto simp: places_ok_def unqueued_def dest: spec [of _ ?k])
    then have X: "insert u {p} - {u} = {p}" by auto
    have "counts_ok (?t\<lparr>lmem := m'\<rparr>) ?w'"
      by (rule counts_cong [OF unblock_counts [OF C1 N1 Cons]]) (use a in \<open>auto simp: dev_range_def devSem_def\<close>)
    then have "kinv (?t\<lparr>lmem := m'\<rparr>) ?w'"
      using C3 p1 y1 unfolding X by (simp add: kinv_def)
    moreover have u: "upd_pcb u (\<lambda>q. q\<lparr>p_semAdd := 0\<rparr>) ?t = ?t" by simp
    moreover have "currentProcess (?t\<lparr>lmem := m'\<rparr>) = Some p" using p by simp
    ultimately show ?thesis
      unfolding verhogen_wake_def r Option.bind_lunit prod.case option.case u i by blast
  qed
  show ?thesis
  proof (cases "sint (mem ?s ?k) \<le> 0")
    case True
    with w show ?thesis
      using save_current_saved [OF p] load_current_handled by (auto simp: sys_verhogen_def Let_def)
  next
    case False
    then show ?thesis
      using save_current_saved [OF p] load_current_handled [OF K1 p1] by (auto simp: sys_verhogen_def Let_def)
  qed
qed

end
