(* ===== verification/Kernel_Exceptions.thy ===== *)
theory Kernel_Exceptions
  imports Kernel_Handlers
begin

text \<open>
  The handlers that create and destroy processes, the interrupt handlers, and with them the two
  entry points: every activation of the Nucleus returns and keeps the invariant.
\<close>

section \<open>Creating a process\<close>

lemma createprocess_full:
  assumes K: "kinv s v" and p: "currentProcess s = Some p" and f: "v_free v = []"
  shows "handled (sys_createprocess s)"
proof -
  have a: "allocPcb s = Some (None, s)"
    using krep_alloc_none [OF coreD(1)] kinv_current [OF K p] f by blast
  have K1: "kinv (save_state p (bios_state (set_result (-1) s)) (set_result (-1) s)) v"
    using kinv_save_state [OF kinv_bios [OF K]] by simp
  show ?thesis
    using load_current_handled [OF K1, of p] p
    by (simp add: sys_createprocess_def a save_current_def)
qed

text \<open>The parent \<open>p\<close> and the child \<open>c\<close> both become ready, the parent with the result in \<open>a0\<close>.\<close>

lemma enter_child_core:
  assumes C: "core {} (insert c {p}) s v" and cur: "currentProcess s = Some p" and pc: "p \<in> live v" "c \<in> live v" "p \<noteq> c"
    and new: "p_parent (pcbs s c) = None" "v_kids v c = []" and y: "yieldedProcess s = None"
    and n: "processCount s + 1 = of_nat (card (live v))" "softBlockCount s = of_nat (card (soft_blocked s v))"
  defines "v1 \<equiv> v\<lparr>v_kids := (v_kids v)(p := v_kids v p @ [c]),
    v_ready := ins_prio (prio_of s) c (ins_prio (prio_of s) p (v_ready v))\<rparr>"
  shows "\<exists>t. enter_child c s = scheduler t \<and> core {} {} t v1 \<and> counts_ok t v1 \<and> yieldedProcess t = None \<and>
    mem t = mem s \<and> devSems_addr t = devSems_addr s \<and> pcbs t = (pcbs s)(c := (pcbs s c)\<lparr>p_parent := Some p\<rparr>,
      p := (pcbs s p)\<lparr>p_s := copyState (p_s (pcbs s p)) ((bios_state s)\<lparr>reg_a0 := p_pid (pcbs s c)\<rparr>)\<rparr>)"
proof -
  from core_insert_child [OF C pc new] obtain m4 where ic: "insertChild p c s =
      s\<lparr>pcbs := (pcbs s)(c := (pcbs s c)\<lparr>p_parent := Some p\<rparr>), lmem := m4\<rparr>" (is "_ = ?s4")
    and C4: "core {} (insert c {p}) (s\<lparr>pcbs := (pcbs s)(c := (pcbs s c)\<lparr>p_parent := Some p\<rparr>), lmem := m4\<rparr>)
      (v\<lparr>v_kids := (v_kids v)(p := v_kids v p @ [c])\<rparr>)" (is "core _ _ _ ?v4")
    by blast
  let ?s5 = "?s4\<lparr>processCount := processCount ?s4 + 1\<rparr>"
  define s5 where "s5 = set_result (p_pid (pcbs ?s5 c)) ?s5"
  define s6 where "s6 = save_state p (bios_state s5) s5"
  have cur6: "currentProcess s5 = Some p" "devSems_addr s6 = devSems_addr s" "yieldedProcess s6 = None"
    "processCount s6 = processCount s + 1" "softBlockCount s6 = softBlockCount s" "prio_of s6 = prio_of s"
    "mem s6 = mem s"
    using cur y by (simp_all add: s6_def s5_def fun_eq_iff)
  have C6: "core {} (insert c {p}) s6 ?v4"
    by (rule core_cong [OF C4]) (auto simp: s6_def s5_def)
  obtain m7 where i7: "insertProcQ readyQueue p s6 = Some (s6\<lparr>lmem := m7\<rparr>)"
    and C7: "core {} (insert c {p} - {p}) (s6\<lparr>lmem := m7\<rparr>) (?v4\<lparr>v_ready := ins_prio (prio_of s6) p (v_ready ?v4)\<rparr>)"
      (is "core _ _ ?s7 ?v7")
    using core_insert_ready [OF C6, of p] by blast
  obtain m8 where i8: "insertProcQ readyQueue c ?s7 = Some (?s7\<lparr>lmem := m8\<rparr>)"
    and C8: "core {} (insert c {p} - {p} - {c}) (?s7\<lparr>lmem := m8\<rparr>) (?v7\<lparr>v_ready := ins_prio (prio_of ?s7) c (v_ready ?v7)\<rparr>)"
      (is "core _ _ ?s8 ?v8")
    using core_insert_ready [OF C7, of c] pc by blast
  have v8: "?v8 = v1" using cur6 by (simp add: v1_def)
  have "enter_child c s = do { s \<leftarrow> save_current s5; s \<leftarrow> insertProcQ readyQueue p s;
      s \<leftarrow> insertProcQ readyQueue c s; scheduler (s\<lparr>currentProcess := None\<rparr>) }"
    using cur by (simp only: enter_child_def Let_def Option.bind_lunit ic s5_def)
  also have "save_current s5 = Some s6" using cur6 by (simp add: save_current_def s6_def)
  finally have "enter_child c s = scheduler (?s8\<lparr>currentProcess := None\<rparr>)" using i7 i8 by simp
  moreover have "insert c {p} - {p} - {c} = {}" by auto
  then have "core {} {} ?s8 v1" using C8 unfolding v8 by (simp only:)
  then have "core {} {} (?s8\<lparr>currentProcess := None\<rparr>) v1" by (rule core_cong) simp_all
  moreover have "counts_ok (?s8\<lparr>currentProcess := None\<rparr>) v1"
    using n cur6 by (simp add: counts_ok_def v1_def soft_blocked_def devSem_def)
  moreover have "yieldedProcess (?s8\<lparr>currentProcess := None\<rparr>) = None" "mem (?s8\<lparr>currentProcess := None\<rparr>) = mem s"
    "devSems_addr (?s8\<lparr>currentProcess := None\<rparr>) = devSems_addr s"
    using cur6 by simp_all
  moreover have "pcbs (?s8\<lparr>currentProcess := None\<rparr>) = (pcbs s)(c := (pcbs s c)\<lparr>p_parent := Some p\<rparr>,
      p := (pcbs s p)\<lparr>p_s := copyState (p_s (pcbs s p)) ((bios_state s)\<lparr>reg_a0 := p_pid (pcbs s c)\<rparr>)\<rparr>)"
    using pc by (simp add: s6_def s5_def save_state_def)
  ultimately show ?thesis by blast
qed

text \<open>The block of a new process: everything but the parent, which \<open>insertChild\<close> sets.\<close>

definition child_pcb :: "nucleus \<Rightarrow> nat \<Rightarrow> pcb_t" where
  "child_pcb s c = (new_pcb s c)\<lparr>p_s := copyState (p_s (pcbs s c)) (state_mem s (reg_a1 (bios_state s))),
     p_supportStruct := reg_a3 (bios_state s), p_prio := reg_a2 (bios_state s)\<rparr>"

lemma createprocess_core:
  assumes K: "kinv s v" and p: "currentProcess s = Some p" and n: "next_pid s < 0x80000000" and f: "v_free v = c # fs"
  defines "P \<equiv> (pcbs s)(c := (child_pcb s c)\<lparr>p_parent := Some p\<rparr>,
      p := (pcbs s p)\<lparr>p_s := copyState (p_s (pcbs s p)) ((bios_state s)\<lparr>reg_a0 := next_pid s\<rparr>)\<rparr>)"
  defines "v1 \<equiv> v\<lparr>v_free := fs, v_kids := (v_kids v)(c := [], p := v_kids v p @ [c]),
    v_ready := ins_prio (\<lambda>q. sint (p_prio (P q))) c (ins_prio (\<lambda>q. sint (p_prio (P q))) p (v_ready v))\<rparr>"
  shows "\<exists>t. sys_createprocess s = scheduler t \<and> core {} {} t v1 \<and> counts_ok t v1 \<and> yieldedProcess t = None \<and>
    mem t = mem s \<and> devSems_addr t = devSems_addr s \<and> pcbs t = P \<and> p \<noteq> c"
proof -
  have C: "core {} {p} s v" and N: "counts_ok s v" and y: "yieldedProcess s = None" and pl: "p \<in> live v"
    using kinv_current [OF K p] by auto
  let ?v1 = "v\<lparr>v_free := fs, v_kids := (v_kids v)(c := [])\<rparr>"
  define s1 where "s1 m = s\<lparr>next_pid := next_pid s + 1, lmem := m, pcbs := (pcbs s)(c := new_pcb s c)\<rparr>" for m
  obtain m i where al: "allocPcb s = Some (Some c, s1 m)"
    and i: "List.find (\<lambda>i. activeProcs s i = None) [0..<MAXPROC] = Some i"
    and C1: "core {} (insert c {p}) (s1 m\<lparr>activeProcs := (activeProcs s)(i := Some c)\<rparr>) ?v1"
    using core_alloc [OF C f n] unfolding s1_def by blast
  note l = live_alloc [OF coreD(2) [OF C] f krep_distinct(1) [OF coreD(1) [OF C]]]
  define s2 where "s2 = setup_child c (s1 m)"
  have pc: "p \<in> live ?v1" "c \<in> live ?v1" "p \<noteq> c" using l pl by auto
  have ap: "activeProcs s2 = activeProcs s" "currentProcess s2 = Some p" "bios_state s2 = bios_state s"
    "processCount s2 = processCount s" "softBlockCount s2 = softBlockCount s" "yieldedProcess s2 = None"
    "devSems_addr s2 = devSems_addr s" "pcbs s2 = (pcbs s)(c := child_pcb s c)" "mem s2 = mem s"
    using p y by (simp_all add: s2_def setup_child_def Let_def s1_def save_state_def child_pcb_def new_pcb_def)
  define s3 where "s3 = s2\<lparr>activeProcs := (activeProcs s)(i := Some c)\<rparr>"
  have add: "activeProcs_add c s2 = Inr s3" using i ap by (simp add: activeProcs_add_def s3_def)
  have C3: "core {} (insert c {p}) s3 ?v1"
    by (rule core_cong [OF C1]) (auto simp: s3_def s2_def setup_child_def Let_def s1_def)
  have s3: "currentProcess s3 = Some p" "p_parent (pcbs s3 c) = None" "v_kids ?v1 c = []" "yieldedProcess s3 = None"
    using ap by (simp_all add: s3_def child_pcb_def new_pcb_def)
  have "card (live ?v1) = card (live v) + 1" using l by simp
  then have n3: "processCount s3 + 1 = of_nat (card (live ?v1))" "softBlockCount s3 = of_nat (card (soft_blocked s3 ?v1))"
    using N ap by (simp_all add: counts_ok_def soft_blocked_def devSem_def s3_def)
  have P: "(pcbs s3)(c := (pcbs s3 c)\<lparr>p_parent := Some p\<rparr>,
      p := (pcbs s3 p)\<lparr>p_s := copyState (p_s (pcbs s3 p)) ((bios_state s3)\<lparr>reg_a0 := p_pid (pcbs s3 c)\<rparr>)\<rparr>) = P"
    using pc(3) ap by (simp add: P_def s3_def child_pcb_def new_pcb_def)
  have pr: "prio_of s3 = (\<lambda>q. sint (p_prio (P q)))" using pc(3) ap by (auto simp: P_def s3_def)
  have v1: "?v1\<lparr>v_kids := (v_kids ?v1)(p := v_kids ?v1 p @ [c]),
      v_ready := ins_prio (prio_of s3) c (ins_prio (prio_of s3) p (v_ready ?v1))\<rparr> = v1"
    using pc(3) unfolding pr by (simp add: v1_def)
  have "sys_createprocess s = enter_child c s3"
    by (simp only: sys_createprocess_def al Option.bind_lunit prod.case option.case
        s2_def [symmetric] add sum.case)
  moreover have "mem s3 = mem s" "devSems_addr s3 = devSems_addr s" using ap by (simp_all add: s3_def)
  ultimately show ?thesis
    using enter_child_core [OF C3 s3(1) pc s3(2,3,4) n3, unfolded v1 P] pc(3) by auto
qed

lemma createprocess_handled:
  assumes K: "kinv s v" and p: "currentProcess s = Some p" and n: "next_pid s < 0x80000000"
  shows "handled (sys_createprocess s)"
proof (cases "v_free v")
  case Nil
  then show ?thesis by (rule createprocess_full [OF K p])
next
  case (Cons c fs)
  then show ?thesis using createprocess_core [OF K p n Cons] scheduler_handled by auto
qed

section \<open>Destroying processes\<close>

lemma killed_kinv:
  assumes C: "core {} (set_option (currentProcess s) - D) s' v'" and N: "counts_ok s' v'"
    and K: "killed D s v s' v'" and y: "yieldedProcess s = None"
  shows "kinv s' v'"
proof -
  have "set_option (currentProcess s') = set_option (currentProcess s) - D"
    using K by (auto simp: killed_def split: option.splits)
  moreover have "yieldedProcess s' = None" using K y term_frame_sel(4) [of s s'] by (simp add: killed_def)
  ultimately show ?thesis using C N by (simp add: kinv_def)
qed

lemma terminate_kinv:
  assumes K: "kinv s v" and p: "p \<in> live v"
  shows "\<exists>s' v'. terminateProcess (Some p) s = Some s' \<and> kinv s' v' \<and> killed (family v p) s v s' v'"
proof -
  have "core {} (set_option (currentProcess s)) s v" "counts_ok s v" "yieldedProcess s = None"
    using K by (simp_all add: kinv_def)
  with terminateProcess_core [OF _ _ p] killed_kinv show ?thesis by blast
qed

lemma kinv_no_current:
  assumes K: "kinv s v" and c: "currentProcess s = None"
  shows "handled (scheduler s)" and "handled (scheduler (s\<lparr>currentProcess := None\<rparr>))"
proof -
  show h: "handled (scheduler s)" using K c scheduler_handled [of s v] by (simp add: kinv_def)
  have "s\<lparr>currentProcess := None\<rparr> = s" using c by simp
  then show "handled (scheduler (s\<lparr>currentProcess := None\<rparr>))" using h by simp
qed

lemma passUpOrDie_handled:
  assumes K: "kinv s v"
  shows "handled (passUpOrDie e s)"
proof -
  have K1: "kinv (updateCPUTime s) v" by (rule kinv_updateCPUTime [OF K])
  have die: "handled (do { s \<leftarrow> terminateProcess (currentProcess (updateCPUTime s)) (updateCPUTime s);
      scheduler (s\<lparr>currentProcess := None\<rparr>) })"
  proof (cases "currentProcess s")
    case None
    then show ?thesis using kinv_no_current(2) [OF K1] by (simp add: terminateProcess_def)
  next
    case (Some p)
    then have "p \<in> live v" using kinv_current [OF K] by blast
    from terminate_kinv [OF K1 this] obtain s' v' where t: "terminateProcess (Some p) (updateCPUTime s) = Some s'"
      "kinv s' v'" "killed (family v p) (updateCPUTime s) v s' v'" by blast
    then have "currentProcess s' = None" using Some by (auto simp: killed_def family_below)
    then show ?thesis using t Some kinv_no_current(2) by simp
  qed
  show ?thesis
  proof (cases "\<exists>p. currentProcess s = Some p \<and> p_supportStruct (pcbs s p) \<noteq> 0")
    case False
    then have "passUpOrDie e s = do { s \<leftarrow> terminateProcess (currentProcess (updateCPUTime s)) (updateCPUTime s);
        scheduler (s\<lparr>currentProcess := None\<rparr>) }"
      by (auto simp: passUpOrDie_def Let_def split: option.splits)
    then show ?thesis using die by simp
  next
    case True
    then obtain sp st pc m where "passUpOrDie e s = Some (Ldcxt sp st pc, s\<lparr>support_mem := m\<rparr>)"
      by (auto simp: passUpOrDie_def Let_def)
    moreover have "kinv (s\<lparr>support_mem := m\<rparr>) v" by (rule kinv_cong [OF K]) auto
    ultimately show ?thesis using True by (auto intro: handledI)
  qed
qed

lemma findProcessByPid_live:
  assumes T: "table_ok K s v" and f: "findProcessByPid t s = Some q"
  shows "q \<in> live v" and "p_pid (pcbs s q) = t"
proof -
  obtain i where i: "List.find (\<lambda>i. case activeProcs s i of None \<Rightarrow> False
      | Some p \<Rightarrow> p_pid (pcbs s p) = t) [0..<MAXPROC] = Some i" "activeProcs s i = Some q"
    using f by (auto simp: findProcessByPid_def split: option.splits)
  then have "i \<in> set [0..<MAXPROC]" "p_pid (pcbs s q) = t"
    by (auto simp: find_Some_iff)
  then show "q \<in> live v" "p_pid (pcbs s q) = t"
    using T i(2) unfolding table_ok_def by auto
qed

lemma termprocess_handled:
  assumes K: "kinv s v" and p: "currentProcess s = Some p"
  shows "handled (sys_termprocess s)"
proof -
  let ?s = "updateCPUTime s" and ?pid = "reg_a1 (bios_state s)"
  let ?target = "if ?pid = 0 then currentProcess ?s else findProcessByPid ?pid ?s"
  have K1: "kinv ?s v" by (rule kinv_updateCPUTime [OF K])
  show ?thesis
  proof (cases ?target)
    case None
    then show ?thesis
      using handled_ldst [OF K1] p by (simp add: sys_termprocess_def Let_def split: if_splits)
  next
    case (Some q)
    have "table_ok {} ?s v" using K1 coreD(3) by (auto simp: kinv_def)
    then have "q \<in> live v"
      using Some p kinv_current [OF K p] findProcessByPid_live(1) by (auto split: if_splits)
    from terminate_kinv [OF K1 this] obtain s' v' where t: "terminateProcess (Some q) ?s = Some s'"
      and K2: "kinv s' v'" and kl: "killed (family v q) ?s v s' v'" by blast
    have cur: "currentProcess s' = (if p \<in> family v q then None else Some p)"
      using kl p by (simp add: killed_def)
    show ?thesis
    proof (cases "p \<in> family v q")
      case True
      have "sys_termprocess s = scheduler s' \<or> sys_termprocess s = scheduler (s'\<lparr>currentProcess := None\<rparr>)"
        using Some t cur True by (simp add: sys_termprocess_def Let_def)
      then show ?thesis using kinv_no_current [OF K2] cur True by auto
    next
      case False
      then have "q \<noteq> p" by (auto simp: family_def)
      then have "sys_termprocess s = load_current (save_state p (bios_state s') s')"
        using Some t cur False p by (simp add: sys_termprocess_def Let_def save_current_def)
      then show ?thesis
        using load_current_handled [OF kinv_save_state [OF K2], of p] cur False by simp
    qed
  qed
qed

section \<open>Waking the waiters of a device\<close>

lemma kinv_sems: "kinv s v \<Longrightarrow> sems_ok s v"
  unfolding kinv_def using coreD(6) by blast

lemma kinv_krep: "kinv s v \<Longrightarrow> krep (live v) s v"
  unfolding kinv_def using coreD(1) by blast

text \<open>
  What the interrupt handler needs of the operation that makes a process ready: both
  \<open>insertProcQ\<close> and the plain \<open>list_add_tail\<close> of the transmitter put it somewhere in the ready
  queue and touch nothing else.
\<close>

locale ready_enqueue =
  fixes enqueue :: "nat \<Rightarrow> nucleus \<Rightarrow> nucleus option"
    and place :: "(nat \<Rightarrow> int) \<Rightarrow> nat \<Rightarrow> nat list \<Rightarrow> nat list"
  assumes enqueue_core: "core K X s v \<Longrightarrow> p \<in> X \<Longrightarrow>
    \<exists>m. enqueue p s = Some (s\<lparr>lmem := m\<rparr>) \<and>
      core K (X - {p}) (s\<lparr>lmem := m\<rparr>) (v\<lparr>v_ready := place (prio_of s) p (v_ready v)\<rparr>)"
begin

text \<open>The first waiter of \<open>k\<close> is taken off, updated by \<open>f\<close> and made ready.\<close>

lemma wake_one:
  assumes K: "kinv s v" and b: "v_blocked v k = p # ps" and k: "k \<in> dev_range s"
    and f: "\<And>q. p_parent (f q) = p_parent q" "\<And>q. p_semAdd q = 0 \<Longrightarrow> p_semAdd (f q) = 0"
      "\<And>q. p_pid (f q) = p_pid q" "\<And>q. p_prio (f q) = p_prio q"
  shows "\<exists>t s'. removeBlocked k s = Some (Some p, t) \<and>
    enqueue p (upd_pcb p f t) = Some s' \<and>
    kinv (s'\<lparr>softBlockCount := softBlockCount s' - 1\<rparr>)
      (v\<lparr>v_blocked := (v_blocked v)(k := ps), v_ready := place (prio_of s) p (v_ready v)\<rparr>) \<and>
    currentProcess s' = currentProcess s \<and> devSems_addr s' = devSems_addr s \<and> mem s' = mem s \<and>
    pcbs s' = (pcbs s)(p := f ((pcbs s p)\<lparr>p_semAdd := 0\<rparr>))"
proof -
  let ?X = "set_option (currentProcess s)"
  have C: "core {} ?X s v" and N: "counts_ok s v" and y: "yieldedProcess s = None"
    using K by (simp_all add: kinv_def)
  obtain m key where r: "removeBlocked k s =
      Some (Some p, s\<lparr>pcbs := (pcbs s)(p := (pcbs s p)\<lparr>p_semAdd := 0\<rparr>), lmem := m, s_key := key\<rparr>)" (is "_ = Some (_, ?t)")
    and C1: "core {} (insert p ?X) (s\<lparr>pcbs := (pcbs s)(p := (pcbs s p)\<lparr>p_semAdd := 0\<rparr>), lmem := m, s_key := key\<rparr>)
      (v\<lparr>v_blocked := (v_blocked v)(k := ps)\<rparr>)" (is "core _ _ _ ?w")
    using core_remove_blocked [OF C b] unfolding Let_def by blast
  have C2: "core {} (insert p ?X) (upd_pcb p f ?t) ?w"
    by (rule core_cong [OF C1]) (auto simp: f)
  let ?q = "place (prio_of s) p (v_ready v)"
  have pr: "prio_of (upd_pcb p f ?t) = prio_of s" by (auto simp: f)
  obtain m' where e: "enqueue p (upd_pcb p f ?t) = Some ((upd_pcb p f ?t)\<lparr>lmem := m'\<rparr>)"
    and C3: "core {} (insert p ?X - {p}) ((upd_pcb p f ?t)\<lparr>lmem := m'\<rparr>) (?w\<lparr>v_ready := ?q\<rparr>)" (is "core _ _ ?u _")
    using enqueue_core [OF C2, of p] unfolding pr by auto
  have pX: "p \<notin> ?X"
    using coreD(2) [OF C] b by (auto simp: places_ok_def unqueued_def dest!: spec [of _ k])
  then have "insert p ?X - {p} = ?X" by auto
  with C3 have C4: "core {} ?X ?u (?w\<lparr>v_ready := ?q\<rparr>)" by (simp only:)
  have "kinv (?u\<lparr>softBlockCount := softBlockCount ?u - 1\<rparr>) (?w\<lparr>v_ready := ?q\<rparr>)"
  proof (rule kinvI)
    have X: "set_option (currentProcess (?u\<lparr>softBlockCount := softBlockCount ?u - 1\<rparr>)) = ?X" by simp
    show "core {} (set_option (currentProcess (?u\<lparr>softBlockCount := softBlockCount ?u - 1\<rparr>)))
        (?u\<lparr>softBlockCount := softBlockCount ?u - 1\<rparr>) (?w\<lparr>v_ready := ?q\<rparr>)"
      unfolding X by (rule core_cong [OF C4]) simp_all
    show "counts_ok (?u\<lparr>softBlockCount := softBlockCount ?u - 1\<rparr>) (?w\<lparr>v_ready := ?q\<rparr>)"
      by (rule counts_cong [OF unblock_counts [OF C N b]]) (simp_all add: k)
    show "yieldedProcess (?u\<lparr>softBlockCount := softBlockCount ?u - 1\<rparr>) = None" using y by simp
  qed
  with r e show ?thesis by (intro exI [of _ ?t] exI [of _ ?u]) simp
qed

lemma wake_device_eq:
  assumes "sint (mem s (devSem i s)) < 0"
  defines "s1 \<equiv> store (devSem i s) (mem s (devSem i s) + 1) s"
  shows "wake_device enqueue i st s = do {
      (unblocked, s) \<leftarrow> removeBlocked (devSem i s1) s1;
      case unblocked of None \<Rightarrow> Some s
      | Some p \<Rightarrow> do {
          s \<leftarrow> enqueue p (upd_pcb p (\<lambda>q. q\<lparr>p_s := (p_s q)\<lparr>reg_a0 := st\<rparr>, p_semAdd := 0\<rparr>) s);
          Some (s\<lparr>softBlockCount := softBlockCount s - 1\<rparr>) } }"
  using assms by (simp add: wake_device_def devSem_def Let_def cong: option.case_cong)

text \<open>
  The line of a device with a negative semaphore: its first waiter becomes ready with the status
  in \<open>a0\<close>; if there is none (it has been terminated) only the value changes.
\<close>

lemma wake_device_spec:
  assumes K: "kinv s v" and i: "i < TOT_SEMS" and neg: "sint (mem s (devSem i s)) < 0"
  shows "\<exists>s'. wake_device enqueue i st s = Some s' \<and>
    mem s' = (mem s)(devSem i s := mem s (devSem i s) + 1) \<and> currentProcess s' = currentProcess s \<and>
    devSems_addr s' = devSems_addr s \<and>
    (case v_blocked v (devSem i s) of
       [] \<Rightarrow> kinv s' v \<and> pcbs s' = pcbs s
     | p # ps \<Rightarrow>
         kinv s' (v\<lparr>v_blocked := (v_blocked v)(devSem i s := ps), v_ready := place (prio_of s) p (v_ready v)\<rparr>) \<and>
         pcbs s' = (pcbs s)(p := (pcbs s p)\<lparr>p_semAdd := 0, p_s := (p_s (pcbs s p))\<lparr>reg_a0 := st\<rparr>\<rparr>))"
proof -
  let ?s = "store (devSem i s) (mem s (devSem i s) + 1) s"
  have K1: "kinv ?s v" using kinv_mem [OF K] by simp
  have dv: "devSem i ?s = devSem i s" by (simp add: devSem_def)
  have k: "devSem i s \<in> dev_range ?s"
    using devSem_in_range(1) [OF kinv_sems [OF K1] i] unfolding dv .
  note wd = wake_device_eq [OF neg, unfolded dv]
  show ?thesis
  proof (cases "v_blocked v (devSem i s)")
    case Nil
    have "removeBlocked (devSem i s) ?s = Some (None, ?s)"
      by (rule krep_remove_blocked_none [OF kinv_krep [OF K1] Nil])
    then have "wake_device enqueue i st s = Some ?s"
      unfolding wd by (simp only: Option.bind_lunit prod.case option.case)
    then show ?thesis using K1 Nil by simp
  next
    case (Cons p ps)
    let ?f = "\<lambda>q. q\<lparr>p_s := (p_s q)\<lparr>reg_a0 := st\<rparr>, p_semAdd := 0\<rparr>"
    obtain t s' where r: "removeBlocked (devSem i s) ?s = Some (Some p, t)"
      "enqueue p (upd_pcb p ?f t) = Some s'"
      and K2: "kinv (s'\<lparr>softBlockCount := softBlockCount s' - 1\<rparr>)
        (v\<lparr>v_blocked := (v_blocked v)(devSem i s := ps), v_ready := place (prio_of ?s) p (v_ready v)\<rparr>)"
      and c: "currentProcess s' = currentProcess ?s" "devSems_addr s' = devSems_addr ?s" "mem s' = mem ?s"
        "pcbs s' = (pcbs ?s)(p := ?f ((pcbs ?s p)\<lparr>p_semAdd := 0\<rparr>))"
      using wake_one [OF K1 Cons k, of ?f] by auto
    have "wake_device enqueue i st s = Some (s'\<lparr>softBlockCount := softBlockCount s' - 1\<rparr>)"
      unfolding wd by (simp only: r Option.bind_lunit prod.case option.case)
    moreover have "prio_of ?s = prio_of s" by simp
    ultimately show ?thesis using K2 c Cons by (simp add: fun_eq_iff)
  qed
qed

lemma wake_device_kinv:
  assumes K: "kinv s v" and i: "i < TOT_SEMS"
  shows "\<exists>s' v'. wake_device enqueue i st s = Some s' \<and> kinv s' v' \<and> currentProcess s' = currentProcess s"
proof (cases "sint (mem s (devSem i s)) < 0")
  case False
  then show ?thesis using K by (auto simp: wake_device_def)
next
  case True
  from wake_device_spec [OF K i this, of st] show ?thesis
    by (cases "v_blocked v (devSem i s)") auto
qed

end

interpretation by_prio: ready_enqueue "insertProcQ readyQueue" ins_prio
  by unfold_locales (rule core_insert_ready)

interpretation at_tail: ready_enqueue enqueue_tail "\<lambda>_ p ps. ps @ [p]"
  by unfold_locales (use core_append_ready in \<open>auto simp: enqueue_tail_def\<close>)

section \<open>The interrupt handlers\<close>

lemma wake_clock_spec:
  assumes "kinv s v" and "v_blocked v (devSem PSEUDOCLK_SEM s) = ps"
  shows "\<exists>s'. wake_clock s = Some s' \<and> currentProcess s' = currentProcess s \<and> mem s' = mem s \<and>
    devSems_addr s' = devSems_addr s \<and>
    kinv s' (v\<lparr>v_blocked := (v_blocked v)(devSem PSEUDOCLK_SEM s := []),
      v_ready := fold (ins_prio (prio_of s)) ps (v_ready v)\<rparr>) \<and>
    (\<forall>p. pcbs s' p = (if p \<in> set ps
       then (pcbs s p)\<lparr>p_semAdd := 0, p_s := (p_s (pcbs s p))\<lparr>reg_a0 := 0\<rparr>\<rparr> else pcbs s p))"
  using assms
proof (induction ps arbitrary: s v)
  case Nil
  then have "removeBlocked (devSem PSEUDOCLK_SEM s) s = Some (None, s)"
    by (intro krep_remove_blocked_none [OF kinv_krep])
  then have "wake_clock s = Some s" by (simp add: wake_clock.simps [of s])
  moreover have "v\<lparr>v_blocked := (v_blocked v)(devSem PSEUDOCLK_SEM s := [])\<rparr> = v"
    using Nil(2) by (cases v) auto
  ultimately show ?case using Nil by (simp del: fun_upd_apply)
next
  case (Cons p ps)
  let ?k = "devSem PSEUDOCLK_SEM s" and ?f = "\<lambda>q. q\<lparr>p_semAdd := 0, p_s := (p_s q)\<lparr>reg_a0 := 0\<rparr>\<rparr>"
  have k: "?k \<in> dev_range s" by (rule devSem_in_range(1) [OF kinv_sems [OF Cons.prems(1)]]) simp
  let ?w = "v\<lparr>v_blocked := (v_blocked v)(?k := ps), v_ready := ins_prio (prio_of s) p (v_ready v)\<rparr>"
  obtain t s1 where r: "removeBlocked ?k s = Some (Some p, t)"
    "insertProcQ readyQueue p (upd_pcb p ?f t) = Some s1"
    and K1: "kinv (s1\<lparr>softBlockCount := softBlockCount s1 - 1\<rparr>) ?w"
    and c: "currentProcess s1 = currentProcess s" "devSems_addr s1 = devSems_addr s" "mem s1 = mem s"
      "pcbs s1 = (pcbs s)(p := ?f ((pcbs s p)\<lparr>p_semAdd := 0\<rparr>))"
    using by_prio.wake_one [OF Cons.prems(1) Cons.prems(2) k, of ?f] by auto
  let ?s = "s1\<lparr>softBlockCount := softBlockCount s1 - 1\<rparr>"
  have d: "devSem PSEUDOCLK_SEM ?s = ?k" using c(2) by (simp add: devSem_def)
  have pr: "prio_of ?s = prio_of s" using c(4) by auto
  have "v_blocked ?w (devSem PSEUDOCLK_SEM ?s) = ps" unfolding d by simp
  from Cons.IH [OF K1 this] obtain s' where s': "wake_clock ?s = Some s'" "currentProcess s' = currentProcess ?s"
    "mem s' = mem ?s" "devSems_addr s' = devSems_addr ?s"
    and K2: "kinv s' (?w\<lparr>v_blocked := (v_blocked ?w)(?k := []), v_ready := fold (ins_prio (prio_of s)) ps (v_ready ?w)\<rparr>)"
    and P: "\<forall>p. pcbs s' p = (if p \<in> set ps
       then (pcbs ?s p)\<lparr>p_semAdd := 0, p_s := (p_s (pcbs ?s p))\<lparr>reg_a0 := 0\<rparr>\<rparr> else pcbs ?s p)"
    unfolding d pr by blast
  have "p \<notin> set ps" using krep_distinct(3) [OF kinv_krep [OF Cons.prems(1)], of ?k] Cons.prems(2) by simp
  then have "\<forall>q. pcbs s' q = (if q \<in> set (p # ps)
      then (pcbs s q)\<lparr>p_semAdd := 0, p_s := (p_s (pcbs s q))\<lparr>reg_a0 := 0\<rparr>\<rparr> else pcbs s q)"
    using c(4) P by auto
  moreover have "wake_clock s = wake_clock ?s"
    using r by (simp add: wake_clock.simps [of s] Let_def)
  moreover have "?w\<lparr>v_blocked := (v_blocked ?w)(?k := []), v_ready := fold (ins_prio (prio_of s)) ps (v_ready ?w)\<rparr> =
      v\<lparr>v_blocked := (v_blocked v)(?k := []), v_ready := fold (ins_prio (prio_of s)) (p # ps) (v_ready v)\<rparr>"
    by (simp del: fun_upd_apply)
  ultimately show ?case using s' K2 c by (intro exI [of _ s']) (simp del: fun_upd_apply)
qed

lemma resume_handled: "kinv s v \<Longrightarrow> handled (resume_or_schedule s)"
  using handled_ldst kinv_no_current(1) by (simp add: resume_or_schedule_def)

lemma clock_interrupt_handled:
  assumes "kinv s v"
  shows "handled (clock_interrupt s)"
proof -
  have "kinv (LDIT PSECOND s) v" by (rule kinv_cong [OF assms]) (auto simp: LDIT_def)
  from wake_clock_spec [OF this refl] obtain s' v' where "wake_clock (LDIT PSECOND s) = Some s'" "kinv s' v'"
    by blast
  then show ?thesis using resume_handled [OF kinv_mem] by (simp add: clock_interrupt_def)
qed

lemma plt_interrupt_handled:
  assumes K: "kinv s v"
  shows "handled (plt_interrupt s)"
proof -
  let ?s = "setTIMER NEVER s"
  have K1: "kinv ?s v" by (rule kinv_cong [OF K]) (auto simp: setTIMER_def)
  show ?thesis
  proof (cases "currentProcess s")
    case None
    then show ?thesis using kinv_no_current(1) [OF K1] by (simp add: plt_interrupt_def setTIMER_def)
  next
    case (Some p)
    let ?t = "upd_pcb p (\<lambda>q. q\<lparr>p_s := (p_s q)\<lparr>status := status (p_s q) OR MSTATUS_MIE_MASK\<rparr>\<rparr>)
      (save_state p (bios_state ?s) ?s)"
    have Kt: "kinv ?t v" by (rule kinv_cong [OF kinv_save_state [OF K1]]) auto
    have cur: "currentProcess ?t = Some p" using Some by (simp add: setTIMER_def)
    have C: "core {} {p} ?t v" and N: "counts_ok ?t v" and y: "yieldedProcess ?t = None"
      using kinv_current [OF Kt cur] by blast+
    obtain m where i: "insertProcQ readyQueue p ?t = Some (?t\<lparr>lmem := m\<rparr>)"
      and C1: "core {} ({p} - {p}) (?t\<lparr>lmem := m\<rparr>) (v\<lparr>v_ready := ins_prio (prio_of ?t) p (v_ready v)\<rparr>)"
      (is "core _ _ ?u ?v")
      using core_insert_ready [OF C, of p] by blast
    have "core {} {} (?u\<lparr>currentProcess := None\<rparr>) ?v"
      by (rule core_cong [OF C1 [unfolded Diff_cancel]]) simp_all
    moreover have "counts_ok (?u\<lparr>currentProcess := None\<rparr>) ?v"
      by (rule counts_cong [OF counts_ready [OF N]]) simp_all
    moreover have "yieldedProcess (?u\<lparr>currentProcess := None\<rparr>) = None" using y by simp
    ultimately have "handled (scheduler (?u\<lparr>currentProcess := None\<rparr>))" by (rule scheduler_handled)
    moreover have "plt_interrupt s = scheduler (?u\<lparr>currentProcess := None\<rparr>)"
    proof -
      have "currentProcess ?s = Some p" using Some by (simp add: setTIMER_def)
      then show ?thesis by (simp only: plt_interrupt_def Let_def option.case i Option.bind_lunit)
    qed
    ultimately show ?thesis by simp
  qed
qed

lemma highest_priority_lt: "getHighestPriorityDevice b = Some i \<Longrightarrow> i < 8"
  by (auto simp: getHighestPriorityDevice_def find_Some_iff)

lemma terminal_interrupt_kinv:
  assumes K: "kinv s v" and d: "dev < 8"
  shows "\<exists>s' v'. terminal_interrupt dev s = Some s' \<and> kinv s' v' \<and> currentProcess s' = currentProcess s"
proof -
  let ?b = "DEV_REG_BASE 7 dev"
  let ?tx = "if mem s (TERM_TRANSM_STATUS ?b) AND 0xFF = OKCHARTRANS
    then wake_device enqueue_tail (TERM_TX_SEM dev) (mem s (TERM_TRANSM_STATUS ?b))
      (store (TERM_TRANSM_COMMAND ?b) ACK s) else Some s"
  have "\<exists>s' v'. ?tx = Some s' \<and> kinv s' v' \<and> currentProcess s' = currentProcess s"
    using at_tail.wake_device_kinv [OF kinv_mem [OF K], of "TERM_TX_SEM dev"] d K
    by (auto simp: TERM_TX_SEM_def)
  then obtain s1 v1 where tx: "?tx = Some s1" and K1: "kinv s1 v1" and c1: "currentProcess s1 = currentProcess s"
    by blast
  let ?rx = "if mem s (TERM_RECV_STATUS ?b) AND 0xFF = CHARRECV
    then wake_device (insertProcQ readyQueue) (TERM_RX_SEM dev) (mem s1 (TERM_RECV_STATUS ?b))
      (store (TERM_RECV_COMMAND ?b) ACK s1) else Some s1"
  have "\<exists>s' v'. ?rx = Some s' \<and> kinv s' v' \<and> currentProcess s' = currentProcess s"
    using by_prio.wake_device_kinv [OF kinv_mem [OF K1], of "TERM_RX_SEM dev"] d K1 c1
    by (auto simp: TERM_RX_SEM_def)
  moreover have "terminal_interrupt dev s = ?rx"
    unfolding terminal_interrupt_def Let_def tx Option.bind_lunit ..
  ultimately show ?thesis by (simp only:)
qed

lemma device_interrupt_handled:
  assumes K: "kinv s v" and l: "3 \<le> line" "line \<le> 7"
  shows "handled (device_interrupt line s)"
proof (cases "getHighestPriorityDevice (INT_BITMAP line s)")
  case None
  then show ?thesis using resume_handled [OF K] by (simp add: device_interrupt_def)
next
  case (Some dev)
  note d = highest_priority_lt [OF Some]
  let ?i = "DEV_SEM_BASE line dev"
  have "\<exists>s' v'. (if line = 7 then terminal_interrupt dev s else other_device_interrupt line dev s) = Some s' \<and> kinv s' v'"
  proof (cases "line = 7")
    case True
    then show ?thesis using terminal_interrupt_kinv [OF K d] by auto
  next
    case False
    then have "?i < TOT_SEMS" using l d by (simp add: DEV_SEM_BASE_def)
    from by_prio.wake_device_kinv [OF kinv_mem [OF K] this] show ?thesis
      using False by (simp add: other_device_interrupt_def Let_def) blast
  qed
  then show ?thesis using resume_handled Some by (auto simp: device_interrupt_def)
qed

text \<open>The exception codes 17 to 21 are the interrupt lines 3 to 7.\<close>

lemma device_line:
  fixes e :: u32
  assumes "17 \<le> e" and "e \<le> 21"
  shows "3 \<le> unat (e - 14)" and "unat (e - 14) \<le> 7"
proof -
  have "unat (e - 14) = unat e - unat (14 :: u32)"
    using assms by (intro unat_sub) (simp add: word_le_nat_alt)
  moreover have "17 \<le> unat e" "unat e \<le> 21" using assms by (simp_all add: word_le_nat_alt)
  moreover have "unat (14 :: u32) = 14" by simp
  ultimately show "3 \<le> unat (e - 14)" "unat (e - 14) \<le> 7" by linarith+
qed

lemma interruptHandler_handled:
  assumes "kinv s v"
  shows "handled (interruptHandler s)"
proof -
  let ?e = "cause (bios_state s) AND CAUSE_EXCCODE_MASK"
  have K: "kinv (charge_interrupt s) v" by (rule kinv_charge_interrupt [OF assms])
  show ?thesis
    using plt_interrupt_handled [OF K] clock_interrupt_handled [OF K] resume_handled [OF K]
      device_interrupt_handled [OF K] device_line [of ?e]
    by (simp add: interruptHandler_def Let_def)
qed

section \<open>The entry point\<close>

text \<open>
  What a system call asks of its caller, a process in kernel mode: semaphores are not null and not in
  the array of the kernel, \<open>DOIO\<close> names the command register of a device, and fewer than \<open>2 ^ 31\<close>
  processes have ever been created. From a process in user mode nothing is asked.
\<close>

definition call_ok :: "nucleus \<Rightarrow> bool" where
  "call_ok s \<longleftrightarrow>
     (let code = sint (reg_a0 (bios_state s)); a1 = reg_a1 (bios_state s) in
      status (bios_state s) AND MSTATUS_MPP_MASK \<noteq> 0 \<longrightarrow>
      (code = CREATEPROCESS \<longrightarrow> next_pid s < 0x80000000) \<and>
      (code = PASSEREN \<longrightarrow> a1 \<noteq> 0 \<and> a1 \<notin> dev_range s) \<and>
      (code = VERHOGEN \<longrightarrow> a1 \<notin> dev_range s) \<and>
      (code = DOIO \<longrightarrow> doio_sem a1 < PSEUDOCLK_SEM))"

lemma if_handled: "(b \<Longrightarrow> handled x) \<Longrightarrow> (\<not> b \<Longrightarrow> handled y) \<Longrightarrow> handled (if b then x else y)"
  by simp

lemma syscallHandler_handled:
  assumes K: "kinv s v" and p: "currentProcess s = Some p" and ok: "call_ok s"
  shows "handled (syscallHandler s)"
  using passUpOrDie_handled [OF K] passUpOrDie_handled [OF kinv_bios [OF K]]
    createprocess_handled [OF K p] termprocess_handled [OF K p] passeren_handled [OF K p]
    verhogen_handled [OF K p] doio_handled [OF K p] gettime_handled [OF K p] clockwait_handled [OF K p]
    getsupportptr_handled [OF K p] getprocessid_handled [OF K p] yield_handled [OF K p] ok
  unfolding syscallHandler_def programTrapHandler_def Let_def call_ok_def
  by (auto split del: if_split intro!: if_handled)

definition exception_ok :: "nucleus \<Rightarrow> bool" where
  "exception_ok s \<longleftrightarrow>
     (let cause = cause (bios_state s) in
      cause AND 0x80000000 = 0 \<longrightarrow> cause AND CAUSE_EXCCODE_MASK \<in> {8, 11} \<longrightarrow>
      currentProcess s \<noteq> None \<and> call_ok s)"

lemma exceptionHandler_handled:
  assumes K: "kinv s v" and ok: "exception_ok s"
  shows "handled (exceptionHandler s)"
proof -
  let ?s = "updateCPUTime s"
  let ?t = "?s\<lparr>bios_state := (bios_state ?s)\<lparr>pc_epc := pc_epc (bios_state ?s) + WORDLEN\<rparr>\<rparr>"
  have K1: "kinv ?s v" by (rule kinv_updateCPUTime [OF K])
  have K2: "kinv ?t v" by (rule kinv_bios [OF K1])
  have "handled (syscallHandler ?t)" if c: "currentProcess s \<noteq> None" "call_ok s"
  proof -
    have "call_ok ?t" using c(2) by (simp add: call_ok_def dev_range_def devSem_def)
    moreover obtain p where "currentProcess ?t = Some p" using c(1) by auto
    ultimately show ?thesis by (intro syscallHandler_handled [OF K2])
  qed
  then show ?thesis
    using ok interruptHandler_handled [OF K1] passUpOrDie_handled [OF K1]
    by (auto simp: exceptionHandler_def exception_ok_def Let_def tlbExceptionHandler_def programTrapHandler_def)
qed

end
