(* ===== verification/Kernel_Boot.thy ===== *)
theory Kernel_Boot
  imports Kernel_Exceptions
begin

text \<open>
  \<open>main\<close> establishes the invariant: after the initialisation there is one process, it is the one
  the processor runs, and the other 19 blocks are free.
\<close>

section \<open>The loops of the initialisation\<close>

lemma zero_sems: "\<exists>m. fold (\<lambda>i s. store (devSem i s) 0 s) is s = s\<lparr>mem := m\<rparr>"
proof (induction "is" arbitrary: s)
  case Nil
  show ?case by (intro exI [of _ "mem s"]) simp
next
  case (Cons i "is")
  obtain m where "fold (\<lambda>i s. store (devSem i s) 0 s) is (store (devSem i s) 0 s) =
      (store (devSem i s) 0 s)\<lparr>mem := m\<rparr>" using Cons.IH by blast
  then show ?case by auto
qed

lemma zero_sems_done:
  "\<forall>i\<in>set is. mem (fold (\<lambda>i s. store (devSem i s) 0 s) is s) (devSem i s) = 0"
proof -
  have keep: "mem s a = 0 \<Longrightarrow> mem (fold (\<lambda>i s. store (devSem i s) 0 s) js s) a = 0" for s a js
    by (induction js arbitrary: s) auto
  have cong: "devSem i (store a w s) = devSem i s" for i a w s by (simp add: devSem_def)
  show ?thesis
  proof (induction "is" arbitrary: s)
    case (Cons j js)
    have "\<forall>i\<in>set js. mem (fold (\<lambda>i s. store (devSem i s) 0 s) js (store (devSem j s) 0 s)) (devSem i s) = 0"
      using Cons.IH [of "store (devSem j s) 0 s"] unfolding cong .
    then show ?case using keep [of "store (devSem j s) 0 s" "devSem j s" js] by simp
  qed simp
qed

definition clear_slots :: "nat set \<Rightarrow> (nat \<Rightarrow> nat option) \<Rightarrow> nat \<Rightarrow> nat option" where
  "clear_slots A f i = (if i \<in> A then None else f i)"

lemma clear_table:
  "fold (\<lambda>i s. s\<lparr>activeProcs := (activeProcs s)(i := None)\<rparr>) is s =
   (s :: nucleus)\<lparr>activeProcs := clear_slots (set is) (activeProcs s)\<rparr>"
proof (induction "is" arbitrary: s)
  case Nil
  have "clear_slots {} (activeProcs s) = activeProcs s" by (simp add: clear_slots_def fun_eq_iff)
  then show ?case by simp
next
  case (Cons i "is")
  have "clear_slots (set is) ((activeProcs s)(i := None)) = clear_slots (insert i (set is)) (activeProcs s)"
    by (simp add: clear_slots_def fun_eq_iff)
  with Cons show ?case by (simp del: fun_upd_apply)
qed

section \<open>The state after the initialisation\<close>

definition empty_view :: view where
  "empty_view = \<lparr>v_free = [0..<MAXPROC], v_ready = [], v_blocked = \<lambda>_. [], v_kids = \<lambda>_. []\<rparr>"

definition boot_view :: view where
  "boot_view = \<lparr>v_free = [1..<MAXPROC], v_ready = [], v_blocked = \<lambda>_. [], v_kids = \<lambda>_. []\<rparr>"

text \<open>
  What the loader provides: the static initial values of \<open>next_pid\<close> and \<open>yieldedProcess\<close>, and an
  array \<open>devSems\<close> that is somewhere in memory. The links and tables hold anything.
\<close>

definition boot_state :: "nucleus \<Rightarrow> bool" where
  "boot_state s \<longleftrightarrow> next_pid s = 1 \<and> yieldedProcess s = None \<and> devSems_addr s \<noteq> 0 \<and>
     unat (devSems_addr s) + 4 * TOT_SEMS < 2 ^ 32"

lemma live_empty_view [simp]: "live empty_view = {}"
  by (auto simp: live_def empty_view_def)

lemma init_krep: "\<exists>m. mkEmptyProcQ readyQueue (initASL (initPcbs s)) =
    s\<lparr>pcbs := reset_pids MAXPROC (pcbs s), s_key := zero_keys MAXPROC (s_key s), lmem := m\<rparr> \<and>
    krep {} (s\<lparr>pcbs := reset_pids MAXPROC (pcbs s), s_key := zero_keys MAXPROC (s_key s), lmem := m\<rparr>) empty_view"
proof -
  let ?L0 = "\<lambda>_ :: lh. [] :: lh list"
  have "rings {} (lmem s) ?L0" "detached {} ?L0 n" for n by (auto simp: rings_def detached_def)
  then obtain m1 where i1: "initPcbs s = s\<lparr>pcbs := reset_pids MAXPROC (pcbs s), lmem := m1\<rparr>" (is "_ = ?s1")
    and R1: "rings {pcbFree_h} m1 (?L0(pcbFree_h := map p_list [0..<MAXPROC]))" (is "rings _ _ ?L1")
    using initPcbs_spec [of "{}" s ?L0] by blast
  have R1': "rings {pcbFree_h} (lmem ?s1) ?L1" using R1 by simp
  have "detached {pcbFree_h} ?L1 semdFree_h" "detached {pcbFree_h} ?L1 semd_h"
    "detached {pcbFree_h} ?L1 (s_link i)" "detached {pcbFree_h} ?L1 (s_procq i)" for i
    by (auto simp: detached_def)
  then obtain m2 L2 where i2: "initASL ?s1 = ?s1\<lparr>s_key := zero_keys MAXPROC (s_key ?s1), lmem := m2\<rparr>"
    and A2: "asl_rep ({pcbFree_h} \<union> asl_heads) (initASL ?s1) L2 (\<lambda>_. [])" and F2: "asl_frame ?L1 L2"
    using initASL_spec [OF R1'] by blast
  have L2: "L2 pcbFree_h = map p_list [0..<MAXPROC]"
    using F2 by (simp add: asl_frame_def)
  let ?s2 = "initASL ?s1" and ?D = "{pcbFree_h} \<union> asl_heads" and ?m3 = "INIT_LIST_HEAD readyQueue (lmem (initASL ?s1))"
  have R2: "rings ?D (lmem ?s2) L2" using A2 by (simp add: asl_rep_def)
  obtain act fr where al: "asl_lists (s_key ?s2) L2 (\<lambda>_. []) act fr" using A2 by (auto simp: asl_rep_def)
  have "x \<in> p_list ` {..<MAXPROC} \<or> x \<in> range s_link" if "h \<in> ?D" "x \<in> set (L2 h)" for h x
    using that L2 asl_member [OF al, of h x] by auto
  then have d: "detached ?D L2 readyQueue" by (auto simp: detached_def)
  have "kheads {} = insert readyQueue ?D" by (auto simp: kheads_def)
  from rings_INIT_new [OF R2 d this] have R3: "rings (kheads {}) ?m3 (L2(readyQueue := []))" .
  have "asl_rep (kheads {}) (?s2\<lparr>lmem := ?m3\<rparr>) (L2(readyQueue := [])) (\<lambda>_. [])"
    by (rule asl_rep_update [OF A2 R3 asl_heads_sub]) auto
  then have "krep {} (?s2\<lparr>lmem := ?m3\<rparr>) empty_view"
    using L2 by (auto simp: krep_def klists_def empty_view_def intro!: exI [of _ "L2(readyQueue := [])"])
  then show ?thesis
    using i1 i2 by (intro exI [of _ ?m3]) (simp add: mkEmptyProcQ_def)
qed

lemma init_core:
  assumes B: "boot_state s"
  defines "t \<equiv> init_globals (initASL (initPcbs s))"
  shows "core {} {} t empty_view" and "counts_ok t empty_view" and "yieldedProcess t = None"
    and "next_pid t = 1" and "currentProcess t = None" and "devSems_addr t = devSems_addr s"
    and "p_s (pcbs t q) = p_s (pcbs s q)" and "passUpVec t = passUpVec s"
    and "\<forall>i<MAXPROC. activeProcs t i = None" and "\<forall>i<TOT_SEMS. mem t (devSem i t) = 0"
    and "interval_timer t = PSECOND"
proof -
  obtain m where i: "mkEmptyProcQ readyQueue (initASL (initPcbs s)) =
      s\<lparr>pcbs := reset_pids MAXPROC (pcbs s), s_key := zero_keys MAXPROC (s_key s), lmem := m\<rparr>"
    and K: "krep {} (s\<lparr>pcbs := reset_pids MAXPROC (pcbs s), s_key := zero_keys MAXPROC (s_key s), lmem := m\<rparr>) empty_view"
    using init_krep [of s] by blast
  let ?u = "s\<lparr>pcbs := reset_pids MAXPROC (pcbs s), s_key := zero_keys MAXPROC (s_key s), lmem := m,
    processCount := 0, softBlockCount := 0, currentProcess := None\<rparr>"
  have mk: "mkEmptyProcQ readyQueue (initASL (initPcbs s)\<lparr>processCount := 0, softBlockCount := 0, currentProcess := None\<rparr>) =
      (mkEmptyProcQ readyQueue (initASL (initPcbs s)))\<lparr>processCount := 0, softBlockCount := 0, currentProcess := None\<rparr>"
    by (simp add: mkEmptyProcQ_def)
  obtain mm where mm: "fold (\<lambda>i s. store (devSem i s) 0 s) [0..<TOT_SEMS] ?u = ?u\<lparr>mem := mm\<rparr>"
    using zero_sems by blast
  have z: "mm (devSem i ?u) = 0" if "i < TOT_SEMS" for i
    using zero_sems_done [of "[0..<TOT_SEMS]" ?u] that unfolding mm by simp
  let ?act = "clear_slots (set [0..<MAXPROC]) (activeProcs s)"
  have t: "t = ?u\<lparr>mem := mm, tod_reads := Suc (tod_reads s), startTOD := tod s (tod_reads s),
      activeProcs := ?act, interval_timer := PSECOND\<rparr>"
    unfolding t_def init_globals_def Let_def mk i
    by (simp only: mm nucleus.simps phase1.simps STCK_def prod.case clear_table LDIT_def) simp
  show "yieldedProcess t = None" "next_pid t = 1" "currentProcess t = None" "devSems_addr t = devSems_addr s"
    "passUpVec t = passUpVec s" "interval_timer t = PSECOND"
    using B by (simp_all add: t boot_state_def)
  show "p_s (pcbs t q) = p_s (pcbs s q)" by (simp add: t reset_pids_def)
  show "\<forall>i<TOT_SEMS. mem t (devSem i t) = 0" using z by (simp add: t devSem_def)
  show ta: "\<forall>i<MAXPROC. activeProcs t i = None" by (simp add: t clear_slots_def)
  have "krep (live empty_view) t empty_view"
    unfolding live_empty_view by (rule krep_cong [OF K]) (auto simp: t empty_view_def)
  moreover have "places_ok {} empty_view" by (auto simp: places_ok_def empty_view_def)
  moreover have "table_ok {} t empty_view" using ta by (auto simp: table_ok_def)
  moreover have "tree_ok t empty_view" by (auto simp: tree_ok_def child_rel_def acyclic_def)
  moreover have "pids_ok {} t empty_view" using B by (simp add: pids_ok_def t boot_state_def)
  moreover have "sems_ok t empty_view"
    using B by (simp add: sems_ok_def t boot_state_def) (simp add: empty_view_def)
  ultimately show "core {} {} t empty_view" unfolding core_def by simp
  show "counts_ok t empty_view"
    by (simp add: counts_ok_def t) (simp add: soft_blocked_def empty_view_def)
qed

section \<open>\<open>main\<close>\<close>

lemma nucleus_main_spec:
  assumes B: "boot_state s"
  shows "\<exists>s'. nucleus_main code s = Some (Ldst (first_state code (RAMTOP s) (p_s (pcbs s 0))), s') \<and>
    kinv s' boot_view \<and> currentProcess s' = Some 0 \<and> p_pid (pcbs s' 0) = 1 \<and> processCount s' = 1 \<and>
    softBlockCount s' = 0 \<and> next_pid s' = 2 \<and>
    p_supportStruct (pcbs s' 0) = 0 \<and> p_prio (pcbs s' 0) = PROCESS_PRIO_LOW \<and>
    passUpVec s' = \<lparr>tlb_refill_handler = addr_refill code, tlb_refill_stackPtr = RAMTOP s,
      exception_handler = addr_exception code, exception_stackPtr = RAMTOP s - PAGESIZE\<rparr> \<and>
    (\<forall>i<TOT_SEMS. mem s' (devSem i s') = 0) \<and> devSems_addr s' = devSems_addr s \<and>
    interval_timer s' = PSECOND"
proof -
  let ?s0 = "set_passUpVec code (RAMTOP s) s"
  define t where "t = init_globals (initASL (initPcbs ?s0))"
  have B0: "boot_state ?s0" using B by (simp add: boot_state_def set_passUpVec_def)
  note I = init_core [OF B0, folded t_def]
  have f: "v_free empty_view = 0 # [1..<MAXPROC]" by (simp add: empty_view_def upt_rec)
  have "next_pid t < 0x80000000" using I(4) by simp
  from core_alloc [OF I(1) f this] obtain m i where
    al: "allocPcb t = Some (Some 0, t\<lparr>next_pid := next_pid t + 1, lmem := m, pcbs := (pcbs t)(0 := new_pcb t 0)\<rparr>)"
      (is "_ = Some (_, ?t1)")
    and fi: "List.find (\<lambda>i. activeProcs t i = None) [0..<MAXPROC] = Some i"
    and C1: "core {} {0} (t\<lparr>next_pid := next_pid t + 1, lmem := m, pcbs := (pcbs t)(0 := new_pcb t 0),
        activeProcs := (activeProcs t)(i := Some 0)\<rparr>)
      (empty_view\<lparr>v_free := [1..<MAXPROC], v_kids := (v_kids empty_view)(0 := [])\<rparr>)"
    by blast
  have i: "i = 0" using fi I(9) by (simp add: upt_rec [of 0])
  have vw: "empty_view\<lparr>v_free := [1..<MAXPROC], v_kids := (v_kids empty_view)(0 := [])\<rparr> = boot_view"
    by (simp add: empty_view_def boot_view_def fun_eq_iff)
  define t2 where "t2 = (upd_pcb 0 (\<lambda>q. q\<lparr>p_prio := PROCESS_PRIO_LOW\<rparr>)
    (upd_pcb 0 (\<lambda>q. q\<lparr>p_s := first_state code (RAMTOP s) (p_s q)\<rparr>) ?t1))
    \<lparr>activeProcs := (activeProcs ?t1)(0 := Some 0)\<rparr>"
  have C2: "core {} {0} t2 boot_view"
    by (rule core_cong [OF C1 [unfolded vw]]) (auto simp: t2_def i)
  obtain m3 where i3: "insertProcQ readyQueue 0 t2 = Some (t2\<lparr>lmem := m3\<rparr>)"
    and C3: "core {} ({0} - {0}) (t2\<lparr>lmem := m3\<rparr>) (boot_view\<lparr>v_ready := ins_prio (prio_of t2) 0 (v_ready boot_view)\<rparr>)"
    using core_insert_ready [OF C2, of 0] by blast
  have r: "ins_prio (prio_of t2) 0 (v_ready boot_view) = [0]" by (simp add: boot_view_def)
  let ?t3 = "t2\<lparr>lmem := m3, processCount := 1\<rparr>"
  have C4: "core {} {} ?t3 (boot_view\<lparr>v_ready := [0]\<rparr>)"
    by (rule core_cong [OF C3 [unfolded Diff_cancel r]]) auto
  have y3: "yieldedProcess ?t3 = None" using I(3) by (simp add: t2_def)
  obtain m5 where s5: "scheduler ?t3 = Some (dispatch 0 (?t3\<lparr>lmem := m5\<rparr>))"
    and C5: "core {} {0} (?t3\<lparr>lmem := m5\<rparr>) (boot_view\<lparr>v_ready := [0], v_ready := []\<rparr>)"
    using scheduler_ready [OF C4 y3, of 0 "[]"] by auto
  obtain out u where d: "dispatch 0 (?t3\<lparr>lmem := m5\<rparr>) = (out, u)" by force
  have "boot_view\<lparr>v_ready := [0], v_ready := []\<rparr> = boot_view" by (simp add: boot_view_def)
  with C5 have C5': "core {} {0} (?t3\<lparr>lmem := m5\<rparr>) boot_view" by simp
  have N: "counts_ok (?t3\<lparr>lmem := m5\<rparr>) boot_view"
  proof -
    have "live boot_view = {0}" by (auto simp: live_def boot_view_def)
    then show ?thesis using I(2) by (simp add: counts_ok_def t2_def) (simp add: soft_blocked_def boot_view_def empty_view_def)
  qed
  have u: "currentProcess u = Some 0" "out = Ldst (p_s (pcbs t2 0))" "pcbs u = pcbs t2"
    "processCount u = 1" "softBlockCount u = softBlockCount t" "next_pid u = next_pid t + 1"
    "passUpVec u = passUpVec t" "mem u = mem t" "devSems_addr u = devSems_addr t" "yieldedProcess u = None"
    "interval_timer u = interval_timer t" "lmem u = m5" "s_key u = s_key t2" "activeProcs u = activeProcs t2"
    using d I(3) by (auto simp: dispatch_def STCK_def setTIMER_def Let_def t2_def)
  have "core {} {0} u boot_view" by (rule core_cong [OF C5']) (use u in \<open>auto simp: t2_def\<close>)
  moreover have "counts_ok u boot_view"
    by (rule counts_cong [OF N]) (use u in \<open>auto simp: t2_def\<close>)
  ultimately have "kinv u boot_view" using u by (simp add: kinv_def)
  moreover have "nucleus_main code s = Some (out, u)"
    unfolding nucleus_main_def Let_def t_def [symmetric] al Option.bind_lunit prod.case option.case
    using i3 s5 d by (simp add: t2_def)
  moreover have "p_s (pcbs t2 0) = first_state code (RAMTOP s) (p_s (pcbs s 0))"
    using I(7) by (simp add: t2_def new_pcb_def set_passUpVec_def)
  moreover have "softBlockCount t = 0"
    using I(2) by (simp add: counts_ok_def) (simp add: soft_blocked_def empty_view_def)
  moreover have "devSem i u = devSem i t" for i using u by (simp add: devSem_def)
  ultimately show ?thesis
    using u I(4,6,8,10,11) by (auto simp: t2_def new_pcb_def set_passUpVec_def)
qed

end
