(* ===== verification/Demo.thy ===== *)
theory Demo
  imports Kernel_Boot
begin

text \<open>
  A concrete machine, booted by \<open>main\<close>, and the states the theorems on the Nucleus are applied to:
  \<open>demo m b\<close> is the machine at an exception of its only process, with memory \<open>m\<close> and saved
  processor state \<open>b\<close>.
\<close>

section \<open>A concrete machine\<close>

text \<open>
  A machine on which the theorems are instantiated: RAM from \<open>0x20000000\<close> of 256 kB, the array
  \<open>devSems\<close> at \<open>0x20001000\<close>, and a clock that advances by 7 at each reading.
\<close>

definition demo_state :: state_t where
  "demo_state = \<lparr>entry_hi = 0, cause = 0, status = 0, pc_epc = 0, mie = 0, reg_sp = 0, reg_a0 = 0,
     reg_a1 = 0, reg_a2 = 0, reg_a3 = 0, gpr_rest = (\<lambda>_. 0)\<rparr>"

definition demo_support :: support_t where
  "demo_support = \<lparr>sup_asid = 0, sup_exceptState = (\<lambda>_. demo_state),
     sup_exceptContext = (\<lambda>_. \<lparr>stackPtr = 0, ctx_status = 0, ctx_pc = 0\<rparr>),
     sup_privatePgTbl = (\<lambda>_. \<lparr>pte_entryHI = 0, pte_entryLO = 0\<rparr>)\<rparr>"

definition demo_boot :: nucleus where
  "demo_boot = \<lparr>lmem = \<lparr>nxt = \<lambda>h. h, prv = \<lambda>h. h\<rparr>,
     pcbs = \<lambda>_. \<lparr>p_parent = None, p_s = demo_state, p_time = 0, p_semAdd = 0, p_supportStruct = 0,
       p_prio = 0, p_pid = 0\<rparr>,
     next_pid = 1, s_key = \<lambda>_. 0,
     processCount = 0, softBlockCount = 0, currentProcess = None, yieldedProcess = None, startTOD = 0,
     activeProcs = \<lambda>_. None, devSems_addr = 0x20001000,
     mem = (\<lambda>_. 0)(0x10000000 := 0x20000000, 0x10000004 := 0x40000, 0x10000024 := 1),
     state_mem = \<lambda>_. demo_state, support_mem = \<lambda>_. demo_support, bios_state = demo_state,
     passUpVec = \<lparr>tlb_refill_handler = 0, tlb_refill_stackPtr = 0, exception_handler = 0, exception_stackPtr = 0\<rparr>,
     tod = \<lambda>n. of_nat (7 * n), tod_reads = 0, plt_timer = 0, interval_timer = 0, mie_reg = 0,
     status_reg = 0, entryhi_reg = 0, entrylo_reg = 0, tlb = []\<rparr>"

definition demo_code :: code_addrs where
  "demo_code = \<lparr>addr_refill = 0x20000100, addr_exception = 0x20000200, addr_test = 0x20000300\<rparr>"

definition demo_run :: nucleus where
  "demo_run = snd (the (nucleus_main demo_code demo_boot))"

section \<open>The states of the machine\<close>

lemma demo_boot_state: "boot_state demo_boot"
  by (simp add: boot_state_def demo_boot_def)

lemma demo_run_main:
  "nucleus_main demo_code demo_boot = Some (Ldst (first_state demo_code 0x20040000 demo_state), demo_run)"
  using nucleus_main_spec [OF demo_boot_state, of demo_code]
  by (auto simp: demo_run_def RAMTOP_def) (simp_all add: demo_boot_def)

lemma demo_run_spec:
  "kinv demo_run boot_view" "currentProcess demo_run = Some 0" "p_pid (pcbs demo_run 0) = 1"
  "processCount demo_run = 1" "softBlockCount demo_run = 0" "next_pid demo_run = 2"
  "p_supportStruct (pcbs demo_run 0) = 0" "p_prio (pcbs demo_run 0) = PROCESS_PRIO_LOW"
  "devSems_addr demo_run = 0x20001000"
  using nucleus_main_spec [OF demo_boot_state, of demo_code]
  by (auto simp: demo_run_def) (simp_all add: demo_boot_def)

definition demo :: "(u32 \<Rightarrow> u32) \<Rightarrow> state_t \<Rightarrow> nucleus" where
  "demo m b = demo_run\<lparr>mem := m, bios_state := b\<rparr>"

text \<open>A system call with its code and arguments, from machine mode.\<close>

definition syscall_state :: "u32 \<Rightarrow> u32 \<Rightarrow> u32 \<Rightarrow> u32 \<Rightarrow> state_t" where
  "syscall_state a0 a1 a2 a3 = demo_state\<lparr>cause := 11, status := MSTATUS_MPP_M,
     reg_a0 := a0, reg_a1 := a1, reg_a2 := a2, reg_a3 := a3\<rparr>"

lemma syscall_state_sel [simp]:
  "cause (syscall_state a0 a1 a2 a3) = 11" "status (syscall_state a0 a1 a2 a3) = MSTATUS_MPP_M"
  "reg_a0 (syscall_state a0 a1 a2 a3) = a0" "reg_a1 (syscall_state a0 a1 a2 a3) = a1"
  "reg_a2 (syscall_state a0 a1 a2 a3) = a2" "reg_a3 (syscall_state a0 a1 a2 a3) = a3"
  by (simp_all add: syscall_state_def)

lemma demo_sel [simp]:
  "mem (demo m b) = m" "bios_state (demo m b) = b" "currentProcess (demo m b) = Some 0"
  "pcbs (demo m b) = pcbs demo_run" "next_pid (demo m b) = 2" "processCount (demo m b) = 1"
  "softBlockCount (demo m b) = 0" "devSems_addr (demo m b) = 0x20001000"
  by (simp_all add: demo_def demo_run_spec)

lemma demo_kinv: "kinv (demo m b) boot_view"
  unfolding demo_def by (rule kinv_cong [OF demo_run_spec(1)]) auto

lemma demo_devSem [simp]: "devSem i (demo m b) = 0x20001000 + 4 * of_nat i"
  by (simp add: devSem_def)

lemma demo_dev_range: "a \<in> dev_range (demo m b) \<longleftrightarrow> 0x20001000 \<le> a \<and> a < 0x200010C4"
  by (simp add: dev_range_def)

lemma boot_view_sel [simp]:
  "v_free boot_view = [1..<MAXPROC]" "v_ready boot_view = []" "v_blocked boot_view = (\<lambda>_. [])"
  "v_kids boot_view = (\<lambda>_. [])"
  by (simp_all add: boot_view_def)

lemma live_boot_view: "live boot_view = {0}"
  by (auto simp: live_def)

lemma no_waiters: "(\<lambda>_. [])(k := []) = (\<lambda>_ :: u32. [] :: nat list)"
  by auto

lemma demo_family: "family boot_view 0 = {0}"
proof -
  have "child_rel boot_view = {}" by (simp add: child_rel_def)
  then show ?thesis by (simp add: family_def)
qed

text \<open>The machine when its process has a support structure.\<close>

definition demo_sup :: "state_t \<Rightarrow> nucleus" where
  "demo_sup b = (demo (\<lambda>_. 0) b)\<lparr>pcbs := (pcbs demo_run)(0 := (pcbs demo_run 0)\<lparr>p_supportStruct := 0x20003000\<rparr>)\<rparr>"

lemma demo_sup:
  "kinv (demo_sup b) boot_view" "currentProcess (demo_sup b) = Some 0" "bios_state (demo_sup b) = b"
  "p_supportStruct (pcbs (demo_sup b) 0) = 0x20003000"
proof -
  show "kinv (demo_sup b) boot_view"
    unfolding demo_sup_def by (rule kinv_cong [OF demo_kinv [of "\<lambda>_. 0" b]]) (auto simp: demo_def)
qed (simp_all add: demo_sup_def)

end
