(* ===== verification/Phase1_Services.thy ===== *)
theory Phase1_Services
  imports Demo "HOL-Library.Multiset"
begin

text \<open>
  What phase 1 promises to the Nucleus. The queues of the semaphores and the lists of children are
  queues in the sense of one contract, \<open>fifo_queues\<close>; the process queues are priority queues that
  keep the order of arrival of equal priorities.
\<close>

section \<open>Sequences of operations\<close>

fun run_all :: "('a \<Rightarrow> 's \<Rightarrow> 's option) \<Rightarrow> 'a list \<Rightarrow> 's \<Rightarrow> 's option" where
  "run_all f [] s = Some s"
| "run_all f (x # xs) s = do { s \<leftarrow> f x s; run_all f xs s }"

fun take_many :: "('s \<Rightarrow> ('r \<times> 's) option) \<Rightarrow> nat \<Rightarrow> 's \<Rightarrow> ('r list \<times> 's) option" where
  "take_many f 0 s = Some ([], s)"
| "take_many f (Suc n) s = do { (x, s) \<leftarrow> f s; (xs, s) \<leftarrow> take_many f n s; Some (x # xs, s) }"

text \<open>The answers of \<open>n\<close> removals from a queue that holds \<open>ps\<close>.\<close>

fun served :: "nat \<Rightarrow> nat list \<Rightarrow> nat option list" where
  "served 0 ps = []"
| "served (Suc n) [] = None # served n []"
| "served (Suc n) (p # ps) = Some p # served n ps"

section \<open>Queues in order of arrival\<close>

text \<open>
  \<open>rep s Q A\<close>: the queue \<open>k\<close> holds \<open>Q k\<close>, and the processes of \<open>A\<close> are in no queue.
\<close>

locale fifo_queues =
  fixes rep :: "'s \<Rightarrow> ('k \<Rightarrow> nat list) \<Rightarrow> nat set \<Rightarrow> bool"
    and ok :: "'k \<Rightarrow> bool"
    and put :: "'k \<Rightarrow> nat \<Rightarrow> 's \<Rightarrow> 's option"
    and get :: "'k \<Rightarrow> 's \<Rightarrow> (nat option \<times> 's) option"
  assumes put_rep: "rep s Q A \<Longrightarrow> ok k \<Longrightarrow> p \<in> A \<Longrightarrow>
      \<exists>s'. put k p s = Some s' \<and> rep s' (Q(k := Q k @ [p])) (A - {p})"
    and get_Nil: "rep s Q A \<Longrightarrow> ok k \<Longrightarrow> Q k = [] \<Longrightarrow> get k s = Some (None, s)"
    and get_Cons: "rep s Q A \<Longrightarrow> ok k \<Longrightarrow> Q k = p # ps \<Longrightarrow>
      \<exists>s'. get k s = Some (Some p, s') \<and> rep s' (Q(k := ps)) (insert p A)"
begin

lemma put_all:
  assumes "rep s Q A" and "distinct (map snd ops)" and "snd ` set ops \<subseteq> A" and "list_all (ok \<circ> fst) ops"
  shows "\<exists>s'. run_all (\<lambda>(k, p). put k p) ops s = Some s' \<and>
    rep s' (\<lambda>k. Q k @ [p. (k', p) \<leftarrow> ops, k' = k]) (A - snd ` set ops)"
  using assms
proof (induction ops arbitrary: s Q A)
  case Nil
  then show ?case by simp
next
  case (Cons kp ops)
  obtain k p where kp: "kp = (k, p)" by force
  have pA: "p \<in> A" "ok k" and rest: "distinct (map snd ops)" "snd ` set ops \<subseteq> A - {p}" "list_all (ok \<circ> fst) ops"
    using Cons.prems(2-4) by (auto simp: kp image_iff o_def)
  obtain s1 where s1: "put k p s = Some s1" "rep s1 (Q(k := Q k @ [p])) (A - {p})"
    using put_rep [OF Cons.prems(1) pA(2,1)] by blast
  obtain s2 where s2: "run_all (\<lambda>(k, p). put k p) ops s1 = Some s2"
    "rep s2 (\<lambda>j. (Q(k := Q k @ [p])) j @ [p. (k', p) \<leftarrow> ops, k' = j]) (A - {p} - snd ` set ops)"
    using Cons.IH [OF s1(2) rest] by blast
  have "(\<lambda>j. (Q(k := Q k @ [p])) j @ [p. (k', p) \<leftarrow> ops, k' = j]) =
      (\<lambda>j. Q j @ [p. (k', p) \<leftarrow> kp # ops, k' = j])"
    by (auto simp: kp)
  moreover have "A - {p} - snd ` set ops = A - snd ` set (kp # ops)" by (auto simp: kp)
  ultimately show ?case using s1(1) s2 kp by simp
qed

lemma get_many:
  assumes "rep s Q A" and "ok k"
  shows "\<exists>s'. take_many (get k) n s = Some (served n (Q k), s') \<and>
    rep s' (Q(k := drop n (Q k))) (A \<union> set (take n (Q k)))"
  using assms(1)
proof (induction n arbitrary: s Q A)
  case 0
  then show ?case by simp
next
  case (Suc n)
  show ?case
  proof (cases "Q k")
    case Nil
    from Suc.IH [OF Suc.prems] Nil get_Nil [OF Suc.prems assms(2) Nil] show ?thesis by auto
  next
    case (Cons p ps)
    obtain s1 where s1: "get k s = Some (Some p, s1)" "rep s1 (Q(k := ps)) (insert p A)"
      using get_Cons [OF Suc.prems assms(2) Cons] by blast
    from Suc.IH [OF s1(2)] s1(1) Cons show ?thesis
      by (auto simp del: fun_upd_apply simp add: fun_upd_same fun_upd_upd)
  qed
qed

lemma fifo:
  assumes "rep s Q A" and "distinct (map snd ops)" and "snd ` set ops \<subseteq> A" and "list_all (ok \<circ> fst) ops" and "ok k"
  shows "\<exists>s1 s2. run_all (\<lambda>(k, p). put k p) ops s = Some s1 \<and>
    take_many (get k) n s1 = Some (served n (Q k @ [p. (k', p) \<leftarrow> ops, k' = k]), s2)"
  using put_all [OF assms(1-4)] get_many [OF _ assms(5), of _ _ _ n] by blast

end

text \<open>The queues of the semaphores.\<close>

definition sem_rep :: "nat set \<Rightarrow> 'a phase1_scheme \<Rightarrow> (u32 \<Rightarrow> nat list) \<Rightarrow> nat set \<Rightarrow> bool" where
  "sem_rep C s Q A \<longleftrightarrow> (\<exists>v. krep C s v \<and> v_blocked v = Q \<and> A = {p. p < MAXPROC \<and> unqueued v p} \<and>
     (\<forall>k. \<forall>q\<in>set (Q k). q < MAXPROC))"

definition block :: "u32 \<Rightarrow> nat \<Rightarrow> 'a phase1_scheme \<Rightarrow> 'a phase1_scheme option" where
  "block k p s = do { (r, s) \<leftarrow> insertBlocked k (Some p) s; if r = 0 then Some s else None }"

interpretation sems: fifo_queues "sem_rep C" "\<lambda>k. k \<noteq> 0" block removeBlocked
  for C
proof unfold_locales
  fix s :: "'a phase1_scheme" and Q A k p
  assume rep: "sem_rep C s Q A" and k: "k \<noteq> (0 :: u32)" and p: "p \<in> A"
  then obtain v where v: "krep C s v" "v_blocked v = Q" "A = {p. p < MAXPROC \<and> unqueued v p}"
    "\<And>k q. q \<in> set (Q k) \<Longrightarrow> q < MAXPROC"
    by (auto simp: sem_rep_def)
  obtain s' where s': "insertBlocked k (Some p) s = Some (0, s')"
    "krep C s' (v\<lparr>v_blocked := Q(k := Q k @ [p])\<rparr>)"
    using krep_insert_blocked [OF v(1) k, of p] v p by (auto simp: Let_def)
  have "A - {p} = {q. q < MAXPROC \<and> unqueued (v\<lparr>v_blocked := Q(k := Q k @ [p])\<rparr>) q}"
    using v(2,3) by (auto simp: unqueued_def split: if_splits)
  then have "sem_rep C s' (Q(k := Q k @ [p])) (A - {p})"
    unfolding sem_rep_def using s'(2) v p by (intro exI [of _ "v\<lparr>v_blocked := Q(k := Q k @ [p])\<rparr>"]) auto
  then show "\<exists>s'. block k p s = Some s' \<and> sem_rep C s' (Q(k := Q k @ [p])) (A - {p})"
    using s'(1) by (simp add: block_def)
next
  fix s :: "'a phase1_scheme" and Q A k
  assume "sem_rep C s Q A" and "Q k = []"
  then show "removeBlocked k s = Some (None, s)"
    using krep_remove_blocked_none by (auto simp: sem_rep_def)
next
  fix s :: "'a phase1_scheme" and Q A k p ps
  assume rep: "sem_rep C s Q A" and q: "Q k = p # ps"
  then obtain v where v: "krep C s v" "v_blocked v = Q" "A = {p. p < MAXPROC \<and> unqueued v p}"
    "\<And>k q. q \<in> set (Q k) \<Longrightarrow> q < MAXPROC"
    by (auto simp: sem_rep_def)
  obtain s' where s': "removeBlocked k s = Some (Some p, s')" "krep C s' (v\<lparr>v_blocked := Q(k := ps)\<rparr>)"
    using krep_remove_blocked_some [OF v(1), of k p ps] v q by (auto simp: Let_def)
  have d: "p \<notin> set ps" "p \<notin> set (v_free v)" "p \<notin> set (v_ready v)" "p < MAXPROC"
    "\<And>j. j \<noteq> k \<Longrightarrow> p \<notin> set (Q j)"
  proof -
    have b: "p \<in> set (v_blocked v k)" using v(2) q by simp
    show "p \<notin> set ps" using krep_distinct(3) [OF v(1), of k] v(2) q by simp
    show "p \<notin> set (v_free v)" "p \<notin> set (v_ready v)" using krep_disjoint(2,3) [OF v(1)] b by blast+
    show "p < MAXPROC" using v(4) q by (metis list.set_intros(1))
    show "p \<notin> set (Q j)" if "j \<noteq> k" for j using krep_disjoint(4) [OF v(1) b, of j] v(2) that by auto
  qed
  have lt: "x < MAXPROC" if "x \<in> set ps" for x using v(4) [of x k] q that by simp
  have "insert p A = {q. q < MAXPROC \<and> unqueued (v\<lparr>v_blocked := Q(k := ps)\<rparr>) q}"
    using v(2,3) d q by (auto simp: unqueued_def split: if_splits) (metis list.set_intros(2))
  then have "sem_rep C s' (Q(k := ps)) (insert p A)"
    unfolding sem_rep_def using s'(2) v q lt
    by (intro exI [of _ "v\<lparr>v_blocked := Q(k := ps)\<rparr>"]) (auto split: if_splits)
  then show "\<exists>s'. removeBlocked k s = Some (Some p, s') \<and> sem_rep C s' (Q(k := ps)) (insert p A)"
    using s'(1) by simp
qed

text \<open>The lists of children of the processes of \<open>C\<close>.\<close>

definition kids_rep :: "nat set \<Rightarrow> 'a phase1_scheme \<Rightarrow> (nat \<Rightarrow> nat list) \<Rightarrow> nat set \<Rightarrow> bool" where
  "kids_rep C s Q A \<longleftrightarrow> (\<exists>v. krep C s v \<and> (\<forall>a\<in>C. Q a = v_kids v a) \<and> A = {c. childless C v c})"

interpretation kids: fifo_queues "kids_rep C" "\<lambda>a. a \<in> C" "\<lambda>a c s. Some (insertChild a c s)" "\<lambda>a. removeChild (Some a)"
  for C
proof unfold_locales
  fix s :: "'a phase1_scheme" and Q A a c
  assume rep: "kids_rep C s Q A" and a: "a \<in> C" and c: "c \<in> A"
  then obtain v where v: "krep C s v" "\<And>a. a \<in> C \<Longrightarrow> Q a = v_kids v a" "A = {c. childless C v c}"
    by (auto simp: kids_rep_def)
  let ?v = "v\<lparr>v_kids := (v_kids v)(a := v_kids v a @ [c])\<rparr>"
  have "krep C (insertChild a c s) ?v"
    using krep_insert_child [OF v(1) a, of c] v(3) c by auto
  moreover have "A - {c} = {q. childless C ?v q}"
    using v(3) a by (auto simp: childless_def split: if_splits)
  ultimately have "kids_rep C (insertChild a c s) (Q(a := Q a @ [c])) (A - {c})"
    unfolding kids_rep_def using v(2) by (intro exI [of _ ?v]) auto
  then show "\<exists>s'. Some (insertChild a c s) = Some s' \<and> kids_rep C s' (Q(a := Q a @ [c])) (A - {c})"
    by simp
next
  fix s :: "'a phase1_scheme" and Q A a
  assume "kids_rep C s Q A" and "a \<in> C" and "Q a = []"
  then show "removeChild (Some a) s = Some (None, s)"
    using krep_remove_child_none by (fastforce simp: kids_rep_def simp del: removeChild.simps)
next
  fix s :: "'a phase1_scheme" and Q A a c cs
  assume rep: "kids_rep C s Q A" and a: "a \<in> C" and q: "Q a = c # cs"
  then obtain v where v: "krep C s v" "\<And>a. a \<in> C \<Longrightarrow> Q a = v_kids v a" "A = {c. childless C v c}"
    by (auto simp: kids_rep_def)
  let ?v = "v\<lparr>v_kids := (v_kids v)(a := cs)\<rparr>"
  have k: "v_kids v a = c # cs" using v(2) a q by simp
  obtain s' where s': "removeChild (Some a) s = Some (Some c, s')" "krep C s' ?v"
    using krep_remove_child_some [OF v(1) a k] by auto
  have d: "c \<notin> set cs" "\<And>b. b \<in> C \<Longrightarrow> b \<noteq> a \<Longrightarrow> c \<notin> set (v_kids v b)"
    using krep_distinct(4) [OF v(1) a] krep_disjoint(5) [OF v(1) a, of _ c] k by auto
  have "insert c A = {q. childless C ?v q}"
    using v(3) d k a by (auto simp: childless_def split: if_splits)
  then have "kids_rep C s' (Q(a := cs)) (insert c A)"
    unfolding kids_rep_def using s'(2) v(2) by (intro exI [of _ ?v]) auto
  then show "\<exists>s'. removeChild (Some a) s = Some (Some c, s') \<and> kids_rep C s' (Q(a := cs)) (insert c A)"
    using s'(1) by simp
qed

section \<open>Process queues\<close>

text \<open>Inserting one process after the other sorts them by decreasing priority; the sort is stable.\<close>

lemma ins_prio_filter:
  "prio_sorted pr ps \<Longrightarrow> filter (\<lambda>q. pr q = k) (ins_prio pr p ps) = filter (\<lambda>q. pr q = k) (ps @ [p])"
proof (induction ps)
  case (Cons q ps)
  then have "filter (\<lambda>q. pr q = pr p) ps = []" if "pr q < pr p"
    using that by (force simp: filter_empty_conv)
  with Cons show ?case by auto
qed simp

lemma prio_sorted_iff: "prio_sorted pr ps \<longleftrightarrow> sorted (map (\<lambda>p. - pr p) ps)"
  by (induction ps) auto

lemma mset_ins_prio [simp]: "mset (ins_prio pr p ps) = add_mset p (mset ps)"
  by (induction ps) auto

lemma fold_ins_prio:
  "prio_sorted pr qs \<Longrightarrow> fold (ins_prio pr) ps qs = sort_key (\<lambda>p. - pr p) (qs @ ps)"
proof (induction ps arbitrary: qs)
  case Nil
  then show ?case by (simp add: prio_sorted_iff sort_key_id_if_sorted)
next
  case (Cons p ps)
  have "sort_key (\<lambda>p. - pr p) (ins_prio pr p qs @ ps) = sort_key (\<lambda>p. - pr p) (qs @ p # ps)"
  proof (rule properties_for_sort_key [symmetric])
    show "mset (sort_key (\<lambda>p. - pr p) (ins_prio pr p qs @ ps)) = mset (qs @ p # ps)" by simp
    fix k
    have "filter (\<lambda>q. - pr k = - pr q) (sort_key (\<lambda>p. - pr p) (ins_prio pr p qs @ ps)) =
        filter (\<lambda>q. pr q = pr k) (ins_prio pr p qs) @ filter (\<lambda>q. pr q = pr k) ps"
      using sort_key_stable [of "\<lambda>p. - pr p" "- pr k" "ins_prio pr p qs @ ps"] by (simp add: eq_commute)
    also have "\<dots> = filter (\<lambda>q. - pr k = - pr q) (qs @ p # ps)"
      using ins_prio_filter [OF Cons.prems, of "pr k" p] by (auto simp: eq_commute)
    finally show "filter (\<lambda>q. - pr k = - pr q) (sort_key (\<lambda>p. - pr p) (ins_prio pr p qs @ ps)) =
        filter (\<lambda>q. - pr k = - pr q) (qs @ p # ps)" .
  qed simp
  then show ?case using Cons.IH [OF prio_sorted_ins_prio [OF Cons.prems]] by simp
qed

context proc_queue
begin

lemma insert_all:
  assumes "rep s qs" and "distinct (qs @ ps)"
  shows "\<exists>s'. run_all ins ps s = Some s' \<and> rep s' (fold (ins_prio (prio s)) ps qs)"
  using assms
proof (induction ps arbitrary: s qs)
  case (Cons p ps)
  obtain s1 where s1: "ins p s = Some s1" "rep s1 (ins_prio (prio s) p qs)" "prio s1 = prio s"
    using ins_rep [OF Cons.prems(1)] Cons.prems(2) by fastforce
  have "distinct (ins_prio (prio s) p qs @ ps)" using Cons.prems(2) by auto
  from Cons.IH [OF s1(2) this] s1 show ?case by auto
qed auto

lemma take_all:
  assumes "rep s ps"
  shows "\<exists>s'. take_many take_first n s = Some (served n ps, s')"
  using assms
proof (induction n arbitrary: s ps)
  case (Suc n)
  show ?case
  proof (cases ps)
    case Nil
    then have "take_first s = Some (None, s)" using take_first_Nil Suc.prems by simp
    with Suc.IH [OF Suc.prems] Nil show ?thesis by auto
  next
    case (Cons p qs)
    then obtain s1 where "take_first s = Some (Some p, s1)" "rep s1 qs"
      using take_first_Cons Suc.prems by blast
    with Suc.IH Cons show ?thesis by fastforce
  qed
qed simp

lemma sorts:
  assumes "rep s []" and "distinct ps"
  shows "\<exists>s1 s2. run_all ins ps s = Some s1 \<and>
    take_many take_first n s1 = Some (served n (sort_key (\<lambda>p. - prio s p) ps), s2)"
  using insert_all [OF assms(1), of ps] take_all [of _ _ n] assms(2) fold_ins_prio [of "prio s" "[]" ps] by fastforce

end

section \<open>What phase 1 promises\<close>

text \<open>
  C35. A process queue is a stable priority queue: processes inserted into an empty queue in any
  order come out by decreasing priority, those of equal priority in the order of insertion; then
  the queue is empty.
\<close>

theorem process_queues_sort:
  assumes "queue_rep h s []" and "distinct ps"
  shows "\<exists>s1 s2. run_all (insertProcQ h) ps s = Some s1 \<and>
    take_many (removeProcQ h) n s1 = Some (served n (sort_key (\<lambda>p. - prio_of s p) ps), s2)"
  using assms by (rule procq.sorts)

definition demo_queue :: phase1 where
  "demo_queue = \<lparr>lmem = \<lparr>nxt = \<lambda>h. h, prv = \<lambda>h. h\<rparr>,
     pcbs = \<lambda>p. (pcbs demo_boot 0)\<lparr>p_prio := of_nat (p mod 2)\<rparr>, next_pid = 1, s_key = \<lambda>_. 0\<rparr>"

theorem process_queues_sort_witness:
  "\<exists>s1 s2. run_all (insertProcQ readyQueue) [2, 1, 3] demo_queue = Some s1 \<and>
    take_many (removeProcQ readyQueue) 4 s1 = Some ([Some 1, Some 3, Some 2, None], s2)"
proof -
  have "queue_rep readyQueue demo_queue []" by (auto simp: queue_rep_def demo_queue_def)
  moreover have "sort_key (\<lambda>p. - prio_of demo_queue p) [2, 1, 3] = [1, 3, 2]" by (simp add: demo_queue_def)
  ultimately show ?thesis
    using process_queues_sort [of readyQueue demo_queue "[2, 1, 3]" 4] by (simp add: numeral_eq_Suc)
qed

text \<open>
  The semaphores serve in order of arrival: after any sequence of \<open>insertBlocked\<close> calls on any
  semaphores, all of which succeed, removals from a semaphore return first those who waited
  already, then the newly blocked ones of this semaphore in the order of their calls, then \<open>NULL\<close>.
\<close>

theorem semaphores_are_fifo:
  assumes K: "krep C s v" "\<And>k q. q \<in> set (v_blocked v k) \<Longrightarrow> q < MAXPROC"
    and d: "distinct (map snd ops)" and k: "list_all (\<lambda>(k, p). k \<noteq> 0 \<and> p < MAXPROC \<and> unqueued v p) ops" "k \<noteq> 0"
  shows "\<exists>s1 s2. run_all (\<lambda>(k, p). block k p) ops s = Some s1 \<and>
    take_many (removeBlocked k) n s1 = Some (served n (v_blocked v k @ [p. (k', p) \<leftarrow> ops, k' = k]), s2)"
proof (rule sems.fifo [OF _ d _ _ k(2)])
  show "sem_rep C s (v_blocked v) {p. p < MAXPROC \<and> unqueued v p}"
    using K by (auto simp: sem_rep_def)
  show "snd ` set ops \<subseteq> {p. p < MAXPROC \<and> unqueued v p}" "list_all ((\<lambda>k. k \<noteq> 0) \<circ> fst) ops"
    using k(1) by (auto simp: list_all_iff)
qed

lemma demo_krep: "krep {0} demo_run boot_view"
  using kinv_krep [OF demo_run_spec(1)] by (simp add: live_boot_view)

theorem semaphores_are_fifo_witness:
  "\<exists>s1 s2. run_all (\<lambda>(k, p). block k p) [(0x20002000, 0)] demo_run = Some s1 \<and>
    take_many (removeBlocked 0x20002000) 2 s1 = Some ([Some 0, None], s2)"
proof -
  have "unqueued boot_view 0" "served 2 [0] = [Some 0, None]" by (simp_all add: unqueued_def numeral_2_eq_2)
  then show ?thesis
    using semaphores_are_fifo [OF demo_krep, of "[(0x20002000, 0)]" "0x20002000" 2]
    by (simp del: run_all.simps take_many.simps)
qed

text \<open>
  The children of a process leave in the order they were inserted, whatever is inserted below
  other processes.
\<close>

theorem children_are_fifo:
  assumes K: "krep C s v" and d: "distinct (map snd ops)"
    and k: "list_all (\<lambda>(a, c). a \<in> C \<and> childless C v c) ops" "a \<in> C"
  shows "\<exists>s1 s2. run_all (\<lambda>(a, c) s. Some (insertChild a c s)) ops s = Some s1 \<and>
    take_many (removeChild (Some a)) n s1 = Some (served n (v_kids v a @ [c. (b, c) \<leftarrow> ops, b = a]), s2)"
proof -
  have "kids_rep C s (v_kids v) {c. childless C v c}" using K by (auto simp: kids_rep_def)
  moreover have "snd ` set ops \<subseteq> {c. childless C v c}" "list_all ((\<lambda>a. a \<in> C) \<circ> fst) ops"
    using k(1) by (auto simp: list_all_iff)
  ultimately show ?thesis using kids.fifo [OF _ d _ _ k(2), of s "v_kids v" "{c. childless C v c}" n]
    by (simp add: case_prod_unfold)
qed

theorem children_are_fifo_witness:
  "\<exists>s1 s2. run_all (\<lambda>(a, c) s. Some (insertChild a c s)) [(0, 5), (0, 3)] demo_run = Some s1 \<and>
    take_many (removeChild (Some 0)) 3 s1 = Some ([Some 5, Some 3, None], s2)"
  using children_are_fifo [OF demo_krep, of "[(0, 5), (0, 3)]" 0 3] by (simp add: childless_def numeral_eq_Suc)

lemma alloc_many:
  assumes "krep {0..<i} s v" and "v_free v = [i..<MAXPROC]" and "i \<le> MAXPROC"
    and "v_kids v = (\<lambda>_. [])"
  shows "\<exists>s'. take_many allocPcb n s = Some (served n [i..<MAXPROC], s')"
  using assms
proof (induction n arbitrary: s v i)
  case (Suc n)
  show ?case
  proof (cases "i = MAXPROC")
    case True
    then have "allocPcb s = Some (None, s)" using krep_alloc_none [OF Suc.prems(1)] Suc.prems(2) by simp
    with Suc.IH [OF Suc.prems] True show ?thesis by auto
  next
    case False
    then have f: "[i..<MAXPROC] = i # [Suc i..<MAXPROC]" using Suc.prems(3) by (simp add: upt_rec)
    have "childless {0..<i} v i" using Suc.prems(4) by (simp add: childless_def)
    then obtain t where m: "allocPcb s = Some (Some i, t)"
      and K: "krep (insert i {0..<i}) t (v\<lparr>v_free := [Suc i..<MAXPROC], v_kids := (v_kids v)(i := [])\<rparr>)"
      using krep_alloc_some [OF Suc.prems(1), of i "[Suc i..<MAXPROC]"] Suc.prems(2) f by auto
    have "insert i {0..<i} = {0..<Suc i}" "(\<lambda>_. [])(i := []) = (\<lambda>_. [])" by auto
    with Suc.IH [of "Suc i" t "v\<lparr>v_free := [Suc i..<MAXPROC], v_kids := (v_kids v)(i := [])\<rparr>"] K Suc.prems False m f
    show ?thesis by auto
  qed
qed simp

text \<open>
  The pool of process control blocks: after the initialisation \<open>allocPcb\<close> gives out each of the
  \<open>MAXPROC\<close> blocks once, and then \<open>NULL\<close>.
\<close>

theorem pool_gives_each_block_once:
  "\<exists>s'. take_many allocPcb n (mkEmptyProcQ readyQueue (initASL (initPcbs s))) = Some (served n [0..<MAXPROC], s')"
proof -
  obtain t where t: "mkEmptyProcQ readyQueue (initASL (initPcbs s)) = t" "krep {} t empty_view"
    using init_krep [of s] by metis
  then show ?thesis using alloc_many [of 0 t empty_view n] by (simp add: empty_view_def)
qed

text \<open>
  The lists of the kernel do not disturb each other: in one memory of links, adding a free
  node at the front or at the end of a list and removing a member change that list as expected
  and no other.
\<close>

theorem list_operations_are_local:
  assumes R: "rings D m L" and h: "h \<in> D" and n: "detached D L n" and x: "x \<in> set (L h)"
  shows "rings D (list_add n h m) (L(h := n # L h)) \<and> rings D (list_add_tail n h m) (L(h := L h @ [n])) \<and>
    rings D (list_del x m) (L(h := remove1 x (L h))) \<and> list_add x (prv m x) (list_del x m) = m"
proof -
  obtain xs ys where L: "L h = xs @ x # ys" using x by (meson split_list)
  have r: "ring m h (xs @ x # ys)" using ringsD(1) [OF R h] L by simp
  note mid = ring_nxt_mid [OF r] ring_prv_mid [OF r]
  have "linked m h (xs @ x # ys) h" "distinct (h # xs @ x # ys)" using r by (auto simp: ring_def)
  then have "nxt m (prv m x) = x" "prv m (nxt m x) = x" "prv m x \<noteq> x" "nxt m x \<noteq> x"
    unfolding mid by (auto simp: linked_append) (cases ys; auto)+
  then have "list_add x (prv m x) (list_del x m) = m"
    by (intro list_mem.equality) (auto simp: heap_simps list_add_def fun_eq_iff)
  with rings_add [OF R h n] rings_add_tail [OF R h n] rings_del [OF R h x] show ?thesis by blast
qed

definition demo_links :: list_mem where
  "demo_links = list_add (p_list 1) readyQueue (INIT_LIST_HEAD readyQueue (lmem demo_boot))"

theorem list_operations_are_local_witness:
  "rings {readyQueue} (list_add_tail (p_list 2) readyQueue demo_links) (\<lambda>h. if h = readyQueue then [p_list 1, p_list 2] else []) \<and>
   rings {readyQueue} (list_del (p_list 1) demo_links) (\<lambda>_. [])"
proof -
  have "rings {readyQueue} (INIT_LIST_HEAD readyQueue (lmem demo_boot)) (\<lambda>_. [])"
    by (simp add: rings_one ring_INIT del: ring_self)
  then have R: "rings {readyQueue} demo_links ((\<lambda>_. [])(readyQueue := [p_list 1]))"
    using rings_add [of "{readyQueue}" "INIT_LIST_HEAD readyQueue (lmem demo_boot)" "\<lambda>_. []" readyQueue "p_list 1"]
    by (simp add: demo_links_def detached_def)
  have e: "(\<lambda>_. [])(readyQueue := [p_list 1], readyQueue := [p_list 1, p_list 2]) =
      (\<lambda>h. if h = readyQueue then [p_list 1, p_list 2] else [])"
    "(\<lambda>_. [])(readyQueue := [p_list 1], readyQueue := []) = (\<lambda>_. [] :: lh list)" by auto
  show ?thesis
    using list_operations_are_local [OF R, of readyQueue "p_list 2" "p_list 1"] e by (simp add: detached_def)
qed

end
