(* ===== verification/Phase1_Test.thy ===== *)
theory Phase1_Test
  imports Phase1_Services
begin

text \<open>
  \<^verbatim>\<open>phase1/p1test.c\<close>, the test program of phase 1, and the terminal output it does by itself. The
  program is a tree of the operations it calls, with a continuation for their results, so that it
  can be run both on the code of phase 1 and on plain lists.
\<close>

section \<open>The state of the program\<close>

record p1state = phase1 +
  okbuf :: "nat \<Rightarrow> char"
  mp :: nat
  errbuf :: "nat \<Rightarrow> char"
  status_reads :: nat
  commands :: "(u32 \<times> u32) list"

text \<open>
  The environment: \<open>term_status n\<close> is what the \<open>n\<close>-th reading of the status register of the
  transmitter gives, \<open>sem_at i\<close> the address of \<open>sem[i]\<close>, and \<open>sem_at MAXSEM\<close> that of \<open>onesem\<close>.
\<close>

record p1env =
  term_status :: "nat \<Rightarrow> u32"
  sem_at :: "nat \<Rightarrow> u32"

abbreviation (input) MAXSEM :: nat where "MAXSEM \<equiv> MAXPROC"
abbreviation (input) onesem :: nat where "onesem \<equiv> MAXSEM"
abbreviation (input) TRANSMITTED :: u32 where "TRANSMITTED \<equiv> 5"
abbreviation (input) PRINTCHR :: u32 where "PRINTCHR \<equiv> 2"
abbreviation (input) CHAROFFSET :: nat where "CHAROFFSET \<equiv> 8"
abbreviation (input) STATUSMASK :: u32 where "STATUSMASK \<equiv> 0xFF"
abbreviation (input) TERM0ADDR :: u32 where "TERM0ADDR \<equiv> 0x10000254"
abbreviation (input) term_READY :: u32 where "term_READY \<equiv> 1"
abbreviation (input) term_BUSY :: u32 where "term_BUSY \<equiv> 3"

section \<open>Terminal output\<close>

definition termstat :: "p1env \<Rightarrow> p1state \<Rightarrow> u32 \<times> p1state" where
  "termstat e s = (term_status e (status_reads s) AND STATUSMASK, s\<lparr>status_reads := Suc (status_reads s)\<rparr>)"

text \<open>The busy waiting; \<open>None\<close> when it does not end.\<close>

partial_function (option) busy_wait :: "p1env \<Rightarrow> u32 \<Rightarrow> p1state \<Rightarrow> (u32 \<times> p1state) option" where
  "busy_wait e stat s =
     (if stat = term_BUSY then let (stat, s) = termstat e s in busy_wait e stat s else Some (stat, s))"

declare busy_wait.simps [code]

definition char_cmd :: "char \<Rightarrow> u32" where
  "char_cmd c = push_bit CHAROFFSET (of_char c) OR PRINTCHR"

text \<open>The print cycle; the result is the flag \<open>error\<close>.\<close>

primrec print_cycle :: "p1env \<Rightarrow> u32 \<Rightarrow> string \<Rightarrow> p1state \<Rightarrow> (bool \<times> p1state) option" where
  "print_cycle e commandp [] s = Some (False, s)"
| "print_cycle e commandp (c # cs) s =
     (let s = s\<lparr>commands := commands s @ [(commandp, char_cmd c)]\<rparr>;
          (stat, s) = termstat e s
      in do {
        (stat, s) \<leftarrow> busy_wait e stat s;
        if stat \<noteq> TRANSMITTED then Some (True, s) else print_cycle e commandp cs s
      })"

definition termprint :: "p1env \<Rightarrow> string \<Rightarrow> nat \<Rightarrow> p1state \<Rightarrow> (bool \<times> p1state) option" where
  "termprint e str dev s =
     (if dev < 8 then
        let commandp = TERM0ADDR + of_nat (dev * 16) + 12;
            (stat, s) = termstat e s
        in if stat = term_READY \<or> stat = TRANSMITTED
           then map_option (\<lambda>(error, s). (\<not> error, s)) (print_cycle e commandp str s)
           else Some (False, s)
      else Some (False, s))"

text \<open>Copying a string with its terminator into one of the buffers, of 2048 and 128 characters.\<close>

primrec copy_string :: "nat \<Rightarrow> string \<Rightarrow> nat \<Rightarrow> (nat \<Rightarrow> char) \<Rightarrow> ((nat \<Rightarrow> char) \<times> nat) option" where
  "copy_string bound [] i b = (if i < bound then Some (b(i := CHR 0x00), i) else None)"
| "copy_string bound (c # cs) i b =
     (if i < bound then copy_string bound cs (Suc i) (b(i := c)) else None)"

definition addokbuf :: "p1env \<Rightarrow> string \<Rightarrow> p1state \<Rightarrow> p1state option" where
  "addokbuf e strp s =
     do {
       (b, i) \<leftarrow> copy_string 2048 strp (mp s) (okbuf s);
       (r, s) \<leftarrow> termprint e strp 0 (s\<lparr>okbuf := b, mp := i\<rparr>);
       Some s
     }"

text \<open>\<open>adderrbuf\<close> up to the loop \<open>while(1)\<close> it ends with.\<close>

definition adderrbuf :: "p1env \<Rightarrow> string \<Rightarrow> p1state \<Rightarrow> p1state option" where
  "adderrbuf e strp s =
     do {
       (b, i) \<leftarrow> copy_string 128 strp 0 (errbuf s);
       (r, s) \<leftarrow> termprint e strp 0 (s\<lparr>errbuf := b\<rparr>);
       Some s
     }"

section \<open>Programs over phase 1\<close>

datatype tprog =
    Finish
  | Ok string tprog
  | Err string
  | Init_pcbs tprog | Init_asl tprog
  | Alloc "nat option \<Rightarrow> tprog" | Free "nat option" tprog
  | List_head tprog
  | Empty_q "bool \<Rightarrow> tprog" | Insert_q nat tprog | Head_q "nat option \<Rightarrow> tprog"
  | Remove_q "nat option \<Rightarrow> tprog" | Out_q nat "nat option \<Rightarrow> tprog"
  | Set_prio nat u32 tprog
  | Empty_child nat "bool \<Rightarrow> tprog" | Insert_child nat nat tprog
  | Remove_child "nat option" "nat option \<Rightarrow> tprog" | Out_child "nat option" "nat option \<Rightarrow> tprog"
  | Insert_blocked nat "nat option" "bool \<Rightarrow> tprog" | Remove_blocked nat "nat option \<Rightarrow> tprog"
  | Head_blocked nat "nat option \<Rightarrow> tprog" | Out_blocked "nat option" "nat option \<Rightarrow> tprog"
  | Null_access

text \<open>A failed check ends the program; a null pointer must not be followed.\<close>

definition check :: "bool \<Rightarrow> string \<Rightarrow> tprog \<Rightarrow> tprog" where
  "check b msg k = (if b then Err msg else k)"

definition deref :: "nat option \<Rightarrow> (nat \<Rightarrow> tprog) \<Rightarrow> tprog" where
  "deref p k = (case p of None \<Rightarrow> Null_access | Some p \<Rightarrow> k p)"

primrec for_loop :: "nat list \<Rightarrow> (nat \<Rightarrow> 'v \<Rightarrow> ('v \<Rightarrow> tprog) \<Rightarrow> tprog) \<Rightarrow> 'v \<Rightarrow> ('v \<Rightarrow> tprog) \<Rightarrow> tprog" where
  "for_loop [] body v k = k v"
| "for_loop (i # is) body v k = body i v (\<lambda>v. for_loop is body v k)"

text \<open>\<open>nl\<close> ends a message.\<close>

definition nl :: string where "nl = [CHR 0x0A]"

section \<open>The test\<close>

type_synonym procs = "nat \<Rightarrow> nat option"

definition check_alloc :: "(procs \<Rightarrow> tprog) \<Rightarrow> tprog" where
  "check_alloc k =
     for_loop [0..<MAXPROC] (\<lambda>i procp k. Alloc (\<lambda>p.
         check (p = None) (''allocPcb: unexpected NULL   '' @ nl) (k (procp(i := p)))))
       (\<lambda>_. None) (\<lambda>procp.
     Alloc (\<lambda>p. check (p \<noteq> None) (''allocPcb: allocated more than MAXPROC entries   '' @ nl) (
     Ok (''allocPcb ok   '' @ nl) (
     for_loop [10..<MAXPROC] (\<lambda>i _ k. Free (procp i) (k ())) () (\<lambda>_.
     Ok (''freed 10 entries   '' @ nl) (k procp))))))"

text \<open>Ten processes go into the queue \<open>qa\<close>; the first, the sixth and the last are remembered.\<close>

record marks = firstproc :: "nat option"  midproc :: "nat option"  lastproc :: "nat option"

definition fill_queue :: "(marks \<Rightarrow> tprog) \<Rightarrow> tprog" where
  "fill_queue k =
     List_head (
     Empty_q (\<lambda>b. check (\<not> b) (''emptyProcQ: unexpected FALSE   '' @ nl) (
     Ok (''Inserting...   '' @ nl) (
     for_loop [0..<10] (\<lambda>i m k. Alloc (\<lambda>q.
         check (q = None) (''allocPcb: unexpected NULL while insert   '' @ nl) (
         let m = (if i = 0 then m\<lparr>firstproc := q\<rparr> else if i = 5 then m\<lparr>midproc := q\<rparr>
                  else if i = 9 then m\<lparr>lastproc := q\<rparr> else m)
         in deref q (\<lambda>q. Insert_q q (k m)))))
       \<lparr>firstproc = None, midproc = None, lastproc = None\<rparr> (\<lambda>m.
     Ok (''inserted 10 elements   '' @ nl) (
     Empty_q (\<lambda>b. check b (''emptyProcQ: unexpected TRUE'' @ nl) (k m))))))))"

definition check_out :: "procs \<Rightarrow> marks \<Rightarrow> tprog \<Rightarrow> tprog" where
  "check_out procp m k =
     Head_q (\<lambda>h. check (h \<noteq> firstproc m) (''headProcQ failed   '' @ nl) (
     deref (firstproc m) (\<lambda>f. Out_q f (\<lambda>q.
     check (q = None \<or> q \<noteq> firstproc m) (''outProcQ failed on first entry   '' @ nl) (
     Free q (
     deref (midproc m) (\<lambda>f. Out_q f (\<lambda>q.
     check (q = None \<or> q \<noteq> midproc m) (''outProcQ failed on middle entry   '' @ nl) (
     Free q (
     deref (procp 0) (\<lambda>f. Out_q f (\<lambda>r.
     check (r \<noteq> None) (''outProcQ failed on nonexistent entry   '' @ nl) (
     Ok (''outProcQ ok   '' @ nl) k)))))))))))))"

definition check_remove :: "marks \<Rightarrow> tprog \<Rightarrow> tprog" where
  "check_remove m k =
     Ok (''Removing...   '' @ nl) (
     for_loop [0..<8] (\<lambda>i _ k. Remove_q (\<lambda>q.
         check (q = None) (''removeProcQ: unexpected NULL   '' @ nl) (Free q (k q)))) None (\<lambda>q.
     check (q \<noteq> lastproc m) (''removeProcQ: failed on last entry   '' @ nl) (
     Remove_q (\<lambda>r. check (r \<noteq> None) (''removeProcQ: removes too many entries   '' @ nl) (
     Empty_q (\<lambda>b. check (\<not> b) (''emptyProcQ: unexpected FALSE   '' @ nl) k))))))"

text \<open>\<open>p = allocPcb(); p->p_prio = prio; insertProcQ(&qa, p)\<close>.\<close>

definition insert_with_prio :: "u32 \<Rightarrow> (nat option \<Rightarrow> tprog) \<Rightarrow> tprog" where
  "insert_with_prio prio k = Alloc (\<lambda>p. deref p (\<lambda>q. Set_prio q prio (Insert_q q (k p))))"

definition check_prio :: "tprog \<Rightarrow> tprog" where
  "check_prio k =
     Ok (''Stating priority queue tests...   '' @ nl) (
     insert_with_prio 20 (\<lambda>p1.
     insert_with_prio 10 (\<lambda>p2.
     insert_with_prio 5 (\<lambda>p3.
     insert_with_prio 10 (\<lambda>p2bis.
     Remove_q (\<lambda>p. check (p \<noteq> p1) (''removeProcQ: failed, wrong priority order for p1   '' @ nl) (
     Remove_q (\<lambda>p. check (p \<noteq> p2) (''removeProcQ: failed, wrong priority order for p2   '' @ nl) (
     Remove_q (\<lambda>p. check (p \<noteq> p2bis) (''removeProcQ: failed, wrong priority order for p2bis   '' @ nl) (
     Remove_q (\<lambda>p. check (p \<noteq> p3) (''removeProcQ: failed, wrong priority order for p3   '' @ nl) (
     Free p1 (Free p2 (Free p2bis (Free p3 (
     Ok (''insertProcQ, removeProcQ and emptyProcQ ok   '' @ nl) (
     Ok (''process queues module ok      '' @ nl) k))))))))))))))))))"

definition check_children :: "procs \<Rightarrow> tprog \<Rightarrow> tprog" where
  "check_children procp k =
     Ok (''checking process trees...'' @ nl) (
     deref (procp 2) (\<lambda>p2. Empty_child p2 (\<lambda>b.
     check (\<not> b) (''emptyChild: unexpected FALSE   '' @ nl) (
     Ok (''Inserting...   '' @ nl) (
     for_loop [1..<10] (\<lambda>i _ k. deref (procp 0) (\<lambda>a. deref (procp i) (\<lambda>c. Insert_child a c (k ())))) () (\<lambda>_.
     Ok (''Inserted 9 children   '' @ nl) (
     deref (procp 0) (\<lambda>p0. Empty_child p0 (\<lambda>b.
     check b (''emptyChild: unexpected TRUE   '' @ nl) (
     Out_child (procp 1) (\<lambda>q.
     check (q = None \<or> q \<noteq> procp 1) (''outChild failed on first child   '' @ nl) (
     Out_child (procp 4) (\<lambda>q.
     check (q = None \<or> q \<noteq> procp 4) (''outChild failed on middle child   '' @ nl) (
     Out_child (procp 0) (\<lambda>q.
     check (q \<noteq> None) (''outChild failed on nonexistent child   '' @ nl) (
     Ok (''outChild ok   '' @ nl) (
     Ok (''Removing...   '' @ nl) (
     for_loop [0..<7] (\<lambda>i _ k. Remove_child (procp 0) (\<lambda>q.
         check (q = None) (''removeChild: unexpected NULL   '' @ nl) (k ()))) () (\<lambda>_.
     Remove_child (procp 0) (\<lambda>r.
     check (r \<noteq> None) (''removeChild: removes too many children   '' @ nl) (
     Empty_child p0 (\<lambda>b. check (\<not> b) (''emptyChild: unexpected FALSE   '' @ nl) (
     Ok (''insertChild, removeChild and emptyChild ok   '' @ nl) (
     Ok (''process tree module ok      '' @ nl) (
     for_loop [0..<10] (\<lambda>i _ k. Free (procp i) (k ())) () (\<lambda>_. k))))))))))))))))))))))))))"

definition fill_semaphores :: "procs \<Rightarrow> (procs \<Rightarrow> tprog) \<Rightarrow> tprog" where
  "fill_semaphores procp k =
     Init_asl (
     Ok (''Initialized active semaphore list   '' @ nl) (
     Ok (''insertBlocked test #1 started  '' @ nl) (
     for_loop [10..<MAXPROC] (\<lambda>i procp k. Alloc (\<lambda>p. Insert_blocked i p (\<lambda>b.
         check b (''insertBlocked(1): unexpected TRUE   '' @ nl) (k (procp(i := p)))))) procp (\<lambda>procp.
     Ok (''insertBlocked test #2 started  '' @ nl) (
     for_loop [0..<10] (\<lambda>i procp k. Alloc (\<lambda>p. Insert_blocked i p (\<lambda>b.
         check b (''insertBlocked(2): unexpected TRUE   '' @ nl) (k (procp(i := p)))))) procp (\<lambda>procp.
     Remove_blocked 11 (\<lambda>p. Insert_blocked 11 p (\<lambda>b.
     check b (''removeBlocked: fails to return to free list   '' @ nl) (
     Insert_blocked onesem (procp 9) (\<lambda>b.
     check (\<not> b) (''insertBlocked: inserted more than MAXPROC   '' @ nl) (k procp)))))))))))"

definition move_blocked :: "procs \<Rightarrow> tprog \<Rightarrow> tprog" where
  "move_blocked procp k =
     Ok (''removeBlocked test started   '' @ nl) (
     for_loop [10..<MAXPROC] (\<lambda>i _ k. Remove_blocked i (\<lambda>q.
         check (q = None) (''removeBlocked: wouldn't remove   '' @ nl) (
         check (q \<noteq> procp i) (''removeBlocked: removed wrong element   '' @ nl) (
         Insert_blocked (i - 10) q (\<lambda>b.
         check b (''insertBlocked(3): unexpected TRUE   '' @ nl) (k ())))))) () (\<lambda>_.
     Remove_blocked 11 (\<lambda>q.
     check (q \<noteq> None) (''removeBlocked: removed nonexistent blocked proc   '' @ nl) (
     Ok (''insertBlocked and removeBlocked ok   '' @ nl) k))))"

definition check_blocked :: "procs \<Rightarrow> tprog \<Rightarrow> tprog" where
  "check_blocked procp k =
     Head_blocked 11 (\<lambda>q. check (q \<noteq> None) (''headBlocked: nonNULL for a nonexistent queue   '' @ nl) (
     Head_blocked 9 (\<lambda>q. check (q = None) (''headBlocked(1): NULL for an existent queue   '' @ nl) (
     check (q \<noteq> procp 9) (''headBlocked(1): wrong process returned   '' @ nl) (
     Out_blocked q (\<lambda>p. check (p \<noteq> q) (''outBlocked(1): couldn't remove from valid queue   '' @ nl) (
     Head_blocked 9 (\<lambda>q. check (q = None) (''headBlocked(2): NULL for an existent queue   '' @ nl) (
     check (q \<noteq> procp 19) (''headBlocked(2): wrong process returned   '' @ nl) (
     Out_blocked q (\<lambda>p. check (p \<noteq> q) (''outBlocked(2): couldn't remove from valid queue   '' @ nl) (
     Out_blocked q (\<lambda>p. check (p \<noteq> None) (''outBlocked: removed same process twice.'' @ nl) (
     Head_blocked 9 (\<lambda>q. check (q \<noteq> None) (''out/headBlocked: unexpected nonempty queue   '' @ nl) (
     Ok (''headBlocked and outBlocked ok   '' @ nl) (
     Ok (''ASL module ok   '' @ nl) (
     Ok (''So Long and Thanks for All the Fish'' @ nl) k))))))))))))))))))"

definition p1test_main :: tprog where
  "p1test_main =
     Init_pcbs (
     Ok (''Initialized process control blocks   '' @ nl) (
     check_alloc (\<lambda>procp.
     fill_queue (\<lambda>m.
     check_out procp m (
     check_remove m (
     check_prio (
     check_children procp (
     fill_semaphores procp (\<lambda>procp.
     move_blocked procp (
     check_blocked procp Finish))))))))))"

section \<open>Running the test on the code\<close>

text \<open>\<open>qa\<close> is a local variable; the result is false when the program ends in \<open>adderrbuf\<close>.\<close>

abbreviation (input) qa :: lh where "qa \<equiv> local_head 0"

primrec run_test :: "tprog \<Rightarrow> p1env \<Rightarrow> p1state \<Rightarrow> (bool \<times> p1state) option" where
  "run_test Finish e s = Some (True, s)"
| "run_test (Ok m k) e s = do { s \<leftarrow> addokbuf e m s; run_test k e s }"
| "run_test (Err m) e s = do { s \<leftarrow> adderrbuf e m s; Some (False, s) }"
| "run_test (Init_pcbs k) e s = run_test k e (initPcbs s)"
| "run_test (Init_asl k) e s = run_test k e (initASL s)"
| "run_test (Alloc k) e s = do { (p, s) \<leftarrow> allocPcb s; run_test (k p) e s }"
| "run_test (Free p k) e s = run_test k e (freePcb p s)"
| "run_test (List_head k) e s = run_test k e (s\<lparr>lmem := INIT_LIST_HEAD qa (lmem s)\<rparr>)"
| "run_test (Empty_q k) e s = run_test (k (emptyProcQ qa s)) e s"
| "run_test (Insert_q p k) e s = do { s \<leftarrow> insertProcQ qa p s; run_test k e s }"
| "run_test (Head_q k) e s = do { p \<leftarrow> headProcQ qa s; run_test (k p) e s }"
| "run_test (Remove_q k) e s = do { (p, s) \<leftarrow> removeProcQ qa s; run_test (k p) e s }"
| "run_test (Out_q p k) e s = do { (q, s) \<leftarrow> outProcQ qa p s; run_test (k q) e s }"
| "run_test (Set_prio p x k) e s = run_test k e (upd_pcb p (\<lambda>q. q\<lparr>p_prio := x\<rparr>) s)"
| "run_test (Empty_child p k) e s = run_test (k (emptyChild p s)) e s"
| "run_test (Insert_child a c k) e s = run_test k e (insertChild a c s)"
| "run_test (Remove_child p k) e s = do { (c, s) \<leftarrow> removeChild p s; run_test (k c) e s }"
| "run_test (Out_child p k) e s = (let (c, s) = outChild p s in run_test (k c) e s)"
| "run_test (Insert_blocked i p k) e s =
     do { (r, s) \<leftarrow> insertBlocked (sem_at e i) p s; run_test (k (r \<noteq> 0)) e s }"
| "run_test (Remove_blocked i k) e s = do { (p, s) \<leftarrow> removeBlocked (sem_at e i) s; run_test (k p) e s }"
| "run_test (Head_blocked i k) e s = do { p \<leftarrow> headBlocked (sem_at e i) s; run_test (k p) e s }"
| "run_test (Out_blocked p k) e s = do { (q, s) \<leftarrow> outBlocked p s; run_test (k q) e s }"
| "run_test Null_access e s = None"

section \<open>Running it on lists\<close>

text \<open>
  The lists phase 1 is a representation of. \<open>l_hand\<close> are the processes that are allocated and in
  no queue, \<open>l_sem p\<close> is the semaphore \<open>p\<close> waits for.
\<close>

record lists =
  l_free :: "nat list"
  l_hand :: "nat list"
  l_queue :: "nat list"
  l_prio :: "nat \<Rightarrow> int"
  l_kids :: "nat \<Rightarrow> nat list"
  l_parent :: "nat \<Rightarrow> nat option"
  l_waiting :: "nat \<Rightarrow> nat list"
  l_sem :: "nat \<Rightarrow> nat option"
  l_pool :: bool
  l_qa :: bool
  l_asl :: bool

definition no_lists :: lists where
  "no_lists = \<lparr>l_free = [], l_hand = [], l_queue = [], l_prio = (\<lambda>_. 0), l_kids = (\<lambda>_. []),
     l_parent = (\<lambda>_. None), l_waiting = (\<lambda>_. []), l_sem = (\<lambda>_. None),
     l_pool = False, l_qa = False, l_asl = False\<rparr>"

definition allocated :: "lists \<Rightarrow> nat \<Rightarrow> bool" where
  "allocated a p \<longleftrightarrow> l_pool a \<and> p < MAXPROC \<and> p \<notin> set (l_free a)"

text \<open>
  The run on lists gives the messages and the error the program stops with, if it does not reach its
  end. \<open>None\<close>: an operation is used outside its contract.
\<close>

primrec list_test :: "tprog \<Rightarrow> lists \<Rightarrow> (string list \<times> string option) option" where
  "list_test Finish a = Some ([], None)"
| "list_test (Ok m k) a = map_option (\<lambda>(ms, r). (m # ms, r)) (list_test k a)"
| "list_test (Err m) a = Some ([], Some m)"
| "list_test (Init_pcbs k) a =
     (if l_pool a \<or> l_qa a \<or> l_asl a then None
      else list_test k (a\<lparr>l_free := [0..<MAXPROC], l_hand := [], l_pool := True\<rparr>))"
| "list_test (Init_asl k) a =
     (if l_asl a then None
      else list_test k (a\<lparr>l_waiting := \<lambda>_. [], l_sem := \<lambda>_. None, l_asl := True\<rparr>))"
| "list_test (Alloc k) a =
     (if \<not> l_pool a then None
      else (case l_free a of
        [] \<Rightarrow> list_test (k None) a
      | p # ps \<Rightarrow> list_test (k (Some p))
          (a\<lparr>l_free := ps, l_hand := p # l_hand a, l_prio := (l_prio a)(p := 0),
             l_kids := (l_kids a)(p := []), l_parent := (l_parent a)(p := None)\<rparr>)))"
| "list_test (Free p k) a =
     (case p of
        None \<Rightarrow> list_test k a
      | Some p \<Rightarrow>
          if p \<in> set (l_hand a) \<and> l_kids a p = [] \<and> l_parent a p = None
          then list_test k (a\<lparr>l_free := l_free a @ [p], l_hand := removeAll p (l_hand a)\<rparr>)
          else None)"
| "list_test (List_head k) a =
     (if l_qa a \<or> l_asl a then None else list_test k (a\<lparr>l_queue := [], l_qa := True\<rparr>))"
| "list_test (Empty_q k) a = (if l_qa a then list_test (k (l_queue a = [])) a else None)"
| "list_test (Insert_q p k) a =
     (if l_qa a \<and> p \<in> set (l_hand a)
      then list_test k (a\<lparr>l_queue := ins_prio (l_prio a) p (l_queue a), l_hand := removeAll p (l_hand a)\<rparr>)
      else None)"
| "list_test (Head_q k) a =
     (if l_qa a then list_test (k (case l_queue a of [] \<Rightarrow> None | p # _ \<Rightarrow> Some p)) a else None)"
| "list_test (Remove_q k) a =
     (if \<not> l_qa a then None
      else (case l_queue a of
        [] \<Rightarrow> list_test (k None) a
      | p # ps \<Rightarrow> list_test (k (Some p)) (a\<lparr>l_queue := ps, l_hand := p # l_hand a\<rparr>)))"
| "list_test (Out_q p k) a =
     (if \<not> l_qa a then None
      else if p \<in> set (l_queue a)
      then list_test (k (Some p)) (a\<lparr>l_queue := remove1 p (l_queue a), l_hand := p # l_hand a\<rparr>)
      else list_test (k None) a)"
| "list_test (Set_prio p x k) a =
     (if p \<in> set (l_hand a) then list_test k (a\<lparr>l_prio := (l_prio a)(p := sint x)\<rparr>) else None)"
| "list_test (Empty_child p k) a =
     (if allocated a p then list_test (k (l_kids a p = [])) a else None)"
| "list_test (Insert_child p c k) a =
     (if allocated a p \<and> allocated a c \<and> l_parent a c = None
      then list_test k (a\<lparr>l_kids := (l_kids a)(p := l_kids a p @ [c]), l_parent := (l_parent a)(c := Some p)\<rparr>)
      else None)"
| "list_test (Remove_child p k) a =
     (case p of
        None \<Rightarrow> list_test (k None) a
      | Some p \<Rightarrow>
          if \<not> allocated a p then None
          else (case l_kids a p of
            [] \<Rightarrow> list_test (k None) a
          | c # cs \<Rightarrow> list_test (k (Some c))
              (a\<lparr>l_kids := (l_kids a)(p := cs), l_parent := (l_parent a)(c := None)\<rparr>)))"
| "list_test (Out_child c k) a =
     (case c of
        None \<Rightarrow> list_test (k None) a
      | Some c \<Rightarrow>
          if \<not> allocated a c then None
          else (case l_parent a c of
            None \<Rightarrow> list_test (k None) a
          | Some p \<Rightarrow> list_test (k (Some c))
              (a\<lparr>l_kids := (l_kids a)(p := remove1 c (l_kids a p)), l_parent := (l_parent a)(c := None)\<rparr>)))"
| "list_test (Insert_blocked i p k) a =
     (if \<not> (l_asl a \<and> i \<le> MAXSEM) then None
      else (case p of
        None \<Rightarrow> list_test (k True) a
      | Some p \<Rightarrow>
          if l_waiting a i = [] \<and> list_all (\<lambda>j. l_waiting a j \<noteq> []) [0..<MAXSEM] then list_test (k True) a
          else if p \<in> set (l_hand a)
          then list_test (k False) (a\<lparr>l_waiting := (l_waiting a)(i := l_waiting a i @ [p]),
            l_sem := (l_sem a)(p := Some i), l_hand := removeAll p (l_hand a)\<rparr>)
          else None))"
| "list_test (Remove_blocked i k) a =
     (if \<not> (l_asl a \<and> i \<le> MAXSEM) then None
      else (case l_waiting a i of
        [] \<Rightarrow> list_test (k None) a
      | p # ps \<Rightarrow> list_test (k (Some p)) (a\<lparr>l_waiting := (l_waiting a)(i := ps),
          l_sem := (l_sem a)(p := None), l_hand := p # l_hand a\<rparr>)))"
| "list_test (Head_blocked i k) a =
     (if \<not> (l_asl a \<and> i \<le> MAXSEM) then None
      else list_test (k (case l_waiting a i of [] \<Rightarrow> None | p # _ \<Rightarrow> Some p)) a)"
| "list_test (Out_blocked p k) a =
     (case p of
        None \<Rightarrow> list_test (k None) a
      | Some p \<Rightarrow>
          if \<not> (l_asl a \<and> allocated a p) then None
          else (case l_sem a p of
            None \<Rightarrow> list_test (k None) a
          | Some i \<Rightarrow> list_test (k (Some p)) (a\<lparr>l_waiting := (l_waiting a)(i := remove1 p (l_waiting a i)),
              l_sem := (l_sem a)(p := None), l_hand := p # l_hand a\<rparr>)))"
| "list_test Null_access a = None"

end
