(* ===== verification/Phase1_Refinement.thy ===== *)
theory Phase1_Refinement
  imports Phase1_Test
begin

text \<open>
  The code of phase 1 refines the lists: whatever program of its operations runs on the lists without
  leaving their contracts runs on the code as well, and writes the same messages.
\<close>

section \<open>The lists in memory\<close>

definition heads :: "lists \<Rightarrow> lh set" where
  "heads a = (if l_pool a then {pcbFree_h} else {}) \<union> (if l_qa a then {qa} else {}) \<union>
     (if l_asl a then asl_heads else {}) \<union> p_child ` Collect (allocated a)"

definition lists_rep :: "lists \<Rightarrow> (lh \<Rightarrow> lh list) \<Rightarrow> bool" where
  "lists_rep a L \<longleftrightarrow>
     (l_pool a \<longrightarrow> L pcbFree_h = map p_list (l_free a)) \<and> (l_qa a \<longrightarrow> L qa = map p_list (l_queue a)) \<and>
     (\<forall>p. allocated a p \<longrightarrow> L (p_child p) = map p_sib (l_kids a p))"

definition fields_rep :: "'a phase1_scheme \<Rightarrow> lists \<Rightarrow> bool" where
  "fields_rep s a \<longleftrightarrow>
     (\<forall>p. allocated a p \<longrightarrow> prio_of s p = l_prio a p \<and> p_parent (pcbs s p) = l_parent a p)"

definition sem_queue :: "p1env \<Rightarrow> (nat \<Rightarrow> nat list) \<Rightarrow> u32 \<Rightarrow> nat list" where
  "sem_queue e W k = (if k \<in> sem_at e ` {..MAXSEM} then W (inv_into {..MAXSEM} (sem_at e) k) else [])"

text \<open>The tree of processes; every process is in one place.\<close>

definition tree_ok :: "(nat \<Rightarrow> nat list) \<Rightarrow> (nat \<Rightarrow> nat option) \<Rightarrow> (nat \<Rightarrow> bool) \<Rightarrow> bool" where
  "tree_ok K P A \<longleftrightarrow> (\<forall>p c. c \<in> set (K p) \<longleftrightarrow> P c = Some p) \<and> (\<forall>p. distinct (K p)) \<and>
     (\<forall>p c. P c = Some p \<longrightarrow> A p \<and> A c)"

definition lists_ok :: "lists \<Rightarrow> bool" where
  "lists_ok a \<longleftrightarrow>
     distinct (l_free a @ l_hand a @ l_queue a) \<and>
     (\<forall>p. p \<in> set (l_free a @ l_hand a @ l_queue a) \<longrightarrow> l_pool a \<and> p < MAXPROC \<and> l_sem a p = None) \<and>
     (\<forall>i p. p \<in> set (l_waiting a i) \<longleftrightarrow> l_sem a p = Some i) \<and> (\<forall>i. distinct (l_waiting a i)) \<and>
     (\<forall>p i. l_sem a p = Some i \<longrightarrow> l_asl a \<and> allocated a p \<and> i \<le> MAXSEM) \<and>
     (\<not> l_qa a \<longrightarrow> l_queue a = []) \<and> tree_ok (l_kids a) (l_parent a) (allocated a)"

lemma tree_add: "tree_ok K P A \<Longrightarrow> A p \<Longrightarrow> A c \<Longrightarrow> P c = None \<Longrightarrow> tree_ok (K(p := K p @ [c])) (P(c := Some p)) A"
  unfolding tree_ok_def by auto

lemma tree_remove: "tree_ok K P A \<Longrightarrow> P c = Some p \<Longrightarrow> tree_ok (K(p := remove1 c (K p))) (P(c := None)) A"
  unfolding tree_ok_def by (auto simp: distinct_remove1)

lemma tree_leaf: "tree_ok K P A \<Longrightarrow> K p = [] \<Longrightarrow> P p = None \<Longrightarrow> (\<And>q. q \<noteq> p \<Longrightarrow> B q = A q) \<Longrightarrow>
    tree_ok (K(p := [])) (P(p := None)) B"
  unfolding tree_ok_def by auto (metis empty_iff empty_set option.distinct(1))+

lemma tree_parent: "tree_ok K P A \<Longrightarrow> c \<in> set (K p) \<longleftrightarrow> P c = Some p"
  and tree_allocated: "tree_ok K P A \<Longrightarrow> P c = Some p \<Longrightarrow> A p \<and> A c"
  by (auto simp: tree_ok_def)

definition rep_at :: "p1env \<Rightarrow> 'a phase1_scheme \<Rightarrow> lists \<Rightarrow> (lh \<Rightarrow> lh list) \<Rightarrow> bool" where
  "rep_at e s a L \<longleftrightarrow> rings (heads a) (lmem s) L \<and>
     (l_asl a \<longrightarrow> asl_rep (heads a) s L (sem_queue e (l_waiting a))) \<and>
     lists_rep a L \<and> fields_rep s a"

definition rep :: "p1env \<Rightarrow> 'a phase1_scheme \<Rightarrow> lists \<Rightarrow> bool" where
  "rep e s a \<longleftrightarrow> lists_ok a \<and> (\<exists>L. rep_at e s a L)"

definition sems_ok :: "p1env \<Rightarrow> bool" where
  "sems_ok e \<longleftrightarrow> inj_on (sem_at e) {..MAXSEM} \<and> 0 \<notin> sem_at e ` {..MAXSEM}"

lemma sem_queue_at: "sems_ok e \<Longrightarrow> i \<le> MAXSEM \<Longrightarrow> sem_queue e W (sem_at e i) = W i"
  by (simp add: sem_queue_def sems_ok_def)

lemma sem_queue_upd:
  "sems_ok e \<Longrightarrow> i \<le> MAXSEM \<Longrightarrow> (sem_queue e W)(sem_at e i := x) = sem_queue e (W(i := x))"
  by (rule ext) (auto simp: sem_queue_def sems_ok_def inv_into_into)

lemma sem_queue_member: "x \<in> set (sem_queue e W k) \<Longrightarrow> \<exists>i\<le>MAXSEM. x \<in> set (W i)"
  unfolding sem_queue_def by (auto split: if_splits) (metis atMost_iff image_eqI inv_into_into)

lemma heads_simps [simp]:
  "pcbFree_h \<in> heads a \<longleftrightarrow> l_pool a" "qa \<in> heads a \<longleftrightarrow> l_qa a"
  "p_child p \<in> heads a \<longleftrightarrow> allocated a p" "p_list p \<notin> heads a" "p_sib p \<notin> heads a" "s_link d \<notin> heads a"
  "s_procq d \<in> heads a \<longleftrightarrow> l_asl a \<and> d < MAXPROC" "semd_h \<in> heads a \<longleftrightarrow> l_asl a" "semdFree_h \<in> heads a \<longleftrightarrow> l_asl a"
  by (auto simp: heads_def asl_heads_def)

lemma asl_heads_heads: "l_asl a \<Longrightarrow> asl_heads \<subseteq> heads a" by (auto simp: heads_def)

lemma heads_cong:
  "l_pool b = l_pool a \<Longrightarrow> l_qa b = l_qa a \<Longrightarrow> l_asl b = l_asl a \<Longrightarrow> l_free b = l_free a \<Longrightarrow> heads b = heads a"
  unfolding heads_def allocated_def [abs_def] by simp

lemma qa_not_asl [simp]: "qa \<notin> asl_heads"
  by (auto simp: asl_heads_def)

lemma allocated_upd [simp]:
  "allocated (a\<lparr>l_hand := x\<rparr>) = allocated a" "allocated (a\<lparr>l_queue := x\<rparr>) = allocated a"
  "allocated (a\<lparr>l_prio := pr\<rparr>) = allocated a" "allocated (a\<lparr>l_kids := k\<rparr>) = allocated a"
  "allocated (a\<lparr>l_parent := pa\<rparr>) = allocated a" "allocated (a\<lparr>l_waiting := w\<rparr>) = allocated a"
  "allocated (a\<lparr>l_sem := se\<rparr>) = allocated a" "allocated (a\<lparr>l_qa := b\<rparr>) = allocated a"
  "allocated (a\<lparr>l_asl := b\<rparr>) = allocated a"
  by (simp_all add: allocated_def fun_eq_iff)

text \<open>What the members of the rings are.\<close>

lemma member_heads:
  assumes "rep_at e s a L" and "h \<in> heads a" and "x \<in> set (L h)"
  shows "x \<in> p_list ` set (l_free a) \<or> x \<in> p_list ` set (l_queue a) \<or> (l_asl a \<and> x \<in> range s_link) \<or>
    (\<exists>p. allocated a p \<and> x \<in> p_sib ` set (l_kids a p)) \<or> (\<exists>i. x \<in> p_list ` set (l_waiting a i))"
proof (cases "h \<in> asl_heads")
  case True
  with assms(2) have "l_asl a" by (auto simp: heads_def asl_heads_def split: if_splits)
  then obtain act fr where "asl_lists (s_key s) L (sem_queue e (l_waiting a)) act fr"
    using assms(1) by (auto simp: rep_at_def asl_rep_def)
  from asl_member [OF this True assms(3)] \<open>l_asl a\<close> show ?thesis using sem_queue_member by blast
next
  case False
  with assms show ?thesis by (auto simp: rep_at_def lists_rep_def heads_def split: if_splits)
qed

lemma rep_detached:
  assumes r: "rep_at e s a L" and ok: "lists_ok a"
  shows "p \<in> set (l_hand a) \<Longrightarrow> detached (heads a) L (p_list p)"
    and "l_parent a c = None \<Longrightarrow> detached (heads a) L (p_sib c)"
    and "\<not> allocated a p \<Longrightarrow> detached (heads a) L (p_child p)"
    and "\<not> l_qa a \<Longrightarrow> detached (heads a) L qa"
    and "\<not> l_pool a \<Longrightarrow> detached (heads a) L pcbFree_h \<and> detached (heads a) L (p_list p)"
    and "\<not> l_asl a \<Longrightarrow> detached (heads a) L semdFree_h \<and> detached (heads a) L semd_h \<and>
      detached (heads a) L (s_procq d) \<and> detached (heads a) L (s_link d)"
proof -
  have m: "x \<in> p_list ` set (l_free a) \<or> x \<in> p_list ` set (l_queue a) \<or> (l_asl a \<and> x \<in> range s_link) \<or>
    (\<exists>p. allocated a p \<and> x \<in> p_sib ` set (l_kids a p)) \<or> (\<exists>i. x \<in> p_list ` set (l_waiting a i))"
    if "h \<in> heads a" "x \<in> set (L h)" for h x
    using member_heads [OF r that] .
  show "detached (heads a) L (p_list p)" if "p \<in> set (l_hand a)"
    using that ok unfolding detached_def lists_ok_def by (auto dest!: m)
  show "detached (heads a) L (p_sib c)" if "l_parent a c = None"
    using that tree_parent [of "l_kids a" "l_parent a" "allocated a"] ok unfolding detached_def lists_ok_def
    by (auto dest!: m)
  show "detached (heads a) L (p_child p)" if "\<not> allocated a p"
    using that unfolding detached_def by (auto dest!: m)
  show "detached (heads a) L qa" if "\<not> l_qa a"
    using that unfolding detached_def by (auto dest!: m)
  show "detached (heads a) L pcbFree_h \<and> detached (heads a) L (p_list p)" if "\<not> l_pool a"
    using that ok unfolding detached_def lists_ok_def by (auto simp: allocated_def dest!: m)
  show "detached (heads a) L semdFree_h \<and> detached (heads a) L semd_h \<and>
      detached (heads a) L (s_procq d) \<and> detached (heads a) L (s_link d)" if "\<not> l_asl a"
    using that unfolding detached_def by (auto dest!: m)
qed

section \<open>The operations\<close>

lemma rep_at_update:
  assumes r: "rep_at e s a L" and R: "rings (heads a') (lmem s') L'" and f: "\<And>h. h \<in> asl_heads \<Longrightarrow> L' h = L h"
    and k: "s_key s' = s_key s" "l_asl a' = l_asl a" "l_waiting a' = l_waiting a"
    and b: "\<And>p i. p \<in> set (l_waiting a i) \<Longrightarrow> p_semAdd (pcbs s' p) = p_semAdd (pcbs s p)"
    and a: "lists_rep a' L'" "fields_rep s' a'"
  shows "rep_at e s' a' L'"
proof -
  have "asl_rep (heads a') s' L' (sem_queue e (l_waiting a))" if "l_asl a"
  proof (rule asl_rep_update [OF _ R _ f _ k(1)])
    show "asl_rep (heads a) s L (sem_queue e (l_waiting a))" using r that by (simp add: rep_at_def)
    show "asl_heads \<subseteq> heads a'" using that k by (simp add: asl_heads_heads)
    show "p_semAdd (pcbs s' p) = p_semAdd (pcbs s p)" if "p \<in> set (sem_queue e (l_waiting a) k)" for p k
      using sem_queue_member [OF that] b by blast
  qed simp_all
  then show ?thesis using R k a by (simp add: rep_at_def)
qed

text \<open>An operation with result \<open>x\<close> that leads to the lists \<open>a'\<close> and keeps the variables of the test.\<close>

definition yields :: "p1env \<Rightarrow> ('x \<times> 'a phase1_scheme) option \<Rightarrow> 'x \<Rightarrow> 'a phase1_scheme \<Rightarrow> lists \<Rightarrow> bool" where
  "yields e r x s a \<longleftrightarrow> (\<exists>s'. r = Some (x, s') \<and> rep e s' a \<and> phase1.more s' = phase1.more s)"

lemma yieldsI:
  assumes "r = Some (x, s')" and "phase1.more s' = phase1.more s" and "lists_ok a'" and "rep_at e s' a' L'"
  shows "yields e r x s a'"
  using assms unfolding yields_def rep_def by blast

lemma kids_Nil: "tree_ok K P A \<Longrightarrow> \<not> A p \<Longrightarrow> K p = [] \<and> P p = None"
  by (metis tree_parent tree_allocated last_in_set not_None_eq)

lemma lists_ok_tree: "lists_ok a \<Longrightarrow> tree_ok (l_kids a) (l_parent a) (allocated a)"
  by (simp add: lists_ok_def)

lemma alloc_none:
  assumes r: "rep e s a" and p: "l_pool a" and f: "l_free a = []"
  shows "yields e (allocPcb s) None s a"
proof -
  obtain L where L: "rep_at e s a L" using r by (auto simp: rep_def)
  have "allocPcb s = Some (None, s)"
    by (rule allocPcb_none [of "heads a" _ L]) (use L p f in \<open>auto simp: rep_at_def lists_rep_def\<close>)
  with r show ?thesis by (simp add: yields_def)
qed

lemma alloc_some:
  assumes r: "rep e s a" and p: "l_pool a" and f: "l_free a = p # ps"
  shows "yields e (allocPcb s) (Some p) s (a\<lparr>l_free := ps, l_hand := p # l_hand a, l_prio := (l_prio a)(p := 0),
    l_kids := (l_kids a)(p := []), l_parent := (l_parent a)(p := None)\<rparr>)" (is "yields e _ _ _ ?a")
proof -
  obtain L where L: "rep_at e s a L" and ok: "lists_ok a" using r by (auto simp: rep_def)
  have al: "\<not> allocated a p" "allocated ?a = (\<lambda>q. q = p \<or> allocated a q)"
    using ok f p by (auto simp: allocated_def lists_ok_def fun_eq_iff)
  have n: "l_sem a p = None" "l_kids a p = []" "l_parent a p = None"
    using kids_Nil [OF lists_ok_tree [OF ok] al(1)] ok f by (auto simp: lists_ok_def)
  have h: "heads ?a = insert (p_child p) (heads a)" unfolding heads_def al(2) using p by auto
  have R: "rings (heads a) (lmem s) L" "L pcbFree_h = map p_list (p # ps)"
    using L p f by (auto simp: rep_at_def lists_rep_def)
  obtain m where m: "allocPcb s = Some (Some p, s\<lparr>next_pid := next_pid s + 1, lmem := m, pcbs := (pcbs s)(p := new_pcb s p)\<rparr>)"
    "rings (heads ?a) m (L(pcbFree_h := map p_list ps, p_child p := []))"
    unfolding h using allocPcb_some [OF R(1) _ R(2)] rep_detached(2,3) [OF L ok] p n al(1) by auto
  show ?thesis
  proof (rule yieldsI [OF m(1)])
    show "lists_ok ?a"
      using ok f n(1) p tree_leaf [OF lists_ok_tree [OF ok] n(2,3), of "\<lambda>q. q = p \<or> allocated a q"]
      unfolding lists_ok_def al(2) by auto
    show "rep_at e (s\<lparr>next_pid := next_pid s + 1, lmem := m, pcbs := (pcbs s)(p := new_pcb s p)\<rparr>) ?a
        (L(pcbFree_h := map p_list ps, p_child p := []))"
    proof (rule rep_at_update [OF L])
      show "lists_rep ?a (L(pcbFree_h := map p_list ps, p_child p := []))"
        using L al unfolding rep_at_def lists_rep_def al(2) by auto
      show "fields_rep (s\<lparr>next_pid := next_pid s + 1, lmem := m, pcbs := (pcbs s)(p := new_pcb s p)\<rparr>) ?a"
        using L al unfolding rep_at_def fields_rep_def al(2) by (auto simp: new_pcb_def)
    qed (use m(2) ok n in \<open>auto simp: new_pcb_def lists_ok_def\<close>)
  qed simp
qed

lemma free:
  assumes r: "rep e s a" and p: "p \<in> set (l_hand a)" "l_kids a p = []" "l_parent a p = None"
  shows "yields e (Some ((), freePcb (Some p) s)) () s
    (a\<lparr>l_free := l_free a @ [p], l_hand := removeAll p (l_hand a)\<rparr>)" (is "yields e _ _ _ ?a")
proof -
  obtain L where L: "rep_at e s a L" and ok: "lists_ok a" using r by (auto simp: rep_def)
  have al: "allocated ?a = (\<lambda>q. q \<noteq> p \<and> allocated a q)" and pool: "l_pool a"
    using ok p by (auto simp: allocated_def lists_ok_def fun_eq_iff)
  have h: "heads ?a \<subseteq> heads a" unfolding heads_def al by auto
  let ?L = "L(pcbFree_h := L pcbFree_h @ [p_list p])"
  obtain m where m: "freePcb (Some p) s = s\<lparr>lmem := m\<rparr>" "rings (heads a) m ?L"
    using freePcb_spec [of "heads a" s L p] rep_detached(1) [OF L ok p(1)] L pool by (auto simp: rep_at_def)
  have t: "tree_ok (l_kids a) (l_parent a) (\<lambda>q. q \<noteq> p \<and> allocated a q)"
    using tree_leaf [OF lists_ok_tree [OF ok] p(2,3), of "\<lambda>q. q \<noteq> p \<and> allocated a q"] p(2,3)
    by (simp add: fun_upd_idem)
  show ?thesis unfolding m(1)
  proof (rule yieldsI [OF refl])
    show "lists_ok ?a" using ok p(1) t unfolding lists_ok_def al by (auto simp: distinct_removeAll)
    show "rep_at e (s\<lparr>lmem := m\<rparr>) ?a ?L"
    proof (rule rep_at_update [OF L])
      show "rings (heads ?a) (lmem (s\<lparr>lmem := m\<rparr>)) ?L" using rings_mono [OF m(2) h] by simp
      show "lists_rep ?a ?L" using L pool unfolding rep_at_def lists_rep_def al by auto
      show "fields_rep (s\<lparr>lmem := m\<rparr>) ?a" using L unfolding rep_at_def fields_rep_def al by auto
    qed auto
  qed simp
qed

lemma ins_prio_cong: "(\<And>x. x \<in> insert p (set ps) \<Longrightarrow> f x = g x) \<Longrightarrow> ins_prio f p ps = ins_prio g p ps"
  by (induction ps) auto

text \<open>The operations that keep the set of lists.\<close>

lemma rep_at_lists:
  assumes L: "rep_at e s a L" and R: "rings (heads a) m L'" and f: "\<And>h. h \<in> asl_heads \<Longrightarrow> L' h = L h"
    and a: "l_pool a' = l_pool a" "l_qa a' = l_qa a" "l_asl a' = l_asl a" "l_free a' = l_free a" "l_waiting a' = l_waiting a"
    and b: "\<And>p. p_semAdd (P p) = p_semAdd (pcbs s p)"
    and l: "lists_rep a' L'" "fields_rep (s\<lparr>lmem := m, pcbs := P\<rparr>) a'"
  shows "rep_at e (s\<lparr>lmem := m, pcbs := P\<rparr>) a' L'"
  using rep_at_update [OF L, of a' "s\<lparr>lmem := m, pcbs := P\<rparr>" L'] R f a b l heads_cong [of a' a] by simp

lemma rep_at_queue:
  assumes L: "rep_at e s a L" and q: "l_qa a" and R: "rings (heads a) m (L(qa := map p_list ps))"
    and a: "a' = a\<lparr>l_queue := ps, l_hand := hs\<rparr>"
  shows "rep_at e (s\<lparr>lmem := m\<rparr>) a' (L(qa := map p_list ps))"
proof -
  have "rep_at e (s\<lparr>lmem := m, pcbs := pcbs s\<rparr>) a' (L(qa := map p_list ps))"
  proof (rule rep_at_lists [OF L R])
    show "lists_rep a' (L(qa := map p_list ps))" using L a by (simp add: rep_at_def lists_rep_def)
    show "fields_rep (s\<lparr>lmem := m, pcbs := pcbs s\<rparr>) a'" using L a by (simp add: rep_at_def fields_rep_def)
    show "(L(qa := map p_list ps)) h = L h" if "h \<in> asl_heads" for h using that qa_not_asl by auto
  qed (simp_all add: a)
  then show ?thesis by simp
qed

lemma queue_of: "rep_at e s a L \<Longrightarrow> l_qa a \<Longrightarrow>
    rings (heads a) (lmem s) L \<and> qa \<in> heads a \<and> L qa = map p_list (l_queue a)"
  by (simp add: rep_at_def lists_rep_def)

lemma empty_q: "rep e s a \<Longrightarrow> l_qa a \<Longrightarrow> emptyProcQ qa s \<longleftrightarrow> l_queue a = []"
  using queue_of emptyProcQ_spec unfolding rep_def by (metis map_is_Nil_conv)

lemma head_q: "rep e s a \<Longrightarrow> l_qa a \<Longrightarrow> headProcQ qa s = Some (case l_queue a of [] \<Rightarrow> None | p # _ \<Rightarrow> Some p)"
  using queue_of headProcQ_spec unfolding rep_def by metis

lemma insert_q:
  assumes r: "rep e s a" and q: "l_qa a" and p: "p \<in> set (l_hand a)"
  shows "yields e (map_option (Pair ()) (insertProcQ qa p s)) () s
    (a\<lparr>l_queue := ins_prio (l_prio a) p (l_queue a), l_hand := removeAll p (l_hand a)\<rparr>)" (is "yields e _ _ _ ?a")
proof -
  obtain L where L: "rep_at e s a L" and ok: "lists_ok a" using r by (auto simp: rep_def)
  have "ins_prio (prio_of s) p (l_queue a) = ins_prio (l_prio a) p (l_queue a)"
  proof (rule ins_prio_cong)
    fix x assume "x \<in> insert p (set (l_queue a))"
    then have "allocated a x" using ok p by (auto simp: lists_ok_def allocated_def)
    then show "prio_of s x = l_prio a x" using L by (simp add: rep_at_def fields_rep_def)
  qed
  then obtain m where m: "insertProcQ qa p s = Some (s\<lparr>lmem := m\<rparr>)"
    "rings (heads a) m (L(qa := map p_list (ins_prio (l_prio a) p (l_queue a))))"
    using insertProcQ_spec [of "heads a" s L qa "l_queue a" p] queue_of [OF L q] rep_detached(1) [OF L ok p] by auto
  show ?thesis
  proof (rule yieldsI)
    show "map_option (Pair ()) (insertProcQ qa p s) = Some ((), s\<lparr>lmem := m\<rparr>)" by (simp add: m)
    show "lists_ok ?a" using ok p q unfolding lists_ok_def by (auto simp: distinct_removeAll)
  qed (use rep_at_queue [OF L q m(2) refl] in auto)
qed

lemma remove_q_none: "rep e s a \<Longrightarrow> l_qa a \<Longrightarrow> l_queue a = [] \<Longrightarrow> yields e (removeProcQ qa s) None s a"
  using queue_of removeProcQ_Nil unfolding rep_def yields_def by (metis map_is_Nil_conv)

lemma remove_q_some:
  assumes r: "rep e s a" and q: "l_qa a" and p: "l_queue a = p # ps"
  shows "yields e (removeProcQ qa s) (Some p) s (a\<lparr>l_queue := ps, l_hand := p # l_hand a\<rparr>)" (is "yields e _ _ _ ?a")
proof -
  obtain L where L: "rep_at e s a L" and ok: "lists_ok a" using r by (auto simp: rep_def)
  obtain m where m: "removeProcQ qa s = Some (Some p, s\<lparr>lmem := m\<rparr>)" "rings (heads a) m (L(qa := map p_list ps))"
    using removeProcQ_Cons [of "heads a" s L qa p ps] queue_of [OF L q] p by auto
  show ?thesis
  proof (rule yieldsI [OF m(1)])
    show "lists_ok ?a" using ok p q unfolding lists_ok_def by auto
  qed (use rep_at_queue [OF L q m(2) refl] in auto)
qed

lemma out_q:
  assumes r: "rep e s a" and q: "l_qa a"
  shows "yields e (outProcQ qa p s) (if p \<in> set (l_queue a) then Some p else None) s
    (if p \<in> set (l_queue a) then a\<lparr>l_queue := remove1 p (l_queue a), l_hand := p # l_hand a\<rparr> else a)"
    (is "yields e _ _ _ ?a")
proof -
  obtain L where L: "rep_at e s a L" and ok: "lists_ok a" using r by (auto simp: rep_def)
  obtain m where m: "outProcQ qa p s = Some (if p \<in> set (l_queue a) then Some p else None, s\<lparr>lmem := m\<rparr>)"
    "rings (heads a) m (L(qa := map p_list (remove1 p (l_queue a))))"
    using outProcQ_spec [of "heads a" s L qa "l_queue a" p] queue_of [OF L q] by auto
  show ?thesis
  proof (rule yieldsI [OF m(1)])
    show "lists_ok ?a" using ok q unfolding lists_ok_def by (auto simp: distinct_remove1)
    show "rep_at e (s\<lparr>lmem := m\<rparr>) ?a (L(qa := map p_list (remove1 p (l_queue a))))"
      by (rule rep_at_queue [OF L q m(2), of _ "if p \<in> set (l_queue a) then p # l_hand a else l_hand a"])
        (simp add: remove1_idem)
  qed simp
qed

lemma set_prio:
  assumes r: "rep e s a"
  shows "rep e (upd_pcb p (\<lambda>q. q\<lparr>p_prio := x\<rparr>) s) (a\<lparr>l_prio := (l_prio a)(p := sint x)\<rparr>)" (is "rep e _ ?a")
proof -
  obtain L where L: "rep_at e s a L" and ok: "lists_ok a" using r by (auto simp: rep_def)
  let ?P = "(pcbs s)(p := (pcbs s p)\<lparr>p_prio := x\<rparr>)"
  have "rep_at e (s\<lparr>lmem := lmem s, pcbs := ?P\<rparr>) ?a L"
    by (rule rep_at_lists [OF L]) (use L in \<open>auto simp: rep_at_def lists_rep_def fields_rep_def\<close>)
  moreover have "lists_ok ?a" using ok unfolding lists_ok_def by simp
  ultimately show ?thesis unfolding rep_def by auto
qed

text \<open>The tree of processes.\<close>

lemma kids_of: "rep_at e s a L \<Longrightarrow> allocated a p \<Longrightarrow>
    rings (heads a) (lmem s) L \<and> p_child p \<in> heads a \<and> L (p_child p) = map p_sib (l_kids a p) \<and>
    p_parent (pcbs s p) = l_parent a p"
  by (simp add: rep_at_def lists_rep_def fields_rep_def)

lemma rep_at_kids:
  assumes L: "rep_at e s a L" and p: "allocated a p" and R: "rings (heads a) m (L(p_child p := map p_sib cs))"
    and a: "a' = a\<lparr>l_kids := (l_kids a)(p := cs), l_parent := (l_parent a)(c := x)\<rparr>"
  shows "rep_at e (s\<lparr>lmem := m, pcbs := (pcbs s)(c := (pcbs s c)\<lparr>p_parent := x\<rparr>)\<rparr>) a' (L(p_child p := map p_sib cs))"
proof (rule rep_at_lists [OF L R])
  show "lists_rep a' (L(p_child p := map p_sib cs))" using L a by (auto simp: rep_at_def lists_rep_def)
  show "fields_rep (s\<lparr>lmem := m, pcbs := (pcbs s)(c := (pcbs s c)\<lparr>p_parent := x\<rparr>)\<rparr>) a'"
    using L a by (auto simp: rep_at_def fields_rep_def)
qed (use a in auto)

lemma empty_child:
  assumes "rep e s a" and "allocated a p"
  shows "emptyChild p s \<longleftrightarrow> l_kids a p = []"
proof -
  obtain L where "rep_at e s a L" using assms(1) by (auto simp: rep_def)
  from kids_of [OF this assms(2)] have "ring (lmem s) (p_child p) (map p_sib (l_kids a p))"
    by (metis ringsD(1))
  from ring_empty_iff [OF this] show ?thesis by (simp add: emptyChild_def)
qed

lemma insert_child:
  assumes r: "rep e s a" and p: "allocated a p" "allocated a c" "l_parent a c = None"
  shows "rep e (insertChild p c s) (a\<lparr>l_kids := (l_kids a)(p := l_kids a p @ [c]), l_parent := (l_parent a)(c := Some p)\<rparr>)
    \<and> phase1.more (insertChild p c s) = phase1.more s" (is "rep e _ ?a \<and> _")
proof -
  obtain L where L: "rep_at e s a L" and ok: "lists_ok a" using r by (auto simp: rep_def)
  let ?P = "(pcbs s)(c := (pcbs s c)\<lparr>p_parent := Some p\<rparr>)"
  obtain m where m0: "insertChild p c s = s\<lparr>pcbs := ?P, lmem := m\<rparr>"
    and R: "rings (heads a) m (L(p_child p := map p_sib (l_kids a p @ [c])))"
    using insertChild_spec [of "heads a" s L p c] kids_of [OF L p(1)] rep_detached(2) [OF L ok p(3)] by auto
  have m: "insertChild p c s = s\<lparr>lmem := m, pcbs := ?P\<rparr>" unfolding m0 by simp
  have "lists_ok ?a" using ok p tree_add by (simp add: lists_ok_def)
  with rep_at_kids [OF L p(1) R refl, of c "Some p"] show ?thesis unfolding rep_def m by auto
qed

lemma remove_child_none:
  "rep e s a \<Longrightarrow> allocated a p \<Longrightarrow> l_kids a p = [] \<Longrightarrow> yields e (removeChild (Some p) s) None s a"
  using kids_of removeChild_none unfolding rep_def yields_def by (metis map_is_Nil_conv)

lemma remove_child_some:
  assumes r: "rep e s a" and p: "allocated a p" and k: "l_kids a p = c # cs"
  shows "yields e (removeChild (Some p) s) (Some c) s
    (a\<lparr>l_kids := (l_kids a)(p := cs), l_parent := (l_parent a)(c := None)\<rparr>)" (is "yields e _ _ _ ?a")
proof -
  obtain L where L: "rep_at e s a L" and ok: "lists_ok a" using r by (auto simp: rep_def)
  obtain m where m: "removeChild (Some p) s = Some (Some c, s\<lparr>lmem := m, pcbs := (pcbs s)(c := (pcbs s c)\<lparr>p_parent := None\<rparr>)\<rparr>)"
    "rings (heads a) m (L(p_child p := map p_sib cs))"
    using removeChild_some [of "heads a" s L p c cs] kids_of [OF L p(1)] k by auto
  show ?thesis
  proof (rule yieldsI [OF m(1)])
    have "l_parent a c = Some p" using tree_parent [OF lists_ok_tree [OF ok], of c p] k by simp
    then show "lists_ok ?a" using ok tree_remove [OF lists_ok_tree [OF ok], of c p] k by (simp add: lists_ok_def)
  qed (use rep_at_kids [OF L p m(2) refl] in auto)
qed

lemma out_child_some:
  assumes r: "rep e s a" and c: "allocated a c" and p: "l_parent a c = Some p"
  shows "yields e (Some (outChild (Some c) s)) (Some c) s
    (a\<lparr>l_kids := (l_kids a)(p := remove1 c (l_kids a p)), l_parent := (l_parent a)(c := None)\<rparr>)" (is "yields e _ _ _ ?a")
proof -
  obtain L where L: "rep_at e s a L" and ok: "lists_ok a" using r by (auto simp: rep_def)
  have k: "allocated a p" "c \<in> set (l_kids a p)"
    using tree_allocated [OF lists_ok_tree [OF ok] p] tree_parent [OF lists_ok_tree [OF ok]] p by auto
  have x: "remove1 (p_sib c) (map p_sib ps) = map p_sib (remove1 c ps)" for ps by (induction ps) auto
  obtain m where m: "outChild (Some c) s = (Some c, s\<lparr>lmem := m, pcbs := (pcbs s)(c := (pcbs s c)\<lparr>p_parent := None\<rparr>)\<rparr>)"
    "rings (heads a) m (L(p_child p := map p_sib (remove1 c (l_kids a p))))"
    using outChild_some [of "heads a" s L p c] kids_of [OF L k(1)] kids_of [OF L c] k(2) p x by auto
  show ?thesis unfolding m(1)
  proof (rule yieldsI [OF refl])
    show "lists_ok ?a" using ok tree_remove [OF lists_ok_tree [OF ok] p] by (simp add: lists_ok_def)
  qed (use rep_at_kids [OF L k(1) m(2) refl] in auto)
qed

lemma out_child_none: "rep e s a \<Longrightarrow> allocated a c \<Longrightarrow> l_parent a c = None \<Longrightarrow> outChild (Some c) s = (None, s)"
  using kids_of outChild_none unfolding rep_def by metis

text \<open>The semaphores. When all descriptors are in use, a new semaphore gets none.\<close>

lemma insertBlocked_full:
  assumes rep: "asl_rep D s L Q" and k: "Q k = []" and K: "card K = MAXPROC" "\<And>j. j \<in> K \<Longrightarrow> Q j \<noteq> []"
  shows "insertBlocked k (Some p) s = Some (1, s)"
proof -
  obtain act fr where A: "asl_lists (s_key s) L Q act fr" and D: "asl_heads \<subseteq> D" and R: "rings D (lmem s) L"
    using rep by (rule asl_repE)
  have "K \<subseteq> s_key s ` set act" using A K(2) by (auto simp: asl_lists_def)
  then have "MAXPROC \<le> card (set act)" using K(1) surj_card_le [of "set act" K "s_key s"] by simp
  moreover have "set act \<subseteq> {..<MAXPROC}" using A by (auto simp: asl_lists_def)
  ultimately have sa: "set act = {..<MAXPROC}" by (metis card_lessThan card_seteq finite_lessThan)
  have u: "set act \<union> set fr = {..<MAXPROC}" "set act \<inter> set fr = {}" "L semdFree_h = map s_link fr"
    using A unfolding asl_lists_def by blast+
  have "set fr = {}" using u(1,2) unfolding sa by (metis Un_upper2 inf.absorb2)
  then have "L semdFree_h = []" unfolding u(3) by simp
  then have "list_empty semdFree_h (lmem s)"
    using ring_empty_iff [OF ringsD(1) [OF R, of semdFree_h]] subsetD [OF D, of semdFree_h] by simp
  moreover from find_semd_cases [OF A, of k] k have "List.find (\<lambda>d. s_key s d = k) act = None" by auto
  ultimately show ?thesis using find_semd [OF A D R, of k] by (simp add: insertBlocked_def)
qed

lemma asl_of: "rep_at e s a L \<Longrightarrow> l_asl a \<Longrightarrow> asl_rep (heads a) s L (sem_queue e (l_waiting a))"
  by (simp add: rep_at_def)

lemma waiting_lt: "lists_ok a \<Longrightarrow> q \<in> set (sem_queue e (l_waiting a) k) \<Longrightarrow> q < MAXPROC \<and> q \<notin> set (l_free a)"
  by (drule sem_queue_member) (auto simp: lists_ok_def allocated_def)

lemma rep_at_blocked:
  assumes L: "rep_at e s a L" and l: "l_asl a" and e: "sems_ok e" "i \<le> MAXSEM"
    and A: "asl_rep (heads a) s' L' ((sem_queue e (l_waiting a))(sem_at e i := ps))" and f: "asl_frame L L'"
    and P: "pcbs s' = (pcbs s)(p := (pcbs s p)\<lparr>p_semAdd := k\<rparr>)"
    and a: "a' = a\<lparr>l_waiting := (l_waiting a)(i := ps), l_sem := se, l_hand := hs\<rparr>"
  shows "rep_at e s' a' L'"
proof -
  have h: "heads a' = heads a" using heads_cong [of a' a] a by simp
  have "L' h = L h" if "h \<notin> asl_heads" for h using f that by (simp add: asl_frame_def)
  moreover have "p_child q \<notin> asl_heads" for q by (auto simp: asl_heads_def)
  moreover have "pcbFree_h \<notin> asl_heads" by (auto simp: asl_heads_def)
  ultimately have "lists_rep a' L'" using L qa_not_asl by (simp add: rep_at_def lists_rep_def a)
  moreover have "fields_rep s' a'" using L P a by (auto simp: rep_at_def fields_rep_def)
  moreover have "rings (heads a) (lmem s') L'" using A by (simp add: asl_rep_def)
  ultimately show ?thesis using A h l sem_queue_upd [OF e] by (simp add: rep_at_def a)
qed

text \<open>The places of the processes when \<open>p\<close> begins or ends to wait.\<close>

lemma lists_ok_block:
  assumes ok: "lists_ok a" and p: "p \<in> set (l_hand a)" and l: "l_asl a" "i \<le> MAXSEM"
  shows "lists_ok (a\<lparr>l_waiting := (l_waiting a)(i := l_waiting a i @ [p]), l_sem := (l_sem a)(p := Some i),
    l_hand := removeAll p (l_hand a)\<rparr>)"
proof -
  have "allocated a p" using ok p by (auto simp: lists_ok_def allocated_def)
  with assms show ?thesis unfolding lists_ok_def by (auto simp: distinct_removeAll)
qed

lemma lists_ok_unblock:
  assumes ok: "lists_ok a" and p: "l_sem a p = Some i"
  shows "lists_ok (a\<lparr>l_waiting := (l_waiting a)(i := remove1 p (l_waiting a i)), l_sem := (l_sem a)(p := None),
    l_hand := p # l_hand a\<rparr>)"
proof -
  have al: "allocated a p" using ok p by (auto simp: lists_ok_def)
  have "p \<notin> set (l_free a @ l_hand a @ l_queue a)" using ok p by (auto simp: lists_ok_def)
  with al ok p show ?thesis unfolding lists_ok_def by (auto simp: allocated_def distinct_remove1)
qed

lemma insert_blocked_full:
  assumes r: "rep e s a" and e: "sems_ok e" "i \<le> MAXSEM" and l: "l_asl a" "l_waiting a i = []"
    and f: "list_all (\<lambda>j. l_waiting a j \<noteq> []) [0..<MAXSEM]"
  shows "yields e (insertBlocked (sem_at e i) (Some p) s) 1 s a"
proof -
  obtain L where L: "rep_at e s a L" using r by (auto simp: rep_def)
  have "insertBlocked (sem_at e i) (Some p) s = Some (1, s)"
  proof (rule insertBlocked_full [OF asl_of [OF L l(1)]])
    have "inj_on (sem_at e) {..<MAXPROC}" using e(1) by (auto simp: sems_ok_def inj_on_def)
    then show "card (sem_at e ` {..<MAXPROC}) = MAXPROC" using card_image by fastforce
    show "sem_queue e (l_waiting a) j \<noteq> []" if "j \<in> sem_at e ` {..<MAXPROC}" for j
      using that f sem_queue_at [OF e(1)] by (auto simp: list_all_iff)
  qed (simp add: sem_queue_at [OF e] l)
  with r show ?thesis by (simp add: yields_def)
qed

lemma insert_blocked:
  assumes r: "rep e s a" and e: "sems_ok e" "i \<le> MAXSEM" and l: "l_asl a" and p: "p \<in> set (l_hand a)"
  shows "yields e (insertBlocked (sem_at e i) (Some p) s) 0 s
    (a\<lparr>l_waiting := (l_waiting a)(i := l_waiting a i @ [p]), l_sem := (l_sem a)(p := Some i),
      l_hand := removeAll p (l_hand a)\<rparr>)"
proof -
  obtain L where L: "rep_at e s a L" and ok: "lists_ok a" using r by (auto simp: rep_def)
  have k: "sem_at e i \<noteq> 0" using e by (force simp: sems_ok_def)
  have pm: "p < MAXPROC" using ok p by (auto simp: lists_ok_def)
  obtain m key L' where b: "insertBlocked (sem_at e i) (Some p) s =
      Some (0, s\<lparr>pcbs := (pcbs s)(p := (pcbs s p)\<lparr>p_semAdd := sem_at e i\<rparr>), lmem := m, s_key := key\<rparr>)"
    "asl_rep (heads a) (s\<lparr>pcbs := (pcbs s)(p := (pcbs s p)\<lparr>p_semAdd := sem_at e i\<rparr>), lmem := m, s_key := key\<rparr>) L'
      ((sem_queue e (l_waiting a))(sem_at e i := l_waiting a i @ [p]))" "asl_frame L L'"
    using insertBlocked_spec [OF asl_of [OF L l] k rep_detached(1) [OF L ok p] _ pm] waiting_lt [OF ok]
    by (auto simp: Let_def sem_queue_at [OF e])
  show ?thesis
    by (rule yieldsI [OF b(1) _ lists_ok_block [OF ok p l e(2)] rep_at_blocked [OF L l e b(2,3) _ refl]]) simp_all
qed

lemma remove_blocked_none:
  assumes r: "rep e s a" and e: "sems_ok e" "i \<le> MAXSEM" and l: "l_asl a" "l_waiting a i = []"
  shows "yields e (removeBlocked (sem_at e i) s) None s a"
proof -
  obtain L where L: "rep_at e s a L" using r by (auto simp: rep_def)
  from removeBlocked_none [OF asl_of [OF L l(1)], of "sem_at e i"] show ?thesis
    using r by (simp add: yields_def sem_queue_at [OF e] l)
qed

lemma remove_blocked_some:
  assumes r: "rep e s a" and e: "sems_ok e" "i \<le> MAXSEM" and l: "l_asl a" and p: "l_waiting a i = p # ps"
  shows "yields e (removeBlocked (sem_at e i) s) (Some p) s
    (a\<lparr>l_waiting := (l_waiting a)(i := ps), l_sem := (l_sem a)(p := None), l_hand := p # l_hand a\<rparr>)"
proof -
  obtain L where L: "rep_at e s a L" and ok: "lists_ok a" using r by (auto simp: rep_def)
  have "p \<in> set (l_waiting a i)" using p by simp
  then have se: "l_sem a p = Some i" using ok by (simp add: lists_ok_def)
  obtain m key L' where b: "removeBlocked (sem_at e i) s =
      Some (Some p, s\<lparr>pcbs := (pcbs s)(p := (pcbs s p)\<lparr>p_semAdd := 0\<rparr>), lmem := m, s_key := key\<rparr>)"
    "asl_rep (heads a) (s\<lparr>pcbs := (pcbs s)(p := (pcbs s p)\<lparr>p_semAdd := 0\<rparr>), lmem := m, s_key := key\<rparr>) L'
      ((sem_queue e (l_waiting a))(sem_at e i := ps))" "asl_frame L L'"
    using removeBlocked_some [OF asl_of [OF L l], of "sem_at e i" p ps] p by (auto simp: Let_def sem_queue_at [OF e])
  have ok': "lists_ok (a\<lparr>l_waiting := (l_waiting a)(i := ps), l_sem := (l_sem a)(p := None), l_hand := p # l_hand a\<rparr>)"
    using lists_ok_unblock [OF ok se] p by simp
  show ?thesis by (rule yieldsI [OF b(1) _ ok' rep_at_blocked [OF L l e b(2,3) _ refl]]) simp_all
qed

lemma head_blocked:
  assumes r: "rep e s a" and e: "sems_ok e" "i \<le> MAXSEM" and l: "l_asl a"
  shows "headBlocked (sem_at e i) s = Some (case l_waiting a i of [] \<Rightarrow> None | p # _ \<Rightarrow> Some p)"
proof -
  obtain L where L: "rep_at e s a L" using r by (auto simp: rep_def)
  from headBlocked_spec [OF asl_of [OF L l(1)], of "sem_at e i"] show ?thesis by (simp add: sem_queue_at [OF e])
qed

lemma out_blocked_none:
  assumes r: "rep e s a" and l: "l_asl a" and p: "l_sem a p = None"
  shows "yields e (outBlocked (Some p) s) None s a"
proof -
  obtain L where L: "rep_at e s a L" and ok: "lists_ok a" using r by (auto simp: rep_def)
  have "p \<notin> set (sem_queue e (l_waiting a) k)" for k
    using ok p sem_queue_member [of p e "l_waiting a" k] by (auto simp: lists_ok_def)
  from outBlocked_none [OF asl_of [OF L l] this] show ?thesis using r by (simp add: yields_def)
qed

lemma out_blocked_some:
  assumes r: "rep e s a" and e: "sems_ok e" and l: "l_asl a" and p: "l_sem a p = Some i"
  shows "yields e (outBlocked (Some p) s) (Some p) s
    (a\<lparr>l_waiting := (l_waiting a)(i := remove1 p (l_waiting a i)), l_sem := (l_sem a)(p := None), l_hand := p # l_hand a\<rparr>)"
proof -
  obtain L where L: "rep_at e s a L" and ok: "lists_ok a" using r by (auto simp: rep_def)
  have i: "i \<le> MAXSEM" "p \<in> set (l_waiting a i)" using ok p by (auto simp: lists_ok_def)
  obtain m key L' where b: "outBlocked (Some p) s =
      Some (Some p, s\<lparr>pcbs := (pcbs s)(p := (pcbs s p)\<lparr>p_semAdd := 0\<rparr>), lmem := m, s_key := key\<rparr>)"
    "asl_rep (heads a) (s\<lparr>pcbs := (pcbs s)(p := (pcbs s p)\<lparr>p_semAdd := 0\<rparr>), lmem := m, s_key := key\<rparr>) L'
      ((sem_queue e (l_waiting a))(sem_at e i := remove1 p (l_waiting a i)))" "asl_frame L L'"
    using outBlocked_some [OF asl_of [OF L l], of p "sem_at e i"] i(2) by (auto simp: Let_def sem_queue_at [OF e i(1)])
  show ?thesis
    by (rule yieldsI [OF b(1) _ lists_ok_unblock [OF ok p] rep_at_blocked [OF L l e i(1) b(2,3) _ refl]]) simp_all
qed

text \<open>The initialisations.\<close>

lemma init_pcbs:
  assumes r: "rep e s a" and p: "\<not> l_pool a" "\<not> l_qa a" "\<not> l_asl a"
  shows "yields e (Some ((), initPcbs s)) () s (a\<lparr>l_free := [0..<MAXPROC], l_hand := [], l_pool := True\<rparr>)"
    (is "yields e _ _ _ ?a")
proof -
  obtain L where L: "rep_at e s a L" and ok: "lists_ok a" using r by (auto simp: rep_def)
  have al: "allocated a = (\<lambda>p. False)" "allocated ?a = (\<lambda>p. False)" using p(1) by (auto simp: allocated_def fun_eq_iff)
  have h: "heads a = {}" "heads ?a = {pcbFree_h}" unfolding heads_def al using p by auto
  obtain m where m: "initPcbs s = s\<lparr>pcbs := reset_pids MAXPROC (pcbs s), lmem := m\<rparr>"
    "rings {pcbFree_h} m (L(pcbFree_h := map p_list [0..<MAXPROC]))"
    using initPcbs_spec [of "{}" s L] by (auto simp: rings_def detached_def)
  show ?thesis
  proof (rule yieldsI)
    show "Some ((), initPcbs s) = Some ((), s\<lparr>pcbs := reset_pids MAXPROC (pcbs s), lmem := m\<rparr>)" by (simp add: m(1))
    show "lists_ok ?a" using ok p unfolding lists_ok_def al by auto
    show "rep_at e (s\<lparr>pcbs := reset_pids MAXPROC (pcbs s), lmem := m\<rparr>) ?a (L(pcbFree_h := map p_list [0..<MAXPROC]))"
      using m(2) p unfolding rep_at_def h(2) lists_rep_def fields_rep_def al by simp
  qed simp
qed

lemma init_asl:
  assumes r: "rep e s a" and p: "\<not> l_asl a"
  shows "yields e (Some ((), initASL s)) () s (a\<lparr>l_waiting := \<lambda>_. [], l_sem := \<lambda>_. None, l_asl := True\<rparr>)"
    (is "yields e _ _ _ ?a")
proof -
  obtain L where L: "rep_at e s a L" and ok: "lists_ok a" using r by (auto simp: rep_def)
  have R: "rings (heads a) (lmem s) L" using L by (simp add: rep_at_def)
  have h: "heads ?a = heads a \<union> asl_heads" using p by (auto simp: heads_def)
  obtain m L' where m: "initASL s = s\<lparr>s_key := zero_keys MAXPROC (s_key s), lmem := m\<rparr>"
    "asl_rep (heads a \<union> asl_heads) (initASL s) L' (\<lambda>_. [])" "asl_frame L L'"
    using initASL_spec [OF R] rep_detached(6) [OF L ok p] by blast
  have "l_sem a p = None" for p using ok p by (auto simp: lists_ok_def)
  then have ok': "lists_ok ?a" using ok unfolding lists_ok_def by auto
  have "L' x = L x" if "x \<notin> asl_heads" for x using m(3) that by (simp add: asl_frame_def)
  moreover have "p_child q \<notin> asl_heads" "pcbFree_h \<notin> asl_heads" for q by (auto simp: asl_heads_def)
  ultimately have "lists_rep ?a L'" using L qa_not_asl by (simp add: rep_at_def lists_rep_def)
  moreover have "fields_rep (initASL s) ?a" using L by (simp add: m(1) rep_at_def fields_rep_def)
  moreover have "sem_queue e (\<lambda>_. []) = (\<lambda>_. [])" by (simp add: sem_queue_def fun_eq_iff)
  ultimately have "rep_at e (initASL s) ?a L'" using m(2) by (simp add: rep_at_def h asl_rep_def)
  from yieldsI [OF refl _ ok' this, where x = "()" and s = s] show ?thesis by (simp add: m(1))
qed

lemma list_head:
  assumes r: "rep e s a" and q: "\<not> l_qa a" "\<not> l_asl a"
  shows "yields e (Some ((), s\<lparr>lmem := INIT_LIST_HEAD qa (lmem s)\<rparr>)) () s (a\<lparr>l_queue := [], l_qa := True\<rparr>)"
    (is "yields e _ _ _ ?a")
proof -
  obtain L where L: "rep_at e s a L" and ok: "lists_ok a" using r by (auto simp: rep_def)
  have h: "heads ?a = insert qa (heads a)" using q by (auto simp: heads_def)
  have R: "rings (heads ?a) (INIT_LIST_HEAD qa (lmem s)) (L(qa := []))"
    using rings_INIT_new [OF _ rep_detached(4) [OF L ok q(1)] h] L by (simp add: rep_at_def)
  show ?thesis
  proof (rule yieldsI [OF refl])
    show "lists_ok ?a" using ok q unfolding lists_ok_def by auto
    show "rep_at e (s\<lparr>lmem := INIT_LIST_HEAD qa (lmem s)\<rparr>) ?a (L(qa := []))"
      using L R q by (auto simp: rep_at_def lists_rep_def fields_rep_def)
  qed simp
qed

section \<open>The output\<close>

definition terminal_answers :: "p1env \<Rightarrow> bool" where
  "terminal_answers e \<longleftrightarrow> (\<forall>n. \<exists>m\<ge>n. term_status e m AND STATUSMASK \<noteq> term_BUSY)"

definition terminal_ready :: "p1env \<Rightarrow> bool" where
  "terminal_ready e \<longleftrightarrow> (\<forall>n. term_status e n AND STATUSMASK = TRANSMITTED)"

definition sent :: "string \<Rightarrow> (u32 \<times> u32) list" where
  "sent m = map (\<lambda>c. (TERM0ADDR + 12, char_cmd c)) m"

definition okbuf_text :: "p1state \<Rightarrow> string" where
  "okbuf_text s = map (okbuf s) [0..<mp s]"

text \<open>Printing changes the terminal only.\<close>

definition prints :: "(u32 \<times> u32) list \<Rightarrow> p1state \<Rightarrow> p1state \<Rightarrow> bool" where
  "prints c s s' \<longleftrightarrow> phase1.truncate s' = phase1.truncate s \<and> okbuf s' = okbuf s \<and> mp s' = mp s \<and>
     errbuf s' = errbuf s \<and> commands s' = commands s @ c"

lemma prints_refl: "prints [] s s"
  by (simp add: prints_def)

lemma prints_trans: "prints c s t \<Longrightarrow> prints d t u \<Longrightarrow> prints (c @ d) s u"
  by (simp add: prints_def)

lemma prints_status [simp]: "prints c s (t\<lparr>status_reads := n\<rparr>) = prints c s t"
  "prints c (s\<lparr>status_reads := n\<rparr>) t = prints c s t"
  by (simp_all add: prints_def phase1.truncate_def)

lemma prints_command: "prints [c] s (s\<lparr>commands := commands s @ [c]\<rparr>)"
  by (simp add: prints_def phase1.truncate_def)

lemma busy_wait_returns:
  assumes "terminal_answers e"
  shows "\<exists>stat' s'. busy_wait e stat s = Some (stat', s') \<and> prints [] s s'"
proof -
  obtain m where m: "m \<ge> status_reads s" "term_status e m AND STATUSMASK \<noteq> term_BUSY"
    using assms unfolding terminal_answers_def by blast
  have ready: "\<exists>s'. busy_wait e x s = Some (x, s') \<and> prints [] s s'" if "x \<noteq> term_BUSY" for x s
    using that by (simp add: busy_wait.simps prints_refl)
  from m show ?thesis
  proof (induction "m - status_reads s" arbitrary: s stat)
    case 0
    with ready show ?case by (cases "stat = term_BUSY") (simp_all add: termstat_def busy_wait.simps [of e] prints_refl)
  next
    case (Suc d)
    let ?s = "s\<lparr>status_reads := Suc (status_reads s)\<rparr>"
    have "\<exists>stat' s'. busy_wait e (term_status e (status_reads s) AND STATUSMASK) ?s = Some (stat', s') \<and> prints [] ?s s'"
      by (rule Suc.hyps(1)) (use Suc in auto)
    then show ?case
      using ready [of stat s] by (cases "stat = term_BUSY") (auto simp: termstat_def busy_wait.simps [of e term_BUSY])
  qed
qed

lemma print_cycle_returns:
  assumes t: "terminal_answers e"
  shows "\<exists>b s' c. print_cycle e commandp m s = Some (b, s') \<and> prints c s s' \<and>
    (terminal_ready e \<longrightarrow> \<not> b \<and> c = map (\<lambda>c. (commandp, char_cmd c)) m)"
proof (induction m arbitrary: s)
  case Nil
  then show ?case using prints_refl by fastforce
next
  case (Cons x xs)
  let ?s = "s\<lparr>commands := commands s @ [(commandp, char_cmd x)], status_reads := Suc (status_reads s)\<rparr>"
  let ?st = "term_status e (status_reads s) AND STATUSMASK"
  obtain stat u where w: "busy_wait e ?st ?s = Some (stat, u)" "prints [] ?s u"
    using busy_wait_returns [OF t] by blast
  have st: "stat = TRANSMITTED" if "terminal_ready e"
    using w(1) that by (simp add: terminal_ready_def busy_wait.simps)
  have p: "prints [(commandp, char_cmd x)] s u"
    using prints_trans [OF prints_command [of "(commandp, char_cmd x)" s], of "[]" u] w(2) by simp
  have r: "print_cycle e commandp (x # xs) s = (if stat \<noteq> TRANSMITTED then Some (True, u) else print_cycle e commandp xs u)"
    using w(1) by (simp add: termstat_def)
  obtain b s' c where ih: "print_cycle e commandp xs u = Some (b, s')" "prints c u s'"
    "terminal_ready e \<longrightarrow> \<not> b \<and> c = map (\<lambda>c. (commandp, char_cmd c)) xs"
    using Cons.IH by blast
  show ?case
  proof (cases "stat = TRANSMITTED")
    case True
    with r ih prints_trans [OF p ih(2)] show ?thesis by fastforce
  next
    case False
    with r p st show ?thesis by auto
  qed
qed

lemma termprint_returns:
  assumes t: "terminal_answers e"
  shows "\<exists>b s' c. termprint e m 0 s = Some (b, s') \<and> prints c s s' \<and> (terminal_ready e \<longrightarrow> c = sent m)"
proof -
  obtain b s' c where "print_cycle e (TERM0ADDR + 12) m (s\<lparr>status_reads := Suc (status_reads s)\<rparr>) = Some (b, s')"
    "prints c s s'" "terminal_ready e \<longrightarrow> c = sent m"
    using print_cycle_returns [OF t, of "TERM0ADDR + 12" m "s\<lparr>status_reads := Suc (status_reads s)\<rparr>"]
    by (auto simp: sent_def)
  then show ?thesis
    using prints_refl [of s] by (auto simp: termprint_def termstat_def terminal_ready_def)
qed

lemma copy_string_spec:
  "i + length m < bound \<Longrightarrow> \<exists>b'. copy_string bound m i b = Some (b', i + length m) \<and>
    map b' [i..<i + length m] = m \<and> (\<forall>j<i. b' j = b j)"
proof (induction m arbitrary: i b)
  case (Cons c cs)
  then obtain b' where b: "copy_string bound cs (Suc i) (b(i := c)) = Some (b', Suc i + length cs)"
    "map b' [Suc i..<Suc i + length cs] = cs" "\<forall>j<Suc i. b' j = (b(i := c)) j"
    using Cons.IH [of "Suc i" "b(i := c)"] by (auto simp del: upt_Suc fun_upd_apply)
  have u: "[i..<i + length (c # cs)] = i # [Suc i..<Suc i + length cs]"
    using upt_conv_Cons [of i "i + length (c # cs)"] by (simp del: upt_Suc)
  have "map b' [i..<i + length (c # cs)] = c # cs" unfolding u using b(2,3) by (simp del: upt_Suc)
  with b(1,3) Cons.prems show ?case by (intro exI [of _ b'] conjI) auto
qed simp

text \<open>A message is appended to \<open>okbuf\<close> and goes to the terminal.\<close>

lemma addokbuf_spec:
  assumes t: "terminal_answers e" and m: "mp s + length m < 2048"
  shows "\<exists>s'. addokbuf e m s = Some s' \<and> phase1.truncate s' = phase1.truncate s \<and>
    mp s' = mp s + length m \<and> okbuf_text s' = okbuf_text s @ m \<and>
    (terminal_ready e \<longrightarrow> commands s' = commands s @ sent m)"
proof -
  obtain b where b: "copy_string 2048 m (mp s) (okbuf s) = Some (b, mp s + length m)"
    "map b [mp s..<mp s + length m] = m" "\<forall>j<mp s. b j = okbuf s j"
    using copy_string_spec [OF m] by blast
  have "map b [0..<mp s + length m] = okbuf_text s @ m"
    using b upt_add_eq_append [of 0 "mp s" "length m"] by (simp add: okbuf_text_def)
  with b termprint_returns [OF t, of m "s\<lparr>okbuf := b, mp := mp s + length m\<rparr>"] show ?thesis
    by (fastforce simp: addokbuf_def okbuf_text_def phase1.truncate_def prints_def)
qed

lemma adderrbuf_spec:
  assumes t: "terminal_answers e" and m: "length m < 128"
  shows "\<exists>s'. adderrbuf e m s = Some s' \<and> mp s' = mp s \<and> okbuf_text s' = okbuf_text s \<and>
    map (errbuf s') [0..<length m] = m \<and> (terminal_ready e \<longrightarrow> commands s' = commands s @ sent m)"
proof -
  obtain b where b: "copy_string 128 m 0 (errbuf s) = Some (b, length m)" "map b [0..<length m] = m"
    using copy_string_spec [of 0 m 128] m by auto
  with termprint_returns [OF t, of m "s\<lparr>errbuf := b\<rparr>"] show ?thesis
    by (fastforce simp: adderrbuf_def okbuf_text_def prints_def)
qed

section \<open>The refinement\<close>

lemma rep_truncate: "phase1.truncate s' = phase1.truncate s \<Longrightarrow> rep e s' a = rep e s a"
  by (simp add: phase1.truncate_def rep_def rep_at_def asl_rep_def fields_rep_def)

text \<open>
  \<open>reports e t s ms err\<close>: the program ends, by itself or with the error \<open>err\<close>, having appended the
  messages \<open>ms\<close> to \<open>okbuf\<close>, and all of this has been sent if the terminal was ready.
\<close>

definition reports :: "p1env \<Rightarrow> tprog \<Rightarrow> p1state \<Rightarrow> string list \<Rightarrow> string option \<Rightarrow> bool" where
  "reports e t s ms err \<longleftrightarrow> (\<exists>s'. run_test t e s = Some (err = None, s') \<and>
     okbuf_text s' = okbuf_text s @ concat ms \<and>
     (\<forall>m. err = Some m \<longrightarrow> map (errbuf s') [0..<length m] = m) \<and>
     (terminal_ready e \<longrightarrow> commands s' = commands s @ sent (concat ms @ (case err of None \<Rightarrow> [] | Some m \<Rightarrow> m))))"

lemma reports_more:
  assumes "run_test t e s = run_test t' e s'" and "phase1.more s' = phase1.more s"
  shows "reports e t s ms err = reports e t' s' ms err"
proof -
  have "okbuf s' = okbuf s \<and> mp s' = mp s \<and> commands s' = commands s"
    using assms(2) by (cases s, cases s') simp
  with assms(1) show ?thesis by (simp add: reports_def okbuf_text_def)
qed

definition ready_to_run :: "p1env \<Rightarrow> p1state \<Rightarrow> lists \<Rightarrow> string list \<Rightarrow> string option \<Rightarrow> bool" where
  "ready_to_run e s a ms err \<longleftrightarrow> rep e s a \<and> mp s + length (concat ms) < 2048 \<and>
     (\<forall>m. err = Some m \<longrightarrow> length m < 128)"

definition refines :: "p1env \<Rightarrow> tprog \<Rightarrow> bool" where
  "refines e t \<longleftrightarrow>
     (\<forall>a s ms err. list_test t a = Some (ms, err) \<longrightarrow> ready_to_run e s a ms err \<longrightarrow> reports e t s ms err)"

text \<open>One operation: the rest of the program runs from the state it leads to.\<close>

definition moves :: "p1env \<Rightarrow> tprog \<Rightarrow> p1state \<Rightarrow> tprog \<Rightarrow> lists \<Rightarrow> bool" where
  "moves e t s t' a' \<longleftrightarrow>
     (\<exists>s'. run_test t e s = run_test t' e s' \<and> rep e s' a' \<and> phase1.more s' = phase1.more s)"

lemma moves_yields:
  "yields e r x s a' \<Longrightarrow> (\<And>s'. r = Some (x, s') \<Longrightarrow> run_test t e s = run_test t' e s') \<Longrightarrow> moves e t s t' a'"
  unfolding yields_def moves_def by blast

lemma moves_same: "rep e s a \<Longrightarrow> run_test t e s = run_test t' e s \<Longrightarrow> moves e t s t' a"
  unfolding moves_def by blast

lemma moves_set_prio: "rep e s a \<Longrightarrow> moves e (Set_prio p x t) s t (a\<lparr>l_prio := (l_prio a)(p := sint x)\<rparr>)"
  unfolding moves_def using set_prio [of e s a p x]
  by (intro exI [of _ "upd_pcb p (\<lambda>q. q\<lparr>p_prio := x\<rparr>) s"]) simp

lemma refinesI:
  assumes "\<And>a s r. list_test t a = Some r \<Longrightarrow> rep e s a \<Longrightarrow>
    \<exists>t' a'. refines e t' \<and> list_test t' a' = Some r \<and> moves e t s t' a'"
  shows "refines e t"
  unfolding refines_def
proof (intro allI impI)
  fix a s ms err assume l: "list_test t a = Some (ms, err)" and R: "ready_to_run e s a ms err"
  obtain t' a' s' where t': "refines e t'" "list_test t' a' = Some (ms, err)" "run_test t e s = run_test t' e s'"
    "rep e s' a'" "phase1.more s' = phase1.more s"
    using assms [OF l] R unfolding ready_to_run_def moves_def by blast
  have "mp s' = mp s" using t'(5) by (cases s, cases s') simp
  then have "reports e t' s' ms err" using t' R by (simp add: refines_def ready_to_run_def)
  then show "reports e t s ms err" using reports_more [OF t'(3,5)] by simp
qed

lemma refines_messages:
  assumes t: "terminal_answers e"
  shows "refines e Finish" and "refines e (Err m)" and "refines e k \<Longrightarrow> refines e (Ok m k)"
proof -
  show "refines e Finish" by (auto simp: refines_def reports_def sent_def)
  have "reports e (Err m) s [] (Some m)" if "length m < 128" for s
    using adderrbuf_spec [OF t that, of s] by (auto simp: reports_def)
  then show "refines e (Err m)" by (simp add: refines_def ready_to_run_def)
  assume k: "refines e k"
  have "reports e (Ok m k) s (m # ms) err"
    if l: "list_test k a = Some (ms, err)" and R: "ready_to_run e s a (m # ms) err" for a s ms err
  proof -
    obtain s' where s': "addokbuf e m s = Some s'" "phase1.truncate s' = phase1.truncate s"
      "mp s' = mp s + length m" "okbuf_text s' = okbuf_text s @ m"
      "terminal_ready e \<longrightarrow> commands s' = commands s @ sent m"
      using addokbuf_spec [OF t, of s m] R by (auto simp: ready_to_run_def)
    have "reports e k s' ms err"
      using R s'(3) rep_truncate [OF s'(2)] k l by (simp add: ready_to_run_def refines_def)
    with s' show ?thesis by (auto simp: reports_def sent_def)
  qed
  then show "refines e (Ok m k)" by (auto simp: refines_def)
qed

lemma refines_init:
  assumes k: "refines e k"
  shows "refines e (Init_pcbs k)" and "refines e (Init_asl k)" and "refines e (List_head k)"
proof -
  show "refines e (Init_pcbs k)"
    using k by (intro refinesI) (auto split: if_splits intro!: exI moves_yields [OF init_pcbs])
  show "refines e (Init_asl k)"
    using k by (intro refinesI) (auto split: if_splits intro!: exI moves_yields [OF init_asl])
  show "refines e (List_head k)"
    using k by (intro refinesI) (auto split: if_splits intro!: exI moves_yields [OF list_head])
qed

lemma refines_alloc:
  assumes k: "\<And>x. refines e (k x)"
  shows "refines e (Alloc k)"
proof (rule refinesI)
  fix a r and s :: p1state assume l: "list_test (Alloc k) a = Some r" and R: "rep e s a"
  show "\<exists>t' a'. refines e t' \<and> list_test t' a' = Some r \<and> moves e (Alloc k) s t' a'"
  proof (cases "l_free a")
    case Nil
    with l R k show ?thesis by (auto split: if_splits intro!: exI moves_yields [OF alloc_none])
  next
    case (Cons p ps)
    with l R k show ?thesis by (auto split: if_splits intro!: exI moves_yields [OF alloc_some])
  qed
qed

lemma refines_free:
  assumes k: "refines e k"
  shows "refines e (Free p k)"
proof (rule refinesI)
  fix a r and s :: p1state assume l: "list_test (Free p k) a = Some r" and R: "rep e s a"
  show "\<exists>t' a'. refines e t' \<and> list_test t' a' = Some r \<and> moves e (Free p k) s t' a'"
  proof (cases p)
    case None
    with l R k show ?thesis by (auto split: if_splits intro!: exI moves_same)
  next
    case (Some q)
    with l R k show ?thesis by (auto split: if_splits intro!: exI moves_yields [OF free])
  qed
qed

lemma refines_queue:
  shows "(\<And>x. refines e (kb x)) \<Longrightarrow> refines e (Empty_q kb)"
    and "refines e t \<Longrightarrow> refines e (Insert_q p t)"
    and "(\<And>x. refines e (k x)) \<Longrightarrow> refines e (Head_q k)"
    and "(\<And>x. refines e (k x)) \<Longrightarrow> refines e (Out_q p k)"
    and "refines e t \<Longrightarrow> refines e (Set_prio p x t)"
proof -
  show "refines e (Empty_q kb)" if "\<And>x. refines e (kb x)"
    using that by (intro refinesI) (auto split: if_splits simp: empty_q intro!: exI moves_same)
  show "refines e (Insert_q p t)" if "refines e t"
    using that by (intro refinesI) (auto split: if_splits intro!: exI moves_yields [OF insert_q])
  show "refines e (Head_q k)" if "\<And>x. refines e (k x)"
    using that by (intro refinesI) (auto split: if_splits simp: head_q intro!: exI moves_same)
  show "refines e (Out_q p k)" if "\<And>x. refines e (k x)"
  proof (rule refinesI)
    fix a r and s :: p1state assume l: "list_test (Out_q p k) a = Some r" and R: "rep e s a"
    then have "l_qa a" by (auto split: if_splits)
    from moves_yields [OF out_q [OF R this, of p], of "Out_q p k" "k (if p \<in> set (l_queue a) then Some p else None)"]
    show "\<exists>t' a'. refines e t' \<and> list_test t' a' = Some r \<and> moves e (Out_q p k) s t' a'"
      using l that \<open>l_qa a\<close> by (auto split: if_splits)
  qed
  show "refines e (Set_prio p x t)" if "refines e t"
    using that by (intro refinesI) (auto split: if_splits intro!: exI moves_set_prio)
qed

lemma refines_remove_q:
  assumes k: "\<And>x. refines e (k x)"
  shows "refines e (Remove_q k)"
proof (rule refinesI)
  fix a r and s :: p1state assume l: "list_test (Remove_q k) a = Some r" and R: "rep e s a"
  show "\<exists>t' a'. refines e t' \<and> list_test t' a' = Some r \<and> moves e (Remove_q k) s t' a'"
  proof (cases "l_queue a")
    case Nil
    with l R k show ?thesis by (auto split: if_splits intro!: exI moves_yields [OF remove_q_none])
  next
    case (Cons p ps)
    with l R k show ?thesis by (auto split: if_splits intro!: exI moves_yields [OF remove_q_some])
  qed
qed

lemma refines_child:
  shows "(\<And>x. refines e (kb x)) \<Longrightarrow> refines e (Empty_child p kb)"
    and "refines e t \<Longrightarrow> refines e (Insert_child p c t)"
proof -
  show "refines e (Empty_child p kb)" if "\<And>x. refines e (kb x)"
    using that by (intro refinesI) (auto split: if_splits simp: empty_child intro!: exI moves_same)
  show "refines e (Insert_child p c t)" if "refines e t"
    using that insert_child by (intro refinesI) (fastforce split: if_splits simp: moves_def)
qed

lemma refines_remove_child:
  assumes k: "\<And>x. refines e (k x)"
  shows "refines e (Remove_child q k)"
proof (rule refinesI)
  fix a r and s :: p1state assume l: "list_test (Remove_child q k) a = Some r" and R: "rep e s a"
  show "\<exists>t' a'. refines e t' \<and> list_test t' a' = Some r \<and> moves e (Remove_child q k) s t' a'"
  proof (cases q)
    case None
    with l R k show ?thesis by (auto intro!: exI moves_same)
  next
    case (Some p)
    note q = Some
    show ?thesis
    proof (cases "l_kids a p")
      case Nil
      with q l R k show ?thesis by (auto split: if_splits intro!: exI moves_yields [OF remove_child_none])
    next
      case (Cons c cs)
      with q l R k show ?thesis by (auto split: if_splits intro!: exI moves_yields [OF remove_child_some])
    qed
  qed
qed

lemma refines_out_child:
  assumes k: "\<And>x. refines e (k x)"
  shows "refines e (Out_child q k)"
proof (rule refinesI)
  fix a r and s :: p1state assume l: "list_test (Out_child q k) a = Some r" and R: "rep e s a"
  show "\<exists>t' a'. refines e t' \<and> list_test t' a' = Some r \<and> moves e (Out_child q k) s t' a'"
  proof (cases q)
    case None
    with l R k show ?thesis by (auto intro!: exI moves_same)
  next
    case (Some p)
    note q = Some
    show ?thesis
    proof (cases "l_parent a p")
      case None
      with q l R k show ?thesis by (auto split: if_splits simp: out_child_none simp del: outChild.simps intro!: exI moves_same)
    next
      case (Some b)
      with q l R k show ?thesis by (auto split: if_splits intro!: exI moves_yields [OF out_child_some])
    qed
  qed
qed

lemma refines_out_blocked:
  assumes e: "sems_ok e" and k: "\<And>x. refines e (k x)"
  shows "refines e (Out_blocked q k)"
proof (rule refinesI)
  fix a r and s :: p1state assume l: "list_test (Out_blocked q k) a = Some r" and R: "rep e s a"
  show "\<exists>t' a'. refines e t' \<and> list_test t' a' = Some r \<and> moves e (Out_blocked q k) s t' a'"
  proof (cases q)
    case None
    with l R k show ?thesis by (auto simp: outBlocked_def intro!: exI moves_same)
  next
    case (Some p)
    note q = Some
    show ?thesis
    proof (cases "l_sem a p")
      case None
      with q l R k e show ?thesis by (auto split: if_splits intro!: exI moves_yields [OF out_blocked_none])
    next
      case (Some i)
      with q l R k e show ?thesis by (auto split: if_splits intro!: exI moves_yields [OF out_blocked_some])
    qed
  qed
qed

lemma refines_insert_blocked:
  assumes e: "sems_ok e" and k: "\<And>x. refines e (k x)"
  shows "refines e (Insert_blocked i q k)"
proof (rule refinesI)
  fix a r and s :: p1state assume l: "list_test (Insert_blocked i q k) a = Some r" and R: "rep e s a"
  then have i: "i \<le> MAXSEM" "l_asl a" by (auto split: if_splits)
  show "\<exists>t' a'. refines e t' \<and> list_test t' a' = Some r \<and> moves e (Insert_blocked i q k) s t' a'"
  proof (cases q)
    case None
    with l R k i show ?thesis by (auto simp: insertBlocked_def intro!: exI moves_same)
  next
    case (Some p)
    show ?thesis
    proof (cases "l_waiting a i = [] \<and> list_all (\<lambda>j. l_waiting a j \<noteq> []) [0..<MAXSEM]")
      case True
      from moves_yields [OF insert_blocked_full [OF R e i, of p], of "Insert_blocked i q k" "k True"]
      show ?thesis using True Some l k i by (auto simp del: upt_rec_numeral)
    next
      case False
      with l i Some have p: "p \<in> set (l_hand a)" "list_test (k False) (a\<lparr>l_waiting := (l_waiting a)(i := l_waiting a i @ [p]),
          l_sem := (l_sem a)(p := Some i), l_hand := removeAll p (l_hand a)\<rparr>) = Some r"
        by (auto simp del: upt_rec_numeral split: if_splits)
      from moves_yields [OF insert_blocked [OF R e i p(1)], of "Insert_blocked i q k" "k False"]
      show ?thesis using Some p(2) k by auto
    qed
  qed
qed

lemma refines_remove_blocked:
  assumes e: "sems_ok e" and k: "\<And>x. refines e (k x)"
  shows "refines e (Remove_blocked i k)"
proof (rule refinesI)
  fix a r and s :: p1state assume l: "list_test (Remove_blocked i k) a = Some r" and R: "rep e s a"
  show "\<exists>t' a'. refines e t' \<and> list_test t' a' = Some r \<and> moves e (Remove_blocked i k) s t' a'"
  proof (cases "l_waiting a i")
    case Nil
    with l R k e show ?thesis by (auto split: if_splits intro!: exI moves_yields [OF remove_blocked_none])
  next
    case (Cons p ps)
    with l R k e show ?thesis by (auto split: if_splits intro!: exI moves_yields [OF remove_blocked_some])
  qed
qed

lemma refines_head_blocked: "sems_ok e \<Longrightarrow> (\<And>x. refines e (k x)) \<Longrightarrow> refines e (Head_blocked i k)"
  by (intro refinesI) (auto split: if_splits simp: head_blocked intro!: exI moves_same)

theorem all_refine:
  assumes e: "sems_ok e" "terminal_answers e"
  shows "refines e t"
  by (induction t) (auto intro!: refines_messages refines_init refines_alloc refines_free refines_queue refines_remove_q
    refines_child refines_remove_child refines_out_child refines_out_blocked refines_insert_blocked
    refines_remove_blocked refines_head_blocked e simp: refines_def [of _ Null_access])

end
