(* ===== verification/Phase1_Verdict.thy ===== *)
theory Phase1_Verdict
  imports Phase1_Refinement
begin

text \<open>
  The test program of phase 1 run on lists, and with the refinement on the code: all its checks hold.
\<close>

section \<open>Evaluation\<close>

text \<open>
  The run on lists is evaluated by rewriting. \<open>apply_test\<close>, \<open>deref_test\<close> and \<open>loop_test\<close> are places
  where the rewriting computes an argument first; the congruence rules keep it out of the
  continuations.
\<close>

definition apply_test :: "(nat option \<Rightarrow> tprog) \<Rightarrow> nat option \<Rightarrow> lists \<Rightarrow> (string list \<times> string option) option" where
  "apply_test f x a = list_test (f x) a"

definition loop_test :: "nat list \<Rightarrow> (nat \<Rightarrow> 'v \<Rightarrow> ('v \<Rightarrow> tprog) \<Rightarrow> tprog) \<Rightarrow> 'v \<Rightarrow> ('v \<Rightarrow> tprog) \<Rightarrow> lists \<Rightarrow>
    (string list \<times> string option) option" where
  "loop_test is b v k a = list_test (for_loop is b v k) a"

definition deref_test :: "nat option \<Rightarrow> (nat \<Rightarrow> tprog) \<Rightarrow> lists \<Rightarrow> (string list \<times> string option) option" where
  "deref_test x k a = list_test (deref x k) a"

lemma list_test_cong: "a = b \<Longrightarrow> list_test p a = list_test p b"
  "x = y \<Longrightarrow> a = b \<Longrightarrow> apply_test f x a = apply_test f y b"
  "x = y \<Longrightarrow> a = b \<Longrightarrow> deref_test x k a = deref_test y k b"
  by simp_all

lemma loop_cong: "is = js \<Longrightarrow> v = w \<Longrightarrow> a = c \<Longrightarrow> loop_test is b v k a = loop_test js b w k c"
  by simp

lemma list_test_eval:
  "list_test (if b then p else q) a = (if b then list_test p a else list_test q a)"
  "list_test (check b m p) a = (if b then Some ([], Some m) else list_test p a)"
  "list_test (let x = y in F x) a = list_test (F y) a"
  "list_test (deref x f) a = deref_test x f a"
  "deref_test (Some n) f a = list_test (f n) a"
  "list_test (Free x p) a = apply_test (\<lambda>x. Free x p) x a"
  "list_test (Remove_child x g) a = apply_test (\<lambda>x. Remove_child x g) x a"
  "list_test (Out_child x g) a = apply_test (\<lambda>x. Out_child x g) x a"
  "list_test (Out_blocked x g) a = apply_test (\<lambda>x. Out_blocked x g) x a"
  "list_test (Insert_blocked i x h) a = apply_test (\<lambda>x. Insert_blocked i x h) x a"
  "list_test Finish a = Some ([], None)" "list_test (Ok m p) a = map_option (\<lambda>(ms, r). (m # ms, r)) (list_test p a)"
  by (simp_all add: check_def deref_def Let_def apply_test_def loop_test_def deref_test_def)

lemma list_test_loop:
  "list_test (for_loop is b v k) a = loop_test is b v k a"
  "loop_test [] b v k a = list_test (k v) a"
  "loop_test (i # is) b v k a = list_test (b i v (\<lambda>v. for_loop is b v k)) a"
  by (simp_all add: loop_test_def)

lemmas sections = check_alloc_def fill_queue_def check_out_def check_remove_def check_prio_def insert_with_prio_def
  check_children_def fill_semaphores_def move_blocked_def check_blocked_def p1test_main_def
lemmas section_eqs = sections [THEN arg_cong [where f = list_test], THEN fun_cong]

lemma upts:
  "[0..<20] = [0, 1, 2, 3, 4, 5, 6, 7, 8, 9, 10, 11, 12, 13, 14, 15, 16, 17, 18, 19 :: nat]"
  "[0..<10] = [0, 1, 2, 3, 4, 5, 6, 7, 8, 9 :: nat]" "[10..<20] = [10, 11, 12, 13, 14, 15, 16, 17, 18, 19 :: nat]"
  "[1..<10] = [1, 2, 3, 4, 5, 6, 7, 8, 9 :: nat]" "[Suc 0..<10] = [1, 2, 3, 4, 5, 6, 7, 8, 9 :: nat]"
  "[0..<7] = [0, 1, 2, 3, 4, 5, 6 :: nat]" "[0..<8] = [0, 1, 2, 3, 4, 5, 6, 7 :: nat]"
  by (simp_all add: upt_rec)

text \<open>The steps on a state whose lists are known.\<close>

lemma list_test_step:
  "list_test (Init_pcbs t) (lists.make fr ha qu pr ki pa wa se False False False) = list_test (t) (lists.make [0..<MAXPROC] [] qu pr ki pa wa se True False False)"
  "list_test (Init_asl t) (lists.make fr ha qu pr ki pa wa se po lq False) = list_test (t) (lists.make fr ha qu pr ki pa (\<lambda>_. []) (\<lambda>_. None) po lq True)"
  "list_test (Alloc k) (lists.make [] ha qu pr ki pa wa se True lq as) = list_test (k None) (lists.make [] ha qu pr ki pa wa se True lq as)"
  "list_test (Alloc k) (lists.make (p # ps) ha qu pr ki pa wa se True lq as) = list_test (k (Some p)) (lists.make ps (p # ha) qu (pr(p := 0)) (ki(p := [])) (pa(p := None)) wa se True lq as)"
  "apply_test (\<lambda>x. Free x t) None (lists.make fr ha qu pr ki pa wa se po lq as) = list_test (t) (lists.make fr ha qu pr ki pa wa se po lq as)"
  "apply_test (\<lambda>x. Free x t) (Some p) (lists.make fr ha qu pr ki pa wa se po lq as) = (if p \<in> set ha \<and> ki p = [] \<and> pa p = None then list_test (t) (lists.make (fr @ [p]) (removeAll p ha) qu pr ki pa wa se po lq as) else None)"
  "list_test (List_head t) (lists.make fr ha qu pr ki pa wa se po False False) = list_test (t) (lists.make fr ha [] pr ki pa wa se po True False)"
  "list_test (Empty_q kb) (lists.make fr ha qu pr ki pa wa se po True as) = list_test (kb (qu = [])) (lists.make fr ha qu pr ki pa wa se po True as)"
  "list_test (Insert_q p t) (lists.make fr ha qu pr ki pa wa se po True as) = (if p \<in> set ha then list_test (t) (lists.make fr (removeAll p ha) (ins_prio pr p qu) pr ki pa wa se po True as) else None)"
  "list_test (Head_q k) (lists.make fr ha (p # ps) pr ki pa wa se po True as) = list_test (k (Some p)) (lists.make fr ha (p # ps) pr ki pa wa se po True as)"
  "list_test (Remove_q k) (lists.make fr ha [] pr ki pa wa se po True as) = list_test (k None) (lists.make fr ha [] pr ki pa wa se po True as)"
  "list_test (Remove_q k) (lists.make fr ha (p # ps) pr ki pa wa se po True as) = list_test (k (Some p)) (lists.make fr (p # ha) ps pr ki pa wa se po True as)"
  "list_test (Out_q p k) (lists.make fr ha qu pr ki pa wa se po True as) = (if p \<in> set qu then list_test (k (Some p)) (lists.make fr (p # ha) (remove1 p qu) pr ki pa wa se po True as) else list_test (k None) (lists.make fr ha qu pr ki pa wa se po True as))"
  "list_test (Set_prio p x t) (lists.make fr ha qu pr ki pa wa se po lq as) = (if p \<in> set ha then list_test (t) (lists.make fr ha qu (pr(p := sint x)) ki pa wa se po lq as) else None)"
  "list_test (Empty_child p kb) (lists.make fr ha qu pr ki pa wa se True lq as) = (if p < MAXPROC \<and> p \<notin> set fr then list_test (kb (ki p = [])) (lists.make fr ha qu pr ki pa wa se True lq as) else None)"
  "list_test (Insert_child p c t) (lists.make fr ha qu pr ki pa wa se True lq as) = (if p < MAXPROC \<and> p \<notin> set fr \<and> c < MAXPROC \<and> c \<notin> set fr \<and> pa c = None then list_test (t) (lists.make fr ha qu pr (ki(p := ki p @ [c])) (pa(c := Some p)) wa se True lq as) else None)"
  "apply_test (\<lambda>x. Remove_child x k) (Some p) (lists.make fr ha qu pr ki pa wa se True lq as) = (if p < MAXPROC \<and> p \<notin> set fr then (case ki p of [] \<Rightarrow> list_test (k None) (lists.make fr ha qu pr ki pa wa se True lq as) | c # cs \<Rightarrow> list_test (k (Some c)) (lists.make fr ha qu pr (ki(p := cs)) (pa(c := None)) wa se True lq as)) else None)"
  "apply_test (\<lambda>x. Out_child x k) (Some c) (lists.make fr ha qu pr ki pa wa se True lq as) = (if c < MAXPROC \<and> c \<notin> set fr then (case pa c of None \<Rightarrow> list_test (k None) (lists.make fr ha qu pr ki pa wa se True lq as) | Some p \<Rightarrow> list_test (k (Some c)) (lists.make fr ha qu pr (ki(p := remove1 c (ki p))) (pa(c := None)) wa se True lq as)) else None)"
  "apply_test (\<lambda>x. Insert_blocked i x kb) (Some p) (lists.make fr ha qu pr ki pa wa se po lq True) = (if i \<le> MAXSEM then if wa i = [] \<and> list_all (\<lambda>j. wa j \<noteq> []) [0..<MAXSEM] then list_test (kb True) (lists.make fr ha qu pr ki pa wa se po lq True) else if p \<in> set ha then list_test (kb False) (lists.make fr (removeAll p ha) qu pr ki pa (wa(i := wa i @ [p])) (se(p := Some i)) po lq True) else None else None)"
  "list_test (Remove_blocked i k) (lists.make fr ha qu pr ki pa wa se po lq True) = (if i \<le> MAXSEM then (case wa i of [] \<Rightarrow> list_test (k None) (lists.make fr ha qu pr ki pa wa se po lq True) | p # ps \<Rightarrow> list_test (k (Some p)) (lists.make fr (p # ha) qu pr ki pa (wa(i := ps)) (se(p := None)) po lq True)) else None)"
  "list_test (Head_blocked i k) (lists.make fr ha qu pr ki pa wa se po lq True) = (if i \<le> MAXSEM then list_test (k (case wa i of [] \<Rightarrow> None | p # _ \<Rightarrow> Some p)) (lists.make fr ha qu pr ki pa wa se po lq True) else None)"
  "apply_test (\<lambda>x. Out_blocked x k) (Some p) (lists.make fr ha qu pr ki pa wa se True lq True) = (if p < MAXPROC \<and> p \<notin> set fr then (case se p of None \<Rightarrow> list_test (k None) (lists.make fr ha qu pr ki pa wa se True lq True) | Some i \<Rightarrow> list_test (k (Some p)) (lists.make fr (p # ha) qu pr ki pa (wa(i := remove1 p (wa i))) (se(p := None)) True lq True)) else None)"
  by (simp_all add: lists.make_def allocated_def apply_test_def split: list.splits option.splits)

lemma no_lists_make: "no_lists = lists.make [] [] [] (\<lambda>_. 0) (\<lambda>_. []) (\<lambda>_. None) (\<lambda>_. []) (\<lambda>_. None) False False False"
  by (simp add: no_lists_def lists.make_def)

section \<open>The verdict\<close>

definition progress :: "string list" where
  "progress = [
    ''Initialized process control blocks   '', ''allocPcb ok   '', ''freed 10 entries   '', ''Inserting...   '',
    ''inserted 10 elements   '', ''outProcQ ok   '', ''Removing...   '', ''Stating priority queue tests...   '',
    ''insertProcQ, removeProcQ and emptyProcQ ok   '', ''process queues module ok      '',
    ''checking process trees...'', ''Inserting...   '', ''Inserted 9 children   '', ''outChild ok   '',
    ''Removing...   '', ''insertChild, removeChild and emptyChild ok   '', ''process tree module ok      '',
    ''Initialized active semaphore list   '', ''insertBlocked test #1 started  '',
    ''insertBlocked test #2 started  '', ''removeBlocked test started   '',
    ''insertBlocked and removeBlocked ok   '', ''headBlocked and outBlocked ok   '', ''ASL module ok   '',
    ''So Long and Thanks for All the Fish'']"

lemma p1test_on_lists: "list_test p1test_main no_lists = Some (map (\<lambda>m. m @ nl) progress, None)"
  unfolding progress_def
  by (simp del: list_test.simps upt_Suc upt.simps upt_rec_numeral for_loop.simps
     add: section_eqs list_test_eval list_test_loop no_lists_make upts list_test_step cong: list_test_cong loop_cong)

lemma rep_no_lists: "rep e s no_lists"
proof -
  have "allocated no_lists = (\<lambda>_. False)" by (simp add: allocated_def no_lists_def fun_eq_iff)
  then show ?thesis
    by (auto simp: rep_def rep_at_def rings_def lists_ok_def tree_ok_def heads_def lists_rep_def fields_rep_def no_lists_def)
qed

lemma progress_fits: "length (concat (map (\<lambda>m. m @ nl) progress)) < 2048"
  by (simp add: progress_def nl_def)

definition demo_env :: p1env where
  "demo_env = \<lparr>term_status = \<lambda>_. 5, sem_at = \<lambda>i. 0x20001000 + 4 * word_of_nat i\<rparr>"

lemma demo_env: "sems_ok demo_env" "terminal_answers demo_env" "terminal_ready demo_env"
proof -
  have u: "unat (sem_at demo_env i) = 0x20001000 + 4 * i" if "i \<le> MAXSEM" for i
    using that by (simp add: demo_env_def unat_word_ariths unat_of_nat take_bit_nat_eq_self)
  have "inj_on (sem_at demo_env) {..MAXSEM}" using u by (intro inj_onI) (metis add_left_cancel atMost_iff mult_left_cancel zero_neq_numeral)
  moreover have "sem_at demo_env i \<noteq> 0" if "i \<le> MAXSEM" for i using u [OF that] by auto
  ultimately show "sems_ok demo_env" by (fastforce simp: sems_ok_def)
  show "terminal_answers demo_env" "terminal_ready demo_env"
    by (auto simp: terminal_answers_def terminal_ready_def demo_env_def)
qed


definition demo_p1state :: p1state where
  "demo_p1state = \<lparr>lmem = \<lparr>nxt = \<lambda>_. semd_h, prv = \<lambda>h. h\<rparr>, pcbs = pcbs demo_boot, next_pid = 1, s_key = \<lambda>_. 7,
     okbuf = \<lambda>_. CHR ''x'', mp = 0, errbuf = \<lambda>_. CHR ''x'', status_reads = 0, commands = []\<rparr>"


text \<open>
  C30. The test program of phase 1 passes: from any memory, with a terminal that does not stay busy, it
  comes to its end without an error, none of its pointers is null when it is used, and \<open>okbuf\<close> holds
  the messages of all its sections, without overflowing. A terminal that is always ready has got
  exactly these characters.
\<close>

theorem phase1_test_passes:
  assumes "sems_ok e" and "terminal_answers e" and "mp s = 0"
  shows "\<exists>s'. run_test p1test_main e s = Some (True, s') \<and>
    okbuf_text s' = concat (map (\<lambda>m. m @ nl) progress) \<and>
    (terminal_ready e \<longrightarrow> commands s' = commands s @ sent (concat (map (\<lambda>m. m @ nl) progress)))"
proof -
  have "ready_to_run e s no_lists (map (\<lambda>m. m @ nl) progress) None"
    using rep_no_lists progress_fits assms(3) by (simp add: ready_to_run_def)
  with all_refine [OF assms(1,2), of p1test_main] p1test_on_lists
  have "reports e p1test_main s (map (\<lambda>m. m @ nl) progress) None" by (simp add: refines_def)
  then show ?thesis using assms(3) by (auto simp: reports_def okbuf_text_def)
qed

theorem phase1_test_passes_witness:
  "\<exists>s'. run_test p1test_main demo_env demo_p1state = Some (True, s') \<and>
    okbuf_text s' = concat (map (\<lambda>m. m @ nl) progress) \<and>
    commands s' = sent (concat (map (\<lambda>m. m @ nl) progress))"
  using phase1_test_passes [OF demo_env(1,2), of demo_p1state] demo_env(3) by (auto simp: demo_p1state_def)

end
