(* ===== verification/Kernel_Run.thy ===== *)
theory Kernel_Run
  imports Demo
begin

text \<open>
  The running system. Between two activations of the Nucleus processes run and devices work: they
  change memory, the saved processor state and the timers, but not the variables of the Nucleus.
  \<open>reachable code out s\<close>: started by \<open>main\<close>, the machine can leave the Nucleus with \<open>out\<close> in state \<open>s\<close>.
\<close>

section \<open>The transition system\<close>

definition machine_step :: "outcome \<Rightarrow> nucleus \<Rightarrow> nucleus \<Rightarrow> bool" where
  "machine_step out s t \<longleftrightarrow>
     t = s\<lparr>mem := mem t, state_mem := state_mem t, support_mem := support_mem t,
       bios_state := bios_state t, plt_timer := plt_timer t, interval_timer := interval_timer t,
       mie_reg := mie_reg t, status_reg := status_reg t, entryhi_reg := entryhi_reg t,
       entrylo_reg := entrylo_reg t, tlb := tlb t\<rparr> \<and>
     (out = Wait \<longrightarrow> cause (bios_state t) AND 0x80000000 \<noteq> 0)"

text \<open>
  What the processes owe the Nucleus: a system call made in kernel mode has sensible arguments
  (\<open>call_ok\<close>). Without it the code goes wrong: \<open>PASSEREN\<close> of the address 0 loses its caller. Calls
  from user mode, which the Nucleus turns into traps, are not restricted.
\<close>

definition callers_ok :: "nucleus \<Rightarrow> bool" where
  "callers_ok s \<longleftrightarrow>
     (let cause = cause (bios_state s) in
      cause AND 0x80000000 = 0 \<longrightarrow> cause AND CAUSE_EXCCODE_MASK \<in> {8, 11} \<longrightarrow> call_ok s)"

inductive reachable :: "code_addrs \<Rightarrow> outcome \<Rightarrow> nucleus \<Rightarrow> bool" for code where
  boot: "boot_state s \<Longrightarrow> nucleus_main code s = Some (out, s') \<Longrightarrow> reachable code out s'"
| exception: "reachable code out s \<Longrightarrow> out \<notin> {Halt, Panic} \<Longrightarrow> machine_step out s t \<Longrightarrow> callers_ok t \<Longrightarrow>
    exceptionHandler t = Some (out', u) \<Longrightarrow> reachable code out' u"
| refill: "reachable code out s \<Longrightarrow> out \<notin> {Halt, Panic, Wait} \<Longrightarrow> machine_step out s t \<Longrightarrow>
    uTLB_RefillHandler slot t = Some (out', u) \<Longrightarrow> reachable code out' u"

inductive_cases reachable_cases: "reachable code out s"

section \<open>The invariant holds in every reachable state\<close>

lemma machine_step_sel:
  assumes "machine_step out s t"
  shows "lmem t = lmem s" "s_key t = s_key s" "next_pid t = next_pid s" "activeProcs t = activeProcs s"
    "devSems_addr t = devSems_addr s" "processCount t = processCount s" "softBlockCount t = softBlockCount s"
    "currentProcess t = currentProcess s" "yieldedProcess t = yieldedProcess s" "pcbs t = pcbs s"
    "startTOD t = startTOD s" "tod t = tod s" "tod_reads t = tod_reads s"
proof -
  have e: "t = s\<lparr>mem := mem t, state_mem := state_mem t, support_mem := support_mem t,
       bios_state := bios_state t, plt_timer := plt_timer t, interval_timer := interval_timer t,
       mie_reg := mie_reg t, status_reg := status_reg t, entryhi_reg := entryhi_reg t,
       entrylo_reg := entrylo_reg t, tlb := tlb t\<rparr>"
    using assms by (simp add: machine_step_def)
  show "lmem t = lmem s" "s_key t = s_key s" "next_pid t = next_pid s" "activeProcs t = activeProcs s"
    "devSems_addr t = devSems_addr s" "processCount t = processCount s" "softBlockCount t = softBlockCount s"
    "currentProcess t = currentProcess s" "yieldedProcess t = yieldedProcess s" "pcbs t = pcbs s"
    "startTOD t = startTOD s" "tod t = tod s" "tod_reads t = tod_reads s"
    by (subst e, simp)+
qed

lemma machine_step_kinv: "machine_step out s t \<Longrightarrow> kinv s v \<Longrightarrow> kinv t v"
  by (erule kinv_cong) (simp_all add: machine_step_sel)

lemma running_current: "outcome_ok out s v \<Longrightarrow> out \<notin> {Halt, Panic, Wait} \<Longrightarrow> currentProcess s \<noteq> None"
  by (cases out) auto

lemma step_exception_ok:
  assumes K: "kinv s v" "outcome_ok out s v" and o: "out \<notin> {Halt, Panic}"
    and m: "machine_step out s t" and c: "callers_ok t"
  shows "exception_ok t"
proof -
  have "cause (bios_state t) AND 0x80000000 \<noteq> 0 \<or> currentProcess t \<noteq> None"
  proof (cases "out = Wait")
    case True
    then show ?thesis using m by (simp add: machine_step_def)
  next
    case False
    then show ?thesis using running_current [OF K(2)] o machine_step_sel(8) [OF m] by auto
  qed
  then show ?thesis using c by (auto simp: exception_ok_def callers_ok_def Let_def)
qed

lemma step_handled:
  assumes K: "kinv s v" "outcome_ok out s v" and o: "out \<notin> {Halt, Panic}"
    and m: "machine_step out s t" and c: "callers_ok t"
  shows "handled (exceptionHandler t)"
  by (rule exceptionHandler_handled [OF machine_step_kinv [OF m K(1)] step_exception_ok [OF assms]])

lemma refill_keeps:
  assumes K: "kinv t v" and c: "currentProcess t \<noteq> None" and r: "uTLB_RefillHandler slot t = Some (out, u)"
  shows "kinv u v \<and> outcome_ok out u v"
proof -
  obtain a b m where u: "u = t\<lparr>entryhi_reg := a, entrylo_reg := b, tlb := m\<rparr>" "out = Ldst (bios_state t)"
    using r by (auto simp: uTLB_RefillHandler_def TLBWR_def Let_def split: bind_splits if_splits)
  have "kinv u v" by (rule kinv_cong [OF K]) (auto simp: u)
  with u c show ?thesis by simp
qed

lemma reachable_inv: "reachable code out s \<Longrightarrow> \<exists>v. kinv s v \<and> outcome_ok out s v"
proof (induction rule: reachable.induct)
  case (boot s out s')
  then show ?case using nucleus_main_spec [of s code] by fastforce
next
  case (exception out s t out' u)
  then show ?case using step_handled unfolding handled_def by fastforce
next
  case (refill out s t slot out' u)
  then obtain v where v: "kinv s v" "outcome_ok out s v" by blast
  then have "currentProcess t \<noteq> None" "kinv t v"
    using running_current refill.hyps machine_step_sel(8) machine_step_kinv by auto
  then show ?case using refill_keeps refill.hyps by blast
qed

text \<open>The runs of the concrete machine the witnesses use.\<close>

lemma demo_reachable: "reachable demo_code (Ldst (first_state demo_code 0x20040000 demo_state)) demo_run"
  by (rule reachable.boot [OF demo_boot_state demo_run_main])

lemma demo_step: "out \<noteq> Wait \<Longrightarrow> machine_step out demo_run (demo m b)"
  by (simp add: machine_step_def demo_def)

lemma demo_halt: "\<exists>u. exceptionHandler (demo m (syscall_state (-2) 0 0 0)) = Some (Halt, u)"
proof -
  let ?b = "(syscall_state (-2) 0 0 0)\<lparr>pc_epc := pc_epc (syscall_state (-2) 0 0 0) + WORDLEN\<rparr>"
  let ?s = "(updateCPUTime (demo m (syscall_state (-2) 0 0 0)))\<lparr>bios_state := ?b\<rparr>"
  have K: "kinv ?s boot_view"
    by (rule kinv_bios [OF kinv_updateCPUTime [OF demo_kinv]])
  have c: "currentProcess ?s = Some 0" by (simp add: updateCPUTime_sel)
  have e: "exceptionHandler (demo m (syscall_state (-2) 0 0 0)) = sys_termprocess ?s"
    by (simp add: exceptionHandler_def syscallHandler_def Let_def updateCPUTime_sel)
  obtain t w where t: "terminateProcess (Some 0) (updateCPUTime ?s) = Some t" "kinv t w"
    and kl: "killed (family boot_view 0) (updateCPUTime ?s) boot_view t w"
    using terminate_kinv [OF kinv_updateCPUTime [OF K], of 0] by (auto simp: live_boot_view)
  have cur: "currentProcess (updateCPUTime ?s) = Some 0" using c by (simp add: updateCPUTime_sel)
  have w: "live w = {}" "v_ready w = []" "currentProcess t = None"
    using kl cur by (simp_all add: killed_def live_boot_view demo_family)
  have tt: "t\<lparr>currentProcess := None\<rparr> = t" using w(3) by simp
  have C: "core {} {} t w" "yieldedProcess t = None" "counts_ok t w" using t(2) w(3) by (simp_all add: kinv_def)
  have "processCount t = 0" using C(3) w(1) by (simp add: counts_ok_def)
  then have "scheduler t = Some (Halt, t\<lparr>currentProcess := None\<rparr>)"
    using scheduler_empty [OF C(1,2) w(2)] by (simp add: scheduler_idle_def)
  moreover have "sys_termprocess ?s = scheduler t"
    using cur t(1) by (simp add: sys_termprocess_def updateCPUTime_sel Let_def tt w(3))
  ultimately show ?thesis using e by simp
qed

text \<open>
  C1. Every state in which the machine leaves the Nucleus satisfies the invariant: the lists in
  memory are well formed, every process is at exactly one place, the tables, the tree and the
  counters agree with each other, and the way out is the right one (\<open>outcome_ok\<close>). The runs are
  those in which system calls made in kernel mode have the arguments \<open>callers_ok\<close> asks for.
\<close>

theorem reachable_states_are_consistent:
  assumes "reachable code out s"
  shows "\<exists>v. kinv s v \<and> outcome_ok out s v"
  using assms by (rule reachable_inv)

theorem reachable_states_are_consistent_witness:
  "reachable demo_code (Ldst (first_state demo_code 0x20040000 demo_state)) demo_run \<and>
   (\<exists>v. kinv demo_run v \<and> outcome_ok (Ldst (first_state demo_code 0x20040000 demo_state)) demo_run v)"
  using demo_reachable reachable_states_are_consistent [OF demo_reachable] by blast

text \<open>
  C2. The Nucleus is never stuck: for every interrupt, every trap, every call from user mode and
  every system call made in kernel mode with the arguments \<open>callers_ok\<close> asks for (semaphores that are
  not null and not those of the kernel, \<open>DOIO\<close> on a device, identifiers below \<open>2 ^ 31\<close>), the handler
  returns (all its loops and recursions end, no null pointer is followed), and the state it leaves
  behind is consistent again.
\<close>

theorem nucleus_always_returns:
  assumes "reachable code out s" and "out \<notin> {Halt, Panic}" and "machine_step out s t" and "callers_ok t"
  shows "\<exists>out' u v. exceptionHandler t = Some (out', u) \<and> kinv u v \<and> outcome_ok out' u v"
proof -
  obtain v where "kinv s v" "outcome_ok out s v" using reachable_inv [OF assms(1)] by blast
  from step_handled [OF this assms(2-)] show ?thesis by (simp add: handled_def)
qed

theorem nucleus_always_returns_witness:
  "\<exists>out u v. exceptionHandler (demo (\<lambda>_. 0) (syscall_state (-10) 0 0 0)) = Some (out, u) \<and>
     kinv u v \<and> outcome_ok out u v"
  by (rule nucleus_always_returns [OF demo_reachable _ demo_step])
    (simp_all add: callers_ok_def call_ok_def)

text \<open>
  C3. In the runs of C1, the system halts only when no process is left, and panics only in a
  deadlock: no process is ready or running, there are live processes in \<open>activeProcs\<close>, and every one
  of them waits on a semaphore that no device will ever signal.
\<close>

theorem halt_and_panic_are_justified:
  assumes "reachable code out s"
  shows "(out = Halt \<longrightarrow> (\<forall>i<MAXPROC. activeProcs s i = None)) \<and>
    (out = Panic \<longrightarrow> currentProcess s = None \<and> emptyProcQ readyQueue s \<and>
      (\<exists>i<MAXPROC. activeProcs s i \<noteq> None) \<and>
      (\<forall>i<MAXPROC. \<forall>p. activeProcs s i = Some p \<longrightarrow>
         p_semAdd (pcbs s p) \<noteq> 0 \<and> p_semAdd (pcbs s p) \<notin> dev_range s))"
proof -
  obtain v where K: "kinv s v" "outcome_ok out s v" using reachable_inv [OF assms] by blast
  have T: "table_ok {} s v" using K(1) coreD(3) by (auto simp: kinv_def)
  have "activeProcs s i = None" if "out = Halt" "i < MAXPROC" for i
    using that K(2) T by (cases "activeProcs s i") (auto simp: table_ok_def)
  moreover have "emptyProcQ readyQueue s" if "out = Panic"
    using that K krep_ready_head(1) [OF kinv_krep [OF K(1)]] by simp
  moreover have "\<exists>i<MAXPROC. activeProcs s i \<noteq> None" if out: "out = Panic"
  proof -
    obtain p where "p \<in> live v" using K(2) out by auto
    then show ?thesis using T unfolding table_ok_def by (metis Diff_empty option.discI)
  qed
  moreover have "p_semAdd (pcbs s p) \<noteq> 0 \<and> p_semAdd (pcbs s p) \<notin> dev_range s"
    if out: "out = Panic" and i: "i < MAXPROC" "activeProcs s i = Some p" for i p
  proof -
    have "p \<in> live v" using i T by (auto simp: table_ok_def)
    then obtain k where k: "k \<notin> dev_range s" "p \<in> set (v_blocked v k)" using K(2) out by auto
    then have "k \<noteq> 0" using krep_key_0 [OF kinv_krep [OF K(1)]] by auto
    then show ?thesis using krep_semAdd [OF kinv_krep [OF K(1)] k(2)] k(1) by simp
  qed
  ultimately show ?thesis using K(2) by auto
qed

theorem halt_and_panic_are_justified_witness:
  "\<exists>s. exceptionHandler (demo (\<lambda>_. 0) (syscall_state (-2) 0 0 0)) = Some (Halt, s) \<and>
     reachable demo_code Halt s \<and> (\<forall>i<MAXPROC. activeProcs s i = None)"
proof -
  obtain s where s: "exceptionHandler (demo (\<lambda>_. 0) (syscall_state (-2) 0 0 0)) = Some (Halt, s)"
    using demo_halt by blast
  have r: "reachable demo_code Halt s"
    by (rule reachable.exception [OF demo_reachable _ demo_step _ s])
      (simp_all add: callers_ok_def call_ok_def)
  show ?thesis using s r halt_and_panic_are_justified [OF r] by blast
qed

end
