(* ===== verification/Nucleus_Services.thy ===== *)
theory Nucleus_Services
  imports Kernel_Run
begin

text \<open>
  What the services of the Nucleus do, call by call, on every branch: the effect on the queues, the
  memory and the process control blocks, and who runs next. The statements are about the view of a
  consistent state (\<open>kinv\<close>).
\<close>

section \<open>The scheduler\<close>

text \<open>
  The Nucleus leaves through the scheduler from a state \<open>t\<close> with view \<open>w\<close>: the first ready process
  runs from its saved state, and nothing else changes.
\<close>

definition front :: "nat list \<Rightarrow> nat option" where
  "front ps = (case ps of [] \<Rightarrow> None | p # _ \<Rightarrow> Some p)"

definition scheduled :: "nucleus \<Rightarrow> view \<Rightarrow> (outcome \<times> nucleus) option \<Rightarrow> bool" where
  "scheduled t w r \<longleftrightarrow> (\<exists>out s'. r = Some (out, s') \<and>
     kinv s' (w\<lparr>v_ready := tl (v_ready w)\<rparr>) \<and> outcome_ok out s' (w\<lparr>v_ready := tl (v_ready w)\<rparr>) \<and>
     currentProcess s' = front (v_ready w) \<and>
     (\<forall>p. front (v_ready w) = Some p \<longrightarrow> out = Ldst (p_s (pcbs t p))) \<and>
     pcbs s' = pcbs t \<and> mem s' = mem t \<and> devSems_addr s' = devSems_addr t)"

lemma scheduler_scheduled:
  assumes C: "core {} {} s v" and N: "counts_ok s v" and y: "yieldedProcess s = None"
  shows "scheduled s v (scheduler s)"
proof (cases "v_ready v")
  case Nil
  then have v: "v\<lparr>v_ready := []\<rparr> = v" by (cases v) simp
  have e: "scheduler s = Some (scheduler_idle s)" by (rule scheduler_empty [OF C y Nil])
  obtain out s' where h: "scheduler_idle s = (out, s')" by force
  then show ?thesis
    using e idle_kinv [OF C N y h] idle_outcome [OF C N Nil h] idle_frame [OF h] Nil
    by (simp add: scheduled_def front_def v)
next
  case (Cons p ps)
  obtain m where sc: "scheduler s = Some (dispatch p (s\<lparr>lmem := m\<rparr>))"
    and C1: "core {} {p} (s\<lparr>lmem := m\<rparr>) (v\<lparr>v_ready := ps\<rparr>)"
    using scheduler_ready [OF C y Cons] by blast
  obtain out s' where d: "dispatch p (s\<lparr>lmem := m\<rparr>) = (out, s')" by force
  have f: "currentProcess s' = Some p" "pcbs s' = pcbs s" "mem s' = mem s" "yieldedProcess s' = None"
    "out = Ldst (p_s (pcbs s p))" "processCount s' = processCount s" "softBlockCount s' = softBlockCount s"
    "devSems_addr s' = devSems_addr s" "lmem s' = m" "s_key s' = s_key s" "next_pid s' = next_pid s"
    "activeProcs s' = activeProcs s"
    using d y by (auto simp: dispatch_def STCK_def setTIMER_def Let_def)
  have "core {} {p} s' (v\<lparr>v_ready := ps\<rparr>)" by (rule core_cong [OF C1]) (simp_all add: f)
  moreover have "counts_ok s' (v\<lparr>v_ready := ps\<rparr>)"
    by (rule counts_cong [OF counts_ready [OF N, of m]]) (simp_all add: f)
  ultimately show ?thesis using sc d f Cons by (simp add: scheduled_def kinv_def front_def)
qed

section \<open>Semaphores\<close>

lemma saved_pcbs:
  "currentProcess s = Some p \<Longrightarrow> pcbs (saved p s) = (pcbs s)(p := (pcbs s p)\<lparr>
     p_time := p_time (pcbs s p) + (tod s (tod_reads s) - startTOD s),
     p_s := copyState (p_s (pcbs s p)) (bios_state s)\<rparr>)"
  by (simp add: saved_def save_state_def updateCPUTime_def STCK_def Let_def)

lemma current_unqueued: "kinv s v \<Longrightarrow> currentProcess s = Some p \<Longrightarrow> unqueued v p"
  using kinv_current [of s v p] coreD(2) [of "{}" "{p}" s v] by (simp add: places_ok_def)

lemma passeren_spec:
  assumes K: "kinv s v" and p: "currentProcess s = Some p"
    and a: "reg_a1 (bios_state s) = a" "a \<noteq> 0" "a \<notin> dev_range s"
  shows "\<exists>out s'. sys_passeren s = Some (out, s') \<and> mem s' = (mem s)(a := mem s a - 1) \<and> devSems_addr s' = devSems_addr s \<and>
    (if sint (mem s a - 1) < 0
     then kinv s' (v\<lparr>v_blocked := (v_blocked v)(a := v_blocked v a @ [p]), v_ready := tl (v_ready v)\<rparr>) \<and>
       outcome_ok out s' (v\<lparr>v_blocked := (v_blocked v)(a := v_blocked v a @ [p]), v_ready := tl (v_ready v)\<rparr>) \<and>
       currentProcess s' = front (v_ready v) \<and>
       (\<forall>q. front (v_ready v) = Some q \<longrightarrow> out = Ldst (p_s (pcbs s q)))
     else kinv s' v \<and> currentProcess s' = Some p \<and>
       out = Ldst (copyState (p_s (pcbs s p)) (bios_state s)))"
proof -
  let ?s = "store a (mem s a - 1) (saved p s)"
  have K1: "kinv ?s v" using kinv_mem [OF kinv_saved [OF K]] by simp
  have p1: "currentProcess ?s = Some p" using p by simp
  have e: "sys_passeren s = (if sint (mem ?s a) < 0 then blockCurrentProcess a ?s else load_current ?s)"
    using save_current_saved [OF p] a by (simp add: sys_passeren_def Let_def)
  show ?thesis
  proof (cases "sint (mem s a - 1) < 0")
    case False
    then show ?thesis using e K1 p by (simp add: load_current_def saved_pcbs)
  next
    case True
    let ?w = "v\<lparr>v_blocked := (v_blocked v)(a := v_blocked v a @ [p])\<rparr>"
    have dr: "dev_range ?s = dev_range s" by (simp add: dev_range_def devSem_def)
    have s0: "?s\<lparr>softBlockCount := softBlockCount ?s + 0\<rparr> = ?s" by simp
    obtain t where t: "blockCurrentProcess a ?s = scheduler t" and C: "core {} {} t ?w" and N: "counts_ok t ?w"
      and y: "yieldedProcess t = None" and m: "mem t = mem ?s" "devSems_addr t = devSems_addr s"
      and P: "pcbs t = (pcbs ?s)(p := (pcbs ?s p)\<lparr>p_time := p_time (pcbs ?s p) + (tod ?s (tod_reads ?s) - startTOD ?s), p_semAdd := a\<rparr>)"
      using block_kinv_core [OF K1 p1 a(2), of 0] a dr unfolding s0 by auto
    have "q \<noteq> p" if "front (v_ready v) = Some q" for q
      using current_unqueued [OF K p] that
      by (cases "v_ready v") (auto simp: front_def unqueued_def)
    then have "p_s (pcbs t q) = p_s (pcbs s q)" if "front (v_ready v) = Some q" for q
      using that by (simp add: P saved_pcbs [OF p])
    then show ?thesis
      using scheduler_scheduled [OF C N y] e t True m by (auto simp: scheduled_def)
  qed
qed

text \<open>
  C12. \<open>PASSEREN\<close> on a semaphore of the processes: the value goes down by one. If it stays
  non-negative the caller goes on; otherwise the caller is the last in the queue of this semaphore
  and the front of the ready queue runs. Nobody else moves.
\<close>

theorem passeren_behaviour:
  assumes K: "kinv s v" and p: "currentProcess s = Some p"
    and a: "reg_a1 (bios_state s) = a" "a \<noteq> 0" "a \<notin> dev_range s"
  shows "\<exists>out s'. sys_passeren s = Some (out, s') \<and> mem s' = (mem s)(a := mem s a - 1) \<and>
    (if sint (mem s a - 1) < 0
     then kinv s' (v\<lparr>v_blocked := (v_blocked v)(a := v_blocked v a @ [p]), v_ready := tl (v_ready v)\<rparr>) \<and>
       currentProcess s' = front (v_ready v) \<and>
       (\<forall>q. front (v_ready v) = Some q \<longrightarrow> out = Ldst (p_s (pcbs s q)))
     else kinv s' v \<and> currentProcess s' = Some p \<and>
       out = Ldst (copyState (p_s (pcbs s p)) (bios_state s)))"
  using passeren_spec [OF assms] by (auto split: if_splits)

theorem passeren_behaviour_witness:
  "\<exists>s'. sys_passeren (demo (\<lambda>_. 1) (syscall_state (-3) 0x20002000 0 0)) =
      Some (Ldst (copyState (p_s (pcbs demo_run 0)) (syscall_state (-3) 0x20002000 0 0)), s') \<and>
    mem s' = (\<lambda>_. 1)(0x20002000 := 0) \<and> currentProcess s' = Some 0 \<and> kinv s' boot_view"
  using passeren_behaviour [OF demo_kinv [of "\<lambda>_. 1" "syscall_state (-3) 0x20002000 0 0"] demo_sel(3), of "0x20002000"]
  by (auto simp: demo_dev_range)

lemma verhogen_spec:
  assumes K: "kinv s v" and p: "currentProcess s = Some p"
    and a: "reg_a1 (bios_state s) = a" "a \<notin> dev_range s"
  shows "\<exists>s'. sys_verhogen s = Some (Ldst (copyState (p_s (pcbs s p)) (bios_state s)), s') \<and>
    mem s' = (mem s)(a := mem s a + 1) \<and> devSems_addr s' = devSems_addr s \<and> currentProcess s' = Some p \<and>
    (case v_blocked v a of
       u # us \<Rightarrow> if sint (mem s a + 1) \<le> 0
         then kinv s' (v\<lparr>v_blocked := (v_blocked v)(a := us), v_ready := ins_prio (prio_of s) u (v_ready v)\<rparr>) \<and>
           p_semAdd (pcbs s' u) = 0
         else kinv s' v
     | [] \<Rightarrow> kinv s' v)"
proof -
  let ?s = "store a (mem s a + 1) (saved p s)"
  have K1: "kinv ?s v" using kinv_mem [OF kinv_saved [OF K]] by simp
  have p1: "currentProcess ?s = Some p" using p by simp
  have C1: "core {} {p} ?s v" and N1: "counts_ok ?s v" and y1: "yieldedProcess ?s = None"
    using kinv_current [OF K1 p1] by auto
  have ps: "p_s (pcbs ?s p) = copyState (p_s (pcbs s p)) (bios_state s)" using saved_pcbs [OF p] by simp
  have e: "sys_verhogen s = (if sint (mem s a + 1) \<le> 0
      then do { s \<leftarrow> verhogen_wake a ?s; load_current s } else load_current ?s)"
    using save_current_saved [OF p] a by (simp add: sys_verhogen_def Let_def)
  have l: "load_current t = Some (Ldst (p_s (pcbs t p)), t)" if "currentProcess t = Some p" for t
    using that by (simp add: load_current_def)
  show ?thesis
  proof (cases "sint (mem s a + 1) \<le> 0 \<and> v_blocked v a \<noteq> []")
    case False
    have "verhogen_wake a ?s = Some ?s" if "v_blocked v a = []"
      using krep_remove_blocked_none [OF kinv_krep [OF K1] that] by (simp add: verhogen_wake_def)
    then have "sys_verhogen s = Some (Ldst (p_s (pcbs ?s p)), ?s)" using False e l [OF p1] by auto
    then show ?thesis using False K1 p1 ps by (auto split: list.splits)
  next
    case True
    then obtain u us where b: "v_blocked v a = u # us" by (cases "v_blocked v a") auto
    obtain m key where r: "removeBlocked a ?s =
        Some (Some u, ?s\<lparr>pcbs := (pcbs ?s)(u := (pcbs ?s u)\<lparr>p_semAdd := 0\<rparr>), lmem := m, s_key := key\<rparr>)" (is "_ = Some (_, ?t)")
      and C2: "core {} (insert u {p}) (?s\<lparr>pcbs := (pcbs ?s)(u := (pcbs ?s u)\<lparr>p_semAdd := 0\<rparr>), lmem := m, s_key := key\<rparr>)
          (v\<lparr>v_blocked := (v_blocked v)(a := us)\<rparr>)" (is "core _ _ _ ?w")
      using core_remove_blocked [OF C1 b] unfolding Let_def by blast
    obtain m' where i: "insertProcQ readyQueue u ?t = Some (?t\<lparr>lmem := m'\<rparr>)"
      and C3: "core {} (insert u {p} - {u}) (?t\<lparr>lmem := m'\<rparr>) (?w\<lparr>v_ready := ins_prio (prio_of ?t) u (v_ready ?w)\<rparr>)"
      (is "core _ _ ?u ?w'")
      using core_insert_ready [OF C2, of u] by blast
    have up: "u \<noteq> p" using current_unqueued [OF K p] b by (auto simp: unqueued_def dest: spec [of _ a])
    then have X: "insert u {p} - {u} = {p}" by auto
    have "counts_ok ?u ?w'"
      by (rule counts_cong [OF unblock_counts [OF C1 N1 b]]) (use a in \<open>auto simp: dev_range_def devSem_def\<close>)
    then have K2: "kinv ?u ?w'" using C3 p1 y1 unfolding X by (simp add: kinv_def)
    have pr: "prio_of ?t = prio_of s" by (auto simp: fun_eq_iff)
    have "upd_pcb u (\<lambda>q. q\<lparr>p_semAdd := 0\<rparr>) ?t = ?t" by simp
    then have "verhogen_wake a ?s = Some ?u"
      by (simp only: verhogen_wake_def r Option.bind_lunit prod.case option.case i)
    moreover have "currentProcess ?u = Some p" "p_s (pcbs ?u p) = p_s (pcbs ?s p)" "p_semAdd (pcbs ?u u) = 0"
      "mem ?u = (mem s)(a := mem s a + 1)" "devSems_addr ?u = devSems_addr s"
      using p up by simp_all
    ultimately show ?thesis using e l [of ?u] True b K2 ps unfolding pr by auto
  qed
qed

text \<open>
  C13. \<open>VERHOGEN\<close>: the value goes up by one; if it was negative and somebody waits, the process that
  has waited longest becomes ready. The caller goes on in any case.
\<close>

theorem verhogen_behaviour:
  assumes K: "kinv s v" and p: "currentProcess s = Some p"
    and a: "reg_a1 (bios_state s) = a" "a \<notin> dev_range s"
  shows "\<exists>s'. sys_verhogen s = Some (Ldst (copyState (p_s (pcbs s p)) (bios_state s)), s') \<and>
    mem s' = (mem s)(a := mem s a + 1) \<and> currentProcess s' = Some p \<and>
    (case v_blocked v a of
       u # us \<Rightarrow> if sint (mem s a + 1) \<le> 0
         then kinv s' (v\<lparr>v_blocked := (v_blocked v)(a := us), v_ready := ins_prio (prio_of s) u (v_ready v)\<rparr>) \<and>
           p_semAdd (pcbs s' u) = 0
         else kinv s' v
     | [] \<Rightarrow> kinv s' v)"
  using verhogen_spec [OF assms] by blast

theorem verhogen_behaviour_witness:
  "\<exists>s'. sys_verhogen (demo (\<lambda>_. 1) (syscall_state (-4) 0x20002000 0 0)) =
      Some (Ldst (copyState (p_s (pcbs demo_run 0)) (syscall_state (-4) 0x20002000 0 0)), s') \<and>
    mem s' = (\<lambda>_. 1)(0x20002000 := 2) \<and> currentProcess s' = Some 0 \<and> kinv s' boot_view"
  using verhogen_behaviour [OF demo_kinv [of "\<lambda>_. 1" "syscall_state (-4) 0x20002000 0 0"] demo_sel(3), of "0x20002000"]
  by (auto simp: demo_dev_range)

section \<open>Processes\<close>

text \<open>
  C11. \<open>CREATEPROCESS\<close>. With a free block the new process \<open>c\<close> is the last child of the caller, has
  the state, the priority and the support structure asked for and a fresh identifier, which is the
  result of the caller; both are ready and the scheduler chooses. Without one the caller gets -1
  and goes on: only its result, in the saved state and in its control block, changes, and nothing else.
\<close>

theorem createprocess_behaviour:
  assumes K: "kinv s v" and p: "currentProcess s = Some p" and n: "next_pid s < 0x80000000"
  shows "case v_free v of
      c # fs \<Rightarrow> \<exists>t ready. scheduled t (v\<lparr>v_free := fs, v_kids := (v_kids v)(c := [], p := v_kids v p @ [c]), v_ready := ready\<rparr>)
          (sys_createprocess s) \<and>
        ready = ins_prio (prio_of t) c (ins_prio (prio_of t) p (v_ready v)) \<and>
        pcbs t = (pcbs s)(c := (child_pcb s c)\<lparr>p_parent := Some p\<rparr>,
          p := (pcbs s p)\<lparr>p_s := copyState (p_s (pcbs s p)) ((bios_state s)\<lparr>reg_a0 := next_pid s\<rparr>)\<rparr>)
    | [] \<Rightarrow> \<exists>s'. sys_createprocess s =
          Some (Ldst (copyState (p_s (pcbs s p)) ((bios_state s)\<lparr>reg_a0 := -1\<rparr>)), s') \<and>
        kinv s' v \<and> s' = s\<lparr>bios_state := (bios_state s)\<lparr>reg_a0 := -1\<rparr>,
          pcbs := (pcbs s)(p := (pcbs s p)\<lparr>p_s := copyState (p_s (pcbs s p)) ((bios_state s)\<lparr>reg_a0 := -1\<rparr>)\<rparr>)\<rparr>"
proof (cases "v_free v")
  case (Cons c fs)
  show ?thesis using createprocess_core [OF K p n Cons] scheduler_scheduled unfolding Cons list.case by metis
next
  case Nil
  have a: "allocPcb s = Some (None, s)"
    using krep_alloc_none [OF kinv_krep [OF K] Nil] .
  let ?s = "save_state p (bios_state (set_result (-1) s)) (set_result (-1) s)"
  have K1: "kinv ?s v" using kinv_save_state [OF kinv_bios [OF K]] by simp
  have "sys_createprocess s = Some (Ldst (p_s (pcbs ?s p)), ?s)"
    using p by (simp add: sys_createprocess_def a save_current_def load_current_def)
  then show ?thesis using K1 p Nil by (simp add: save_state_def)
qed

theorem createprocess_behaviour_witness:
  "\<exists>t ready. scheduled t (boot_view\<lparr>v_free := [2..<MAXPROC], v_kids := (\<lambda>_. [])(1 := [], 0 := [1]), v_ready := ready\<rparr>)
     (sys_createprocess (demo (\<lambda>_. 0) (syscall_state (-1) 0x20002000 1 0)))"
proof -
  have "[1..<20] = 1 # [2..<20]" by (simp add: upt_rec [of "Suc 0"] numeral_2_eq_2)
  then show ?thesis
    using createprocess_behaviour [OF demo_kinv [of "\<lambda>_. 0" "syscall_state (-1) 0x20002000 1 0"] demo_sel(3)]
    by auto
qed

text \<open>
  C10. \<open>terminateProcess\<close> ends, and removes exactly the process and all its descendants: from the
  ready queue, the semaphores, the tree and the table; their blocks are free again; the two counters
  are right; a semaphore of the processes gets back one unit for every removed waiter, one of
  the kernel keeps its value; every other process keeps its control block.
\<close>

theorem terminateProcess_behaviour:
  assumes K: "kinv s v" and p: "p \<in> live v"
  shows "\<exists>s' v'. terminateProcess (Some p) s = Some s' \<and> kinv s' v' \<and> killed (family v p) s v s' v'"
  using terminate_kinv [OF assms] .

theorem terminateProcess_behaviour_witness:
  "\<exists>s' v'. terminateProcess (Some 0) (demo (\<lambda>_. 0) demo_state) = Some s' \<and> kinv s' v' \<and> live v' = {} \<and>
     currentProcess s' = None"
  using terminateProcess_behaviour [OF demo_kinv [of "\<lambda>_. 0" demo_state], of 0]
  by (auto simp: live_boot_view demo_family killed_def)

lemma termprocess_target:
  assumes "(if reg_a1 (bios_state s) = 0 then currentProcess (updateCPUTime s)
      else findProcessByPid (reg_a1 (bios_state s)) (updateCPUTime s)) = Some q"
    and "terminateProcess (Some q) (updateCPUTime s) = Some t"
  shows "sys_termprocess s =
    (let t = (if Some q = currentProcess s then t\<lparr>currentProcess := None\<rparr> else t)
     in if currentProcess t = None then scheduler t else do { t \<leftarrow> save_current t; load_current t })"
  using assms(2) unfolding sys_termprocess_def Let_def assms(1) by simp

lemma find_live_pid:
  assumes C: "core {} B s v" and q: "q \<in> live v"
  shows "findProcessByPid (p_pid (pcbs s q)) s = Some q"
proof -
  have pid: "p_pid (pcbs s q) \<noteq> 0" using coreD(5) [OF C] q by (auto simp: pids_ok_def)
  obtain i where i: "i < MAXPROC" "activeProcs s i = Some q"
    using coreD(3) [OF C] q by (auto simp: table_ok_def)
  have u: "j = i" if "j < MAXPROC" "activeProcs s j = Some r" "p_pid (pcbs s r) = p_pid (pcbs s q)" for j r
  proof -
    have "r \<in> live v" using coreD(3) [OF C] that by (auto simp: table_ok_def)
    then have "r = q" using coreD(5) [OF C] q that(3) by (auto simp: pids_ok_def inj_on_def)
    then show ?thesis using coreD(3) [OF C] i that by (auto simp: table_ok_def)
  qed
  let ?P = "\<lambda>i. case activeProcs s i of None \<Rightarrow> False | Some r \<Rightarrow> p_pid (pcbs s r) = p_pid (pcbs s q)"
  have "List.find ?P [0..<MAXPROC] = Some i"
  proof (cases "List.find ?P [0..<MAXPROC]")
    case None
    then show ?thesis using i by (auto simp: find_None_iff)
  next
    case (Some j)
    then have "j \<in> set [0..<MAXPROC]" "?P j" by (auto simp: find_Some_iff)
    then show ?thesis using Some u by (auto split: option.splits)
  qed
  then show ?thesis using pid i by (simp add: findProcessByPid_def cong: option.case_cong)
qed

text \<open>
  C14. \<open>TERMPROCESS\<close> finds its target by the process identifier, 0 standing for the caller. The
  family of the target ends; the caller goes on unless it belongs to this family.
\<close>

theorem termprocess_behaviour:
  assumes K: "kinv s v" and p: "currentProcess s = Some p"
    and q: "q \<in> live v" "reg_a1 (bios_state s) = (if q = p then 0 else p_pid (pcbs s q))"
  shows "\<exists>t w. kinv t w \<and> killed (family v q) (updateCPUTime s) v t w \<and>
    (if p \<in> family v q then sys_termprocess s = scheduler t
     else sys_termprocess s =
       Some (Ldst (copyState (p_s (pcbs s p)) (bios_state s)), save_state p (bios_state s) t))"
proof -
  let ?s = "updateCPUTime s"
  have K1: "kinv ?s v" by (rule kinv_updateCPUTime [OF K])
  have C: "core {} {p} ?s v" using kinv_current [OF K1] p by simp
  have pid: "p_pid (pcbs s q) \<noteq> 0" using coreD(5) [OF C] q(1) by (auto simp: pids_ok_def)
  have tgt: "(if reg_a1 (bios_state s) = 0 then currentProcess ?s else findProcessByPid (reg_a1 (bios_state s)) ?s) = Some q"
    using find_live_pid [OF C q(1)] pid q(2) p by (cases "q = p") simp_all
  obtain t w where t: "terminateProcess (Some q) ?s = Some t" and K2: "kinv t w"
    and kl: "killed (family v q) ?s v t w"
    using terminate_kinv [OF K1 q(1)] by blast
  have cur: "currentProcess t = (if p \<in> family v q then None else Some p)"
    using kl p by (simp add: killed_def)
  have bs: "bios_state t = bios_state s" using kl term_frame_sel(3) [of ?s t] by (simp add: killed_def)
  show ?thesis
  proof (cases "p \<in> family v q")
    case True
    have tt: "t\<lparr>currentProcess := None\<rparr> = t" using cur True by simp
    have "sys_termprocess s = scheduler t"
      using termprocess_target [OF tgt t] cur True by (simp add: Let_def tt)
    then show ?thesis using K2 kl True by auto
  next
    case False
    have "q \<noteq> p" using False by (auto simp: family_def)
    have "pcbs t p = pcbs ?s p" using kl False by (simp add: killed_def)
    then have "sys_termprocess s =
        Some (Ldst (copyState (p_s (pcbs s p)) (bios_state s)), save_state p (bios_state s) t)"
      using termprocess_target [OF tgt t] cur False bs p \<open>q \<noteq> p\<close>
      by (simp add: Let_def save_current_def load_current_def) (simp add: save_state_def)
    then show ?thesis using K2 kl False by auto
  qed
qed

theorem termprocess_behaviour_witness:
  "\<exists>t w. kinv t w \<and> live w = {} \<and> sys_termprocess (demo (\<lambda>_. 0) (syscall_state (-2) 0 0 0)) = scheduler t"
  using termprocess_behaviour [OF demo_kinv [of "\<lambda>_. 0" "syscall_state (-2) 0 0 0"] demo_sel(3), of 0]
  by (auto simp: live_boot_view demo_family killed_def)

section \<open>Devices and the clock\<close>

lemma dev_block_core:
  assumes K: "kinv s v" and cur: "currentProcess s = Some p" and i: "i < TOT_SEMS"
    and d: "d = (if i = PSEUDOCLK_SEM then 1 else 0)"
  shows "\<exists>t. blockCurrentProcess (devSem i s) (s\<lparr>softBlockCount := softBlockCount s + d\<rparr>) = scheduler t \<and>
    core {} {} t (v\<lparr>v_blocked := (v_blocked v)(devSem i s := v_blocked v (devSem i s) @ [p])\<rparr>) \<and>
    counts_ok t (v\<lparr>v_blocked := (v_blocked v)(devSem i s := v_blocked v (devSem i s) @ [p])\<rparr>) \<and>
    yieldedProcess t = None \<and> mem t = mem s \<and> next_pid t = next_pid s \<and> devSems_addr t = devSems_addr s \<and>
    pcbs t = (pcbs s)(p := (pcbs s p)\<lparr>p_time := p_time (pcbs s p) + (tod s (tod_reads s) - startTOD s), p_semAdd := devSem i s\<rparr>)"
proof -
  note S = kinv_sems [OF K]
  show ?thesis
    using devSem_in_range [OF S i] isDeviceSemaphore_devSem [OF S i] i d
    by (intro block_kinv_core [OF K cur]) auto
qed

lemma doio_sched:
  assumes K: "kinv s v" and p: "currentProcess s = Some p"
    and a: "reg_a1 (bios_state s) = a" "doio_sem a < PSEUDOCLK_SEM" "k = devSem (doio_sem a) s"
  defines "m \<equiv> (mem s)(a := reg_a2 (bios_state s))"
  shows "\<exists>t. scheduled t (v\<lparr>v_blocked := (v_blocked v)(k := v_blocked v k @ [p])\<rparr>) (sys_doio s) \<and>
    mem t = m(k := m k - 1) \<and>
    p_semAdd (pcbs t p) = k \<and> p_s (pcbs t p) = copyState (p_s (pcbs s p)) (bios_state s) \<and>
    devSems_addr t = devSems_addr s"
proof -
  let ?s = "store k (m k - 1) (store a (reg_a2 (bios_state s)) (saved p s))"
  have K2: "kinv ?s v" using kinv_mem [OF kinv_saved [OF K]] by simp
  have dv: "devSem i ?s = devSem i s" "devSem i (store a (reg_a2 (bios_state s)) (saved p s)) = devSem i s" for i
    by (simp_all add: devSem_def)
  have s0: "?s\<lparr>softBlockCount := softBlockCount ?s + 0\<rparr> = ?s" by simp
  obtain t where t: "blockCurrentProcess k ?s = scheduler t"
    "core {} {} t (v\<lparr>v_blocked := (v_blocked v)(k := v_blocked v k @ [p])\<rparr>)"
    "counts_ok t (v\<lparr>v_blocked := (v_blocked v)(k := v_blocked v k @ [p])\<rparr>)"
    "yieldedProcess t = None" "mem t = mem ?s" "devSems_addr t = devSems_addr s"
    and P: "pcbs t = (pcbs ?s)(p := (pcbs ?s p)\<lparr>p_time := p_time (pcbs ?s p) + (tod ?s (tod_reads ?s) - startTOD ?s), p_semAdd := k\<rparr>)"
    using dev_block_core [OF K2, of p "doio_sem a" 0] p a(2) unfolding dv s0 a(3) [symmetric] by auto
  have "mem (store a (reg_a2 (bios_state s)) (saved p s)) k = m k" by (simp add: m_def)
  then have "sys_doio s = blockCurrentProcess k ?s"
    using p save_current_saved [OF p] dv a(1,3)
    by (simp add: sys_doio_def Let_def del: store_def)
  then show ?thesis
    using scheduler_scheduled [OF t(2-4)] t(1,5,6) by (auto simp: P saved_pcbs [OF p] m_def)
qed

lemma doio_spec:
  assumes "kinv s v" and "currentProcess s = Some p"
    and "reg_a1 (bios_state s) = a" "doio_sem a < PSEUDOCLK_SEM" "k = devSem (doio_sem a) s" "a \<noteq> k"
  shows "\<exists>t. scheduled t (v\<lparr>v_blocked := (v_blocked v)(k := v_blocked v k @ [p])\<rparr>) (sys_doio s) \<and>
    mem t = (mem s)(a := reg_a2 (bios_state s), k := mem s k - 1) \<and>
    p_semAdd (pcbs t p) = k \<and> p_s (pcbs t p) = copyState (p_s (pcbs s p)) (bios_state s) \<and>
    devSems_addr t = devSems_addr s"
  using doio_sched [OF assms(1-5)] assms(6) by auto

text \<open>
  C15. \<open>DOIO\<close> writes the command, takes one unit from the semaphore of the device and always blocks
  the caller, last in its queue; the front of the ready queue runs.
\<close>

theorem doio_behaviour:
  assumes "kinv s v" and "currentProcess s = Some p"
    and "reg_a1 (bios_state s) = a" "doio_sem a < PSEUDOCLK_SEM" "k = devSem (doio_sem a) s" "a \<noteq> k"
  shows "\<exists>t. scheduled t (v\<lparr>v_blocked := (v_blocked v)(k := v_blocked v k @ [p])\<rparr>) (sys_doio s) \<and>
    mem t = (mem s)(a := reg_a2 (bios_state s), k := mem s k - 1) \<and>
    p_semAdd (pcbs t p) = k \<and> p_s (pcbs t p) = copyState (p_s (pcbs s p)) (bios_state s)"
  using doio_spec [OF assms] by blast

theorem doio_behaviour_witness:
  "\<exists>t. scheduled t (boot_view\<lparr>v_blocked := (\<lambda>_. [])(0x20001020 := [0])\<rparr>)
      (sys_doio (demo (\<lambda>_. 0) (syscall_state (-5) 0x100000D8 2 0))) \<and>
    mem t = (\<lambda>_. 0)(0x100000D8 := 2, 0x20001020 := -1)"
proof -
  have "doio_sem 0x100000D8 = 8" by (simp add: doio_sem_def Let_def DEV_SEM_BASE_def)
  then show ?thesis
    using doio_behaviour [OF demo_kinv [of "\<lambda>_. 0" "syscall_state (-5) 0x100000D8 2 0"] demo_sel(3), of "0x100000D8" "0x20001020"]
    by auto
qed

text \<open>The machine while its process waits: for the device with command register \<open>a\<close>, and for the clock.\<close>

definition demo_doio :: "u32 \<Rightarrow> nucleus" where
  "demo_doio a = snd (the (sys_doio (demo (\<lambda>_. 0) (syscall_state (-5) a 0 0))))"

definition demo_clock :: nucleus where
  "demo_clock = snd (the (sys_clockwait (demo (\<lambda>_. 0) (syscall_state (-7) 0 0 0))))"

lemma demo_doio:
  assumes "doio_sem a < PSEUDOCLK_SEM" and "k = 0x20001000 + 4 * of_nat (doio_sem a)" and "a \<noteq> k"
  shows "kinv (demo_doio a) (boot_view\<lparr>v_blocked := (\<lambda>_. [])(k := [0])\<rparr>)" "mem (demo_doio a) = (\<lambda>_. 0)(k := -1)"
    "devSem i (demo_doio a) = 0x20001000 + 4 * of_nat i"
proof -
  have e: "boot_view\<lparr>v_blocked := f, v_ready := []\<rparr> = boot_view\<lparr>v_blocked := f\<rparr>" for f
    by (simp add: boot_view_def)
  show "kinv (demo_doio a) (boot_view\<lparr>v_blocked := (\<lambda>_. [])(k := [0])\<rparr>)" "mem (demo_doio a) = (\<lambda>_. 0)(k := -1)"
    "devSem i (demo_doio a) = 0x20001000 + 4 * of_nat i"
    using doio_spec [OF demo_kinv [of "\<lambda>_. 0" "syscall_state (-5) a 0 0"] demo_sel(3), of a k] assms
    by (auto simp: demo_doio_def scheduled_def devSem_def e)
qed

lemma terminal_tx:
  assumes K: "kinv s v" and d: "dev < 8"
    and st: "mem s (TERM_TRANSM_STATUS (DEV_REG_BASE 7 dev)) AND 0xFF = OKCHARTRANS"
      "mem s (TERM_RECV_STATUS (DEV_REG_BASE 7 dev)) AND 0xFF \<noteq> CHARRECV"
    and k: "k = devSem (TERM_TX_SEM dev) s" "k \<noteq> TERM_TRANSM_COMMAND (DEV_REG_BASE 7 dev)" "sint (mem s k) < 0"
    and b: "v_blocked v k = u # us"
  shows "\<exists>s'. terminal_interrupt dev s = Some s' \<and>
    kinv s' (v\<lparr>v_blocked := (v_blocked v)(k := us), v_ready := v_ready v @ [u]\<rparr>) \<and>
    currentProcess s' = currentProcess s \<and>
    mem s' = (mem s)(TERM_TRANSM_COMMAND (DEV_REG_BASE 7 dev) := ACK, k := mem s k + 1) \<and>
    pcbs s' = (pcbs s)(u := (pcbs s u)\<lparr>p_semAdd := 0,
      p_s := (p_s (pcbs s u))\<lparr>reg_a0 := mem s (TERM_TRANSM_STATUS (DEV_REG_BASE 7 dev))\<rparr>\<rparr>)"
proof -
  let ?s = "store (TERM_TRANSM_COMMAND (DEV_REG_BASE 7 dev)) ACK s" and ?i = "TERM_TX_SEM dev"
  let ?st = "mem s (TERM_TRANSM_STATUS (DEV_REG_BASE 7 dev))"
  have K1: "kinv ?s v" using kinv_mem [OF K] by simp
  have dv: "devSem ?i ?s = k" using k(1) by (simp add: devSem_def)
  have i: "?i < TOT_SEMS" using d by (simp add: TERM_TX_SEM_def)
  have m: "mem ?s k = mem s k" using k(2) by simp
  have "sint (mem ?s (devSem ?i ?s)) < 0" unfolding dv m by (rule k(3))
  from at_tail.wake_device_spec [OF K1 i this, of ?st, unfolded dv m b list.case]
  obtain s' where "wake_device enqueue_tail ?i ?st ?s = Some s'"
    "mem s' = (mem ?s)(k := mem s k + 1)" "currentProcess s' = currentProcess ?s"
    "kinv s' (v\<lparr>v_blocked := (v_blocked v)(k := us), v_ready := v_ready v @ [u]\<rparr>)"
    "pcbs s' = (pcbs ?s)(u := (pcbs ?s u)\<lparr>p_semAdd := 0, p_s := (p_s (pcbs ?s u))\<lparr>reg_a0 := ?st\<rparr>\<rparr>)"
    by blast
  then show ?thesis using st by (simp add: terminal_interrupt_def Let_def)
qed

lemma terminal_rx:
  assumes K: "kinv s v" and d: "dev < 8"
    and st: "mem s (TERM_TRANSM_STATUS (DEV_REG_BASE 7 dev)) AND 0xFF \<noteq> OKCHARTRANS"
      "mem s (TERM_RECV_STATUS (DEV_REG_BASE 7 dev)) AND 0xFF = CHARRECV"
    and k: "k = devSem (TERM_RX_SEM dev) s" "k \<noteq> TERM_RECV_COMMAND (DEV_REG_BASE 7 dev)" "sint (mem s k) < 0"
    and b: "v_blocked v k = u # us"
  shows "\<exists>s'. terminal_interrupt dev s = Some s' \<and>
    kinv s' (v\<lparr>v_blocked := (v_blocked v)(k := us), v_ready := ins_prio (prio_of s) u (v_ready v)\<rparr>) \<and>
    currentProcess s' = currentProcess s \<and>
    mem s' = (mem s)(TERM_RECV_COMMAND (DEV_REG_BASE 7 dev) := ACK, k := mem s k + 1) \<and>
    pcbs s' = (pcbs s)(u := (pcbs s u)\<lparr>p_semAdd := 0,
      p_s := (p_s (pcbs s u))\<lparr>reg_a0 := mem s (TERM_RECV_STATUS (DEV_REG_BASE 7 dev))\<rparr>\<rparr>)"
proof -
  let ?s = "store (TERM_RECV_COMMAND (DEV_REG_BASE 7 dev)) ACK s" and ?i = "TERM_RX_SEM dev"
  let ?st = "mem s (TERM_RECV_STATUS (DEV_REG_BASE 7 dev))"
  have K1: "kinv ?s v" using kinv_mem [OF K] by simp
  have dv: "devSem ?i ?s = k" using k(1) by (simp add: devSem_def)
  have i: "?i < TOT_SEMS" using d by (simp add: TERM_RX_SEM_def)
  have m: "mem ?s k = mem s k" using k(2) by simp
  have "sint (mem ?s (devSem ?i ?s)) < 0" unfolding dv m by (rule k(3))
  from by_prio.wake_device_spec [OF K1 i this, of ?st, unfolded dv m b list.case]
  obtain s' where "wake_device (insertProcQ readyQueue) ?i ?st ?s = Some s'"
    "mem s' = (mem ?s)(k := mem s k + 1)" "currentProcess s' = currentProcess ?s"
    "kinv s' (v\<lparr>v_blocked := (v_blocked v)(k := us), v_ready := ins_prio (prio_of ?s) u (v_ready v)\<rparr>)"
    "pcbs s' = (pcbs ?s)(u := (pcbs ?s u)\<lparr>p_semAdd := 0, p_s := (p_s (pcbs ?s u))\<lparr>reg_a0 := ?st\<rparr>\<rparr>)"
    by blast
  moreover have "prio_of ?s = prio_of s" by simp
  ultimately show ?thesis using st by (simp add: terminal_interrupt_def Let_def)
qed

lemma ordinary_device:
  assumes K: "kinv s v" and l: "3 \<le> line" "line \<le> 6" and d: "dev < 8"
    and k: "k = devSem (DEV_SEM_BASE line dev) s" "k \<noteq> DEV_COMMAND (DEV_REG_BASE line dev)" "sint (mem s k) < 0"
    and b: "v_blocked v k = u # us"
  shows "\<exists>s'. other_device_interrupt line dev s = Some s' \<and>
    kinv s' (v\<lparr>v_blocked := (v_blocked v)(k := us), v_ready := ins_prio (prio_of s) u (v_ready v)\<rparr>) \<and>
    currentProcess s' = currentProcess s \<and>
    mem s' = (mem s)(DEV_COMMAND (DEV_REG_BASE line dev) := ACK, k := mem s k + 1) \<and>
    pcbs s' = (pcbs s)(u := (pcbs s u)\<lparr>p_semAdd := 0,
      p_s := (p_s (pcbs s u))\<lparr>reg_a0 := mem s (DEV_STATUS (DEV_REG_BASE line dev))\<rparr>\<rparr>)"
proof -
  let ?c = "DEV_COMMAND (DEV_REG_BASE line dev)" and ?i = "DEV_SEM_BASE line dev"
  let ?st = "mem s (DEV_STATUS (DEV_REG_BASE line dev))"
  let ?s = "store ?c ACK s"
  have K1: "kinv ?s v" using kinv_mem [OF K] by simp
  have dv: "devSem ?i ?s = k" using k(1) by (simp add: devSem_def)
  have i: "?i < TOT_SEMS" using l d by (simp add: DEV_SEM_BASE_def)
  have m: "mem ?s k = mem s k" using k(2) by simp
  have "sint (mem ?s (devSem ?i ?s)) < 0" unfolding dv m by (rule k(3))
  from by_prio.wake_device_spec [OF K1 i this, of ?st, unfolded dv m b list.case]
  obtain s' where s': "wake_device (insertProcQ readyQueue) ?i ?st ?s = Some s'"
    "mem s' = (mem ?s)(k := mem s k + 1)" "currentProcess s' = currentProcess ?s"
    "kinv s' (v\<lparr>v_blocked := (v_blocked v)(k := us), v_ready := ins_prio (prio_of ?s) u (v_ready v)\<rparr>)"
    "pcbs s' = (pcbs ?s)(u := (pcbs ?s u)\<lparr>p_semAdd := 0, p_s := (p_s (pcbs ?s u))\<lparr>reg_a0 := ?st\<rparr>\<rparr>)"
    by blast
  moreover have "other_device_interrupt line dev s = wake_device (insertProcQ readyQueue) ?i ?st ?s"
    by (simp add: other_device_interrupt_def Let_def)
  moreover have "prio_of ?s = prio_of s" by simp
  ultimately show ?thesis by simp
qed

text \<open>
  C16. An interrupt of an ordinary device with waiters: the device is acknowledged, the first waiter
  gets the status in \<open>a0\<close> and becomes ready at the place of its priority, and the semaphore gets
  one unit.
\<close>

theorem device_interrupt_wakes_first:
  assumes K: "kinv s v" and l: "3 \<le> line" "line \<le> 6" and d: "dev < 8"
    and k: "k = devSem (DEV_SEM_BASE line dev) s" "k \<noteq> DEV_COMMAND (DEV_REG_BASE line dev)" "sint (mem s k) < 0"
    and b: "v_blocked v k = u # us"
  shows "\<exists>s'. other_device_interrupt line dev s = Some s' \<and>
    kinv s' (v\<lparr>v_blocked := (v_blocked v)(k := us), v_ready := ins_prio (prio_of s) u (v_ready v)\<rparr>) \<and>
    currentProcess s' = currentProcess s \<and>
    mem s' = (mem s)(DEV_COMMAND (DEV_REG_BASE line dev) := ACK, k := mem s k + 1) \<and>
    reg_a0 (p_s (pcbs s' u)) = mem s (DEV_STATUS (DEV_REG_BASE line dev)) \<and>
    p_semAdd (pcbs s' u) = 0 \<and> (\<forall>q. q \<noteq> u \<longrightarrow> pcbs s' q = pcbs s q)"
  using ordinary_device [OF assms] by auto

theorem device_interrupt_wakes_first_witness:
  "\<exists>s'. other_device_interrupt 4 0 (demo_doio 0x100000D8) = Some s' \<and>
     kinv s' (boot_view\<lparr>v_blocked := \<lambda>_. [], v_ready := [0]\<rparr>) \<and> p_semAdd (pcbs s' 0) = 0"
proof -
  have "doio_sem 0x100000D8 = 8" by (simp add: doio_sem_def Let_def DEV_SEM_BASE_def)
  then have w: "kinv (demo_doio 0x100000D8) (boot_view\<lparr>v_blocked := (\<lambda>_. [])(0x20001020 := [0])\<rparr>)"
    "mem (demo_doio 0x100000D8) 0x20001020 = -1" "\<And>i. devSem i (demo_doio 0x100000D8) = 0x20001000 + 4 * of_nat i"
    using demo_doio [of "0x100000D8" "0x20001020"] by auto
  have "DEV_COMMAND (DEV_REG_BASE 4 0) = 0x100000D8"
    by (simp add: DEV_COMMAND_def DEV_REG_BASE_def reg_word_def)
  moreover have "(\<lambda>_. [])(0x20001020 := [], 0x20001020 := []) = (\<lambda>_ :: u32. [] :: nat list)" by auto
  ultimately show ?thesis
    using device_interrupt_wakes_first [OF w(1), of 4 0 "0x20001020" 0 "[]"] w(2,3)
    by (auto simp: DEV_SEM_BASE_def)
qed

lemma clockwait_spec:
  assumes K: "kinv s v" and p: "currentProcess s = Some p" and k: "k = devSem PSEUDOCLK_SEM s"
  shows "\<exists>t. scheduled t (v\<lparr>v_blocked := (v_blocked v)(k := v_blocked v k @ [p])\<rparr>) (sys_clockwait s) \<and>
    mem t = (mem s)(k := mem s k - 1) \<and> p_semAdd (pcbs t p) = k \<and>
    devSems_addr t = devSems_addr s"
proof -
  let ?s = "store k (mem s k - 1) (saved p s)"
  have K1: "kinv ?s v" using kinv_mem [OF kinv_saved [OF K]] by simp
  have dv: "devSem i ?s = devSem i s" "devSem i (saved p s) = devSem i s" for i by (simp_all add: devSem_def)
  obtain t where t: "blockCurrentProcess k (?s\<lparr>softBlockCount := softBlockCount ?s + 1\<rparr>) = scheduler t"
    "core {} {} t (v\<lparr>v_blocked := (v_blocked v)(k := v_blocked v k @ [p])\<rparr>)"
    "counts_ok t (v\<lparr>v_blocked := (v_blocked v)(k := v_blocked v k @ [p])\<rparr>)"
    "yieldedProcess t = None" "mem t = mem ?s" "p_semAdd (pcbs t p) = k" "devSems_addr t = devSems_addr s"
    using dev_block_core [OF K1, of p PSEUDOCLK_SEM 1] p unfolding dv k [symmetric] by auto
  have "sys_clockwait s = blockCurrentProcess k (?s\<lparr>softBlockCount := softBlockCount ?s + 1\<rparr>)"
    using save_current_saved [OF p] dv by (simp add: sys_clockwait_def Let_def k)
  then show ?thesis using scheduler_scheduled [OF t(2-4)] t(1,5,6,7) by auto
qed

text \<open>
  \<open>CLOCKWAIT\<close> always blocks the caller on the pseudo-clock, last in its queue.
\<close>

theorem clockwait_behaviour:
  assumes "kinv s v" and "currentProcess s = Some p" and "k = devSem PSEUDOCLK_SEM s"
  shows "\<exists>t. scheduled t (v\<lparr>v_blocked := (v_blocked v)(k := v_blocked v k @ [p])\<rparr>) (sys_clockwait s) \<and>
    mem t = (mem s)(k := mem s k - 1) \<and> p_semAdd (pcbs t p) = k"
  using clockwait_spec [OF assms] by blast

theorem clockwait_behaviour_witness:
  "\<exists>t. scheduled t (boot_view\<lparr>v_blocked := (\<lambda>_. [])(0x200010C0 := [0])\<rparr>)
      (sys_clockwait (demo (\<lambda>_. 0) (syscall_state (-7) 0 0 0))) \<and> mem t 0x200010C0 = -1"
  using clockwait_behaviour [OF demo_kinv [of "\<lambda>_. 0" "syscall_state (-7) 0 0 0"] demo_sel(3), of "0x200010C0"]
  by auto

lemma demo_clock:
  "kinv demo_clock (boot_view\<lparr>v_blocked := (\<lambda>_. [])(0x200010C0 := [0])\<rparr>)"
  "devSem i demo_clock = 0x20001000 + 4 * of_nat i"
proof -
  have e: "boot_view\<lparr>v_blocked := f, v_ready := []\<rparr> = boot_view\<lparr>v_blocked := f\<rparr>" for f
    by (simp add: boot_view_def)
  show "kinv demo_clock (boot_view\<lparr>v_blocked := (\<lambda>_. [])(0x200010C0 := [0])\<rparr>)"
    "devSem i demo_clock = 0x20001000 + 4 * of_nat i"
    using clockwait_spec [OF demo_kinv [of "\<lambda>_. 0" "syscall_state (-7) 0 0 0"] demo_sel(3), of "0x200010C0"]
    by (auto simp: demo_clock_def scheduled_def devSem_def e)
qed

text \<open>
  C18. A tick of the pseudo-clock releases every waiter: the queue is empty afterwards, each of them
  is ready at the place of its priority with 0 as result, the value of the semaphore is 0.
\<close>

theorem clock_tick_releases_all:
  assumes K: "kinv s v" and k: "k = devSem PSEUDOCLK_SEM s"
  defines "w \<equiv> v\<lparr>v_blocked := (v_blocked v)(k := []), v_ready := fold (ins_prio (prio_of s)) (v_blocked v k) (v_ready v)\<rparr>"
  shows "\<exists>t. clock_interrupt s = resume_or_schedule t \<and> kinv t w \<and> mem t = (mem s)(k := 0) \<and>
    currentProcess t = currentProcess s \<and>
    (\<forall>p\<in>set (v_blocked v k). p \<in> set (v_ready w) \<and> reg_a0 (p_s (pcbs t p)) = 0 \<and> p_semAdd (pcbs t p) = 0)"
proof -
  let ?s = "LDIT PSECOND s"
  have K1: "kinv ?s v" by (rule kinv_cong [OF K]) (auto simp: LDIT_def)
  have dv: "devSem PSEUDOCLK_SEM ?s = k" and pr: "prio_of ?s = prio_of s" and m: "mem ?s = mem s"
    using k by (simp_all add: devSem_def LDIT_def)
  from wake_clock_spec [OF K1 refl, unfolded dv pr m]
  obtain s' where s': "wake_clock ?s = Some s'" "currentProcess s' = currentProcess ?s" "mem s' = mem s"
    "devSems_addr s' = devSems_addr ?s" and K2: "kinv s' w"
    and P: "\<forall>p. pcbs s' p = (if p \<in> set (v_blocked v k)
       then (pcbs ?s p)\<lparr>p_semAdd := 0, p_s := (p_s (pcbs ?s p))\<lparr>reg_a0 := 0\<rparr>\<rparr> else pcbs ?s p)"
    unfolding w_def by blast
  have dv': "devSem PSEUDOCLK_SEM s' = k" using s'(4) k by (simp add: devSem_def LDIT_def)
  have "set (fold (ins_prio pr) ps r) = set ps \<union> set r" for pr ps r
    by (induction ps arbitrary: r) auto
  then have r: "set (v_ready w) = set (v_blocked v k) \<union> set (v_ready v)" by (simp add: w_def)
  have "clock_interrupt s = resume_or_schedule (store k 0 s')"
    using s'(1) dv' by (simp add: clock_interrupt_def)
  then show ?thesis
    using s' kinv_mem [OF K2] P r
    by (intro exI [of _ "store k 0 s'"]) (auto simp: LDIT_def)
qed

theorem clock_tick_releases_all_witness:
  "\<exists>t. clock_interrupt demo_clock = resume_or_schedule t \<and>
     kinv t (boot_view\<lparr>v_blocked := \<lambda>_. [], v_ready := [0]\<rparr>) \<and> p_semAdd (pcbs t 0) = 0"
  using clock_tick_releases_all [OF demo_clock(1), of "0x200010C0"] demo_clock(2)
  by (auto simp: no_waiters)

section \<open>Sharing the processor\<close>

lemma time_slice_spec:
  assumes K: "kinv s v" and p: "currentProcess s = Some p"
  defines "ready \<equiv> ins_prio (prio_of s) p (v_ready v)"
  shows "\<exists>t. scheduled t (v\<lparr>v_ready := ready\<rparr>) (plt_interrupt s) \<and> mem t = mem s \<and> devSems_addr t = devSems_addr s \<and>
    p_s (pcbs t p) = (copyState (p_s (pcbs s p)) (bios_state s))
      \<lparr>status := status (bios_state s) OR MSTATUS_MIE_MASK\<rparr>"
proof -
  let ?s = "setTIMER NEVER s"
  let ?t = "upd_pcb p (\<lambda>q. q\<lparr>p_s := (p_s q)\<lparr>status := status (p_s q) OR MSTATUS_MIE_MASK\<rparr>\<rparr>)
    (save_state p (bios_state ?s) ?s)"
  have Kt: "kinv ?t v" by (rule kinv_cong [OF K]) (auto simp: setTIMER_def)
  have cur: "currentProcess ?s = Some p" "currentProcess ?t = Some p" using p by (simp_all add: setTIMER_def)
  have C: "core {} {p} ?t v" and N: "counts_ok ?t v" and y: "yieldedProcess ?t = None"
    using kinv_current [OF Kt cur(2)] by blast+
  have pr: "prio_of ?t = prio_of s" by (auto simp: setTIMER_def fun_eq_iff)
  obtain m where i: "insertProcQ readyQueue p ?t = Some (?t\<lparr>lmem := m\<rparr>)"
    and C1: "core {} ({p} - {p}) (?t\<lparr>lmem := m\<rparr>) (v\<lparr>v_ready := ready\<rparr>)" (is "core _ _ ?u ?v")
    using core_insert_ready [OF C, of p] unfolding pr ready_def by blast
  have "core {} {} (?u\<lparr>currentProcess := None\<rparr>) ?v"
    by (rule core_cong [OF C1 [unfolded Diff_cancel]]) simp_all
  moreover have "counts_ok (?u\<lparr>currentProcess := None\<rparr>) ?v"
    by (rule counts_cong [OF counts_ready [OF N]]) simp_all
  moreover have "yieldedProcess (?u\<lparr>currentProcess := None\<rparr>) = None" using y by simp
  ultimately have "scheduled (?u\<lparr>currentProcess := None\<rparr>) ?v (scheduler (?u\<lparr>currentProcess := None\<rparr>))"
    by (rule scheduler_scheduled)
  moreover have "plt_interrupt s = scheduler (?u\<lparr>currentProcess := None\<rparr>)"
    using cur(1) by (simp only: plt_interrupt_def Let_def option.case i Option.bind_lunit)
  ultimately show ?thesis
    by (intro exI [of _ "?u\<lparr>currentProcess := None\<rparr>"]) (simp add: setTIMER_def save_state_def)
qed

text \<open>
  C19. At the end of its time slice the running process goes back to the ready queue, behind all
  processes of its priority and before those of a lower one, with interrupts enabled; the front
  of the queue runs next. If the queue is sorted it stays so, hence the one that runs has the
  highest priority of all.
\<close>

theorem time_slice_behaviour:
  assumes K: "kinv s v" and p: "currentProcess s = Some p"
  defines "ready \<equiv> ins_prio (prio_of s) p (v_ready v)"
  shows "\<exists>t. scheduled t (v\<lparr>v_ready := ready\<rparr>) (plt_interrupt s) \<and> mem t = mem s \<and>
    p_s (pcbs t p) = (copyState (p_s (pcbs s p)) (bios_state s))
      \<lparr>status := status (bios_state s) OR MSTATUS_MIE_MASK\<rparr> \<and>
    (prio_sorted (prio_of s) (v_ready v) \<longrightarrow>
      (\<exists>q. front ready = Some q \<and> (\<forall>x\<in>insert p (set (v_ready v)). prio_of s x \<le> prio_of s q)) \<and>
      prio_sorted (prio_of s) (tl ready))"
proof -
  have "(\<exists>q. front ready = Some q \<and> (\<forall>x\<in>insert p (set (v_ready v)). prio_of s x \<le> prio_of s q)) \<and>
      prio_sorted (prio_of s) (tl ready)" if srt: "prio_sorted (prio_of s) (v_ready v)"
  proof -
    obtain q qs where q: "ready = q # qs" by (cases ready) (auto simp: ready_def)
    have "prio_sorted (prio_of s) (q # qs)" using prio_sorted_ins_prio [OF srt, of p] q by (simp add: ready_def)
    moreover have "set (q # qs) = insert p (set (v_ready v))" unfolding q [symmetric] ready_def by simp
    ultimately show ?thesis using q by (auto simp: front_def)
  qed
  then show ?thesis using time_slice_spec [OF K p] unfolding ready_def by blast
qed

theorem time_slice_behaviour_witness:
  "\<exists>t. scheduled t (boot_view\<lparr>v_ready := [0]\<rparr>) (plt_interrupt (demo (\<lambda>_. 0) demo_state))"
  using time_slice_behaviour [OF demo_kinv [of "\<lambda>_. 0" demo_state] demo_sel(3)] by auto

lemma yield_spec:
  assumes K: "kinv s v" and p: "currentProcess s = Some p"
  shows "\<exists>out s'. sys_yield s = Some (out, s') \<and> mem s' = mem s \<and> devSems_addr s' = devSems_addr s \<and>
    p_s (pcbs s' p) = copyState (p_s (pcbs s p)) (bios_state s) \<and>
    (case v_ready v of
       q # qs \<Rightarrow> if prio_of s q \<ge> prio_of s p
         then currentProcess s' = Some q \<and> out = Ldst (p_s (pcbs s q)) \<and>
           kinv s' (v\<lparr>v_ready := ins_prio (prio_of s) p qs\<rparr>)
         else currentProcess s' = Some p \<and> out = Ldst (p_s (pcbs s' p)) \<and> kinv s' v
     | [] \<Rightarrow> currentProcess s' = Some p \<and> out = Ldst (p_s (pcbs s' p)) \<and> kinv s' v)"
proof -
  let ?t = "(saved p s)\<lparr>currentProcess := None\<rparr>"
  have Ks: "kinv (saved p s) v" by (rule kinv_saved [OF K])
  have cs: "currentProcess (saved p s) = Some p" using p by simp
  have C: "core {} {p} (saved p s) v" and N: "counts_ok (saved p s) v" and y: "yieldedProcess (saved p s) = None"
    using kinv_current [OF Ks cs] by auto
  have C1: "core {} {p} ?t v" by (rule core_cong [OF C]) auto
  have N1: "counts_ok ?t v" by (rule counts_cong [OF N]) auto
  have y1: "yieldedProcess ?t = None" using y by simp
  have pr: "prio_of ?t = prio_of s" by (simp add: fun_eq_iff)
  have ps: "p_s (pcbs ?t p) = copyState (p_s (pcbs s p)) (bios_state s)" by (simp add: saved_pcbs [OF p])
  have t0: "?t\<lparr>yieldedProcess := None\<rparr> = ?t" using y1 by simp
  have cm: "(saved p s)\<lparr>yieldedProcess := Some p, currentProcess := None\<rparr> = ?t\<lparr>yieldedProcess := Some p\<rparr>"
    by simp
  have sy: "sys_yield s = scheduler (?t\<lparr>yieldedProcess := Some p\<rparr>)"
    using save_current_saved [OF p] p by (simp add: sys_yield_def cm)
  note hd = krep_ready_head [OF coreD(1) [OF C1]]
  let ?Q = "\<exists>q qs. v_ready v = q # qs \<and> prio_of s q \<ge> prio_of s p"
  have ry: "resolve_yield (?t\<lparr>yieldedProcess := Some p\<rparr>) =
      (if ?Q then map_option Inr (insertProcQ readyQueue p ?t) else Some (Inl (dispatch p ?t)))"
    using hd by (cases "v_ready v") (auto simp: resolve_yield_def Let_def t0)
  show ?thesis
  proof (cases ?Q)
    case False
    obtain out s' where d: "dispatch p ?t = (out, s')" by force
    have f: "currentProcess s' = Some p" "out = Ldst (p_s (pcbs ?t p))" "pcbs s' = pcbs ?t" "mem s' = mem s"
      "lmem s' = lmem ?t" "s_key s' = s_key ?t" "next_pid s' = next_pid ?t" "activeProcs s' = activeProcs ?t"
      "devSems_addr s' = devSems_addr ?t" "processCount s' = processCount ?t"
      "softBlockCount s' = softBlockCount ?t" "yieldedProcess s' = None"
      using d y1 by (auto simp: dispatch_def STCK_def setTIMER_def Let_def)
    have "core {} {p} s' v" by (rule core_cong [OF C1]) (simp_all only: f)
    moreover have "counts_ok s' v" by (rule counts_cong [OF N1]) (simp_all only: f)
    ultimately have "kinv s' v" using f by (simp add: kinv_def)
    moreover have "sys_yield s = Some (out, s')"
      unfolding sy scheduler_def ry if_not_P [OF False] d by simp
    ultimately show ?thesis using False f ps by (auto split: list.splits)
  next
    case True
    then obtain q qs where q: "v_ready v = q # qs" "prio_of s q \<ge> prio_of s p" by blast
    obtain m where i: "insertProcQ readyQueue p ?t = Some (?t\<lparr>lmem := m\<rparr>)"
      and C2: "core {} ({p} - {p}) (?t\<lparr>lmem := m\<rparr>) (v\<lparr>v_ready := ins_prio (prio_of s) p (v_ready v)\<rparr>)"
      using core_insert_ready [OF C1, of p] unfolding pr by blast
    let ?u = "?t\<lparr>lmem := m\<rparr>" and ?w = "v\<lparr>v_ready := ins_prio (prio_of s) p (v_ready v)\<rparr>"
    have r: "v_ready ?w = q # ins_prio (prio_of s) p qs" using q by simp
    have yu: "yieldedProcess ?u = None" using y1 by simp
    have "scheduled ?u ?w (scheduler ?u)"
      by (rule scheduler_scheduled [OF C2 [unfolded Diff_cancel] counts_ready [OF N1] yu])
    moreover have "sys_yield s = scheduler ?u"
    proof -
      have "resolve_yield ?u = Some (Inr ?u)" using yu by (simp add: resolve_yield_def)
      moreover have "resolve_yield (?t\<lparr>yieldedProcess := Some p\<rparr>) = Some (Inr ?u)"
        unfolding ry using True i by simp
      ultimately show ?thesis unfolding sy scheduler_def by simp
    qed
    moreover have "q \<noteq> p" using current_unqueued [OF K p] q by (auto simp: unqueued_def)
    then have "p_s (pcbs ?u q) = p_s (pcbs s q)" by (simp add: saved_pcbs [OF p])
    ultimately show ?thesis using q r ps by (auto simp: scheduled_def front_def)
  qed
qed

text \<open>
  C20. \<open>YIELD\<close>: if the front of the ready queue has at least the priority of the caller, the caller
  goes behind the ready processes of its priority and the front runs; otherwise (also when nobody
  is ready) the caller goes on.
\<close>

theorem yield_behaviour:
  assumes K: "kinv s v" and p: "currentProcess s = Some p"
  shows "\<exists>out s'. sys_yield s = Some (out, s') \<and> mem s' = mem s \<and>
    p_s (pcbs s' p) = copyState (p_s (pcbs s p)) (bios_state s) \<and>
    (case v_ready v of
       q # qs \<Rightarrow> if prio_of s q \<ge> prio_of s p
         then currentProcess s' = Some q \<and> out = Ldst (p_s (pcbs s q)) \<and>
           kinv s' (v\<lparr>v_ready := ins_prio (prio_of s) p qs\<rparr>)
         else currentProcess s' = Some p \<and> out = Ldst (p_s (pcbs s' p)) \<and> kinv s' v
     | [] \<Rightarrow> currentProcess s' = Some p \<and> out = Ldst (p_s (pcbs s' p)) \<and> kinv s' v)"
  using yield_spec [OF assms] by blast

theorem yield_behaviour_witness:
  "\<exists>s'. sys_yield (demo (\<lambda>_. 0) (syscall_state (-10) 0 0 0)) = Some (Ldst (p_s (pcbs s' 0)), s') \<and>
     currentProcess s' = Some 0 \<and> kinv s' boot_view"
  using yield_behaviour [OF demo_kinv [of "\<lambda>_. 0" "syscall_state (-10) 0 0 0"] demo_sel(3)] by auto

section \<open>Exceptions of the processes\<close>

text \<open>
  An exception of a process with a support structure goes to the support level: the saved state
  is copied into the slot of this kind of exception and the processor continues from the context of
  this slot; nothing of the Nucleus changes. A process without one dies with its family, and the
  scheduler runs.
\<close>

theorem pass_up_or_die:
  assumes K: "kinv s v" and p: "currentProcess s = Some p"
  shows "if p_supportStruct (pcbs s p) \<noteq> 0
    then (let a = p_supportStruct (pcbs s p); sup = support_mem s a; ctx = sup_exceptContext sup e in
      \<exists>s'. passUpOrDie e s = Some (Ldcxt (stackPtr ctx) (ctx_status ctx) (ctx_pc ctx), s') \<and> kinv s' v \<and>
        s' = s\<lparr>support_mem := support_mem s'\<rparr> \<and>
        sup_exceptState (support_mem s' a) e = copyState (sup_exceptState sup e) (bios_state s) \<and>
        (\<forall>e'. e' \<noteq> e \<longrightarrow> sup_exceptState (support_mem s' a) e' = sup_exceptState sup e') \<and>
        (\<forall>b. b \<noteq> a \<longrightarrow> support_mem s' b = support_mem s b))
    else \<exists>t w. passUpOrDie e s = scheduler t \<and> kinv t w \<and> killed (family v p) (updateCPUTime s) v t w"
proof (cases "p_supportStruct (pcbs s p) = 0")
  case True
  have K1: "kinv (updateCPUTime s) v" by (rule kinv_updateCPUTime [OF K])
  obtain t w where t: "terminateProcess (Some p) (updateCPUTime s) = Some t" "kinv t w"
    and kl: "killed (family v p) (updateCPUTime s) v t w"
    using terminate_kinv [OF K1] kinv_current [OF K p] by blast
  have "currentProcess t = None" using kl p by (simp add: killed_def family_def)
  then have tt: "t\<lparr>currentProcess := None\<rparr> = t" by simp
  have "passUpOrDie e s = scheduler t"
    using True p t by (simp add: passUpOrDie_def tt)
  then show ?thesis using True t kl by auto
next
  case False
  have "kinv (s\<lparr>support_mem := m\<rparr>) v" for m by (rule kinv_cong [OF K]) auto
  then show ?thesis using False p by (auto simp: passUpOrDie_def Let_def)
qed

theorem pass_up_or_die_witness:
  "\<exists>out s'. passUpOrDie PGFAULTEXCEPT (demo_sup demo_state) = Some (out, s') \<and> kinv s' boot_view"
  using pass_up_or_die [OF demo_sup(1,2) [of demo_state], of PGFAULTEXCEPT]
  by (auto simp: demo_sup Let_def)

text \<open>
  A process in user mode cannot call the Nucleus: its negative service number is turned into
  a program trap, so with a support structure it only changes this structure, and nobody is
  created, killed, blocked or woken.
\<close>

theorem user_mode_is_kept_out:
  assumes K: "kinv s v" and p: "currentProcess s = Some p" and u: "status (bios_state s) AND MSTATUS_MPP_MASK = 0"
    and n: "sint (reg_a0 (bios_state s)) < 0" and sup: "p_supportStruct (pcbs s p) \<noteq> 0"
  shows "\<exists>out s'. syscallHandler s = Some (out, s') \<and> kinv s' v \<and> pcbs s' = pcbs s \<and> mem s' = mem s \<and>
    currentProcess s' = Some p \<and>
    cause (sup_exceptState (support_mem s' (p_supportStruct (pcbs s p))) GENERALEXCEPT) = PRIVINSTR"
proof -
  have "kinv (s\<lparr>bios_state := b, support_mem := m\<rparr>) v" for b m by (rule kinv_cong [OF K]) auto
  then show ?thesis
    using u n p sup by (auto simp: syscallHandler_def programTrapHandler_def passUpOrDie_def Let_def)
qed

theorem user_mode_is_kept_out_witness:
  "\<exists>out s'. syscallHandler (demo_sup ((syscall_state (-2) 0 0 0)\<lparr>status := 0\<rparr>)) = Some (out, s') \<and>
     kinv s' boot_view \<and> currentProcess s' = Some 0"
  using user_mode_is_kept_out [OF demo_sup(1,2) [of "(syscall_state (-2) 0 0 0)\<lparr>status := 0\<rparr>"]]
  by (auto simp: demo_sup)

text \<open>
  The processor time of a process is accounted without gaps or overlaps: \<open>GETTIME\<close>, from the
  trap on, returns the time used before plus the time since the process was last charged, and
  charges it exactly once, although the clock is read twice on the way. The process goes on at
  the next instruction.
\<close>

theorem gettime_behaviour:
  assumes p: "currentProcess s = Some p" and c: "cause (bios_state s) = 11"
    and a: "sint (reg_a0 (bios_state s)) = GETTIME" "status (bios_state s) AND MSTATUS_MPP_MASK \<noteq> 0"
  defines "now \<equiv> tod s (Suc (tod_reads s))"
  shows "\<exists>s'. exceptionHandler s =
      Some (Ldst ((bios_state s)\<lparr>pc_epc := pc_epc (bios_state s) + 4,
        reg_a0 := p_time (pcbs s p) + (now - startTOD s)\<rparr>), s') \<and>
    p_time (pcbs s' p) = p_time (pcbs s p) + (now - startTOD s) \<and> startTOD s' = now \<and>
    tod_reads s' = tod_reads s + 2 \<and> (\<forall>q. q \<noteq> p \<longrightarrow> pcbs s' q = pcbs s q)"
  using assms
  by (simp add: exceptionHandler_def syscallHandler_def sys_gettime_def updateCPUTime_def STCK_def Let_def now_def)

theorem gettime_behaviour_witness:
  "\<exists>s'. exceptionHandler (demo (\<lambda>_. 0) (syscall_state (-6) 0 0 0)) =
     Some (Ldst ((syscall_state (-6) 0 0 0)\<lparr>pc_epc := 4, reg_a0 := p_time (pcbs s' 0)\<rparr>), s')"
  using gettime_behaviour [OF demo_sel(3) [of "\<lambda>_. 0" "syscall_state (-6) 0 0 0"]]
  by (auto simp: syscall_state_def demo_state_def)

text \<open>
  \<open>GETPROCESSID\<close> returns the identifier of the caller, or that of its parent in the process
  tree, which is 0 for a process whose parent does not exist.
\<close>

theorem getprocessid_behaviour:
  assumes K: "kinv s v" and p: "currentProcess s = Some p"
  shows "\<exists>s'. sys_getprocessid s = Some (Ldst (bios_state s'), s') \<and> kinv s' v \<and>
    (if reg_a1 (bios_state s) = 0 then reg_a0 (bios_state s') = p_pid (pcbs s p) \<and> p_pid (pcbs s p) \<noteq> 0
     else if \<exists>a\<in>live v. p \<in> set (v_kids v a)
     then \<exists>a\<in>live v. p \<in> set (v_kids v a) \<and> reg_a0 (bios_state s') = p_pid (pcbs s a)
     else reg_a0 (bios_state s') = 0)"
proof -
  have C: "core {} {p} s v" and l: "p \<in> live v" using kinv_current [OF K p] by auto
  have T: "p_parent (pcbs s p) = Some a \<longleftrightarrow> a \<in> live v \<and> p \<in> set (v_kids v a)" for a
    using coreD(4) [OF C] l by (auto simp: tree_ok_def)
  have "p_pid (pcbs s p) \<noteq> 0" using coreD(5) [OF C] l by (auto simp: pids_ok_def)
  moreover have "kinv (s\<lparr>bios_state := b\<rparr>) v" for b by (rule kinv_bios [OF K])
  ultimately show ?thesis
  proof (cases "p_parent (pcbs s p)")
    case None
    then have "\<not> (\<exists>a\<in>live v. p \<in> set (v_kids v a))" using T by auto
    with None p \<open>p_pid (pcbs s p) \<noteq> 0\<close> \<open>\<And>b. kinv (s\<lparr>bios_state := b\<rparr>) v\<close> show ?thesis
      by (simp add: sys_getprocessid_def Let_def)
  next
    case (Some a)
    then have "a \<in> live v" "p \<in> set (v_kids v a)" using T by auto
    with Some p \<open>p_pid (pcbs s p) \<noteq> 0\<close> \<open>\<And>b. kinv (s\<lparr>bios_state := b\<rparr>) v\<close> show ?thesis
      by (auto simp: sys_getprocessid_def Let_def)
  qed
qed

theorem getprocessid_behaviour_witness:
  "\<exists>s'. sys_getprocessid (demo (\<lambda>_. 0) (syscall_state (-9) 1 0 0)) = Some (Ldst (bios_state s'), s') \<and>
     reg_a0 (bios_state s') = 0"
  using getprocessid_behaviour [OF demo_kinv [of "\<lambda>_. 0" "syscall_state (-9) 1 0 0"] demo_sel(3)] by auto

text \<open>
  C21. The transmitter of a terminal does not respect priorities: when its interrupt is handled, the
  process that waited for it goes to the end of the ready queue, behind processes of a lower
  priority, and the queue is then not sorted.
\<close>

theorem transmitter_ignores_priority:
  assumes K: "kinv s v" and d: "dev < 8"
    and st: "mem s (TERM_TRANSM_STATUS (DEV_REG_BASE 7 dev)) AND 0xFF = OKCHARTRANS"
      "mem s (TERM_RECV_STATUS (DEV_REG_BASE 7 dev)) AND 0xFF \<noteq> CHARRECV"
    and k: "k = devSem (TERM_TX_SEM dev) s" "k \<noteq> TERM_TRANSM_COMMAND (DEV_REG_BASE 7 dev)" "sint (mem s k) < 0"
    and b: "v_blocked v k = u # us"
  shows "\<exists>s'. terminal_interrupt dev s = Some s' \<and>
    kinv s' (v\<lparr>v_blocked := (v_blocked v)(k := us), v_ready := v_ready v @ [u]\<rparr>) \<and>
    (\<forall>q\<in>set (v_ready v). prio_of s q < prio_of s u \<longrightarrow> \<not> prio_sorted (prio_of s') (v_ready v @ [u]))"
proof -
  obtain s' where s': "terminal_interrupt dev s = Some s'"
    "kinv s' (v\<lparr>v_blocked := (v_blocked v)(k := us), v_ready := v_ready v @ [u]\<rparr>)"
    and P: "pcbs s' = (pcbs s)(u := (pcbs s u)\<lparr>p_semAdd := 0,
      p_s := (p_s (pcbs s u))\<lparr>reg_a0 := mem s (TERM_TRANSM_STATUS (DEV_REG_BASE 7 dev))\<rparr>\<rparr>)"
    using terminal_tx [OF assms] by blast
  have pr: "prio_of s' = prio_of s" by (auto simp: P)
  have "\<forall>q\<in>set (v_ready v). prio_of s q < prio_of s u \<longrightarrow> \<not> prio_sorted (prio_of s') (v_ready v @ [u])"
    unfolding pr by (force simp: prio_sorted_def sorted_wrt_append)
  then show ?thesis using s' by blast
qed

text \<open>Terminal 0 has transmitted the character a process waits for.\<close>

definition demo_sent :: nucleus where
  "demo_sent = store 0x1000025C 5 (demo_doio 0x10000260)"

lemma demo_sent:
  "kinv demo_sent (boot_view\<lparr>v_blocked := (\<lambda>_. [])(0x20001080 := [0])\<rparr>)"
  "mem demo_sent (TERM_TRANSM_STATUS (DEV_REG_BASE 7 0)) = 5" "mem demo_sent (TERM_RECV_STATUS (DEV_REG_BASE 7 0)) = 0"
  "mem demo_sent 0x20001080 = -1" "devSem i demo_sent = 0x20001000 + 4 * of_nat i"
  "TERM_TRANSM_COMMAND (DEV_REG_BASE 7 0) = 0x10000260" "doio_sem 0x10000260 = TERM_TX_SEM 0"
proof -
  show e: "doio_sem 0x10000260 = TERM_TX_SEM 0" by (simp add: doio_sem_def Let_def TERM_TX_SEM_def)
  then have w: "kinv (demo_doio 0x10000260) (boot_view\<lparr>v_blocked := (\<lambda>_. [])(0x20001080 := [0])\<rparr>)"
    "mem (demo_doio 0x10000260) = (\<lambda>_. 0)(0x20001080 := -1)" "\<And>i. devSem i (demo_doio 0x10000260) = 0x20001000 + 4 * of_nat i"
    using demo_doio [of "0x10000260" "0x20001080"] by (auto simp: TERM_TX_SEM_def)
  show "kinv demo_sent (boot_view\<lparr>v_blocked := (\<lambda>_. [])(0x20001080 := [0])\<rparr>)"
    using kinv_mem [OF w(1)] by (simp add: demo_sent_def)
  show "devSem i demo_sent = 0x20001000 + 4 * of_nat i" using w(3) by (simp add: demo_sent_def devSem_def)
  have regs: "TERM_TRANSM_STATUS (DEV_REG_BASE 7 0) = 0x1000025C" "TERM_RECV_STATUS (DEV_REG_BASE 7 0) = 0x10000254"
    by (simp_all add: TERM_TRANSM_STATUS_def TERM_RECV_STATUS_def DEV_REG_BASE_def reg_word_def)
  show "mem demo_sent (TERM_TRANSM_STATUS (DEV_REG_BASE 7 0)) = 5" "mem demo_sent (TERM_RECV_STATUS (DEV_REG_BASE 7 0)) = 0"
    "mem demo_sent 0x20001080 = -1"
    unfolding regs by (simp_all add: demo_sent_def w(2))
  show "TERM_TRANSM_COMMAND (DEV_REG_BASE 7 0) = 0x10000260"
    by (simp add: TERM_TRANSM_COMMAND_def DEV_REG_BASE_def reg_word_def)
qed

theorem transmitter_ignores_priority_witness:
  "\<exists>s'. terminal_interrupt 0 demo_sent = Some s' \<and>
     kinv s' (boot_view\<lparr>v_blocked := \<lambda>_. [], v_ready := [0]\<rparr>)"
proof -
  have "(\<lambda>_. [])(0x20001080 := [], 0x20001080 := []) = (\<lambda>_ :: u32. [] :: nat list)" by auto
  then show ?thesis
    using transmitter_ignores_priority [OF demo_sent(1), of 0 "0x20001080" 0 "[]"] demo_sent(2-)
    by (auto simp: TERM_TX_SEM_def)
qed

text \<open>The interrupt says that the device with command register \<open>a\<close> has done its work.\<close>

definition completes :: "nat \<Rightarrow> nat \<Rightarrow> u32 \<Rightarrow> nucleus \<Rightarrow> bool" where
  "completes line dev a s \<longleftrightarrow>
     (let base = DEV_REG_BASE line dev;
          tx = mem s (TERM_TRANSM_STATUS base) AND 0xFF = OKCHARTRANS;
          rx = mem s (TERM_RECV_STATUS base) AND 0xFF = CHARRECV
      in if line = 7 then a = TERM_TRANSM_COMMAND base \<and> tx \<and> \<not> rx \<or> a = TERM_RECV_COMMAND base \<and> rx \<and> \<not> tx
         else a = DEV_COMMAND base)"

text \<open>The command registers of the 32 ordinary devices, the transmitters and the receivers.\<close>

definition command_registers :: "u32 list" where
  "command_registers =
     [DEV_COMMAND (DEV_REG_BASE line dev). line \<leftarrow> [3, 4, 5, 6], dev \<leftarrow> [0..<8]] @
     map (\<lambda>dev. TERM_TRANSM_COMMAND (DEV_REG_BASE 7 dev)) [0..<8] @
     map (\<lambda>dev. TERM_RECV_COMMAND (DEV_REG_BASE 7 dev)) [0..<8]"

lemma doio_sem_device:
  assumes "3 \<le> line" and "line \<le> 6" and "dev < 8"
  shows "doio_sem (DEV_COMMAND (DEV_REG_BASE line dev)) = DEV_SEM_BASE line dev"
proof -
  have "list_all (\<lambda>l. list_all (\<lambda>d. doio_sem (DEV_COMMAND (DEV_REG_BASE l d)) = DEV_SEM_BASE l d) [0..<8]) [3..<7]"
    by code_simp
  then show ?thesis using assms unfolding list_all_iff set_upt by simp
qed

lemma doio_sem_terminal:
  assumes "dev < 8"
  shows "doio_sem (TERM_TRANSM_COMMAND (DEV_REG_BASE 7 dev)) = TERM_TX_SEM dev"
    "doio_sem (TERM_RECV_COMMAND (DEV_REG_BASE 7 dev)) = TERM_RX_SEM dev"
proof -
  have "list_all (\<lambda>d. doio_sem (TERM_TRANSM_COMMAND (DEV_REG_BASE 7 d)) = TERM_TX_SEM d \<and>
      doio_sem (TERM_RECV_COMMAND (DEV_REG_BASE 7 d)) = TERM_RX_SEM d) [0..<8]"
    by code_simp
  then show "doio_sem (TERM_TRANSM_COMMAND (DEV_REG_BASE 7 dev)) = TERM_TX_SEM dev"
    "doio_sem (TERM_RECV_COMMAND (DEV_REG_BASE 7 dev)) = TERM_RX_SEM dev"
    using assms by (simp_all add: list_all_iff)
qed

lemma status_before_command:
  "DEV_COMMAND b - 4 = DEV_STATUS b" "TERM_TRANSM_COMMAND b - 4 = TERM_TRANSM_STATUS b"
  "TERM_RECV_COMMAND b - 4 = TERM_RECV_STATUS b"
  by (simp_all add: DEV_COMMAND_def DEV_STATUS_def TERM_TRANSM_COMMAND_def TERM_TRANSM_STATUS_def
      TERM_RECV_COMMAND_def TERM_RECV_STATUS_def reg_word_def)

lemma highest_device: "getHighestPriorityDevice b = Some dev \<Longrightarrow> dev < 8"
  by (auto simp: getHighestPriorityDevice_def find_Some_iff)

text \<open>
  C17. The semaphore \<open>DOIO\<close> blocks on is the one the interrupt handler signals: when the interrupt
  of the device whose command register is \<open>a\<close> is handled, the first process that waits on
  \<open>doio_sem a\<close> is woken with the status of this device, at the place this line gives it, and the
  acknowledgment goes to \<open>a\<close>. This holds for the 32 ordinary devices and, when one of its two halves
  has finished, for each terminal; and the 48 command registers have the 48 semaphores before the
  pseudo-clock, one each.
\<close>

theorem doio_and_interrupts_agree:
  assumes K: "kinv s v" and l: "3 \<le> line" "line \<le> 7"
    and d: "getHighestPriorityDevice (INT_BITMAP line s) = Some dev" and c: "completes line dev a s"
    and k: "k = devSem (doio_sem a) s" "k \<noteq> a" "sint (mem s k) < 0" and b: "v_blocked v k = u # us"
  shows "(\<exists>s'. device_interrupt line s = resume_or_schedule s' \<and>
      kinv s' (v\<lparr>v_blocked := (v_blocked v)(k := us),
        v_ready := if a = TERM_TRANSM_COMMAND (DEV_REG_BASE 7 dev) then v_ready v @ [u]
          else ins_prio (prio_of s) u (v_ready v)\<rparr>) \<and>
      currentProcess s' = currentProcess s \<and> mem s' = (mem s)(a := ACK, k := mem s k + 1) \<and>
      reg_a0 (p_s (pcbs s' u)) = mem s (a - 4)) \<and>
    map doio_sem command_registers = [0..<PSEUDOCLK_SEM]"
proof
  have d8: "dev < 8" by (rule highest_device [OF d])
  note dev = device_interrupt_def d option.case
  show "\<exists>s'. device_interrupt line s = resume_or_schedule s' \<and>
      kinv s' (v\<lparr>v_blocked := (v_blocked v)(k := us),
        v_ready := if a = TERM_TRANSM_COMMAND (DEV_REG_BASE 7 dev) then v_ready v @ [u]
          else ins_prio (prio_of s) u (v_ready v)\<rparr>) \<and>
      currentProcess s' = currentProcess s \<and> mem s' = (mem s)(a := ACK, k := mem s k + 1) \<and>
      reg_a0 (p_s (pcbs s' u)) = mem s (a - 4)"
  proof (cases "line = 7")
    case False
    then have l6: "line \<le> 6" and a: "a = DEV_COMMAND (DEV_REG_BASE line dev)"
      using l c by (auto simp: completes_def)
    have "\<not> a = TERM_TRANSM_COMMAND (DEV_REG_BASE 7 dev)"
    proof
      assume "a = TERM_TRANSM_COMMAND (DEV_REG_BASE 7 dev)"
      then have "DEV_SEM_BASE line dev = TERM_TX_SEM dev"
        using doio_sem_device [OF l(1) l6 d8] doio_sem_terminal(1) [OF d8] a by simp
      then show False using l6 l(1) d8 by (simp add: DEV_SEM_BASE_def TERM_TX_SEM_def)
    qed
    then show ?thesis
      using ordinary_device [OF K l(1) l6 d8, of k u us] k b False
        doio_sem_device [OF l(1) l6 d8]
      unfolding dev a by (auto simp: status_before_command)
  next
    case True
    have ne: "TERM_RECV_COMMAND (DEV_REG_BASE 7 dev) \<noteq> TERM_TRANSM_COMMAND (DEV_REG_BASE 7 dev)"
      by (simp add: TERM_RECV_COMMAND_def TERM_TRANSM_COMMAND_def reg_word_def)
    consider (tx) "a = TERM_TRANSM_COMMAND (DEV_REG_BASE 7 dev)" "mem s (TERM_TRANSM_STATUS (DEV_REG_BASE 7 dev)) AND 0xFF = OKCHARTRANS"
        "mem s (TERM_RECV_STATUS (DEV_REG_BASE 7 dev)) AND 0xFF \<noteq> CHARRECV"
      | (rx) "a = TERM_RECV_COMMAND (DEV_REG_BASE 7 dev)" "mem s (TERM_TRANSM_STATUS (DEV_REG_BASE 7 dev)) AND 0xFF \<noteq> OKCHARTRANS"
        "mem s (TERM_RECV_STATUS (DEV_REG_BASE 7 dev)) AND 0xFF = CHARRECV"
      using c True by (auto simp: completes_def Let_def)
    then show ?thesis
    proof cases
      case tx
      have "k = devSem (TERM_TX_SEM dev) s" "k \<noteq> TERM_TRANSM_COMMAND (DEV_REG_BASE 7 dev)"
        using k(1,2) tx(1) doio_sem_terminal [OF d8] by auto
      from terminal_tx [OF K d8 tx(2,3) this k(3) b]
      obtain t where "terminal_interrupt dev s = Some t"
        "kinv t (v\<lparr>v_blocked := (v_blocked v)(k := us), v_ready := v_ready v @ [u]\<rparr>)"
        "currentProcess t = currentProcess s" "mem t = (mem s)(a := ACK, k := mem s k + 1)"
        "reg_a0 (p_s (pcbs t u)) = mem s (a - 4)"
        by (auto simp: tx(1) status_before_command)
      then show ?thesis using True tx(1) unfolding dev by (intro exI [of _ t]) simp
    next
      case rx
      have "k = devSem (TERM_RX_SEM dev) s" "k \<noteq> TERM_RECV_COMMAND (DEV_REG_BASE 7 dev)"
        using k(1,2) rx(1) doio_sem_terminal [OF d8] by auto
      from terminal_rx [OF K d8 rx(2,3) this k(3) b]
      obtain t where "terminal_interrupt dev s = Some t"
        "kinv t (v\<lparr>v_blocked := (v_blocked v)(k := us), v_ready := ins_prio (prio_of s) u (v_ready v)\<rparr>)"
        "currentProcess t = currentProcess s" "mem t = (mem s)(a := ACK, k := mem s k + 1)"
        "reg_a0 (p_s (pcbs t u)) = mem s (a - 4)"
        by (auto simp: rx(1) status_before_command)
      then show ?thesis using True rx(1) ne unfolding dev by (intro exI [of _ t]) simp
    qed
  qed
  show "map doio_sem command_registers = [0..<PSEUDOCLK_SEM]" by code_simp
qed

theorem doio_and_interrupts_agree_witness:
  "\<exists>s'. device_interrupt 7 (store 0x10000050 1 demo_sent) = resume_or_schedule s' \<and>
     kinv s' (boot_view\<lparr>v_blocked := \<lambda>_. [], v_ready := [0]\<rparr>) \<and> reg_a0 (p_s (pcbs s' 0)) = 5"
proof -
  let ?s = "store 0x10000050 1 demo_sent"
  have K: "kinv ?s (boot_view\<lparr>v_blocked := (\<lambda>_. [])(0x20001080 := [0])\<rparr>)"
    using kinv_mem [OF demo_sent(1)] by simp
  have r: "TERM_TRANSM_STATUS (DEV_REG_BASE 7 0) = 0x1000025C" "TERM_RECV_STATUS (DEV_REG_BASE 7 0) = 0x10000254"
    by (simp_all add: TERM_TRANSM_STATUS_def TERM_RECV_STATUS_def DEV_REG_BASE_def reg_word_def)
  have d: "getHighestPriorityDevice (INT_BITMAP 7 ?s) = Some 0"
    by (simp add: getHighestPriorityDevice_def INT_BITMAP_def upt_rec)
  have "completes 7 0 0x10000260 ?s"
    using demo_sent(2,3) by (simp add: completes_def Let_def r demo_sent(6))
  moreover have "devSem i ?s = 0x20001000 + 4 * of_nat i" for i
    using demo_sent(5) by (simp add: devSem_def)
  moreover have "(\<lambda>_. [])(0x20001080 := [], 0x20001080 := []) = (\<lambda>_ :: u32. [] :: nat list)" by auto
  ultimately show ?thesis
    using doio_and_interrupts_agree [OF K _ _ d, of "0x10000260" "0x20001080" 0 "[]"] demo_sent(2,4,6,7)
    by (auto simp: TERM_TX_SEM_def r)
qed

end
