(* ===== verification/Kernel_Effects.thy ===== *)
theory Kernel_Effects
  imports Nucleus_Services
begin

text \<open>
  What an activation of the Nucleus does to one word of the processes and to the queue of the
  semaphore at its address. The system calls on that semaphore change them as a counter and a
  queue; everything else leaves the word alone, and the queue too, but for the processes it destroys.
\<close>

section \<open>Words of the processes\<close>

text \<open>A word above the device registers, outside the array \<open>devSems\<close>.\<close>

definition user_word :: "u32 \<Rightarrow> nucleus \<Rightarrow> bool" where
  "user_word k s \<longleftrightarrow> 0x20000000 \<le> k \<and> k \<notin> dev_range s"

lemma user_word_cong: "devSems_addr t = devSems_addr s \<Longrightarrow> user_word k t = user_word k s"
  by (simp add: user_word_def dev_range_def devSem_def)

lemma user_word_dev:
  assumes "user_word k s" and "sems_ok s v" and "i < TOT_SEMS"
  shows "k \<noteq> devSem i s"
  using assms devSem_in_range(1) [OF assms(2,3)] by (auto simp: user_word_def)

lemma dev_reg_low:
  assumes "line \<le> 7" and "dev < 8" and "i < 4"
  shows "reg_word (DEV_REG_BASE line dev) i < 0x20000000"
proof -
  define n where "n = 0x10000054 + ((line - 3) * 0x80 + dev * 0x10) + 4 * i"
  have "reg_word (DEV_REG_BASE line dev) i = of_nat n" by (simp add: n_def reg_word_def DEV_REG_BASE_def)
  moreover have "n < 0x20000000" using assms by (simp add: n_def)
  moreover from this have "unat (of_nat n :: u32) = n" by (simp add: unat_of_nat)
  ultimately show ?thesis by (simp add: word_less_nat_alt)
qed

lemma user_word_reg:
  "user_word k s \<Longrightarrow> line \<le> 7 \<Longrightarrow> dev < 8 \<Longrightarrow> i < 4 \<Longrightarrow> k \<noteq> reg_word (DEV_REG_BASE line dev) i"
  using dev_reg_low [of line dev i] by (auto simp: user_word_def)

section \<open>Effects\<close>

text \<open>
  \<open>effect k D N s v u w\<close>: from state \<open>s\<close> with view \<open>v\<close> to \<open>u\<close> with \<open>w\<close> the processes \<open>D\<close> have been
  destroyed and those in \<open>N\<close> created; a destroyed process that waited for \<open>k\<close> gives its unit back.
\<close>

definition effect :: "u32 \<Rightarrow> nat set \<Rightarrow> nat set \<Rightarrow> nucleus \<Rightarrow> view \<Rightarrow> nucleus \<Rightarrow> view \<Rightarrow> bool" where
  "effect k D N s v u w \<longleftrightarrow> live w = live v - D \<union> N \<and> N \<inter> live v = {} \<and>
     v_blocked w k = without D (v_blocked v k) \<and> devSems_addr u = devSems_addr s \<and>
     mem u k = mem s k + of_nat (length (filter (\<lambda>p. p \<in> D) (v_blocked v k)))"

abbreviation quiet :: "u32 \<Rightarrow> nucleus \<Rightarrow> view \<Rightarrow> nucleus \<Rightarrow> view \<Rightarrow> bool" where
  "quiet k \<equiv> effect k {} {}"

lemma quiet_iff:
  "quiet k s v u w \<longleftrightarrow> live w = live v \<and> v_blocked w k = v_blocked v k \<and> mem u k = mem s k \<and>
   devSems_addr u = devSems_addr s"
  by (auto simp: effect_def without_def)

text \<open>A handler that returns to a consistent state, with an effect on the semaphore at \<open>k\<close>.\<close>

definition affects :: "(nucleus \<Rightarrow> view \<Rightarrow> bool) \<Rightarrow> (outcome \<times> nucleus) option \<Rightarrow> bool" where
  "affects R r \<longleftrightarrow> (\<exists>out u w. r = Some (out, u) \<and> kinv u w \<and> outcome_ok out u w \<and>
     R u w)"

lemma affectsI: "r = Some (out, u) \<Longrightarrow> kinv u w \<Longrightarrow> outcome_ok out u w \<Longrightarrow> R u w \<Longrightarrow> affects R r"
  by (auto simp: affects_def)

lemma affects_mono: "affects R r \<Longrightarrow> (\<And>u w. R u w \<Longrightarrow> Q u w) \<Longrightarrow> affects Q r"
  unfolding affects_def by blast

text \<open>The semaphore is untouched by the part of the handler between \<open>s\<close>, \<open>v\<close> and \<open>t\<close>, \<open>w\<close>.\<close>

lemma affects_quiet:
  assumes "affects (effect k D N t w) r" and "quiet k s v t w"
  shows "affects (effect k D N s v) r"
  by (rule affects_mono [OF assms(1)]) (use assms(2) in \<open>auto simp: effect_def without_def\<close>)

lemma quiet_trans: "quiet k s v t w \<Longrightarrow> quiet k t w u x \<Longrightarrow> quiet k s v u x"
  by (auto simp: quiet_iff)

lemma scheduled_affects: "scheduled t w r \<Longrightarrow> affects (effect k {} {} t w) r"
  unfolding scheduled_def affects_def quiet_iff
  by (elim exE conjE) (intro exI conjI, assumption+, simp_all)

lemma scheduler_affects:
  "core {} {} t w \<Longrightarrow> counts_ok t w \<Longrightarrow> yieldedProcess t = None \<Longrightarrow> affects (effect k {} {} t w) (scheduler t)"
  by (intro scheduled_affects scheduler_scheduled)

lemma idle_affects:
  "kinv s v \<Longrightarrow> currentProcess s = None \<Longrightarrow> affects (effect k {} {} s v) (scheduler s)"
  by (rule scheduler_affects) (simp_all add: kinv_def)

lemma ldst_affects:
  "kinv s v \<Longrightarrow> currentProcess s \<noteq> None \<Longrightarrow> affects (quiet k s v) (Some (Ldst st, s))"
  by (auto intro: affectsI simp: quiet_iff)

section \<open>System calls that touch no semaphore of a process\<close>

lemma simple_affects:
  assumes "kinv s v" and "currentProcess s = Some p"
  shows "affects (quiet k s v) (sys_gettime s)" and "affects (quiet k s v) (sys_getsupportptr s)"
    and "affects (quiet k s v) (sys_getprocessid s)"
proof -
  have K: "kinv (set_result r (updateCPUTime s)) v" "kinv (set_result r s) v" for r
    using kinv_bios [OF kinv_updateCPUTime [OF assms(1)]] kinv_bios [OF assms(1)] by simp_all
  show "affects (quiet k s v) (sys_gettime s)"
    using K assms(2) by (auto simp: sys_gettime_def quiet_iff Let_def intro!: affectsI)
  show "affects (quiet k s v) (sys_getsupportptr s)"
    using K assms(2) by (auto simp: sys_getsupportptr_def quiet_iff Let_def intro!: affectsI)
  show "affects (quiet k s v) (sys_getprocessid s)"
    using K assms(2) by (auto simp: sys_getprocessid_def quiet_iff Let_def intro!: affectsI)
qed

lemma yield_affects:
  assumes K: "kinv s v" and p: "currentProcess s = Some p"
  shows "affects (quiet k s v) (sys_yield s)"
proof -
  obtain out u where y: "sys_yield s = Some (out, u)" "mem u = mem s" "devSems_addr u = devSems_addr s" and
    c: "case v_ready v of
       q # qs \<Rightarrow> if prio_of s q \<ge> prio_of s p
         then currentProcess u = Some q \<and> out = Ldst (p_s (pcbs s q)) \<and>
           kinv u (v\<lparr>v_ready := ins_prio (prio_of s) p qs\<rparr>)
         else currentProcess u = Some p \<and> out = Ldst (p_s (pcbs u p)) \<and> kinv u v
     | [] \<Rightarrow> currentProcess u = Some p \<and> out = Ldst (p_s (pcbs u p)) \<and> kinv u v"
    using yield_spec [OF K p] by blast
  then show ?thesis
    by (cases "v_ready v") (auto simp: quiet_iff intro: affectsI split: if_splits)
qed

lemma clockwait_affects:
  assumes K: "kinv s v" and p: "currentProcess s = Some p" and k: "user_word k s"
  shows "affects (quiet k s v) (sys_clockwait s)"
proof -
  let ?d = "devSem PSEUDOCLK_SEM s"
  obtain t where t: "scheduled t (v\<lparr>v_blocked := (v_blocked v)(?d := v_blocked v ?d @ [p])\<rparr>) (sys_clockwait s)"
    "mem t = (mem s)(?d := mem s ?d - 1)" "devSems_addr t = devSems_addr s"
    using clockwait_spec [OF K p refl] by blast
  have "k \<noteq> ?d" using user_word_dev [OF k kinv_sems [OF K], of PSEUDOCLK_SEM] by simp
  then show ?thesis
    using t(2,3) by (intro affects_quiet [OF scheduled_affects [OF t(1)]]) (simp add: quiet_iff)
qed

text \<open>\<open>DOIO\<close> writes its argument to the command register; \<open>k\<close> must not be the address it is given.\<close>

lemma doio_affects:
  assumes K: "kinv s v" and p: "currentProcess s = Some p" and k: "user_word k s"
    and a: "doio_sem (reg_a1 (bios_state s)) < PSEUDOCLK_SEM" "reg_a1 (bios_state s) \<noteq> k"
  shows "affects (quiet k s v) (sys_doio s)"
proof -
  let ?a = "reg_a1 (bios_state s)" and ?c = "reg_a2 (bios_state s)"
  let ?d = "devSem (doio_sem ?a) s"
  obtain t where t: "scheduled t (v\<lparr>v_blocked := (v_blocked v)(?d := v_blocked v ?d @ [p])\<rparr>) (sys_doio s)"
    "mem t = ((mem s)(?a := ?c))(?d := ((mem s)(?a := ?c)) ?d - 1)" "devSems_addr t = devSems_addr s"
    using doio_sched [OF K p refl a(1) refl] by blast
  have "k \<noteq> ?d" using user_word_dev [OF k kinv_sems [OF K], of "doio_sem ?a"] a(1) by simp
  then show ?thesis
    using t(2,3) a(2) by (intro affects_quiet [OF scheduled_affects [OF t(1)]]) (simp add: quiet_iff)
qed

section \<open>Creation and destruction\<close>

lemma createprocess_affects:
  assumes K: "kinv s v" and p: "currentProcess s = Some p" and n: "next_pid s < 0x80000000"
  shows "\<exists>N. affects (effect k {} N s v) (sys_createprocess s)"
proof (cases "v_free v")
  case Nil
  have a: "allocPcb s = Some (None, s)"
    using krep_alloc_none [OF coreD(1)] kinv_current [OF K p] Nil by blast
  let ?s = "save_state p (bios_state (set_result (-1) s)) (set_result (-1) s)"
  have K1: "kinv ?s v" using kinv_save_state [OF kinv_bios [OF K]] by simp
  have "sys_createprocess s = Some (Ldst (p_s (pcbs ?s p)), ?s)"
    using p by (simp add: sys_createprocess_def a save_current_def load_current_def)
  then have "affects (quiet k s v) (sys_createprocess s)"
    using K1 p by (auto intro!: affectsI simp: quiet_iff)
  then show ?thesis by blast
next
  case (Cons c fs)
  obtain t w where t: "sys_createprocess s = scheduler t" "core {} {} t w" "counts_ok t w" "yieldedProcess t = None"
    "mem t = mem s" "devSems_addr t = devSems_addr s" and w: "v_free w = fs" "v_blocked w = v_blocked v"
    using createprocess_core [OF K p n Cons] by fastforce
  have "distinct (c # fs)" "set (c # fs) \<subseteq> {..<MAXPROC}"
    using krep_distinct(1) [OF kinv_krep [OF K]] kinv_current [OF K p] coreD(2) Cons
    by (fastforce simp: places_ok_def)+
  then have "live w = live v \<union> {c}" "{c} \<inter> live v = {}" using w Cons by (auto simp: live_def)
  then have "affects (effect k {} {c} s v) (scheduler t)"
    using w t(5,6) by (intro affects_mono [OF scheduler_affects [OF t(2-4), of k]]) (auto simp: effect_def without_def)
  then show ?thesis using t(1) by auto
qed

lemma killed_effect:
  assumes "killed D s v u w" and "user_word k s"
  shows "effect k D {} s v u w"
  using assms term_frame_sel(2) [of s u] by (auto simp: killed_def effect_def user_word_def)

lemma affects_killed:
  assumes "affects (effect k {} {} t w) r" and "killed D s v t w" and "user_word k s"
  shows "affects (effect k D {} s v) r"
  using killed_effect [OF assms(2,3)]
  by (intro affects_mono [OF assms(1)]) (auto simp: effect_def without_def)

lemma termprocess_affects:
  assumes K: "kinv s v" and p: "currentProcess s = Some p" and k: "user_word k s"
  shows "\<exists>D. affects (effect k D {} s v) (sys_termprocess s)"
proof -
  let ?s = "updateCPUTime s" and ?pid = "reg_a1 (bios_state s)"
  let ?target = "if ?pid = 0 then currentProcess ?s else findProcessByPid ?pid ?s"
  have K1: "kinv ?s v" by (rule kinv_updateCPUTime [OF K])
  have k1: "user_word k ?s" using k user_word_cong [of ?s s] by simp
  have q1: "affects (effect k D {} ?s v) r \<Longrightarrow> affects (effect k D {} s v) r" for D r
    by (erule affects_quiet) (simp add: quiet_iff)
  show ?thesis
  proof (cases ?target)
    case None
    then show ?thesis
      using q1 [OF ldst_affects [OF K1]] p by (auto simp: sys_termprocess_def Let_def split: if_splits)
  next
    case (Some q)
    have "table_ok {} ?s v" using K1 coreD(3) by (auto simp: kinv_def)
    then have "q \<in> live v"
      using Some p kinv_current [OF K p] findProcessByPid_live(1) by (auto split: if_splits)
    from terminate_kinv [OF K1 this] obtain s' v' where t: "terminateProcess (Some q) ?s = Some s'"
      and K2: "kinv s' v'" and kl: "killed (family v q) ?s v s' v'" by blast
    have cur: "currentProcess s' = (if p \<in> family v q then None else Some p)"
      using kl p by (simp add: killed_def)
    show ?thesis
    proof (cases "p \<in> family v q")
      case True
      have N: "s'\<lparr>currentProcess := None\<rparr> = s'" using cur True by simp
      have "sys_termprocess s = scheduler s'"
        using Some t cur True by (simp add: sys_termprocess_def Let_def N)
      moreover have "affects (effect k (family v q) {} s v) (scheduler s')"
        by (rule q1, rule affects_killed [OF idle_affects [OF K2] kl k1]) (use cur True in simp)
      ultimately show ?thesis by auto
    next
      case False
      then have "q \<noteq> p" by (auto simp: family_def)
      let ?u = "save_state p (bios_state s') s'"
      have "sys_termprocess s = Some (Ldst (p_s (pcbs ?u p)), ?u)"
        using Some t cur False p \<open>q \<noteq> p\<close> by (simp add: sys_termprocess_def Let_def save_current_def load_current_def)
      moreover have "affects (effect k {} {} s' v') (Some (Ldst (p_s (pcbs ?u p)), ?u))"
        using kinv_save_state [OF K2, of p] cur False by (auto intro!: affectsI simp: quiet_iff)
      then have "affects (effect k (family v q) {} s v) (Some (Ldst (p_s (pcbs ?u p)), ?u))"
        by (intro q1 affects_killed [OF _ kl k1])
      ultimately show ?thesis by auto
    qed
  qed
qed

lemma passUpOrDie_affects:
  assumes K: "kinv s v" and k: "user_word k s"
  shows "\<exists>D. affects (effect k D {} s v) (passUpOrDie e s)"
proof (cases "\<exists>p. currentProcess s = Some p \<and> p_supportStruct (pcbs s p) \<noteq> 0")
  case True
  then obtain sp st pc m where "passUpOrDie e s = Some (Ldcxt sp st pc, s\<lparr>support_mem := m\<rparr>)"
    by (auto simp: passUpOrDie_def Let_def)
  moreover have "kinv (s\<lparr>support_mem := m\<rparr>) v" by (rule kinv_cong [OF K]) auto
  ultimately have "affects (quiet k s v) (passUpOrDie e s)" using True by (auto intro!: affectsI simp: quiet_iff)
  then show ?thesis by blast
next
  case False
  let ?s = "updateCPUTime s"
  have K1: "kinv ?s v" by (rule kinv_updateCPUTime [OF K])
  have k1: "user_word k ?s" using k user_word_cong [of ?s s] by simp
  have q1: "affects (effect k D {} ?s v) r \<Longrightarrow> affects (effect k D {} s v) r" for D r
    by (erule affects_quiet) (simp add: quiet_iff)
  have e: "passUpOrDie e s = do { s \<leftarrow> terminateProcess (currentProcess ?s) ?s; scheduler (s\<lparr>currentProcess := None\<rparr>) }"
    using False by (auto simp: passUpOrDie_def Let_def split: option.splits)
  show ?thesis
  proof (cases "currentProcess s")
    case None
    then have N: "?s\<lparr>currentProcess := None\<rparr> = ?s" by simp
    have "passUpOrDie e s = scheduler ?s" using e None by (simp add: terminateProcess_def N)
    then show ?thesis using q1 [OF idle_affects [OF K1]] None by (auto intro!: exI [of _ "{}"])
  next
    case (Some p)
    then have "p \<in> live v" using kinv_current [OF K] by blast
    from terminate_kinv [OF K1 this] obtain s' v' where t: "terminateProcess (Some p) ?s = Some s'"
      and K2: "kinv s' v'" and kl: "killed (family v p) ?s v s' v'" by blast
    then have c: "currentProcess s' = None" using Some by (auto simp: killed_def family_below)
    then have N: "s'\<lparr>currentProcess := None\<rparr> = s'" by simp
    have "passUpOrDie e s = scheduler s'" using e Some t by (simp add: N)
    then show ?thesis using q1 [OF affects_killed [OF idle_affects [OF K2 c] kl k1]] by auto
  qed
qed

section \<open>Interrupts\<close>

lemma resume_affects: "kinv s v \<Longrightarrow> affects (effect k {} {} s v) (resume_or_schedule s)"
  using ldst_affects idle_affects by (simp add: resume_or_schedule_def)

lemma clock_interrupt_affects:
  assumes K: "kinv s v" and k: "user_word k s"
  shows "affects (quiet k s v) (clock_interrupt s)"
proof -
  let ?s = "LDIT PSECOND s" and ?d = "devSem PSEUDOCLK_SEM s"
  have K1: "kinv ?s v" by (rule kinv_cong [OF K]) (auto simp: LDIT_def)
  have dv: "devSem PSEUDOCLK_SEM ?s = ?d" and m: "mem ?s = mem s" by (simp_all add: devSem_def LDIT_def)
  obtain t ps where t: "wake_clock ?s = Some t" "mem t = mem s" "devSems_addr t = devSems_addr ?s"
    and K2: "kinv t (v\<lparr>v_blocked := (v_blocked v)(?d := []), v_ready := ps\<rparr>)" (is "kinv t ?w")
    using wake_clock_spec [OF K1 refl, unfolded dv m] by blast
  have d: "devSem PSEUDOCLK_SEM t = ?d" using t(3) by (simp add: devSem_def LDIT_def)
  have "k \<noteq> ?d" using user_word_dev [OF k kinv_sems [OF K], of PSEUDOCLK_SEM] by simp
  then have "quiet k s v (store ?d 0 t) ?w" using t(2,3) by (simp add: quiet_iff LDIT_def)
  moreover have "kinv (store ?d 0 t) ?w" using kinv_mem [OF K2] by simp
  ultimately have "affects (quiet k s v) (resume_or_schedule (store ?d 0 t))"
    by (intro affects_quiet [OF resume_affects])
  then show ?thesis using t(1) d by (simp add: clock_interrupt_def)
qed

lemma plt_interrupt_affects:
  assumes K: "kinv s v"
  shows "affects (effect k {} {} s v) (plt_interrupt s)"
proof (cases "currentProcess s")
  case None
  have "kinv (setTIMER NEVER s) v" by (rule kinv_cong [OF K]) (auto simp: setTIMER_def)
  then have "affects (effect k {} {} (setTIMER NEVER s) v) (scheduler (setTIMER NEVER s))"
    using None by (intro idle_affects) (simp_all add: setTIMER_def)
  then show ?thesis using None affects_quiet [of k "{}" "{}" "setTIMER NEVER s" v _ s v]
    by (simp add: plt_interrupt_def setTIMER_def quiet_iff)
next
  case (Some p)
  obtain t w where t: "scheduled t w (plt_interrupt s)" "mem t = mem s" "devSems_addr t = devSems_addr s"
    "v_blocked w = v_blocked v" "live w = live v"
    using time_slice_spec [OF K Some] by fastforce
  show ?thesis using t(2-) by (intro affects_quiet [OF scheduled_affects [OF t(1)]]) (simp add: quiet_iff)
qed

context ready_enqueue
begin

lemma wake_device_quiet:
  assumes K: "kinv s v" and k: "user_word k s" and i: "i < TOT_SEMS"
  shows "\<exists>t w. wake_device enqueue i st s = Some t \<and> kinv t w \<and> quiet k s v t w"
proof (cases "sint (mem s (devSem i s)) < 0")
  case False
  then show ?thesis using K by (auto simp: wake_device_def quiet_iff)
next
  case True
  have "k \<noteq> devSem i s" by (rule user_word_dev [OF k kinv_sems [OF K] i])
  moreover obtain t where t: "wake_device enqueue i st s = Some t"
    "mem t = (mem s)(devSem i s := mem s (devSem i s) + 1)" "devSems_addr t = devSems_addr s"
    and "\<exists>w. kinv t w \<and> live w = live v \<and> (\<forall>k'. k' \<noteq> devSem i s \<longrightarrow> v_blocked w k' = v_blocked v k')"
    using wake_device_spec [OF K i True, of st]
    by (cases "v_blocked v (devSem i s)") fastforce+
  ultimately show ?thesis by (auto simp: quiet_iff)
qed

end

lemma terminal_interrupt_quiet:
  assumes K: "kinv s v" and k: "user_word k s" and d: "dev < 8"
  shows "\<exists>t w. terminal_interrupt dev s = Some t \<and> kinv t w \<and> quiet k s v t w"
proof -
  let ?b = "DEV_REG_BASE 7 dev"
  note reg = user_word_reg [OF k, of 7 dev] d
  have k1: "k \<noteq> TERM_TRANSM_COMMAND ?b" "k \<noteq> TERM_RECV_COMMAND ?b"
    using reg by (simp_all add: TERM_TRANSM_COMMAND_def TERM_RECV_COMMAND_def)
  have i: "TERM_TX_SEM dev < TOT_SEMS" "TERM_RX_SEM dev < TOT_SEMS"
    using d by (simp_all add: TERM_TX_SEM_def TERM_RX_SEM_def)
  let ?s1 = "store (TERM_TRANSM_COMMAND ?b) ACK s"
  let ?tx = "if mem s (TERM_TRANSM_STATUS ?b) AND 0xFF = OKCHARTRANS
    then wake_device enqueue_tail (TERM_TX_SEM dev) (mem s (TERM_TRANSM_STATUS ?b)) ?s1 else Some s"
  have s1: "kinv ?s1 v" "user_word k ?s1" "quiet k s v ?s1 v"
    using kinv_mem [OF K] k k1 by (simp_all add: quiet_iff user_word_def dev_range_def devSem_def)
  obtain t1 w1 where tx: "?tx = Some t1" and K1: "kinv t1 w1" and q1: "quiet k s v t1 w1"
  proof (cases "mem s (TERM_TRANSM_STATUS ?b) AND 0xFF = OKCHARTRANS")
    case True
    obtain t w where "wake_device enqueue_tail (TERM_TX_SEM dev) (mem s (TERM_TRANSM_STATUS ?b)) ?s1 = Some t"
      "kinv t w" "quiet k ?s1 v t w"
      using at_tail.wake_device_quiet [OF s1(1,2) i(1)] by blast
    then show ?thesis using that True quiet_trans [OF s1(3)] by simp
  next
    case False
    then show ?thesis using that K by (simp add: quiet_iff)
  qed
  let ?t2 = "store (TERM_RECV_COMMAND ?b) ACK t1"
  let ?rx = "if mem s (TERM_RECV_STATUS ?b) AND 0xFF = CHARRECV
    then wake_device (insertProcQ readyQueue) (TERM_RX_SEM dev) (mem t1 (TERM_RECV_STATUS ?b)) ?t2 else Some t1"
  have t2: "kinv ?t2 w1" "user_word k ?t2" "quiet k s v ?t2 w1"
    using kinv_mem [OF K1] k k1 q1 by (simp_all add: quiet_iff user_word_def dev_range_def devSem_def)
  have "terminal_interrupt dev s = ?rx"
    unfolding terminal_interrupt_def Let_def tx Option.bind_lunit ..
  moreover have "\<exists>t w. ?rx = Some t \<and> kinv t w \<and> quiet k s v t w"
  proof (cases "mem s (TERM_RECV_STATUS ?b) AND 0xFF = CHARRECV")
    case True
    obtain t w where "wake_device (insertProcQ readyQueue) (TERM_RX_SEM dev) (mem t1 (TERM_RECV_STATUS ?b)) ?t2 = Some t"
      "kinv t w" "quiet k ?t2 w1 t w"
      using by_prio.wake_device_quiet [OF t2(1,2) i(2)] by blast
    then show ?thesis using True quiet_trans [OF t2(3)] by auto
  qed (use K1 q1 in auto)
  ultimately show ?thesis by (simp only:)
qed

lemma device_interrupt_affects:
  assumes K: "kinv s v" and k: "user_word k s" and l: "3 \<le> line" "line \<le> 7"
  shows "affects (quiet k s v) (device_interrupt line s)"
proof (cases "getHighestPriorityDevice (INT_BITMAP line s)")
  case None
  then show ?thesis using resume_affects [OF K] by (simp add: device_interrupt_def)
next
  case (Some dev)
  note d = highest_priority_lt [OF Some]
  have "\<exists>t w. (if line = 7 then terminal_interrupt dev s else other_device_interrupt line dev s) = Some t \<and>
      kinv t w \<and> quiet k s v t w"
  proof (cases "line = 7")
    case True
    then show ?thesis using terminal_interrupt_quiet [OF K k d] by simp
  next
    case False
    let ?c = "DEV_COMMAND (DEV_REG_BASE line dev)"
    have "k \<noteq> ?c" using user_word_reg [OF k l(2) d, of 1] by (simp add: DEV_COMMAND_def)
    then have s1: "kinv (store ?c ACK s) v" "user_word k (store ?c ACK s)" "quiet k s v (store ?c ACK s) v"
      using kinv_mem [OF K] k by (simp_all add: quiet_iff user_word_def dev_range_def devSem_def)
    have "DEV_SEM_BASE line dev < TOT_SEMS" using False l d by (simp add: DEV_SEM_BASE_def)
    from by_prio.wake_device_quiet [OF s1(1,2) this] quiet_trans [OF s1(3)] show ?thesis
      using False by (simp add: other_device_interrupt_def Let_def) blast
  qed
  then show ?thesis
    using Some affects_quiet [OF resume_affects] by (auto simp: device_interrupt_def)
qed

lemma interruptHandler_affects:
  assumes K: "kinv s v" and k: "user_word k s"
  shows "affects (quiet k s v) (interruptHandler s)"
proof -
  let ?s = "charge_interrupt s" and ?e = "cause (bios_state s) AND CAUSE_EXCCODE_MASK"
  have K1: "kinv ?s v" by (rule kinv_charge_interrupt [OF K])
  have k1: "user_word k ?s" using k user_word_cong [of ?s s] by simp
  have q: "affects (quiet k ?s v) r \<Longrightarrow> affects (quiet k s v) r" for r
    by (erule affects_quiet) (simp add: quiet_iff)
  show ?thesis
    using q [OF plt_interrupt_affects [OF K1]] q [OF clock_interrupt_affects [OF K1 k1]]
      q [OF resume_affects [OF K1]] q [OF device_interrupt_affects [OF K1 k1]] device_line [of ?e]
    by (simp add: interruptHandler_def Let_def)
qed

section \<open>The whole handler\<close>

text \<open>The exception is the system call \<open>code\<close> on the semaphore \<open>a\<close>, made in machine mode.\<close>

definition calls :: "int \<Rightarrow> u32 \<Rightarrow> nucleus \<Rightarrow> bool" where
  "calls code a s \<longleftrightarrow>
     (let b = bios_state s in
      cause b AND 0x80000000 = 0 \<and> cause b AND CAUSE_EXCCODE_MASK \<in> {8, 11} \<and>
      status b AND MSTATUS_MPP_MASK \<noteq> 0 \<and> sint (reg_a0 b) = code \<and> reg_a1 b = a)"

lemma calls_fun: "calls c a s \<Longrightarrow> calls c' a' s \<Longrightarrow> c = c' \<and> a = a'"
  by (auto simp: calls_def Let_def)

text \<open>Between the entry of the exception handler and the system call.\<close>

definition entered :: "nucleus \<Rightarrow> nucleus" where
  "entered s = (updateCPUTime s)\<lparr>bios_state := (bios_state s)\<lparr>pc_epc := pc_epc (bios_state s) + WORDLEN\<rparr>\<rparr>"

lemma entered_sel [simp]:
  "mem (entered s) = mem s" "devSems_addr (entered s) = devSems_addr s" "next_pid (entered s) = next_pid s"
  "currentProcess (entered s) = currentProcess s"
  "status (bios_state (entered s)) = status (bios_state s)" "cause (bios_state (entered s)) = cause (bios_state s)"
  "reg_a0 (bios_state (entered s)) = reg_a0 (bios_state s)" "reg_a1 (bios_state (entered s)) = reg_a1 (bios_state s)"
  "reg_a2 (bios_state (entered s)) = reg_a2 (bios_state s)" "reg_a3 (bios_state (entered s)) = reg_a3 (bios_state s)"
  by (simp_all add: entered_def)

lemma kinv_entered: "kinv s v \<Longrightarrow> kinv (entered s) v"
  unfolding entered_def by (intro kinv_bios kinv_updateCPUTime)

lemma exceptionHandler_syscall:
  assumes "cause (bios_state s) AND 0x80000000 = 0" and "cause (bios_state s) AND CAUSE_EXCCODE_MASK \<in> {8, 11}"
  shows "exceptionHandler s = syscallHandler (entered s)"
  using assms by (auto simp: exceptionHandler_def entered_def Let_def)

lemma exceptionHandler_calls:
  assumes "calls c a s"
  shows "c = PASSEREN \<Longrightarrow> exceptionHandler s = sys_passeren (entered s)"
    and "c = VERHOGEN \<Longrightarrow> exceptionHandler s = sys_verhogen (entered s)"
  using assms exceptionHandler_syscall [of s] by (auto simp: calls_def syscallHandler_def Let_def)

lemma passeren_on_semaphore:
  assumes K: "kinv s v" and p: "currentProcess s = Some p" and k: "user_word k s" and c: "calls PASSEREN k s"
  shows "\<exists>out u w. exceptionHandler s = Some (out, u) \<and> kinv u w \<and> live w = live v \<and> devSems_addr u = devSems_addr s \<and>
    mem u k = mem s k - 1 \<and>
    v_blocked w k = (if sint (mem s k - 1) < 0 then v_blocked v k @ [p] else v_blocked v k)"
proof -
  have "reg_a1 (bios_state (entered s)) = k" "k \<noteq> 0" "k \<notin> dev_range (entered s)"
    using c k by (auto simp: calls_def user_word_def dev_range_def devSem_def Let_def)
  moreover have "currentProcess (entered s) = Some p" using p by simp
  ultimately obtain out u where "sys_passeren (entered s) = Some (out, u)" "mem u = (mem s)(k := mem s k - 1)"
    "devSems_addr u = devSems_addr s"
    and "if sint (mem s k - 1) < 0
      then kinv u (v\<lparr>v_blocked := (v_blocked v)(k := v_blocked v k @ [p]), v_ready := tl (v_ready v)\<rparr>)
      else kinv u v"
    using passeren_spec [OF kinv_entered [OF K], of p k] by (auto split: if_splits)
  then show ?thesis
    using exceptionHandler_calls(1) [OF c] by (auto split: if_splits)
qed

lemma verhogen_on_semaphore:
  assumes K: "kinv s v" and p: "currentProcess s = Some p" and k: "user_word k s" and c: "calls VERHOGEN k s"
  shows "\<exists>out u w. exceptionHandler s = Some (out, u) \<and> kinv u w \<and> live w = live v \<and> devSems_addr u = devSems_addr s \<and>
    mem u k = mem s k + 1 \<and>
    v_blocked w k = (if sint (mem s k + 1) \<le> 0 then tl (v_blocked v k) else v_blocked v k)"
proof -
  have a: "reg_a1 (bios_state (entered s)) = k" "k \<notin> dev_range (entered s)"
    using c k by (auto simp: calls_def user_word_def dev_range_def devSem_def Let_def)
  have p1: "currentProcess (entered s) = Some p" using p by simp
  obtain u where e: "sys_verhogen (entered s) = Some (Ldst (copyState (p_s (pcbs (entered s) p)) (bios_state (entered s))), u)"
    "mem u = (mem s)(k := mem s k + 1)" "devSems_addr u = devSems_addr s"
    and "case v_blocked v k of
       x # xs \<Rightarrow> if sint (mem s k + 1) \<le> 0
         then kinv u (v\<lparr>v_blocked := (v_blocked v)(k := xs), v_ready := ins_prio (prio_of (entered s)) x (v_ready v)\<rparr>) \<and>
           p_semAdd (pcbs u x) = 0
         else kinv u v
     | [] \<Rightarrow> kinv u v"
    using verhogen_spec [OF kinv_entered [OF K] p1 a] unfolding entered_sel by blast
  then have "\<exists>w. kinv u w \<and> live w = live v \<and>
      v_blocked w k = (if sint (mem s k + 1) \<le> 0 then tl (v_blocked v k) else v_blocked v k)"
    by (cases "v_blocked v k") (auto split: if_splits)
  with e show ?thesis using exceptionHandler_calls(2) [OF c] by auto
qed

text \<open>Any other activation.\<close>

lemma syscall_affects:
  assumes K: "kinv s v" and p: "currentProcess s = Some p" and k: "user_word k s" and ok: "call_ok s"
    and c: "cause (bios_state s) AND 0x80000000 = 0" "cause (bios_state s) AND CAUSE_EXCCODE_MASK \<in> {8, 11}"
    and n: "\<not> calls PASSEREN k s" "\<not> calls VERHOGEN k s" "\<not> calls DOIO k s"
  shows "\<exists>D N. affects (effect k D N s v) (syscallHandler s)"
proof -
  let ?code = "sint (reg_a0 (bios_state s))" and ?a = "reg_a1 (bios_state s)"
  let ?user = "status (bios_state s) AND MSTATUS_MPP_MASK = 0"
  have up: "\<exists>D N. affects (effect k D N s v) (passUpOrDie e s)" for e
    using passUpOrDie_affects [OF K k] by blast
  have trap: "\<exists>D N. affects (effect k D N s v) (programTrapHandler (s\<lparr>bios_state := b\<rparr>))" for b
  proof -
    have "user_word k (s\<lparr>bios_state := b\<rparr>)" using k user_word_cong [of "s\<lparr>bios_state := b\<rparr>" s] by simp
    from passUpOrDie_affects [OF kinv_bios [OF K] this] obtain D
      where "affects (effect k D {} (s\<lparr>bios_state := b\<rparr>) v) (programTrapHandler (s\<lparr>bios_state := b\<rparr>))"
      unfolding programTrapHandler_def by blast
    then have "affects (effect k D {} s v) (programTrapHandler (s\<lparr>bios_state := b\<rparr>))"
      by (rule affects_quiet) (simp add: quiet_iff)
    then show ?thesis by blast
  qed
  have other: "?a \<noteq> k" if "?code \<in> {PASSEREN, VERHOGEN, DOIO}" "\<not> ?user"
    using n c that by (auto simp: calls_def)
  have P: "\<exists>D N. affects (effect k D N s v) (sys_passeren s)" if o: "?a \<noteq> k" and code: "?code = PASSEREN" "\<not> ?user"
  proof -
    have a: "?a \<noteq> 0" "?a \<notin> dev_range s" using ok code by (simp_all add: call_ok_def Let_def)
    obtain out u where e: "sys_passeren s = Some (out, u)" "mem u = (mem s)(?a := mem s ?a - 1)"
      "devSems_addr u = devSems_addr s"
      and "if sint (mem s ?a - 1) < 0
        then kinv u (v\<lparr>v_blocked := (v_blocked v)(?a := v_blocked v ?a @ [p]), v_ready := tl (v_ready v)\<rparr>) \<and>
          outcome_ok out u (v\<lparr>v_blocked := (v_blocked v)(?a := v_blocked v ?a @ [p]), v_ready := tl (v_ready v)\<rparr>)
        else kinv u v \<and> outcome_ok out u v"
      using passeren_spec [OF K p refl a] by (auto split: if_splits)
    then have "\<exists>w. kinv u w \<and> outcome_ok out u w \<and> live w = live v \<and> v_blocked w k = v_blocked v k"
      using o by (auto split: if_splits)
    then have "affects (quiet k s v) (sys_passeren s)" using e o by (auto intro!: affectsI simp: quiet_iff)
    then show ?thesis by blast
  qed
  have V: "\<exists>D N. affects (effect k D N s v) (sys_verhogen s)" if o: "?a \<noteq> k" and code: "?code = VERHOGEN" "\<not> ?user"
  proof -
    have a: "?a \<notin> dev_range s" using ok code by (simp add: call_ok_def Let_def)
    obtain u where e: "sys_verhogen s = Some (Ldst (copyState (p_s (pcbs s p)) (bios_state s)), u)"
      "mem u = (mem s)(?a := mem s ?a + 1)" "devSems_addr u = devSems_addr s" "currentProcess u = Some p"
      and "case v_blocked v ?a of
         x # xs \<Rightarrow> if sint (mem s ?a + 1) \<le> 0
           then kinv u (v\<lparr>v_blocked := (v_blocked v)(?a := xs), v_ready := ins_prio (prio_of s) x (v_ready v)\<rparr>) \<and>
             p_semAdd (pcbs u x) = 0
           else kinv u v
       | [] \<Rightarrow> kinv u v"
      using verhogen_spec [OF K p refl a] by blast
    then have "\<exists>w. kinv u w \<and> live w = live v \<and> v_blocked w k = v_blocked v k"
      using o by (cases "v_blocked v ?a") (auto split: if_splits)
    then have "affects (quiet k s v) (sys_verhogen s)" using e o by (auto intro!: affectsI simp: quiet_iff)
    then show ?thesis by blast
  qed
  have D: "\<exists>D N. affects (effect k D N s v) (sys_doio s)" if "?a \<noteq> k" "?code = DOIO" "\<not> ?user"
    using doio_affects [OF K p k] ok that by (auto simp: call_ok_def Let_def)
  have C: "\<exists>D N. affects (effect k D N s v) (sys_createprocess s)" if "?code = CREATEPROCESS" "\<not> ?user"
    using createprocess_affects [OF K p, of k] ok that unfolding call_ok_def Let_def by blast
  have T: "\<exists>D N. affects (effect k D N s v) (sys_termprocess s)" using termprocess_affects [OF K p k] by blast
  note S = simple_affects [OF K p, of k] yield_affects [OF K p, of k] clockwait_affects [OF K p k]
  show ?thesis
  proof (cases "?user \<and> ?code < 0 \<or> ?code \<ge> 1")
    case True
    then show ?thesis using up trap by (auto simp: syscallHandler_def Let_def)
  next
    case False
    then have "?code \<in> {PASSEREN, VERHOGEN, DOIO} \<Longrightarrow> ?a \<noteq> k" using other by auto
    then show ?thesis
      using False up P V D C T S by (auto simp: syscallHandler_def Let_def split del: if_split split: if_split)
  qed
qed

lemma exceptionHandler_affects:
  assumes K: "kinv s v" and ok: "exception_ok s" and k: "user_word k s"
    and n: "\<not> calls PASSEREN k s" "\<not> calls VERHOGEN k s" "\<not> calls DOIO k s"
  shows "\<exists>D N. affects (effect k D N s v) (exceptionHandler s)"
proof -
  let ?s = "updateCPUTime s"
  have K1: "kinv ?s v" by (rule kinv_updateCPUTime [OF K])
  have k1: "user_word k ?s" "user_word k (entered s)"
    using k user_word_cong [of ?s s] user_word_cong [of "entered s" s] by simp_all
  have q: "affects (effect k D N s v) r" if "affects (effect k D N t v) r" "mem t = mem s" "devSems_addr t = devSems_addr s" for D N t r
    by (rule affects_quiet [OF that(1)]) (use that(2,3) in \<open>simp add: quiet_iff\<close>)
  show ?thesis
  proof (cases "cause (bios_state s) AND 0x80000000 = 0 \<and> cause (bios_state s) AND CAUSE_EXCCODE_MASK \<in> {8, 11}")
    case True
    then have o: "call_ok (entered s)" and "currentProcess s \<noteq> None"
      using ok by (auto simp: exception_ok_def call_ok_def dev_range_def devSem_def Let_def)
    then obtain p where p: "currentProcess (entered s) = Some p" by auto
    have "calls c k (entered s) = calls c k s" for c by (simp add: calls_def Let_def)
    then have "\<not> calls PASSEREN k (entered s)" "\<not> calls VERHOGEN k (entered s)" "\<not> calls DOIO k (entered s)"
      using n by simp_all
    from syscall_affects [OF kinv_entered [OF K] p k1(2) o _ _ this] True
    obtain D N where "affects (effect k D N (entered s) v) (syscallHandler (entered s))" by auto
    then have "affects (effect k D N s v) (syscallHandler (entered s))" by (rule q) simp_all
    moreover have "exceptionHandler s = syscallHandler (entered s)" using True by (intro exceptionHandler_syscall) auto
    ultimately show ?thesis by auto
  next
    case False
    then have "exceptionHandler s = interruptHandler ?s \<or> (\<exists>e. exceptionHandler s = passUpOrDie e ?s)"
      by (auto simp: exceptionHandler_def Let_def tlbExceptionHandler_def programTrapHandler_def)
    then obtain D where "affects (effect k D {} ?s v) (exceptionHandler s)"
      using interruptHandler_affects [OF K1 k1(1)] passUpOrDie_affects [OF K1 k1(1)] by fastforce
    then have "affects (effect k D {} s v) (exceptionHandler s)" by (rule q) simp_all
    then show ?thesis by blast
  qed
qed

end
