(* ===== verification/Kernel_Mutex.thy ===== *)
theory Kernel_Mutex
  imports Kernel_Effects
begin

text \<open>
  Semaphores of the Nucleus as mutexes. \<open>mutex_run code k out s I lost\<close>: the machine runs under the
  Nucleus, and from the moment the semaphore at \<open>k\<close> is 1 and nobody waits for it, the processes use
  it as a mutex: \<open>P\<close> to enter, \<open>V\<close> to leave, and nothing else touches it. The rest of what they do
  is not restricted. \<open>I\<close> is the set of the processes that have called \<open>P\<close> and not yet \<open>V\<close>: they
  wait or are inside. \<open>lost\<close> says that a process has been destroyed inside.
\<close>

section \<open>The discipline\<close>

definition active :: "nucleus \<Rightarrow> nat \<Rightarrow> bool" where
  "active s p \<longleftrightarrow> (\<exists>i<MAXPROC. activeProcs s i = Some p)"

definition disciplined :: "u32 \<Rightarrow> nat set \<Rightarrow> nucleus \<Rightarrow> bool" where
  "disciplined k I s \<longleftrightarrow> \<not> calls DOIO k s \<and>
     (\<forall>p. currentProcess s = Some p \<longrightarrow>
       (calls PASSEREN k s \<longrightarrow> p \<notin> I) \<and> (calls VERHOGEN k s \<longrightarrow> p \<in> I))"

text \<open>The processes between \<open>P\<close> and \<open>V\<close> after the exception of state \<open>s\<close> has led to \<open>u\<close>.\<close>

definition between :: "u32 \<Rightarrow> nat set \<Rightarrow> nucleus \<Rightarrow> nucleus \<Rightarrow> nat set" where
  "between k I s u =
     {p. active u p \<and>
        (if calls PASSEREN k s \<and> currentProcess s = Some p then True
         else if calls VERHOGEN k s \<and> currentProcess s = Some p then False
         else p \<in> I)}"

definition waits :: "u32 \<Rightarrow> nucleus \<Rightarrow> nat \<Rightarrow> bool" where
  "waits k s p \<longleftrightarrow> active s p \<and> p_semAdd (pcbs s p) = k"

definition inside :: "u32 \<Rightarrow> nat set \<Rightarrow> nucleus \<Rightarrow> nat set" where
  "inside k I s = {p \<in> I. \<not> waits k s p}"

inductive mutex_run :: "code_addrs \<Rightarrow> u32 \<Rightarrow> outcome \<Rightarrow> nucleus \<Rightarrow> nat set \<Rightarrow> bool \<Rightarrow> bool" for code k where
  start: "reachable code out s \<Longrightarrow> user_word k s \<Longrightarrow> mem s k = 1 \<Longrightarrow> \<forall>p. \<not> waits k s p \<Longrightarrow>
    mutex_run code k out s {} False"
| exception: "mutex_run code k out s I lost \<Longrightarrow> out \<notin> {Halt, Panic} \<Longrightarrow> machine_step out s t \<Longrightarrow>
    mem t k = mem s k \<Longrightarrow> callers_ok t \<Longrightarrow> disciplined k I t \<Longrightarrow> exceptionHandler t = Some (out', u) \<Longrightarrow>
    mutex_run code k out' u (between k I t u) (lost \<or> (\<exists>p\<in>inside k I t. \<not> active u p))"
| refill: "mutex_run code k out s I lost \<Longrightarrow> out \<notin> {Halt, Panic, Wait} \<Longrightarrow> machine_step out s t \<Longrightarrow>
    mem t k = mem s k \<Longrightarrow> uTLB_RefillHandler slot t = Some (out', u) \<Longrightarrow>
    mutex_run code k out' u I lost"

lemma mutex_run_reachable: "mutex_run code k out s I lost \<Longrightarrow> reachable code out s"
  by (induction rule: mutex_run.induct) (auto intro: reachable.intros)

section \<open>The views\<close>

lemma active_live: "kinv s v \<Longrightarrow> active s p \<longleftrightarrow> p \<in> live v"
  using coreD(3) [of "{}" "set_option (currentProcess s)" s v]
  by (auto simp: kinv_def active_def table_ok_def)

lemma waits_blocked:
  assumes K: "kinv s v" and k: "k \<noteq> 0"
  shows "waits k s p \<longleftrightarrow> p \<in> set (v_blocked v k)"
proof
  assume b: "p \<in> set (v_blocked v k)"
  have C: "core {} (set_option (currentProcess s)) s v" using K by (simp add: kinv_def)
  have "p \<in> live v" using live_iff [OF coreD(2,1) [OF C], of p] b by blast
  then show "waits k s p"
    using b krep_semAdd [OF kinv_krep [OF K]] active_live [OF K] by (simp add: waits_def)
next
  assume w: "waits k s p"
  then have l: "p \<in> live v" "p_semAdd (pcbs s p) = k" using active_live [OF K] by (auto simp: waits_def)
  then obtain j where j: "p \<in> set (v_blocked v j)"
    using kinv_sems [OF K] k by (auto simp: sems_ok_def)
  then show "p \<in> set (v_blocked v k)" using krep_semAdd [OF kinv_krep [OF K]] l by fastforce
qed

lemma blocked_distinct: "kinv s v \<Longrightarrow> distinct (v_blocked v k)"
  by (rule krep_distinct(3) [OF kinv_krep])

lemma blocked_live: "kinv s v \<Longrightarrow> k \<noteq> 0 \<Longrightarrow> set (v_blocked v k) \<subseteq> live v"
  using waits_blocked active_live by (auto simp: waits_def)

lemma blocked_le:
  assumes "kinv s v" and "k \<noteq> 0"
  shows "length (v_blocked v k) \<le> MAXPROC"
proof -
  have "length (v_blocked v k) = card (set (v_blocked v k))"
    by (rule distinct_card [OF blocked_distinct [OF assms(1)], symmetric])
  also have "\<dots> \<le> card (live v)" by (rule card_mono [OF finite_live blocked_live [OF assms]])
  also have "\<dots> \<le> MAXPROC" by (rule card_live_le)
  finally show ?thesis .
qed

section \<open>The invariant\<close>

text \<open>
  \<open>H\<close> processes are inside and \<open>B\<close> wait; with the one that may have been destroyed inside they
  account for the value of the semaphore, and there is one of them when somebody waits.
\<close>

definition balance :: "u32 \<Rightarrow> nat \<Rightarrow> nat \<Rightarrow> bool \<Rightarrow> bool" where
  "balance m H B lost \<longleftrightarrow> sint m = 1 - int B - int H - of_bool lost \<and> H + of_bool lost \<le> 1 \<and>
     (B \<noteq> 0 \<longrightarrow> H + of_bool lost = 1)"

definition mutex_inv :: "u32 \<Rightarrow> nucleus \<Rightarrow> view \<Rightarrow> nat set \<Rightarrow> bool \<Rightarrow> bool" where
  "mutex_inv k s v I lost \<longleftrightarrow> user_word k s \<and> kinv s v \<and> I \<subseteq> live v \<and> set (v_blocked v k) \<subseteq> I \<and>
     balance (mem s k) (card (I - set (v_blocked v k))) (length (v_blocked v k)) lost"

lemma user_word_not_0: "user_word k s \<Longrightarrow> k \<noteq> 0"
  by (auto simp: user_word_def)

lemma inside_eq: "user_word k s \<Longrightarrow> kinv s v \<Longrightarrow> inside k I s = I - set (v_blocked v k)"
  using waits_blocked user_word_not_0 by (auto simp: inside_def)

lemma sint_shift:
  fixes m :: u32
  assumes "- 100 \<le> sint m + i" and "sint m + i \<le> 100"
  shows "sint (m + of_int i) = sint m + i"
proof -
  have "m + of_int i = of_int (sint m + i)" by simp
  then show ?thesis
    using assms by (simp only: signed_of_int) (simp add: signed_take_bit_int_eq_self)
qed

lemma balance_P:
  assumes b: "balance m H B lost" and B: "B \<le> 20"
  shows "if sint (m - 1) < 0 then balance (m - 1) H (Suc B) lost else balance (m - 1) (Suc H) B lost"
proof -
  have m: "sint m = 1 - int B - int H - of_bool lost" "H \<le> 1" "H + of_bool lost \<le> 1"
    "B \<noteq> 0 \<longrightarrow> H + of_bool lost = 1"
    using b by (auto simp: balance_def)
  have "sint (m + of_int (-1)) = sint m + -1" using m B by (intro sint_shift) (auto split: if_splits)
  then show ?thesis using m by (auto simp: balance_def)
qed

lemma balance_V:
  assumes b: "balance m (Suc H) B lost" and B: "B \<le> 20"
  shows "H = 0 \<and> \<not> lost \<and>
    (if sint (m + 1) \<le> 0 then B \<noteq> 0 \<and> balance (m + 1) 1 (B - 1) lost else B = 0 \<and> balance (m + 1) 0 0 lost)"
proof -
  have m: "sint m = - int B" "H = 0" "\<not> lost"
    using b by (auto simp: balance_def)
  have "sint (m + of_int 1) = sint m + 1" using m B by (intro sint_shift) auto
  then show ?thesis using m by (auto simp: balance_def)
qed

lemma balance_destroy:
  assumes b: "balance m H B lost" and "B \<le> 20" and "B' + n = B" and "H' \<le> H" and "lost' \<longleftrightarrow> lost \<or> H' < H"
  shows "balance (m + of_nat n) H' B' lost'"
proof -
  have "sint m = 1 - int B - int H - of_bool lost" "H + of_bool lost \<le> 1" "B \<noteq> 0 \<longrightarrow> H + of_bool lost = 1"
    using b by (auto simp: balance_def)
  moreover from this have "sint (m + of_int (int n)) = sint m + int n"
    using assms(2,3) by (intro sint_shift) (auto split: if_splits)
  ultimately show ?thesis using assms(3-5) by (auto simp: balance_def)
qed

section \<open>Every activation keeps the invariant\<close>

lemma mutex_inv_P:
  assumes M: "mutex_inv k s v I lost" and p: "currentProcess s = Some p" and c: "calls PASSEREN k s" and pI: "p \<notin> I"
    and e: "exceptionHandler s = Some (out, u)"
  shows "\<exists>w. mutex_inv k u w (insert p I) lost \<and> live w = live v"
proof -
  have k: "user_word k s" and K: "kinv s v" and I: "I \<subseteq> live v" and W: "set (v_blocked v k) \<subseteq> I"
    and b: "balance (mem s k) (card (I - set (v_blocked v k))) (length (v_blocked v k)) lost"
    using M by (auto simp: mutex_inv_def)
  have pl: "p \<in> live v" using kinv_current [OF K p] by blast
  have fin: "finite I" using I finite_live finite_subset by blast
  have pW: "p \<notin> set (v_blocked v k)" using W pI by auto
  obtain w where w: "kinv u w" "live w = live v" "mem u k = mem s k - 1"
    "v_blocked w k = (if sint (mem s k - 1) < 0 then v_blocked v k @ [p] else v_blocked v k)"
    and d: "devSems_addr u = devSems_addr s"
    using passeren_on_semaphore [OF K p k c] e by auto
  have "insert p I - insert p (set (v_blocked v k)) = I - set (v_blocked v k)" using pI by auto
  moreover have "card (insert p I - set (v_blocked v k)) = Suc (card (I - set (v_blocked v k)))"
    using pI pW fin by (simp add: insert_Diff_if)
  ultimately have "balance (mem u k) (card (insert p I - set (v_blocked w k))) (length (v_blocked w k)) lost"
    using balance_P [OF b blocked_le [OF K user_word_not_0 [OF k]]] w(3,4) by (auto split: if_splits)
  then have "mutex_inv k u w (insert p I) lost"
    using w I W pl user_word_cong [OF d, of k] k by (auto simp: mutex_inv_def split: if_splits)
  then show ?thesis using w(2) by blast
qed

lemma mutex_inv_V:
  assumes M: "mutex_inv k s v I lost" and p: "currentProcess s = Some p" and c: "calls VERHOGEN k s" and pI: "p \<in> I"
    and e: "exceptionHandler s = Some (out, u)"
  shows "\<exists>w. mutex_inv k u w (I - {p}) lost \<and> live w = live v"
proof -
  have k: "user_word k s" and K: "kinv s v" and I: "I \<subseteq> live v" and W: "set (v_blocked v k) \<subseteq> I"
    and b: "balance (mem s k) (card (I - set (v_blocked v k))) (length (v_blocked v k)) lost"
    using M by (auto simp: mutex_inv_def)
  let ?W = "v_blocked v k"
  have fin: "finite I" using I finite_live finite_subset by blast
  have pW: "p \<notin> set ?W" using current_unqueued [OF K p] by (auto simp: unqueued_def)
  obtain w where w: "kinv u w" "live w = live v" "mem u k = mem s k + 1"
    "v_blocked w k = (if sint (mem s k + 1) \<le> 0 then tl ?W else ?W)"
    and d: "devSems_addr u = devSems_addr s"
    using verhogen_on_semaphore [OF K p k c] e by auto
  have "card (I - set ?W) = Suc (card (I - set ?W - {p}))"
    using pI pW fin by (intro card.remove) auto
  with b have b': "balance (mem s k) (Suc (card (I - set ?W - {p}))) (length ?W) lost" by simp
  note V = balance_V [OF b' blocked_le [OF K user_word_not_0 [OF k]]]
  have o: "I - set ?W - {p} = {}" using V fin by simp
  have "balance (mem u k) (card (I - {p} - set (v_blocked w k))) (length (v_blocked w k)) lost"
  proof (cases "sint (mem s k + 1) \<le> 0")
    case True
    with V have "?W \<noteq> []" and b1: "balance (mem s k + 1) 1 (length ?W - 1) lost" by auto
    then obtain x xs where x: "?W = x # xs" by (cases ?W) auto
    have "x \<notin> set xs" using blocked_distinct [OF K, of k] x by simp
    then have "I - {p} - set xs = {x}" using o x W pW by auto
    then show ?thesis using b1 w True x by simp
  next
    case False
    with V have n: "v_blocked v k = []" and b0: "balance (mem s k + 1) 0 0 lost" by auto
    have i: "I - {p} = {}" using o n by simp
    have "v_blocked w k = []" using w(4) n by simp
    then show ?thesis using b0 w(3) by (simp add: i)
  qed
  moreover have "set (v_blocked w k) \<subseteq> I - {p}"
    using w(4) W pW by (cases ?W) (auto split: if_splits)
  ultimately have "mutex_inv k u w (I - {p}) lost"
    using w I user_word_cong [OF d, of k] k by (auto simp: mutex_inv_def)
  then show ?thesis using w(2) by blast
qed

lemma mutex_inv_effect:
  assumes M: "mutex_inv k s v I lost" and E: "effect k D N s v u w" and K': "kinv u w"
  shows "mutex_inv k u w (I \<inter> live w) (lost \<or> (\<exists>p \<in> I - set (v_blocked v k). p \<notin> live w))"
proof -
  have k: "user_word k s" and K: "kinv s v" and I: "I \<subseteq> live v" and W: "set (v_blocked v k) \<subseteq> I"
    and b: "balance (mem s k) (card (I - set (v_blocked v k))) (length (v_blocked v k)) lost"
    using M by (auto simp: mutex_inv_def)
  have w: "live w = live v - D \<union> N" "N \<inter> live v = {}" "v_blocked w k = without D (v_blocked v k)"
    "mem u k = mem s k + of_nat (length (filter (\<lambda>p. p \<in> D) (v_blocked v k)))"
    and d: "devSems_addr u = devSems_addr s"
    using E by (auto simp: effect_def)
  let ?H = "I - set (v_blocked v k)" and ?H' = "I \<inter> live w - set (v_blocked w k)"
  have fin: "finite ?H" using I finite_live finite_subset by blast
  have IN: "I \<inter> live w = I - D" using w(1,2) I by auto
  have H': "?H' = ?H - D" unfolding IN using w(3) W by auto
  have "length (v_blocked w k) + length (filter (\<lambda>p. p \<in> D) (v_blocked v k)) = length (v_blocked v k)"
    using sum_length_filter_compl [of "\<lambda>p. p \<in> D" "v_blocked v k"] w(3) by (simp add: without_def)
  moreover have "card ?H' \<le> card ?H" unfolding H' by (rule card_mono [OF fin]) auto
  moreover have "card ?H' < card ?H \<longleftrightarrow> (\<exists>p\<in>?H. p \<notin> live w)"
  proof
    assume "card ?H' < card ?H"
    then have "?H - D \<noteq> ?H" unfolding H' by auto
    then show "\<exists>p\<in>?H. p \<notin> live w" using IN by auto
  next
    assume "\<exists>p\<in>?H. p \<notin> live w"
    then have "?H - D \<subset> ?H" using IN by auto
    then show "card ?H' < card ?H" unfolding H' by (rule psubset_card_mono [OF fin])
  qed
  ultimately have "balance (mem u k) (card ?H') (length (v_blocked w k)) (lost \<or> (\<exists>p\<in>?H. p \<notin> live w))"
    unfolding w(4) by (intro balance_destroy [OF b blocked_le [OF K user_word_not_0 [OF k]]]) auto
  moreover have "set (v_blocked w k) \<subseteq> I \<inter> live w" unfolding IN using w(3) W by auto
  ultimately show ?thesis using K' user_word_cong [OF d, of k] k by (simp add: mutex_inv_def)
qed

lemma mutex_step:
  assumes M: "mutex_inv k s v I lost" and ok: "exception_ok s" and D: "disciplined k I s"
    and e: "exceptionHandler s = Some (out, u)"
  shows "\<exists>w. mutex_inv k u w (between k I s u) (lost \<or> (\<exists>p\<in>inside k I s. \<not> active u p))"
proof -
  have k: "user_word k s" and K: "kinv s v" and I: "I \<subseteq> live v" using M by (auto simp: mutex_inv_def)
  note ins = inside_eq [OF k K, of I]
  have act: "active u p \<longleftrightarrow> p \<in> live w" if "mutex_inv k u w J l" for w J l p
    using that active_live by (auto simp: mutex_inv_def)
  have stay: "(lost \<or> (\<exists>p\<in>inside k I s. \<not> active u p)) = lost" if "mutex_inv k u w J l" "live w = live v" for w J l
    using act [OF that(1)] that(2) I by (auto simp: inside_def)
  have cur: "\<exists>p. currentProcess s = Some p" if "calls c k s" for c
    using that ok by (auto simp: calls_def exception_ok_def Let_def)
  consider (P) "calls PASSEREN k s" | (V) "calls VERHOGEN k s" | (N) "\<not> calls PASSEREN k s" "\<not> calls VERHOGEN k s"
    by blast
  then show ?thesis
  proof cases
    case P
    then obtain p where p: "currentProcess s = Some p" "p \<notin> I" using cur D by (auto simp: disciplined_def)
    from mutex_inv_P [OF M p(1) P p(2) e] obtain w where w: "mutex_inv k u w (insert p I) lost" "live w = live v" by blast
    have "between k I s u = insert p I"
      using P p act [OF w(1)] w I kinv_current [OF K p(1)] by (auto simp: between_def)
    then show ?thesis using w stay [OF w] by auto
  next
    case V
    then obtain p where p: "currentProcess s = Some p" "p \<in> I" using cur D by (auto simp: disciplined_def)
    from mutex_inv_V [OF M p(1) V p(2) e] obtain w where w: "mutex_inv k u w (I - {p}) lost" "live w = live v" by blast
    have "\<not> calls PASSEREN k s" using V calls_fun [of PASSEREN k s VERHOGEN k] by auto
    then have "between k I s u = I - {p}" using V p act [OF w(1)] w I by (auto simp: between_def)
    then show ?thesis using w stay [OF w] by auto
  next
    case N
    then obtain D N where "affects (effect k D N s v) (exceptionHandler s)"
      using exceptionHandler_affects [OF K ok k] D by (auto simp: disciplined_def)
    then obtain w where w: "kinv u w" "effect k D N s v u w" using e by (auto simp: affects_def)
    from mutex_inv_effect [OF M w(2,1)]
    have M': "mutex_inv k u w (I \<inter> live w) (lost \<or> (\<exists>p \<in> I - set (v_blocked v k). p \<notin> live w))" .
    have "between k I s u = I \<inter> live w" using N act [OF M'] by (auto simp: between_def)
    moreover have "(\<exists>p\<in>inside k I s. \<not> active u p) = (\<exists>p \<in> I - set (v_blocked v k). p \<notin> live w)"
      using act [OF M'] ins by auto
    ultimately show ?thesis using M' by auto
  qed
qed

lemma mutex_inv_machine:
  assumes "mutex_inv k s v I lost" and "machine_step out s t" and "mem t k = mem s k"
  shows "mutex_inv k t v I lost"
  using assms machine_step_kinv [OF assms(2)] machine_step_sel(5) [OF assms(2)] user_word_cong [of t s k]
  by (simp add: mutex_inv_def)

lemma mutex_run_inv: "mutex_run code k out s I lost \<Longrightarrow> \<exists>v. mutex_inv k s v I lost"
proof (induction rule: mutex_run.induct)
  case (start out s)
  then obtain v where v: "kinv s v" using reachable_inv by blast
  have "v_blocked v k = []"
    using start waits_blocked [OF v user_word_not_0] by (cases "v_blocked v k") auto
  then show ?case using start v by (auto simp: mutex_inv_def balance_def)
next
  case (exception out s I lost t out' u)
  then obtain v where v: "mutex_inv k s v I lost" by blast
  have M: "mutex_inv k t v I lost" by (rule mutex_inv_machine [OF v]) (use exception in auto)
  obtain v' where K: "kinv s v'" "outcome_ok out s v'"
    using reachable_inv [OF mutex_run_reachable] exception by blast
  have "exception_ok t" by (rule step_exception_ok [OF K]) (use exception in auto)
  then show ?case using mutex_step [OF M] exception by blast
next
  case (refill out s I lost t slot out' u)
  then obtain v where "mutex_inv k s v I lost" by blast
  then have M: "mutex_inv k t v I lost" by (rule mutex_inv_machine) (use refill in auto)
  obtain v' where K: "kinv s v'" "outcome_ok out s v'"
    using reachable_inv [OF mutex_run_reachable] refill by blast
  have "currentProcess t \<noteq> None"
    using running_current [OF K(2)] machine_step_sel(8) [of out s t] refill by auto
  moreover have "kinv t v" using M by (simp add: mutex_inv_def)
  ultimately have "kinv u v" using refill_keeps refill by blast
  moreover have "mem u = mem t" "devSems_addr u = devSems_addr t"
    using refill by (auto simp: uTLB_RefillHandler_def TLBWR_def Let_def split: bind_splits if_splits)
  ultimately have "mutex_inv k u v I lost" using M user_word_cong [of u t k] by (simp add: mutex_inv_def)
  then show ?case by blast
qed

section \<open>The properties\<close>

text \<open>A run of the concrete machine: its process reads its CPU time while the mutex is free.\<close>

definition demo_mutex :: nucleus where
  "demo_mutex = snd (the (exceptionHandler (demo (\<lambda>_. 1) (syscall_state (-6) 0 0 0))))"

lemma demo_mutex:
  "\<exists>out. exceptionHandler (demo (\<lambda>_. 1) (syscall_state (-6) 0 0 0)) = Some (Ldst out, demo_mutex)"
  "mem demo_mutex = (\<lambda>_. 1)" "currentProcess demo_mutex = Some 0" "devSems_addr demo_mutex = 0x20001000"
  "kinv demo_mutex boot_view" "next_pid demo_mutex = 2"
proof -
  let ?s = "entered (demo (\<lambda>_. 1) (syscall_state (-6) 0 0 0))"
  have "exceptionHandler (demo (\<lambda>_. 1) (syscall_state (-6) 0 0 0)) = sys_gettime ?s"
    by (subst exceptionHandler_syscall) (simp_all add: syscallHandler_def)
  then have e: "exceptionHandler (demo (\<lambda>_. 1) (syscall_state (-6) 0 0 0)) =
      (let u = set_result (p_time (pcbs (updateCPUTime ?s) 0)) (updateCPUTime ?s) in Some (Ldst (bios_state u), u))"
    by (simp add: sys_gettime_def Let_def)
  show "\<exists>out. exceptionHandler (demo (\<lambda>_. 1) (syscall_state (-6) 0 0 0)) = Some (Ldst out, demo_mutex)"
    unfolding demo_mutex_def e Let_def by simp
  show "mem demo_mutex = (\<lambda>_. 1)" "currentProcess demo_mutex = Some 0" "devSems_addr demo_mutex = 0x20001000"
    "next_pid demo_mutex = 2"
    unfolding demo_mutex_def e Let_def by simp_all
  show "kinv demo_mutex boot_view"
    unfolding demo_mutex_def e Let_def option.sel snd_conv set_result_def
    by (rule kinv_bios [OF kinv_updateCPUTime [OF kinv_entered [OF demo_kinv]]])
qed

lemma demo_mutex_run: "\<exists>out. mutex_run demo_code 0x20002000 (Ldst out) demo_mutex {} False"
proof -
  obtain out where e: "exceptionHandler (demo (\<lambda>_. 1) (syscall_state (-6) 0 0 0)) = Some (Ldst out, demo_mutex)"
    using demo_mutex(1) by blast
  have "reachable demo_code (Ldst out) demo_mutex"
    by (rule reachable.exception [OF demo_reachable _ demo_step _ e]) (simp_all add: callers_ok_def call_ok_def)
  moreover have "user_word 0x20002000 demo_mutex"
    using demo_mutex(4) by (simp add: user_word_def dev_range_def devSem_def)
  moreover have "\<not> waits 0x20002000 demo_mutex p" for p
    using waits_blocked [OF demo_mutex(5), of "0x20002000" p] by simp
  ultimately have "mutex_run demo_code 0x20002000 (Ldst out) demo_mutex {} False"
    using demo_mutex(2) by (intro mutex_run.start) auto
  then show ?thesis by blast
qed

text \<open>Its process then enters.\<close>

abbreviation (input) demo_P :: nucleus where
  "demo_P \<equiv> demo_mutex\<lparr>bios_state := syscall_state (-3) 0x20002000 0 0\<rparr>"

lemma demo_P:
  "kinv demo_P boot_view" "user_word 0x20002000 demo_P" "calls PASSEREN 0x20002000 demo_P" "callers_ok demo_P"
  "currentProcess demo_P = Some 0" "machine_step (Ldst st) demo_mutex demo_P"
proof -
  show "user_word 0x20002000 demo_P" using demo_mutex(4) by (simp add: user_word_def dev_range_def devSem_def)
  then show "callers_ok demo_P" by (simp add: callers_ok_def call_ok_def user_word_def)
qed (use demo_mutex in \<open>simp_all add: calls_def machine_step_def kinv_bios\<close>)

lemma demo_P_handled:
  "\<exists>out u w. exceptionHandler demo_P = Some (out, u) \<and> kinv u w \<and> live w = live boot_view \<and>
    mem u 0x20002000 = 0 \<and> v_blocked w 0x20002000 = []"
  using passeren_on_semaphore [OF demo_P(1,5,2,3)] demo_mutex(2) by auto

lemma demo_mutex_entered:
  "\<exists>out u. mutex_run demo_code 0x20002000 out u {0} False \<and> inside 0x20002000 {0} u = {0} \<and> mem u 0x20002000 = 0"
proof -
  let ?k = "0x20002000 :: u32"
  obtain out where r: "mutex_run demo_code ?k (Ldst out) demo_mutex {} False" using demo_mutex_run by blast
  have D: "disciplined ?k {} demo_P" using demo_P(3) by (simp add: disciplined_def calls_def)
  obtain out' u w where e: "exceptionHandler demo_P = Some (out', u)" and w: "kinv u w" "live w = live boot_view"
    "mem u ?k = 0" "v_blocked w ?k = []"
    using demo_P_handled by blast
  have "mutex_run demo_code ?k out' u (between ?k {} demo_P u) (False \<or> (\<exists>p\<in>inside ?k {} demo_P. \<not> active u p))"
    by (rule mutex_run.exception [OF r _ demo_P(6) _ demo_P(4) D e]) simp_all
  moreover have "between ?k {} demo_P u = {0}"
    using demo_P(3,5) active_live [OF w(1)] w(2) live_boot_view by (auto simp: between_def)
  moreover have "inside ?k {} demo_P = {}" by (simp add: inside_def)
  moreover have "inside ?k {0} u = {0}"
    using waits_blocked [OF w(1), of ?k 0] w(4) by (auto simp: inside_def)
  ultimately show ?thesis using w(3) by auto
qed

lemma inside_unique:
  assumes "mutex_run code k out s I lost"
  shows "(\<forall>p\<in>inside k I s. \<forall>q\<in>inside k I s. p = q) \<and> (lost \<longrightarrow> inside k I s = {})"
proof -
  obtain v where M: "mutex_inv k s v I lost" using mutex_run_inv [OF assms] by blast
  then have c: "card (inside k I s) + of_bool lost \<le> 1" and "I \<subseteq> live v"
    using inside_eq [of k s v I] by (auto simp: mutex_inv_def balance_def)
  then have f: "finite (inside k I s)"
    using finite_subset [OF _ finite_live, of "inside k I s" v] by (auto simp: inside_def)
  have "p = q" if "p \<in> inside k I s" "q \<in> inside k I s" for p q
    using card_le_Suc0_iff_eq [OF f] c that by auto
  moreover have "inside k I s = {}" if lost using c f that by simp
  ultimately show ?thesis by blast
qed

text \<open>
  C4. Mutual exclusion: in every state the machine can reach, whatever the interleaving, the
  interrupts and the terminations, at most one process is between \<open>P\<close> and \<open>V\<close> and not waiting; and
  if one was destroyed there, no other will ever be.
\<close>

theorem semaphores_exclude:
  assumes "mutex_run code k out s I lost"
  shows "(\<forall>p\<in>inside k I s. \<forall>q\<in>inside k I s. p = q) \<and> (lost \<longrightarrow> inside k I s = {})"
  using assms by (rule inside_unique)

theorem semaphores_exclude_witness:
  "\<exists>u. inside 0x20002000 {0} u = {0} \<and> (\<forall>p\<in>inside 0x20002000 {0} u. \<forall>q\<in>inside 0x20002000 {0} u. p = q)"
proof -
  obtain out u where "mutex_run demo_code 0x20002000 out u {0} False" "inside 0x20002000 {0} u = {0}"
    using demo_mutex_entered by blast
  with semaphores_exclude [OF this(1)] show ?thesis by blast
qed

text \<open>
  C5. The value of the semaphore counts: it is one, less the processes that wait, the one inside and
  the one destroyed inside. So nobody waits for a mutex that is free: if a process waits, another
  is inside, or has been destroyed there.
\<close>

theorem no_lost_wakeup:
  assumes "mutex_run code k out s I lost"
  shows "sint (mem s k) = 1 - int (card {p. waits k s p}) - int (card (inside k I s)) - of_bool lost \<and>
    ((\<exists>p. waits k s p) \<longrightarrow> inside k I s \<noteq> {} \<or> lost)"
proof -
  obtain v where M: "mutex_inv k s v I lost" using mutex_run_inv [OF assms] by blast
  then have k: "user_word k s" and K: "kinv s v" by (auto simp: mutex_inv_def)
  have w: "{p. waits k s p} = set (v_blocked v k)" using waits_blocked [OF K user_word_not_0 [OF k]] by auto
  then have c: "card {p. waits k s p} = length (v_blocked v k)"
    using distinct_card [OF blocked_distinct [OF K]] by simp
  show ?thesis
    using M waits_blocked [OF K user_word_not_0 [OF k]] unfolding c inside_eq [OF k K]
    by (cases lost) (auto simp: mutex_inv_def balance_def)
qed

theorem no_lost_wakeup_witness:
  "\<exists>u. sint (mem u 0x20002000) = 1 - int (card {p. waits 0x20002000 u p}) - int (card (inside 0x20002000 {0} u)) \<and>
    inside 0x20002000 {0} u = {0}"
proof -
  obtain out u where "mutex_run demo_code 0x20002000 out u {0} False" "inside 0x20002000 {0} u = {0}"
    using demo_mutex_entered by blast
  with no_lost_wakeup [OF this(1)] show ?thesis by (intro exI [of _ u]) simp
qed

end
