(* ===== verification/Phase2_Test.thy ===== *)
theory Phase2_Test
  imports Kernel_Mutex "HOL-Library.Signed_Division"
begin

text \<open>
  \<^verbatim>\<open>phase2/p2test.c\<close>, the test program of the Nucleus. Each of its processes, and each of the handlers
  of \<open>p5\<close>, is a tree of its system calls, of its accesses to the variables the processes share and of
  the instructions that may trap. Loops that only pass time are left out. The times are signed
  (\<open>cpu_t\<close>), but for the comparison with \<open>CLOCKINTERVAL\<close>, which is unsigned. The loop that waits for
  the clock is a node of its own, since it has no bound.
\<close>

section \<open>Variables\<close>

text \<open>The words in memory: the semaphores and the other variables of type \<open>int\<close>.\<close>

datatype p2word =
    Sem_term_mut | S nat | Sem_testsem | Sem_startp2 | Sem_endp2 | Sem_endp3 | Sem_blkp4 | Sem_synp4
  | Sem_endp4 | Sem_endp5 | Sem_endp8 | Sem_endcreate nat | Sem_blkp8 | Sem_blkp9
  | P2pid | P3pid | P4pid | P8pid | P9pid | P1p2synch | P8inc | P4inc | P5Stack | P5MemLocation

datatype p2state =
    P2state | P3state | P4state | P5state | P6state | P7state | P8rootstate | Child1state | Child2state
  | Gchild1state | Gchild2state | Gchild3state | Gchild4state | P9state | P10state | Hp_p1state | Hp_p2state

datatype p2proc =
    P1 | P2 | P3 | P4 | P5 | P5a | P5b | P5gen | P5mm | P6 | P7 | P8root | Child1 | Child2
  | P8leaf1 | P8leaf2 | P8leaf3 | P8leaf4 | P9 | P10 | Hp_p1 | Hp_p2

text \<open>Where the linker puts them.\<close>

record p2_addrs =
  word_at :: "p2word \<Rightarrow> u32"
  state_at :: "p2state \<Rightarrow> u32"
  code_at :: "p2proc \<Rightarrow> u32"
  pFiveSupport :: u32

abbreviation (input) MAXSEM2 :: nat where "MAXSEM2 \<equiv> 20"
abbreviation (input) NOLEAVES :: nat where "NOLEAVES \<equiv> 4"
abbreviation (input) P2_PRINTCHR :: u32 where "P2_PRINTCHR \<equiv> 2"
abbreviation (input) RECVD :: u32 where "RECVD \<equiv> 5"
abbreviation (input) TERMSTATMASK :: u32 where "TERMSTATMASK \<equiv> 0xFF"
abbreviation (input) P2_TERM0ADDR :: u32 where "P2_TERM0ADDR \<equiv> 0x10000254"
abbreviation (input) CLOCKINTERVAL :: u32 where "CLOCKINTERVAL \<equiv> 100000"
abbreviation (input) MINLOOPTIME :: int where "MINLOOPTIME \<equiv> 30000"
abbreviation (input) CLOCKLOOP :: nat where "CLOCKLOOP \<equiv> 10"
abbreviation (input) MINCLOCKLOOP :: int where "MINCLOCKLOOP \<equiv> 3000"
abbreviation (input) QPAGE :: u32 where "QPAGE \<equiv> 1024"
abbreviation (input) BADADDR :: u32 where "BADADDR \<equiv> 0xFFFFFFFF"
abbreviation (input) BUSERROR :: u32 where "BUSERROR \<equiv> 7"
abbreviation (input) ADDRERROR :: u32 where "ADDRERROR \<equiv> 5"
abbreviation (input) MSYSCALLEXCPT :: u32 where "MSYSCALLEXCPT \<equiv> 11"

section \<open>Programs\<close>

text \<open>
  \<open>Trap_load\<close> and \<open>Trap_store\<close> access an address that is meant to trap; if it does not, the program
  goes on. \<open>Leave\<close> is the end of the function a process runs, \<open>Resume\<close> the instruction \<open>LDST\<close>.
\<close>

datatype p2prog =
    Syscall int u32 u32 u32 "u32 \<Rightarrow> p2prog"
  | Load_word p2word "u32 \<Rightarrow> p2prog"
  | Store_word p2word u32 p2prog
  | Read_state p2state "state_t \<Rightarrow> p2prog"
  | Write_state p2state state_t p2prog
  | Read_support "support_t \<Rightarrow> p2prog"
  | Write_support support_t p2prog
  | Stst "state_t \<Rightarrow> p2prog"
  | Stck "u32 \<Rightarrow> p2prog"
  | Timescale "u32 \<Rightarrow> p2prog"
  | Trap_load u32 "u32 \<Rightarrow> p2prog"
  | Trap_store u32 u32 p2prog
  | Clock_delay p2prog
  | Resume state_t
  | Panic_call
  | Leave

text \<open>The loop \<open>while (time2 - time1 < (CLOCKINTERVAL >> 1))\<close>: one round, and the test.\<close>

definition clock_round :: "p2prog \<Rightarrow> p2prog" where
  "clock_round k =
     Stck (\<lambda>time1. Syscall CLOCKWAIT 0 0 0 (\<lambda>_. Stck (\<lambda>time2.
       if time2 - time1 < drop_bit 1 CLOCKINTERVAL then Clock_delay k else k)))"

definition P_sem :: "u32 \<Rightarrow> p2prog \<Rightarrow> p2prog" where "P_sem a k = Syscall PASSEREN a 0 0 (\<lambda>_. k)"
definition V_sem :: "u32 \<Rightarrow> p2prog \<Rightarrow> p2prog" where "V_sem a k = Syscall VERHOGEN a 0 0 (\<lambda>_. k)"

text \<open>\<open>print\<close>: the transmitter command register of terminal 0 is the fourth word of its registers.\<close>

definition term0_command :: u32 where "term0_command = P2_TERM0ADDR + 3 * 4"

definition print_value :: "char \<Rightarrow> u32" where
  "print_value c = P2_PRINTCHR OR push_bit 8 (of_char c)"

primrec print_loop :: "string \<Rightarrow> p2prog \<Rightarrow> p2prog" where
  "print_loop [] k = k"
| "print_loop (c # cs) k =
     Syscall DOIO term0_command (print_value c) 0 (\<lambda>status.
       if status AND TERMSTATMASK \<noteq> RECVD then Panic_call else print_loop cs k)"

definition print_nl :: "p2_addrs \<Rightarrow> string \<Rightarrow> p2prog \<Rightarrow> p2prog" where
  "print_nl lk msg k =
     P_sem (word_at lk Sem_term_mut) (print_loop (msg @ [CHR 0x0A]) (V_sem (word_at lk Sem_term_mut) k))"

definition create :: "p2_addrs \<Rightarrow> p2state \<Rightarrow> u32 \<Rightarrow> u32 \<Rightarrow> (u32 \<Rightarrow> p2prog) \<Rightarrow> p2prog" where
  "create lk st prio support k = Syscall CREATEPROCESS (state_at lk st) prio support k"

definition terminate :: "p2prog \<Rightarrow> p2prog" where
  "terminate k = Syscall TERMPROCESS 0 0 0 (\<lambda>_. k)"

text \<open>What follows a call that should not return.\<close>

definition failed :: "p2_addrs \<Rightarrow> string \<Rightarrow> p2prog" where
  "failed lk msg = print_nl lk msg Panic_call"

primrec for_each :: "'x list \<Rightarrow> ('x \<Rightarrow> p2prog \<Rightarrow> p2prog) \<Rightarrow> p2prog \<Rightarrow> p2prog" where
  "for_each [] f k = k"
| "for_each (x # xs) f k = f x (for_each xs f k)"

section \<open>The root process\<close>

text \<open>The states of the processes: the stack of each is below the one of the state before it.\<close>

definition start_state :: "p2_addrs \<Rightarrow> p2proc \<Rightarrow> u32 \<Rightarrow> state_t \<Rightarrow> state_t" where
  "start_state lk entry sp st = st\<lparr>reg_sp := sp, pc_epc := code_at lk entry,
     status := status st OR (MSTATUS_MIE_MASK OR MSTATUS_MPP_M), mie := MIE_ALL\<rparr>"

definition set_up :: "p2_addrs \<Rightarrow> p2state \<Rightarrow> p2proc \<Rightarrow> (u32 \<Rightarrow> u32) \<Rightarrow> (u32 \<Rightarrow> p2prog) \<Rightarrow> p2prog" where
  "set_up lk name entry f k =
     Stst (\<lambda>st. let sp = f (reg_sp st) in Write_state name (start_state lk entry sp st) (k sp))"

definition set_up_states :: "p2_addrs \<Rightarrow> p2prog \<Rightarrow> p2prog" where
  "set_up_states lk k =
     set_up lk Hp_p1state Hp_p1 (\<lambda>own. own - QPAGE) (\<lambda>sp.
     set_up lk Hp_p2state Hp_p2 (\<lambda>_. sp - QPAGE) (\<lambda>sp.
     set_up lk P2state P2 (\<lambda>_. sp - QPAGE) (\<lambda>sp.
     set_up lk P3state P3 (\<lambda>_. sp - QPAGE) (\<lambda>sp.
     set_up lk P4state P4 (\<lambda>_. sp - QPAGE) (\<lambda>sp.
     set_up lk P5state P5 (\<lambda>_. sp - 2 * QPAGE) (\<lambda>sp. Store_word P5Stack sp (
     set_up lk P6state P6 (\<lambda>_. sp - 2 * QPAGE) (\<lambda>sp.
     set_up lk P7state P7 (\<lambda>_. sp - QPAGE) (\<lambda>sp.
     set_up lk P8rootstate P8root (\<lambda>_. sp - QPAGE) (\<lambda>sp.
     set_up lk Child1state Child1 (\<lambda>_. sp - QPAGE) (\<lambda>sp.
     set_up lk Child2state Child2 (\<lambda>_. sp - QPAGE) (\<lambda>sp.
     set_up lk Gchild1state P8leaf1 (\<lambda>_. sp - QPAGE) (\<lambda>sp.
     set_up lk Gchild2state P8leaf2 (\<lambda>_. sp - QPAGE) (\<lambda>sp.
     set_up lk Gchild3state P8leaf3 (\<lambda>_. sp - QPAGE) (\<lambda>sp.
     set_up lk Gchild4state P8leaf4 (\<lambda>_. sp - QPAGE) (\<lambda>sp.
     set_up lk P9state P9 (\<lambda>_. sp - QPAGE) (\<lambda>sp.
     set_up lk P10state P10 (\<lambda>_. sp - QPAGE) (\<lambda>sp. k))))))))))))))))))"

definition check_testsem :: "p2_addrs \<Rightarrow> p2prog \<Rightarrow> p2prog" where
  "check_testsem lk k =
     (let sem = word_at lk Sem_testsem in
      V_sem sem (V_sem sem (V_sem sem (
      Load_word Sem_testsem (\<lambda>x. if x \<noteq> 3 then failed lk ''Error: wrong semaphore value'' else
      P_sem sem (P_sem sem (P_sem sem (
      Load_word Sem_testsem (\<lambda>x. if x \<noteq> 0 then failed lk ''Error: wrong semaphore value'' else
      print_nl lk ''p1 v(sem_testsem)'' k)))))))))"

text \<open>The support structure of \<open>p5\<close>: its two handlers.\<close>

definition p5_context :: "u32 \<Rightarrow> u32 \<Rightarrow> context_t \<Rightarrow> context_t" where
  "p5_context stack pc c =
     c\<lparr>stackPtr := stack, ctx_status := ctx_status c OR (MSTATUS_MIE_MASK OR MSTATUS_MPP_M), ctx_pc := pc\<rparr>"

definition set_up_p5 :: "p2_addrs \<Rightarrow> p2prog \<Rightarrow> p2prog" where
  "set_up_p5 lk k =
     Load_word P5Stack (\<lambda>stack. Read_support (\<lambda>sup.
       let sup = sup\<lparr>sup_exceptContext := (sup_exceptContext sup)(GENERALEXCEPT :=
             p5_context stack (code_at lk P5gen) (sup_exceptContext sup GENERALEXCEPT))\<rparr>;
           sup = sup\<lparr>sup_exceptContext := (sup_exceptContext sup)(PGFAULTEXCEPT :=
             p5_context stack (code_at lk P5mm) (sup_exceptContext sup PGFAULTEXCEPT))\<rparr>
       in Write_support sup k))"

text \<open>One round of the test of \<open>p8\<close>: reset the semaphores, start the tree and wait for its end.\<close>

definition run_p8 :: "p2_addrs \<Rightarrow> nat \<Rightarrow> p2prog \<Rightarrow> p2prog" where
  "run_p8 lk n k =
     Store_word P8inc (of_nat n) (
     Store_word Sem_blkp8 0 (Store_word Sem_endp8 0 (
     for_each [0..<NOLEAVES] (\<lambda>i. Store_word (Sem_endcreate i) 0) (
     create lk P8rootstate PROCESS_PRIO_LOW 0 (\<lambda>pid. Store_word P8pid pid (
     P_sem (word_at lk Sem_endp8) k))))))"

definition p1_prog :: "p2_addrs \<Rightarrow> p2prog" where
  "p1_prog lk =
     check_testsem lk (
     set_up_states lk (
     create lk P2state PROCESS_PRIO_LOW 0 (\<lambda>pid. Store_word P2pid pid (
     print_nl lk ''p2 was started'' (
     V_sem (word_at lk Sem_startp2) (
     P_sem (word_at lk Sem_endp2) (
     Load_word P1p2synch (\<lambda>x. (if x = 0 then print_nl lk ''error: p1/p2 synchronization bad'' else id) (
     create lk P3state PROCESS_PRIO_LOW 0 (\<lambda>pid. Store_word P3pid pid (
     print_nl lk ''p3 is started'' (
     P_sem (word_at lk Sem_endp3) (
     create lk Hp_p1state 10 0 (\<lambda>_.
     create lk Hp_p2state PROCESS_PRIO_HIGH 0 (\<lambda>_.
     create lk P4state PROCESS_PRIO_LOW 0 (\<lambda>pid. Store_word P4pid pid (
     set_up_p5 lk (
     create lk P5state PROCESS_PRIO_LOW (pFiveSupport lk) (\<lambda>_.
     create lk P6state PROCESS_PRIO_LOW 0 (\<lambda>_.
     create lk P7state PROCESS_PRIO_LOW 0 (\<lambda>_.
     create lk P9state PROCESS_PRIO_LOW 0 (\<lambda>pid. Store_word P9pid pid (
     P_sem (word_at lk Sem_endp5) (
     print_nl lk ''p1 knows p5 ended'' (
     P_sem (word_at lk Sem_blkp4) (
     for_each [0..<4] (run_p8 lk) (
     Store_word P8inc 4 (
     print_nl lk ''p1 finishes OK -- TTFN'' (
     Trap_store BADADDR 0 (
     failed lk ''error: p1 still alive after progtrap & no trap vector''))))))))))))))))))))))))))))))"

section \<open>The other processes\<close>

definition check_pid :: "p2_addrs \<Rightarrow> u32 \<Rightarrow> p2word \<Rightarrow> string \<Rightarrow> (u32 \<Rightarrow> p2prog) \<Rightarrow> p2prog" where
  "check_pid lk which expected msg k =
     Syscall GETPROCESSID which 0 0 (\<lambda>pid. Load_word expected (\<lambda>x.
       if pid \<noteq> x then failed lk msg else k pid))"

definition p2_prog :: "p2_addrs \<Rightarrow> p2prog" where
  "p2_prog lk =
     P_sem (word_at lk Sem_startp2) (
     print_nl lk ''p2 starts'' (
     check_pid lk 0 P2pid ''Inconsistent process id for p2!'' (\<lambda>_.
     for_each [0..<Suc MAXSEM2] (\<lambda>i. Store_word (S i) 0) (
     for_each [0..<Suc MAXSEM2] (\<lambda>i k. V_sem (word_at lk (S i)) (P_sem (word_at lk (S i)) (
       Load_word (S i) (\<lambda>x. (if x \<noteq> 0 then print_nl lk ''error: p2 bad v/p pairs'' else id) k)))) (
     print_nl lk ''p2 v's successfully'' (
     Stck (\<lambda>now1. Syscall GETTIME 0 0 0 (\<lambda>cpu_t1.
     Syscall GETTIME 0 0 0 (\<lambda>cpu_t2. Stck (\<lambda>now2. Timescale (\<lambda>ts.
     let real = sint (now2 - now1); used = sint (cpu_t2 - cpu_t1); least = MINLOOPTIME sdiv sint ts;
         k = Store_word P1p2synch 1 (V_sem (word_at lk Sem_endp2) (terminate (failed lk ''error: p2 didn't terminate'')))
     in if real \<ge> used \<and> used \<ge> least then print_nl lk ''p2 is OK'' k
        else (if real < used then print_nl lk ''error: more cpu time than real time'' else id) (
             (if used < least then print_nl lk ''error: not enough cpu time went by'' else id) (
             print_nl lk ''p2 blew it!'' k)))))))))))))"

definition p3_prog :: "p2_addrs \<Rightarrow> p2prog" where
  "p3_prog lk =
     Clock_delay (
     print_nl lk ''p3 - CLOCKWAIT OK'' (
     Syscall GETTIME 0 0 0 (\<lambda>cpu_t1.
     for_each [0..<CLOCKLOOP] (\<lambda>_ k. Syscall CLOCKWAIT 0 0 0 (\<lambda>_. k)) (
     Syscall GETTIME 0 0 0 (\<lambda>cpu_t2. Timescale (\<lambda>ts.
     print_nl lk (if sint (cpu_t2 - cpu_t1) < MINCLOCKLOOP sdiv sint ts then ''error: p3 - CPU time incorrectly maintained''
                  else ''p3 - CPU time correctly maintained'') (
     check_pid lk 0 P3pid ''Inconsistent process id for p3!'' (\<lambda>_.
     V_sem (word_at lk Sem_endp3) (terminate (failed lk ''error: p3 didn't terminate''))))))))))"

text \<open>The second half of \<open>p4\<close>: another incarnation is started.\<close>

definition p4_second :: "p2_addrs \<Rightarrow> p2prog" where
  "p4_second lk =
     Read_state P4state (\<lambda>st. Write_state P4state (st\<lparr>reg_sp := reg_sp st - QPAGE\<rparr>) (
     create lk P4state PROCESS_PRIO_LOW 0 (\<lambda>pid. Store_word P4pid pid (
     P_sem (word_at lk Sem_synp4) (
     print_nl lk ''p4 is OK'' (
     V_sem (word_at lk Sem_endp4) (terminate (failed lk ''error: p4 didn't terminate''))))))))"

definition p4_prog :: "p2_addrs \<Rightarrow> p2prog" where
  "p4_prog lk =
     Load_word P4inc (\<lambda>inc.
     (if inc = 1 then \<lambda>k. print_nl lk ''first incarnation of p4 starts'' (Load_word P4inc (\<lambda>x. Store_word P4inc (x + 1) k))
      else if inc = 2 then print_nl lk ''second incarnation of p4 starts'' else id) (
     check_pid lk 0 P4pid ''Inconsistent process id for p4!'' (\<lambda>_.
     V_sem (word_at lk Sem_synp4) (
     P_sem (word_at lk Sem_blkp4) (
     P_sem (word_at lk Sem_synp4) (
     p4_second lk))))))"

text \<open>\<open>p5\<close> and its handlers.\<close>

definition upd_general :: "(state_t \<Rightarrow> state_t) \<Rightarrow> p2prog \<Rightarrow> p2prog" where
  "upd_general f k = Read_support (\<lambda>sup.
     Write_support (sup\<lparr>sup_exceptState := (sup_exceptState sup)(GENERALEXCEPT := f (sup_exceptState sup GENERALEXCEPT))\<rparr>) k)"

definition upd_pgfault :: "(state_t \<Rightarrow> state_t) \<Rightarrow> p2prog \<Rightarrow> p2prog" where
  "upd_pgfault f k = Read_support (\<lambda>sup.
     Write_support (sup\<lparr>sup_exceptState := (sup_exceptState sup)(PGFAULTEXCEPT := f (sup_exceptState sup PGFAULTEXCEPT))\<rparr>) k)"

definition resume_general :: p2prog where
  "resume_general = Read_support (\<lambda>sup. Resume (sup_exceptState sup GENERALEXCEPT))"

definition p5sys :: "p2_addrs \<Rightarrow> p2prog" where
  "p5sys lk =
     Read_support (\<lambda>sup.
       let p5status = drop_bit 31 (push_bit 28 (status (sup_exceptState sup GENERALEXCEPT))) in
       (if p5status = 1 then print_nl lk ''High level SYS call from user mode process''
        else if p5status = 0 then print_nl lk ''High level SYS call from kernel mode process'' else id) (
       upd_general (\<lambda>st. st\<lparr>pc_epc := pc_epc st + 4\<rparr>) resume_general))"

definition p5gen :: "p2_addrs \<Rightarrow> p2prog" where
  "p5gen lk =
     Read_support (\<lambda>sup.
       let exeCode = cause (sup_exceptState sup GENERALEXCEPT) in
       if exeCode = BUSERROR then
         print_nl lk ''Bus Error (as expected): Access non-existent memory'' (
         upd_general (\<lambda>st. st\<lparr>pc_epc := code_at lk P5a\<rparr>) resume_general)
       else if exeCode = ADDRERROR then
         print_nl lk ''Address Error (as expected): non-kuseg access w/KU=1'' (
         upd_general (\<lambda>st. st\<lparr>status := status st OR MSTATUS_MPP_M\<rparr>) (
         upd_general (\<lambda>st. st\<lparr>pc_epc := code_at lk P5b\<rparr>) resume_general))
       else if exeCode = MSYSCALLEXCPT then p5sys lk
       else print_nl lk ''ERROR: other program trap'' Panic_call)"

definition p5mm :: "p2_addrs \<Rightarrow> p2prog" where
  "p5mm lk =
     print_nl lk ''memory management trap'' (
     Syscall GETSUPPORTPTR 0 0 0 (\<lambda>sup.
     print_nl lk (if sup \<noteq> pFiveSupport lk then ''Support Structure Address Error''
                  else ''Correct Support Structure Address'') (
     upd_pgfault (\<lambda>st. st\<lparr>status := status st AND NOT MSTATUS_MPP_M\<rparr>) (
     upd_pgfault (\<lambda>st. st\<lparr>pc_epc := code_at lk P5b\<rparr>) (
     Read_support (\<lambda>sup. Resume (sup_exceptState sup PGFAULTEXCEPT)))))))"

definition p5_prog :: "p2_addrs \<Rightarrow> p2prog" where
  "p5_prog lk =
     print_nl lk ''p5 starts'' (
     Load_word P5MemLocation (\<lambda>a. Trap_load a (\<lambda>x. Trap_store a (x + 1) Leave)))"

definition p5a :: p2prog where
  "p5a = Store_word P5MemLocation 0x80000000 (Load_word P5MemLocation (\<lambda>a. Trap_store a 42 Leave))"

definition p5b :: "p2_addrs \<Rightarrow> p2prog" where
  "p5b lk =
     Syscall 1 0 0 0 (\<lambda>_.
     P_sem (word_at lk Sem_endp4) (
     Clock_delay (
     V_sem (word_at lk Sem_blkp4) (
     V_sem (word_at lk Sem_endp5) (
     terminate (failed lk ''error: p5 didn't terminate''))))))"

definition p6_prog :: "p2_addrs \<Rightarrow> p2prog" where
  "p6_prog lk =
     print_nl lk ''p6 starts'' (
     Syscall 1 0 0 0 (\<lambda>_. failed lk ''error: p6 alive after SYS9() with no trap vector''))"

definition p7_prog :: "p2_addrs \<Rightarrow> p2prog" where
  "p7_prog lk =
     print_nl lk ''p7 starts'' (
     Trap_store BADADDR 0 (failed lk ''error: p7 alive after program trap with no trap vector''))"

definition p8root_prog :: "p2_addrs \<Rightarrow> p2prog" where
  "p8root_prog lk =
     print_nl lk ''p8root starts'' (
     create lk Child1state PROCESS_PRIO_LOW 0 (\<lambda>_.
     create lk Child2state PROCESS_PRIO_LOW 0 (\<lambda>_.
     for_each [0..<NOLEAVES] (\<lambda>i. P_sem (word_at lk (Sem_endcreate i))) (
     V_sem (word_at lk Sem_endp8) (
     terminate Leave)))))"

definition child_prog :: "p2_addrs \<Rightarrow> string \<Rightarrow> p2state \<Rightarrow> p2state \<Rightarrow> p2prog" where
  "child_prog lk msg st1 st2 =
     print_nl lk msg (
     check_pid lk 1 P8pid ''Inconsistent (parent) process id for p8's first child'' (\<lambda>_.
     create lk st1 PROCESS_PRIO_LOW 0 (\<lambda>_.
     create lk st2 PROCESS_PRIO_LOW 0 (\<lambda>_.
     P_sem (word_at lk Sem_blkp8) Leave))))"

definition child1_prog :: "p2_addrs \<Rightarrow> p2prog" where
  "child1_prog lk = child_prog lk ''child1 starts'' Gchild1state Gchild2state"

definition child2_prog :: "p2_addrs \<Rightarrow> p2prog" where
  "child2_prog lk = child_prog lk ''child2 starts'' Gchild3state Gchild4state"

definition leaf_prog :: "p2_addrs \<Rightarrow> string \<Rightarrow> nat \<Rightarrow> p2prog" where
  "leaf_prog lk msg i =
     print_nl lk msg (V_sem (word_at lk (Sem_endcreate i)) (P_sem (word_at lk Sem_blkp8) Leave))"

definition p9_prog :: "p2_addrs \<Rightarrow> p2prog" where
  "p9_prog lk =
     print_nl lk ''p9 starts'' (
     create lk P10state PROCESS_PRIO_LOW 0 (\<lambda>_. P_sem (word_at lk Sem_blkp9) Leave))"

definition p10_prog :: "p2_addrs \<Rightarrow> p2prog" where
  "p10_prog lk =
     print_nl lk ''p10 starts'' (
     check_pid lk 1 P9pid ''Inconsistent process id for p9!'' (\<lambda>ppid.
     Syscall TERMPROCESS ppid 0 0 (\<lambda>_. failed lk ''Error: p10 didn't die with its parent!'')))"

definition hp_p1_prog :: "p2_addrs \<Rightarrow> p2prog" where
  "hp_p1_prog lk =
     print_nl lk ''hp_p1 starts'' (
     for_each [0..<100] (\<lambda>_ k. Syscall YIELD 0 0 0 (\<lambda>_. k)) (
     print_nl lk ''hp_p1 ends'' (terminate (failed lk ''Error: hp_p1 didn't die!''))))"

definition hp_p2_prog :: "p2_addrs \<Rightarrow> p2prog" where
  "hp_p2_prog lk =
     print_nl lk ''hp_p2 starts'' (
     Syscall YIELD 0 0 0 (\<lambda>_.
     print_nl lk ''hp_p2 ends'' (terminate (failed lk ''Error: hp_p2 didn't die!''))))"

text \<open>The code at the address of a function.\<close>

primrec code_of :: "p2_addrs \<Rightarrow> p2proc \<Rightarrow> p2prog" where
  "code_of lk P1 = p1_prog lk" | "code_of lk P2 = p2_prog lk" | "code_of lk P3 = p3_prog lk"
| "code_of lk P4 = p4_prog lk" | "code_of lk P5 = p5_prog lk" | "code_of lk P5a = p5a"
| "code_of lk P5b = p5b lk" | "code_of lk P5gen = p5gen lk" | "code_of lk P5mm = p5mm lk"
| "code_of lk P6 = p6_prog lk" | "code_of lk P7 = p7_prog lk" | "code_of lk P8root = p8root_prog lk"
| "code_of lk Child1 = child1_prog lk" | "code_of lk Child2 = child2_prog lk"
| "code_of lk P8leaf1 = leaf_prog lk ''leaf process (1) starts'' 0"
| "code_of lk P8leaf2 = leaf_prog lk ''leaf process (2) starts'' 1"
| "code_of lk P8leaf3 = leaf_prog lk ''leaf process (3) starts'' 2"
| "code_of lk P8leaf4 = leaf_prog lk ''leaf process (4) starts'' 3"
| "code_of lk P9 = p9_prog lk" | "code_of lk P10 = p10_prog lk"
| "code_of lk Hp_p1 = hp_p1_prog lk" | "code_of lk Hp_p2 = hp_p2_prog lk"

end
