(* ===== verification/Phase2_Run.thy ===== *)
theory Phase2_Run
  imports Phase2_Test
begin

text \<open>
  The test of phase 2 under the Nucleus: its processes run interleaved on the machine, with
  interrupts, and the Nucleus handles their calls. The messages they write do not mix.
\<close>

section \<open>The processes on the machine\<close>

text \<open>
  A process runs a program; when a call has been passed up to its handler, the program it has left
  is \<open>interrupted\<close>. \<open>writes\<close> says that it has taken the mutex of the terminal and not given it back,
  \<open>user\<close> that it runs in user mode.
\<close>

record thread =
  running :: p2prog
  interrupted :: p2prog
  writes :: bool
  user :: bool

definition user_mode :: "u32 \<Rightarrow> bool" where
  "user_mode st \<longleftrightarrow> st AND MSTATUS_MPP_MASK = 0"

definition fresh :: "bool \<Rightarrow> p2prog \<Rightarrow> thread" where
  "fresh u t = \<lparr>running = t, interrupted = Leave, writes = False, user = u\<rparr>"

text \<open>
  The steps between two exceptions. The instructions that are meant to trap do.
\<close>

inductive local_step :: "p2_addrs \<Rightarrow> p2prog \<Rightarrow> p2prog \<Rightarrow> nucleus \<Rightarrow> p2prog \<Rightarrow> nucleus \<Rightarrow> bool" for lk left where
  load_word: "local_step lk left (Load_word w k) s (k (mem s (word_at lk w))) s"
| store_word: "local_step lk left (Store_word w x k) s k (s\<lparr>mem := (mem s)(word_at lk w := x)\<rparr>)"
| read_state: "local_step lk left (Read_state n k') s (k' (state_mem s (state_at lk n))) s"
| write_state: "local_step lk left (Write_state n x k) s k (s\<lparr>state_mem := (state_mem s)(state_at lk n := x)\<rparr>)"
| read_support: "local_step lk left (Read_support ks) s (ks (support_mem s (pFiveSupport lk))) s"
| write_support: "local_step lk left (Write_support x k) s k (s\<lparr>support_mem := (support_mem s)(pFiveSupport lk := x)\<rparr>)"
| stst: "local_step lk left (Stst k') s (k' st) s"
| stck: "local_step lk left (Stck k'') s (k'' now) s"
| timescale: "local_step lk left (Timescale k'') s (k'' (mem s TIMESCALEADDR)) s"
| clock_delay: "local_step lk left (Clock_delay k) s (clock_round k) s"
| resume_at: "pc_epc st = code_at lk f \<Longrightarrow> local_step lk left (Resume st) s (code_of lk f) s"
| resume_after: "pc_epc st \<notin> range (code_at lk) \<Longrightarrow> local_step lk left (Resume st) s left s"

inductive_cases local_stepE: "local_step lk left t s t' s'"

text \<open>A process leaves kernel mode when it resumes a state of user mode, as \<open>p5mm\<close> makes it.\<close>

definition mode_after :: "p2prog \<Rightarrow> bool" where
  "mode_after t \<longleftrightarrow> (case t of Resume st \<Rightarrow> user_mode (status st) | _ \<Rightarrow> False)"

text \<open>What the hardware does at an exception: the memory of the processes does not change.\<close>

definition trapped :: "outcome \<Rightarrow> nucleus \<Rightarrow> nucleus \<Rightarrow> bool" where
  "trapped out s t \<longleftrightarrow> machine_step out s t \<and> (\<forall>a\<ge>0x20000000. mem t a = mem s a) \<and>
     state_mem t = state_mem s \<and> support_mem t = support_mem s"

definition interrupt_at :: "nucleus \<Rightarrow> bool" where
  "interrupt_at t \<longleftrightarrow> cause (bios_state t) AND 0x80000000 \<noteq> 0"

definition call_at :: "int \<Rightarrow> u32 \<Rightarrow> u32 \<Rightarrow> u32 \<Rightarrow> nucleus \<Rightarrow> bool" where
  "call_at c a1 a2 a3 t \<longleftrightarrow> (let b = bios_state t in
     \<not> interrupt_at t \<and> cause b AND CAUSE_EXCCODE_MASK \<in> {8, 11} \<and>
     sint (reg_a0 b) = c \<and> reg_a1 b = a1 \<and> reg_a2 b = a2 \<and> reg_a3 b = a3)"

text \<open>A process that appears begins where its state says, and no other changes but \<open>p\<close>.\<close>

definition others :: "p2_addrs \<Rightarrow> nat option \<Rightarrow> nucleus \<Rightarrow> nucleus \<Rightarrow> (nat \<Rightarrow> thread) \<Rightarrow> (nat \<Rightarrow> thread) \<Rightarrow> bool" where
  "others lk p t u T T' \<longleftrightarrow>
     (\<forall>q. active u q \<longrightarrow> Some q \<noteq> p \<longrightarrow>
        (if active t q then T' q = T q
         else \<exists>f. code_at lk f = pc_epc (p_s (pcbs u q)) \<and>
          T' q = fresh (user_mode (status (p_s (pcbs u q)))) (code_of lk f)))"

text \<open>
  A process makes system calls in kernel mode; a call that is passed up, like a trap, makes it go on
  with the handler of its support structure, if it has one.
\<close>

definition after_call :: "p2_addrs \<Rightarrow> int \<Rightarrow> u32 \<Rightarrow> p2prog \<Rightarrow> thread \<Rightarrow> thread" where
  "after_call lk c a1 k th = th\<lparr>running := k,
     writes := (if a1 = word_at lk Sem_term_mut
       then if c = PASSEREN then True else if c = VERHOGEN then False else writes th else writes th)\<rparr>"

definition passed_up :: "p2_addrs \<Rightarrow> outcome \<Rightarrow> p2prog \<Rightarrow> thread \<Rightarrow> thread \<Rightarrow> bool" where
  "passed_up lk out k th th' \<longleftrightarrow>
     (case out of
        Ldcxt sp st pc \<Rightarrow> \<exists>f. code_at lk f = pc \<and>
          th' = th\<lparr>running := code_of lk f, interrupted := k, user := user_mode st\<rparr>
      | _ \<Rightarrow> th' = th)"

definition traps :: "p2prog \<Rightarrow> bool" where
  "traps t \<longleftrightarrow> (case t of Trap_load a k \<Rightarrow> True | Trap_store a x k \<Rightarrow> True | _ \<Rightarrow> False)"

text \<open>
  The runs. A process in user mode executes nothing of this program: all its code is outside the
  segment of user programs, so the first instruction it fetches traps (\<open>fetch\<close>), as \<open>p5b\<close> does when
  \<open>p5mm\<close> has entered it in user mode. The addresses of the words are different, and outside the registers and the array \<open>devSems\<close>.\<close>

definition valid_word :: "p2word \<Rightarrow> bool" where
  "valid_word w \<longleftrightarrow> (case w of S i \<Rightarrow> i \<le> MAXSEM2 | Sem_endcreate i \<Rightarrow> i < NOLEAVES | _ \<Rightarrow> True)"

definition linked :: "p2_addrs \<Rightarrow> nucleus \<Rightarrow> bool" where
  "linked lk s \<longleftrightarrow> inj_on (word_at lk) (Collect valid_word) \<and> (\<forall>w. valid_word w \<longrightarrow> user_word (word_at lk w) s)"

inductive p2_run :: "code_addrs \<Rightarrow> p2_addrs \<Rightarrow> outcome \<Rightarrow> nucleus \<Rightarrow> (nat \<Rightarrow> thread) \<Rightarrow> bool" for code lk where
  start: "reachable code out s \<Longrightarrow> linked lk s \<Longrightarrow> mem s (word_at lk Sem_term_mut) = 1 \<Longrightarrow>
    (\<And>p. \<not> waits (word_at lk Sem_term_mut) s p) \<Longrightarrow>
    (\<And>p. active s p \<Longrightarrow> \<exists>b f. T p = fresh b (code_of lk f)) \<Longrightarrow> p2_run code lk out s T"
| local: "p2_run code lk out s T \<Longrightarrow> out \<notin> {Halt, Panic, Wait} \<Longrightarrow> currentProcess s = Some p \<Longrightarrow>
    \<not> user (T p) \<Longrightarrow> local_step lk (interrupted (T p)) (running (T p)) s t' s' \<Longrightarrow>
    p2_run code lk out s' (T(p := (T p)\<lparr>running := t', user := mode_after (running (T p))\<rparr>))"
| kernel_call: "p2_run code lk out s T \<Longrightarrow> out \<notin> {Halt, Panic, Wait} \<Longrightarrow> currentProcess s = Some p \<Longrightarrow>
    \<not> user (T p) \<Longrightarrow> running (T p) = Syscall c a1 a2 a3 k \<Longrightarrow> trapped out s t \<Longrightarrow> call_at c a1 a2 a3 t \<Longrightarrow>
    c < 0 \<Longrightarrow> status (bios_state t) AND MSTATUS_MPP_MASK \<noteq> 0 \<Longrightarrow> next_pid t < 0x80000000 \<Longrightarrow>
    exceptionHandler t = Some (out', u) \<Longrightarrow> T' p = after_call lk c a1 (k r) (T p) \<Longrightarrow>
    others lk (Some p) t u T T' \<Longrightarrow> p2_run code lk out' u T'"
| passed_call: "p2_run code lk out s T \<Longrightarrow> out \<notin> {Halt, Panic, Wait} \<Longrightarrow> currentProcess s = Some p \<Longrightarrow>
    \<not> user (T p) \<Longrightarrow> running (T p) = Syscall c a1 a2 a3 k \<Longrightarrow> trapped out s t \<Longrightarrow> call_at c a1 a2 a3 t \<Longrightarrow> c > 0 \<Longrightarrow>
    exceptionHandler t = Some (out', u) \<Longrightarrow> passed_up lk out' (k r) (T p) (T' p) \<Longrightarrow>
    others lk (Some p) t u T T' \<Longrightarrow> p2_run code lk out' u T'"
| trap: "p2_run code lk out s T \<Longrightarrow> out \<notin> {Halt, Panic, Wait} \<Longrightarrow> currentProcess s = Some p \<Longrightarrow>
    \<not> user (T p) \<Longrightarrow> traps (running (T p)) \<Longrightarrow> trapped out s t \<Longrightarrow> \<not> interrupt_at t \<Longrightarrow>
    cause (bios_state t) AND CAUSE_EXCCODE_MASK \<notin> {8, 11} \<Longrightarrow>
    exceptionHandler t = Some (out', u) \<Longrightarrow> passed_up lk out' (running (T p)) (T p) (T' p) \<Longrightarrow>
    others lk (Some p) t u T T' \<Longrightarrow> p2_run code lk out' u T'"
| fetch: "p2_run code lk out s T \<Longrightarrow> out \<notin> {Halt, Panic, Wait} \<Longrightarrow> currentProcess s = Some p \<Longrightarrow>
    user (T p) \<Longrightarrow> trapped out s t \<Longrightarrow> \<not> interrupt_at t \<Longrightarrow> user_mode (status (bios_state t)) \<Longrightarrow>
    cause (bios_state t) AND CAUSE_EXCCODE_MASK \<notin> {8, 11} \<Longrightarrow>
    exceptionHandler t = Some (out', u) \<Longrightarrow> passed_up lk out' (running (T p)) (T p) (T' p) \<Longrightarrow>
    others lk (Some p) t u T T' \<Longrightarrow> p2_run code lk out' u T'"
| interrupt: "p2_run code lk out s T \<Longrightarrow> out \<notin> {Halt, Panic} \<Longrightarrow> trapped out s t \<Longrightarrow> interrupt_at t \<Longrightarrow>
    exceptionHandler t = Some (out', u) \<Longrightarrow> others lk None t u T T' \<Longrightarrow> p2_run code lk out' u T'"
| refill: "p2_run code lk out s T \<Longrightarrow> out \<notin> {Halt, Panic, Wait} \<Longrightarrow> trapped out s t \<Longrightarrow>
    uTLB_RefillHandler slot t = Some (out', u) \<Longrightarrow> p2_run code lk out' u T"

section \<open>The protocol of the programs\<close>

text \<open>
  \<open>protocol lk b t\<close>: what \<open>t\<close> does when it holds the mutex of the terminal (\<open>b\<close>) or does not. It
  takes it only when it does not hold it; while it holds it, it only sends characters to terminal 0
  and gives it back, and it sends characters at no other time. It stores only into other variables.
\<close>

primrec protocol :: "p2_addrs \<Rightarrow> bool \<Rightarrow> p2prog \<Rightarrow> bool" where
  "protocol lk b (Syscall c a1 a2 a3 k) =
     (if c = PASSEREN \<and> a1 = word_at lk Sem_term_mut then \<not> b \<and> (\<forall>x. protocol lk True (k x))
      else if c = VERHOGEN \<and> a1 = word_at lk Sem_term_mut then b \<and> (\<forall>x. protocol lk False (k x))
      else if c = DOIO then b \<and> a1 = term0_command \<and> (\<forall>x. protocol lk True (k x))
      else \<not> b \<and> (c = PASSEREN \<or> c = VERHOGEN \<longrightarrow> a1 \<in> word_at lk ` Collect valid_word) \<and>
        (\<forall>x. protocol lk False (k x)))"
| "protocol lk b (Load_word w k) = (\<forall>x. protocol lk b (k x))"
| "protocol lk b (Store_word w x k) = (valid_word w \<and> w \<noteq> Sem_term_mut \<and> protocol lk b k)"
| "protocol lk b (Read_state n k) = (\<forall>x. protocol lk b (k x))"
| "protocol lk b (Write_state n x k) = protocol lk b k"
| "protocol lk b (Read_support k) = (\<forall>x. protocol lk b (k x))"
| "protocol lk b (Write_support x k) = protocol lk b k"
| "protocol lk b (Stst k) = (\<forall>x. protocol lk b (k x))"
| "protocol lk b (Stck k) = (\<forall>x. protocol lk b (k x))"
| "protocol lk b (Timescale k) = (\<forall>x. protocol lk b (k x))"
| "protocol lk b (Trap_load a k) = (\<not> b \<and> (\<forall>x. protocol lk b (k x)))"
| "protocol lk b (Trap_store a x k) = (\<not> b \<and> protocol lk b k)"
| "protocol lk b (Clock_delay k) = (\<not> b \<and> protocol lk b k)"
| "protocol lk b (Resume st) = (\<not> b)"
| "protocol lk b Panic_call = True"
| "protocol lk b Leave = (\<not> b)"

named_theorems proto

lemma proto_if [proto]: "protocol lk b (if c then t else t') = (if c then protocol lk b t else protocol lk b t')"
  by simp

lemma proto_let [proto]: "protocol lk b (let x = y in f x) = protocol lk b (f y)"
  by (simp add: Let_def)

lemma and_numerals_eq_5: "(5 :: u32) AND 0xFF = 5"
  by simp

lemma proto_if_fun [proto]: "protocol lk b ((if c then f else g) k) = (if c then protocol lk b (f k) else protocol lk b (g k))"
  by simp

lemma proto_print [proto]: "protocol lk b (print_nl lk msg k) = (\<not> b \<and> protocol lk False k)"
proof -
  have "protocol lk True (print_loop cs (V_sem (word_at lk Sem_term_mut) k)) = protocol lk False k" for cs
  proof (induction cs)
    case (Cons c cs)
    have "(\<forall>x :: u32. x AND 0xFF = 5 \<longrightarrow> protocol lk False k) = protocol lk False k"
      by (metis and_numerals_eq_5)
    then show ?case using Cons by (simp add: proto)
  qed (simp add: V_sem_def)
  then show ?thesis by (simp add: print_nl_def P_sem_def)
qed

lemma proto_sem:
  "protocol lk b (P_sem (word_at lk w) k) = (\<not> b \<and> protocol lk False k)"
  "protocol lk b (V_sem (word_at lk w) k) = (\<not> b \<and> protocol lk False k)"
  if "inj_on (word_at lk) (Collect valid_word)" "valid_word w" "w \<noteq> Sem_term_mut"
proof -
  have "valid_word Sem_term_mut" by (simp add: valid_word_def)
  then have "word_at lk w \<noteq> word_at lk Sem_term_mut" using that by (auto dest: inj_onD)
  then show "protocol lk b (P_sem (word_at lk w) k) = (\<not> b \<and> protocol lk False k)"
    "protocol lk b (V_sem (word_at lk w) k) = (\<not> b \<and> protocol lk False k)"
    using that(2) by (auto simp: P_sem_def V_sem_def)
qed

lemma proto_for_each: "(\<And>x k. x \<in> set xs \<Longrightarrow> protocol lk False (f x k) = protocol lk False k) \<Longrightarrow>
    protocol lk False (for_each xs f k) = protocol lk False k"
  by (induction xs) auto

lemma valid_words [simp]:
  "valid_word Sem_testsem" "valid_word Sem_startp2" "valid_word Sem_endp2" "valid_word Sem_endp3"
  "valid_word Sem_blkp4" "valid_word Sem_synp4" "valid_word Sem_endp4" "valid_word Sem_endp5" "valid_word Sem_endp8"
  "valid_word Sem_blkp8" "valid_word Sem_blkp9" "valid_word P2pid" "valid_word P3pid" "valid_word P4pid"
  "valid_word P8pid" "valid_word P9pid" "valid_word P1p2synch" "valid_word P8inc" "valid_word P4inc"
  "valid_word P5Stack" "valid_word P5MemLocation" "valid_word Sem_term_mut"
  "valid_word (S i) = (i \<le> MAXSEM2)" "valid_word (Sem_endcreate j) = (j < NOLEAVES)"
  by (simp_all add: valid_word_def)

lemma proto_call [proto]:
  "protocol lk b (create lk st prio support f) = (\<not> b \<and> (\<forall>x. protocol lk False (f x)))"
  "protocol lk b (terminate k) = (\<not> b \<and> protocol lk False k)"
  "protocol lk b (failed lk msg) = (\<not> b)"
  "protocol lk b (check_pid lk which w msg f) = (\<not> b \<and> (\<forall>x. protocol lk False (f x)))"
  "protocol lk b (set_up lk name entry g f) = (\<forall>sp. protocol lk b (f (g sp)))"
proof -
  show "protocol lk b (create lk st prio support f) = (\<not> b \<and> (\<forall>x. protocol lk False (f x)))"
    "protocol lk b (terminate k) = (\<not> b \<and> protocol lk False k)"
    by (simp_all add: create_def terminate_def)
  show f: "protocol lk b (failed lk msg) = (\<not> b)" for b msg by (simp add: failed_def proto)
  show "protocol lk b (check_pid lk which w msg f) = (\<not> b \<and> (\<forall>x. protocol lk False (f x)))"
    by (auto simp: check_pid_def proto f)
  have "(\<forall>st. Q (reg_sp st)) = (\<forall>sp. Q sp)" for Q by (metis state_t.select_convs(6))
  from this [of "\<lambda>sp. protocol lk b (f (g sp))"]
  show "protocol lk b (set_up lk name entry g f) = (\<forall>sp. protocol lk b (f (g sp)))"
    by (simp add: set_up_def Let_def)
qed

lemmas code_defs = check_testsem_def set_up_states_def set_up_p5_def run_p8_def p1_prog_def p2_prog_def p3_prog_def
  p4_prog_def p4_second_def upd_general_def upd_pgfault_def resume_general_def p5sys_def p5gen_def p5mm_def p5_prog_def p5a_def p5b_def
  p6_prog_def p7_prog_def p8root_prog_def child_prog_def child1_prog_def child2_prog_def leaf_prog_def p9_prog_def
  p10_prog_def hp_p1_prog_def hp_p2_prog_def

lemma proto_loops:
  assumes I: "inj_on (word_at lk) (Collect valid_word)"
  shows "protocol lk False (for_each [0..<4] (run_p8 lk) k) = protocol lk False k"
    and "protocol lk False (for_each [0..<4] (\<lambda>i. P_sem (word_at lk (Sem_endcreate i))) k) = protocol lk False k"
    and "protocol lk False (for_each [0..<21] (\<lambda>i. Store_word (S i) 0) k) = protocol lk False k"
    and "protocol lk False (for_each [0..<21] (\<lambda>i k. V_sem (word_at lk (S i)) (P_sem (word_at lk (S i))
      (Load_word (S i) (\<lambda>x. (if x \<noteq> 0 then print_nl lk msg else id) k)))) k) = protocol lk False k"
proof -
  have c: "protocol lk False (for_each [0..<NOLEAVES] (\<lambda>i. Store_word (Sem_endcreate i) 0) k) = protocol lk False k" for k
    by (rule proto_for_each) auto
  show "protocol lk False (for_each [0..<4] (run_p8 lk) k) = protocol lk False k"
    by (rule proto_for_each) (simp add: run_p8_def c proto proto_sem [OF I])
  show "protocol lk False (for_each [0..<4] (\<lambda>i. P_sem (word_at lk (Sem_endcreate i))) k) = protocol lk False k"
    by (rule proto_for_each) (auto simp: proto_sem [OF I])
  show "protocol lk False (for_each [0..<21] (\<lambda>i. Store_word (S i) 0) k) = protocol lk False k"
    by (rule proto_for_each) auto
  show "protocol lk False (for_each [0..<21] (\<lambda>i k. V_sem (word_at lk (S i)) (P_sem (word_at lk (S i))
      (Load_word (S i) (\<lambda>x. (if x \<noteq> 0 then print_nl lk msg else id) k)))) k) = protocol lk False k"
    by (rule proto_for_each) (auto simp: proto proto_sem [OF I])
qed

lemma proto_code:
  assumes "inj_on (word_at lk) (Collect valid_word)"
  shows "protocol lk False (code_of lk f)"
  by (cases f) (auto simp: code_defs proto proto_sem [OF assms] proto_loops [OF assms] proto_for_each Let_def)

section \<open>The invariant\<close>

abbreviation mutex :: "p2_addrs \<Rightarrow> u32" where "mutex lk \<equiv> word_at lk Sem_term_mut"

definition holders :: "nucleus \<Rightarrow> (nat \<Rightarrow> thread) \<Rightarrow> nat set" where
  "holders s T = {p. active s p \<and> writes (T p)}"

definition thread_ok :: "p2_addrs \<Rightarrow> thread \<Rightarrow> bool" where
  "thread_ok lk th \<longleftrightarrow> protocol lk (writes th) (running th) \<and> protocol lk False (interrupted th) \<and>
     (user th \<longrightarrow> \<not> writes th)"

text \<open>
  \<open>s0\<close> is the state in which the Nucleus has left the machine; the current process has changed
  words in memory since then, but not the mutex.
\<close>

definition p2_inv :: "code_addrs \<Rightarrow> p2_addrs \<Rightarrow> outcome \<Rightarrow> nucleus \<Rightarrow> (nat \<Rightarrow> thread) \<Rightarrow> bool" where
  "p2_inv code lk out s T \<longleftrightarrow>
     (\<exists>s0 lost. mutex_run code (mutex lk) out s0 (holders s0 T) lost \<and> machine_step Halt s0 s \<and>
        mem s (mutex lk) = mem s0 (mutex lk)) \<and>
     linked lk s \<and> (\<forall>p. active s p \<longrightarrow> thread_ok lk (T p))"

lemma machine_step_trans: "machine_step o1 s t \<Longrightarrow> machine_step o2 t u \<Longrightarrow> machine_step o2 s u"
  by (cases s, cases t, cases u) (auto simp: machine_step_def)

lemma machine_step_refl: "machine_step Halt s s"
  by (simp add: machine_step_def)

lemma active_cong: "activeProcs t = activeProcs s \<Longrightarrow> active t = active s"
  by (simp add: active_def fun_eq_iff)

lemma machine_step_active: "machine_step out s t \<Longrightarrow> active t = active s"
  by (rule active_cong) (rule machine_step_sel)

lemma holders_cong: "active t = active s \<Longrightarrow> holders t T = holders s T"
  by (simp add: holders_def)

lemma p2_linked_cong: "devSems_addr t = devSems_addr s \<Longrightarrow> linked lk t = linked lk s"
  unfolding linked_def using user_word_cong by blast

lemma linked_mutex: "linked lk s \<Longrightarrow> user_word (mutex lk) s"
  by (simp add: linked_def)

lemma linked_term0: "linked lk s \<Longrightarrow> mutex lk \<noteq> term0_command"
  using linked_mutex [of lk s] by (auto simp: user_word_def term0_command_def)

text \<open>The array \<open>devSems\<close> stays where it is.\<close>

lemma exception_devs:
  assumes K: "kinv t v" and ok: "exception_ok t" and l: "linked lk t" and e: "exceptionHandler t = Some (out, u)"
  shows "devSems_addr u = devSems_addr t"
proof -
  have "word_at lk Sem_testsem \<noteq> word_at lk Sem_startp2" using l by (auto simp: linked_def dest: inj_onD)
  then obtain w where w: "valid_word w" "word_at lk w \<noteq> reg_a1 (bios_state t)" by (metis valid_words(1,2))
  then have "\<not> calls c (word_at lk w) t" for c by (auto simp: calls_def Let_def)
  then obtain D N where "affects (effect (word_at lk w) D N t v) (exceptionHandler t)"
    using exceptionHandler_affects [OF K ok] l w(1) unfolding linked_def by metis
  then show ?thesis using e by (auto simp: affects_def effect_def)
qed

lemma p2_inv_exception:
  assumes inv: "p2_inv code lk out s T" and out: "out \<notin> {Halt, Panic}" and t: "trapped out s t" and c: "callers_ok t"
    and d: "disciplined (mutex lk) (holders t T) t" and e: "exceptionHandler t = Some (out', u)"
    and b: "between (mutex lk) (holders t T) t u = holders u T'"
    and ok: "\<And>q. active u q \<Longrightarrow> thread_ok lk (T' q)"
  shows "p2_inv code lk out' u T'"
proof -
  obtain s0 lost where r: "mutex_run code (mutex lk) out s0 (holders s0 T) lost" and m: "machine_step Halt s0 s"
    "mem s (mutex lk) = mem s0 (mutex lk)" and l: "linked lk s"
    using inv by (auto simp: p2_inv_def)
  have m0: "machine_step out s0 t" and mt: "machine_step out s t"
    using machine_step_trans [OF m(1)] t by (auto simp: trapped_def)
  have k: "mem t (mutex lk) = mem s0 (mutex lk)"
    using t m(2) linked_mutex [OF l] by (auto simp: trapped_def user_word_def)
  have h: "holders s0 T = holders t T" by (rule holders_cong) (use machine_step_active [OF m0] in simp)
  have lt: "linked lk t" using l p2_linked_cong machine_step_sel(5) [OF mt] by blast
  obtain lost' where r': "mutex_run code (mutex lk) out' u (holders u T') lost'"
    using mutex_run.exception [OF r out m0 k c _ e] d b h by auto
  obtain v where v: "kinv s0 v" "outcome_ok out s0 v" using reachable_inv [OF mutex_run_reachable [OF r]] by blast
  have "devSems_addr u = devSems_addr t"
    by (rule exception_devs [OF machine_step_kinv [OF m0 v(1)] step_exception_ok [OF v out m0 c] lt e])
  then have "linked lk u" using lt p2_linked_cong by blast
  with r' ok machine_step_refl show ?thesis unfolding p2_inv_def by blast
qed

text \<open>The processes that the exception does not concern.\<close>

lemma others_between:
  assumes o: "others lk pp t u T T'" and q: "active u q" "Some q \<noteq> pp"
    and c: "currentProcess t = pp \<or> \<not> calls PASSEREN k t \<and> \<not> calls VERHOGEN k t"
  shows "q \<in> between k (holders t T) t u \<longleftrightarrow> writes (T' q)"
  using o q c by (auto simp: others_def between_def holders_def fresh_def split: if_splits)

lemma others_ok:
  assumes o: "others lk pp t u T T'" and q: "active u q" "Some q \<noteq> pp" and l: "linked lk t"
    and ok: "\<And>p. active t p \<Longrightarrow> thread_ok lk (T p)"
  shows "thread_ok lk (T' q)"
  using assms proto_code [of lk] by (auto simp: others_def thread_ok_def fresh_def linked_def split: if_splits)

lemma p2_inv_trapped:
  assumes inv: "p2_inv code lk out s T" and t: "trapped out s t"
  shows "linked lk t" and "active t p \<Longrightarrow> thread_ok lk (T p)" and "currentProcess t = currentProcess s"
    and "\<exists>v. kinv t v"
proof -
  have m: "machine_step out s t" using t by (simp add: trapped_def)
  have i: "linked lk s" "\<And>p. active s p \<Longrightarrow> thread_ok lk (T p)" using inv by (auto simp: p2_inv_def)
  show "linked lk t" using i(1) p2_linked_cong machine_step_sel(5) [OF m] by blast
  show "active t p \<Longrightarrow> thread_ok lk (T p)" using i(2) machine_step_active [OF m] by simp
  show "currentProcess t = currentProcess s" by (rule machine_step_sel [OF m])
  obtain s0 I lost where "mutex_run code (mutex lk) out s0 I lost" "machine_step Halt s0 s" using inv by (auto simp: p2_inv_def)
  then show "\<exists>v. kinv t v" using reachable_inv mutex_run_reachable machine_step_kinv m by metis
qed

lemma current_active: "kinv t v \<Longrightarrow> currentProcess t = Some p \<Longrightarrow> active t p"
  using kinv_current active_live by blast

text \<open>Interrupts, traps and calls that are passed up do not touch the mutex.\<close>

lemma p2_inv_other:
  assumes inv: "p2_inv code lk out s T" and out: "out \<notin> {Halt, Panic}" and t: "trapped out s t" and c: "callers_ok t"
    and n: "\<And>c. c < 0 \<Longrightarrow> \<not> calls c (mutex lk) t" and e: "exceptionHandler t = Some (out', u)" and o: "others lk pp t u T T'"
    and p: "\<And>p. pp = Some p \<Longrightarrow> active t p \<and> writes (T' p) = writes (T p) \<and> thread_ok lk (T' p)"
  shows "p2_inv code lk out' u T'"
proof (rule p2_inv_exception [OF inv out t c _ e])
  note i = p2_inv_trapped [OF inv t]
  show "disciplined (mutex lk) (holders t T) t" using n by (simp add: disciplined_def)
  have "q \<in> between (mutex lk) (holders t T) t u \<longleftrightarrow> q \<in> holders u T'" for q
  proof (cases "Some q = pp")
    case True
    then show ?thesis using p n by (auto simp: between_def holders_def)
  next
    case False
    then show ?thesis using others_between [OF o _ False, of "mutex lk"] n
      by (auto simp: between_def holders_def)
  qed
  then show "between (mutex lk) (holders t T) t u = holders u T'" by blast
  show "thread_ok lk (T' q)" if "active u q" for q
    using others_ok [OF o that _ i(1,2)] p by (cases "Some q = pp") auto
qed

lemma p2_inv_call:
  assumes inv: "p2_inv code lk out s T" and out: "out \<notin> {Halt, Panic}" and p: "currentProcess s = Some p"
    and nu: "\<not> user (T p)" and r: "running (T p) = Syscall c a1 a2 a3 k" and t: "trapped out s t" and c: "call_at c a1 a2 a3 t"
    and m: "status (bios_state t) AND MSTATUS_MPP_MASK \<noteq> 0" and pid: "next_pid t < 0x80000000"
    and e: "exceptionHandler t = Some (out', u)" and T': "T' p = after_call lk c a1 (k x) (T p)"
    and o: "others lk (Some p) t u T T'"
  shows "p2_inv code lk out' u T'"
proof (rule p2_inv_exception [OF inv out t _ _ e])
  note i = p2_inv_trapped [OF inv t]
  have pt: "currentProcess t = Some p" "active t p" using i(3,4) p current_active by auto
  have ok: "protocol lk (writes (T p)) (Syscall c a1 a2 a3 k)" "protocol lk False (interrupted (T p))"
    using i(2) [OF pt(2)] r by (auto simp: thread_ok_def)
  have calls: "calls c' a t \<longleftrightarrow> c' = c \<and> a = a1" for c' a
    using c m by (auto simp: calls_def call_at_def interrupt_at_def Let_def)
  have sem: "a1 \<in> word_at lk ` Collect valid_word" if "c = PASSEREN \<or> c = VERHOGEN"
    using ok(1) that by (auto split: if_splits)
  then have a1: "user_word a1 t" if "c = PASSEREN \<or> c = VERHOGEN" using that i(1) by (auto simp: linked_def)
  have io: "a1 = term0_command" if "c = DOIO" using ok(1) that by (auto split: if_splits)
  show "callers_ok t"
    using c a1 io pid by (auto simp: callers_ok_def call_ok_def call_at_def user_word_def term0_command_def doio_sem_def
        TERM_TX_SEM_def Let_def)
  show "disciplined (mutex lk) (holders t T) t"
    using ok(1) io linked_term0 [OF i(1)] pt unfolding disciplined_def calls
    by (auto simp: holders_def split: if_splits)
  have "q \<in> between (mutex lk) (holders t T) t u \<longleftrightarrow> q \<in> holders u T'" for q
  proof (cases "q = p")
    case True
    then show ?thesis using pt T' unfolding between_def calls by (auto simp: holders_def after_call_def)
  next
    case False
    then show ?thesis using others_between [OF o, of q "mutex lk"] pt(1)
      by (auto simp: between_def holders_def)
  qed
  then show "between (mutex lk) (holders t T) t u = holders u T'" by blast
  have "thread_ok lk (T' p)" using ok nu T' by (auto simp: thread_ok_def after_call_def split: if_splits)
  then show "thread_ok lk (T' q)" if "active u q" for q
    using others_ok [OF o that _ i(1,2)] by (cases "q = p") auto
qed

lemma local_step_frame:
  assumes st: "local_step lk left t s t' s'" and l: "linked lk s" and ok: "protocol lk b t" "protocol lk False left"
  shows "machine_step Halt s s' \<and> mem s' (mutex lk) = mem s (mutex lk) \<and> protocol lk b t'"
  using st ok
proof (induction rule: local_step.induct)
  case (store_word w x k s)
  then have "word_at lk w \<noteq> mutex lk" using l by (auto simp: linked_def dest: inj_onD)
  with store_word show ?case by (simp add: machine_step_def)
next
  case (resume_at st f s)
  then show ?case using l proto_code by (simp add: machine_step_refl linked_def)
qed (auto simp: machine_step_def clock_round_def)

theorem p2_run_inv: "p2_run code lk out s T \<Longrightarrow> p2_inv code lk out s T"
proof (induction rule: p2_run.induct)
  case (start out s T)
  have h: "holders s T = {}" and ok: "active s p \<Longrightarrow> thread_ok lk (T p)" for p
    using start(5) proto_code start(2) by (fastforce simp: holders_def thread_ok_def fresh_def linked_def)+
  have "mutex_run code (mutex lk) out s {} False"
    by (rule mutex_run.start) (use start linked_mutex in auto)
  then show ?case using start(2) ok machine_step_refl unfolding p2_inv_def h [symmetric] by blast
next
  case (local out s T p t' s')
  obtain s0 lost where r: "mutex_run code (mutex lk) out s0 (holders s0 T) lost" and m: "machine_step Halt s0 s"
    "mem s (mutex lk) = mem s0 (mutex lk)" and l: "linked lk s" and ok: "\<And>p. active s p \<Longrightarrow> thread_ok lk (T p)"
    using local.IH by (auto simp: p2_inv_def)
  obtain v where "kinv s v" using reachable_inv [OF mutex_run_reachable [OF r]] machine_step_kinv [OF m(1)] by blast
  then have "thread_ok lk (T p)" using ok current_active local.hyps(3) by blast
  then have f: "machine_step Halt s s'" "mem s' (mutex lk) = mem s (mutex lk)" "protocol lk (writes (T p)) t'"
    "protocol lk False (interrupted (T p))"
    using local_step_frame [OF local.hyps(5) l] by (auto simp: thread_ok_def)
  have u: "\<not> writes (T p)" if "mode_after (running (T p))"
    using \<open>thread_ok lk (T p)\<close> that by (auto simp: thread_ok_def mode_after_def split: p2prog.splits)
  let ?T = "T(p := (T p)\<lparr>running := t', user := mode_after (running (T p))\<rparr>)"
  have "holders s0 ?T = holders s0 T" by (auto simp: holders_def)
  moreover have "linked lk s'" using l p2_linked_cong machine_step_sel(5) [OF f(1)] by blast
  moreover have "thread_ok lk (?T q)" if "active s' q" for q
    using that ok machine_step_active [OF f(1)] f(3,4) u by (auto simp: thread_ok_def)
  ultimately show ?case
    using r m(2) f(2) machine_step_trans [OF m(1) f(1)] unfolding p2_inv_def by metis
next
  case (kernel_call out s T p c a1 a2 a3 k t out' u T' r)
  then show ?case using p2_inv_call by blast
next
  case (passed_call out s T p c a1 a2 a3 k t out' u r T')
  note i = p2_inv_trapped [OF passed_call.IH passed_call.hyps(6)]
  have at: "active t p" using i(3,4) passed_call.hyps(3) current_active by auto
  have ok: "\<not> writes (T p)" "protocol lk False (k r)" "thread_ok lk (T p)"
    using i(2) [OF at] passed_call.hyps(5,8) by (auto simp: thread_ok_def split: if_splits)
  show ?case
  proof (rule p2_inv_other [OF passed_call.IH _ passed_call.hyps(6) _ _ passed_call.hyps(9,11)])
    show "callers_ok t"
      using passed_call.hyps(7,8) by (auto simp: callers_ok_def call_ok_def call_at_def Let_def)
    show "\<not> calls c' (mutex lk) t" if "c' < 0" for c'
      using passed_call.hyps(7,8) that by (auto simp: calls_def call_at_def Let_def)
    show "active t q \<and> writes (T' q) = writes (T q) \<and> thread_ok lk (T' q)" if "Some p = Some q" for q
      using that passed_call.hyps(10) ok at proto_code i(1)
      by (auto simp: passed_up_def thread_ok_def linked_def split: outcome.splits)
  qed (use passed_call.hyps(2) in auto)
next
  case (trap out s T p t out' u T')
  note i = p2_inv_trapped [OF trap.IH trap.hyps(6)]
  have at: "active t p" using i(3,4) trap.hyps(3) current_active by auto
  have ok: "\<not> writes (T p)" "thread_ok lk (T p)"
    using i(2) [OF at] trap.hyps(5) by (auto simp: thread_ok_def traps_def split: p2prog.splits)
  show ?case
  proof (rule p2_inv_other [OF trap.IH _ trap.hyps(6) _ _ trap.hyps(9,11)])
    show "callers_ok t" using trap.hyps(7,8) by (auto simp: callers_ok_def Let_def)
    show "\<not> calls c' (mutex lk) t" if "c' < 0" for c' using trap.hyps(8) by (auto simp: calls_def Let_def)
    show "active t q \<and> writes (T' q) = writes (T q) \<and> thread_ok lk (T' q)" if "Some p = Some q" for q
      using that trap.hyps(10) ok at proto_code i(1)
      by (auto simp: passed_up_def thread_ok_def linked_def split: outcome.splits)
  qed (use trap.hyps(2) in auto)
next
  case (fetch out s T p t out' u T')
  note i = p2_inv_trapped [OF fetch.IH fetch.hyps(5)]
  have at: "active t p" using i(3,4) fetch.hyps(3) current_active by auto
  have ok: "\<not> writes (T p)" "thread_ok lk (T p)"
    using i(2) [OF at] fetch.hyps(4) by (auto simp: thread_ok_def)
  show ?case
  proof (rule p2_inv_other [OF fetch.IH _ fetch.hyps(5) _ _ fetch.hyps(9,11)])
    show "callers_ok t" using fetch.hyps(6,8) by (auto simp: callers_ok_def Let_def)
    show "\<not> calls c' (mutex lk) t" if "c' < 0" for c' using fetch.hyps(8) by (auto simp: calls_def Let_def)
    show "active t q \<and> writes (T' q) = writes (T q) \<and> thread_ok lk (T' q)" if "Some p = Some q" for q
      using that fetch.hyps(10) ok at proto_code i(1)
      by (auto simp: passed_up_def thread_ok_def linked_def split: outcome.splits)
  qed (use fetch.hyps(2) in auto)
next
  case (interrupt out s T t out' u T')
  show ?case
    by (rule p2_inv_other [OF interrupt.IH interrupt.hyps(2,3) _ _ interrupt.hyps(5,6)])
      (use interrupt.hyps(4) in \<open>auto simp: callers_ok_def calls_def interrupt_at_def Let_def\<close>)
next
  case (refill out s T t slot out' u)
  note i = p2_inv_trapped [OF refill.IH refill.hyps(3)]
  obtain s0 lost where r: "mutex_run code (mutex lk) out s0 (holders s0 T) lost" and m: "machine_step Halt s0 s"
    "mem s (mutex lk) = mem s0 (mutex lk)" "linked lk s"
    using refill.IH by (auto simp: p2_inv_def)
  have t: "machine_step out s0 t" "mem t (mutex lk) = mem s0 (mutex lk)"
    using refill.hyps(3) m linked_mutex [OF m(3)] machine_step_trans [OF m(1)] by (auto simp: trapped_def user_word_def)
  have u: "devSems_addr u = devSems_addr t" "activeProcs u = activeProcs t"
    using refill.hyps(4) by (auto simp: uTLB_RefillHandler_def TLBWR_def Let_def split: bind_splits if_splits)
  have a: "active u = active t" "active t = active s0"
    by (rule active_cong [OF u(2)], rule machine_step_active [OF t(1)])
  have h: "holders s0 T = holders u T" using a by (simp add: holders_def)
  have r': "mutex_run code (mutex lk) out' u (holders u T) lost"
    using mutex_run.refill [OF r refill.hyps(2) t refill.hyps(4)] unfolding h .
  have lu: "linked lk u" using i(1) p2_linked_cong [OF u(1)] by simp
  have ok: "thread_ok lk (T q)" if "active u q" for q using i(2) that a(1) by simp
  show ?case unfolding p2_inv_def using r' lu ok machine_step_refl by blast
qed

section \<open>Messages do not mix\<close>

text \<open>A process is in the middle of a message when it has the mutex: it has taken it and does not wait.\<close>

definition in_message :: "p2_addrs \<Rightarrow> nucleus \<Rightarrow> (nat \<Rightarrow> thread) \<Rightarrow> nat \<Rightarrow> bool" where
  "in_message lk s T p \<longleftrightarrow> active s p \<and> writes (T p) \<and> \<not> waits (mutex lk) s p"

text \<open>
  C31. The messages of the test of phase 2 do not mix: in every run of its processes under the
  Nucleus, with every interleaving, interrupts, terminations, traps and handlers, also the trap of a
  process entered in user mode like \<open>p5b\<close>, at most one process is in the
  middle of a message, and when a process is about to send a character to a device, the device is
  terminal 0 and that process is the one.
\<close>

theorem test_messages_do_not_mix:
  assumes "p2_run code lk out s T"
  shows "(\<forall>p q. in_message lk s T p \<and> in_message lk s T q \<longrightarrow> p = q) \<and>
    (\<forall>p a v x k. currentProcess s = Some p \<and> running (T p) = Syscall DOIO a v x k \<longrightarrow>
      a = term0_command \<and> in_message lk s T p)"
proof -
  obtain s0 lost where r: "mutex_run code (mutex lk) out s0 (holders s0 T) lost" and m: "machine_step Halt s0 s"
    and l: "linked lk s" and ok: "\<And>p. active s p \<Longrightarrow> thread_ok lk (T p)"
    using p2_run_inv [OF assms] by (auto simp: p2_inv_def)
  have a: "active s = active s0" "waits k s = waits k s0" for k
    using machine_step_active [OF m] machine_step_sel(10) [OF m] by (auto simp: waits_def fun_eq_iff)
  have one: "in_message lk s T p \<longleftrightarrow> p \<in> inside (mutex lk) (holders s0 T) s0" for p
    by (auto simp: in_message_def inside_def holders_def a)
  obtain v where v: "kinv s v" using reachable_inv [OF mutex_run_reachable [OF r]] machine_step_kinv [OF m] by blast
  have "a = term0_command \<and> in_message lk s T p"
    if c: "currentProcess s = Some p" and d: "running (T p) = Syscall DOIO a b x k" for p a b x k
  proof -
    have "protocol lk (writes (T p)) (Syscall DOIO a b x k)"
      using ok [OF current_active [OF v c]] d by (auto simp: thread_ok_def)
    then have "writes (T p)" "a = term0_command" by simp_all
    moreover have "\<not> waits (mutex lk) s p"
      using waits_blocked [OF v] current_unqueued [OF v c] user_word_not_0 [OF linked_mutex [OF l]]
      by (auto simp: unqueued_def)
    ultimately show ?thesis using current_active [OF v c] by (simp add: in_message_def)
  qed
  then show ?thesis using inside_unique [OF r] one by blast
qed

text \<open>A concrete run: a process of the test takes the mutex.\<close>

primrec demo_index :: "p2word \<Rightarrow> nat" where
  "demo_index Sem_term_mut = 0" | "demo_index (S i) = 100 + i" | "demo_index Sem_testsem = 1"
| "demo_index Sem_startp2 = 2" | "demo_index Sem_endp2 = 3" | "demo_index Sem_endp3 = 4"
| "demo_index Sem_blkp4 = 5" | "demo_index Sem_synp4 = 6" | "demo_index Sem_endp4 = 7"
| "demo_index Sem_endp5 = 8" | "demo_index Sem_endp8 = 9" | "demo_index (Sem_endcreate i) = 200 + i"
| "demo_index Sem_blkp8 = 10" | "demo_index Sem_blkp9 = 11" | "demo_index P2pid = 12" | "demo_index P3pid = 13"
| "demo_index P4pid = 14" | "demo_index P8pid = 15" | "demo_index P9pid = 16" | "demo_index P1p2synch = 17"
| "demo_index P8inc = 18" | "demo_index P4inc = 19" | "demo_index P5Stack = 20" | "demo_index P5MemLocation = 21"

definition demo_p2 :: p2_addrs where
  "demo_p2 = \<lparr>word_at = \<lambda>w. 0x20002000 + 4 * of_nat (demo_index w), state_at = \<lambda>_. 0x20004000,
     code_at = \<lambda>_. 0x20006000, pFiveSupport = 0x20008000\<rparr>"

lemma demo_linked: "linked demo_p2 demo_mutex"
proof -
  have lt: "demo_index w < 300" if "valid_word w" for w using that by (cases w) auto
  have u: "unat (word_at demo_p2 w) = 0x20002000 + 4 * demo_index w" if "valid_word w" for w
    using lt [OF that] by (simp add: demo_p2_def unat_word_ariths unat_of_nat take_bit_nat_eq_self)
  have inj: "v = w" if "valid_word v" "valid_word w" "demo_index v = demo_index w" for v w
    using that by (cases v; cases w) auto
  have "inj_on (word_at demo_p2) (Collect valid_word)"
    using u inj by (intro inj_onI) (metis add_left_cancel mem_Collect_eq mult_left_cancel zero_neq_numeral)
  moreover have "user_word (word_at demo_p2 w) demo_mutex" if "valid_word w" for w
    using u [OF that]
    by (auto simp: user_word_def word_le_nat_alt word_less_nat_alt dev_range_def devSem_def demo_mutex(4))
  ultimately show ?thesis by (simp add: linked_def)
qed

lemma demo_p2_run:
  "\<exists>out u T. p2_run demo_code demo_p2 out u T \<and> in_message demo_p2 u T 0"
proof -
  let ?k = "0x20002000 :: u32" and ?T = "\<lambda>_. fresh False (code_of demo_p2 P6)"
  have k: "word_at demo_p2 Sem_term_mut = ?k" by (simp add: demo_p2_def)
  obtain out where r: "mutex_run demo_code ?k (Ldst out) demo_mutex {} False" using demo_mutex_run by blast
  have nw: "\<not> waits ?k demo_mutex p" for p
    using waits_blocked [OF demo_mutex(5), of ?k p] by simp
  have s: "p2_run demo_code demo_p2 (Ldst out) demo_mutex ?T"
    by (rule p2_run.start [OF mutex_run_reachable [OF r] demo_linked]) (use nw demo_mutex(2) in \<open>auto simp: k intro!: exI [of _ False] exI [of _ P6]\<close>)
  obtain out' u w where e: "exceptionHandler demo_P = Some (out', u)" and w: "kinv u w" "live w = live boot_view"
    "v_blocked w ?k = []"
    using demo_P_handled by blast
  obtain f where f: "running (?T 0) = Syscall PASSEREN ?k 0 0 f"
    by (simp add: fresh_def p6_prog_def print_nl_def P_sem_def k)
  let ?T' = "?T(0 := after_call demo_p2 PASSEREN ?k (f 0) (?T 0))"
  have only: "active u q \<longleftrightarrow> q = 0" for q using active_live [OF w(1)] w(2) live_boot_view by simp
  have "p2_run demo_code demo_p2 out' u ?T'"
  proof (rule p2_run.kernel_call [OF s _ _ _ f _ _ _ _ _ e])
    show "\<not> user (?T 0)" by (simp add: fresh_def)
    show "trapped (Ldst out) demo_mutex demo_P" using demo_P(6) by (simp add: trapped_def)
    show "call_at PASSEREN ?k 0 0 demo_P" by (simp add: call_at_def interrupt_at_def)
    show "next_pid demo_P < 0x80000000" by (simp add: demo_mutex(6))
    show "others demo_p2 (Some 0) demo_P u ?T ?T'" using only by (simp add: others_def)
  qed (use demo_mutex(3) in simp_all)
  moreover have "in_message demo_p2 u ?T' 0"
    using only waits_blocked [OF w(1), of ?k 0] w(3) by (simp add: in_message_def after_call_def k)
  ultimately show ?thesis by blast
qed

theorem test_messages_do_not_mix_witness:
  "\<exists>u T. in_message demo_p2 u T 0 \<and> (\<forall>q. in_message demo_p2 u T q \<longrightarrow> q = 0)"
proof -
  obtain out u T where "p2_run demo_code demo_p2 out u T" and m: "in_message demo_p2 u T 0" using demo_p2_run by blast
  from test_messages_do_not_mix [OF this(1)] m show ?thesis by blast
qed

end
