(* ===== verification/Phase2_Services.thy ===== *)
theory Phase2_Services
  imports Phase2_Run
begin

text \<open>What the processes of the test of phase 2 do by themselves: messages and start states.\<close>

section \<open>Messages\<close>

text \<open>The calls a program makes first, when the Nucleus answers with the list, and what is left of it.\<close>

fun make_calls :: "p2prog \<Rightarrow> u32 list \<Rightarrow> (int \<times> u32 \<times> u32) list \<times> p2prog" where
  "make_calls (Syscall c a b d k) (x # xs) = (let (cs, t) = make_calls (k x) xs in ((c, a, b) # cs, t))"
| "make_calls t xs = ([], t)"

definition received :: "u32 \<Rightarrow> bool" where
  "received x \<longleftrightarrow> x AND TERMSTATMASK = RECVD"

lemma print_loop_calls:
  "length xs = length m \<Longrightarrow> list_all received xs \<Longrightarrow>
   make_calls (print_loop m k) (xs @ ys) =
     (map (\<lambda>c. (DOIO, term0_command, print_value c)) m @ fst (make_calls k ys), snd (make_calls k ys))"
proof (induction m arbitrary: xs)
  case (Cons c m)
  then show ?case by (cases xs) (auto simp: received_def Let_def split_def)
qed simp

text \<open>
  C32. \<open>print\<close> takes the mutex, sends every character of the message and the newline to terminal 0 in
  order, each with the command \<open>PRINTCHR\<close>, gives the mutex back and goes on. If the device does not
  report a character as received, it stops the machine instead, and nothing more is sent.
\<close>

theorem print_sends_message:
  assumes "length xs = n" and "n \<le> length (msg @ [CHR 0x0A])" and "list_all received xs" and "m = msg @ [CHR 0x0A]"
  shows "if n = length m
    then make_calls (print_nl lk msg k) (x # xs @ [y]) =
      ((PASSEREN, word_at lk Sem_term_mut, 0) # map (\<lambda>c. (DOIO, term0_command, print_value c)) m @
        [(VERHOGEN, word_at lk Sem_term_mut, 0)], k)
    else \<not> received bad \<longrightarrow> make_calls (print_nl lk msg k) (x # xs @ bad # ys) =
      ((PASSEREN, word_at lk Sem_term_mut, 0) # map (\<lambda>c. (DOIO, term0_command, print_value c)) (take (Suc n) m),
       Panic_call)"
proof (cases "n = length m")
  case True
  then have "length xs = length m" using assms by simp
  from print_loop_calls [OF this assms(3), of "V_sem (word_at lk Sem_term_mut) k" "[y]"] True assms(4) show ?thesis
    by (cases k) (simp_all add: print_nl_def P_sem_def V_sem_def)
next
  case False
  with assms obtain c m2 where m: "m = take n m @ c # m2" "length (take n m) = n" "take (Suc n) m = take n m @ [c]"
    by (metis id_take_nth_drop le_neq_implies_less length_take min.absorb2 take_Suc_conv_app_nth less_imp_le)
  have split: "print_loop (m1 @ m2) k = print_loop m1 (print_loop m2 k)" for m1 m2 k by (induction m1) auto
  have "make_calls (print_loop m (V_sem (word_at lk Sem_term_mut) k)) (xs @ bad # ys) =
      (map (\<lambda>c. (DOIO, term0_command, print_value c)) (take (Suc n) m), Panic_call)" if "\<not> received bad"
    using print_loop_calls [of xs "take n m" "print_loop (c # m2) (V_sem (word_at lk Sem_term_mut) k)" "bad # ys"]
      m assms(1,3) that by (subst m(1), subst split) (simp add: received_def)
  with False assms(4) show ?thesis by (simp add: print_nl_def P_sem_def)
qed

theorem print_sends_message_witness:
  "make_calls (print_nl demo_p2 ''ok'' Leave) [0, 5, 261, 3, 9] =
    ([(PASSEREN, 0x20002000, 0), (DOIO, 0x10000260, 0x6F02), (DOIO, 0x10000260, 0x6B02), (DOIO, 0x10000260, 0x0A02)], Panic_call)"
  using print_sends_message [of "[5, 261]" 2 "''ok''" "''ok'' @ [CHR 0x0A]" demo_p2 Leave 0 0 3 "[9]"]
  by (simp add: received_def demo_p2_def term0_command_def print_value_def)

section \<open>The start states\<close>

text \<open>
  The local part of a program run at once, when \<open>STST\<close> gives \<open>st\<close> and the clock \<open>now\<close>.
\<close>

primrec run_local :: "p2_addrs \<Rightarrow> state_t \<Rightarrow> u32 \<Rightarrow> p2prog \<Rightarrow> nucleus \<Rightarrow> p2prog \<times> nucleus" where
  "run_local lk st now (Syscall c a b d k) s = (Syscall c a b d k, s)"
| "run_local lk st now (Load_word w k) s = run_local lk st now (k (mem s (word_at lk w))) s"
| "run_local lk st now (Store_word w x k) s = run_local lk st now k (s\<lparr>mem := (mem s)(word_at lk w := x)\<rparr>)"
| "run_local lk st now (Read_state n k) s = run_local lk st now (k (state_mem s (state_at lk n))) s"
| "run_local lk st now (Write_state n x k) s =
     run_local lk st now k (s\<lparr>state_mem := (state_mem s)(state_at lk n := x)\<rparr>)"
| "run_local lk st now (Read_support k) s = run_local lk st now (k (support_mem s (pFiveSupport lk))) s"
| "run_local lk st now (Write_support x k) s =
     run_local lk st now k (s\<lparr>support_mem := (support_mem s)(pFiveSupport lk := x)\<rparr>)"
| "run_local lk st now (Stst k) s = run_local lk st now (k st) s"
| "run_local lk st now (Stck k) s = run_local lk st now (k now) s"
| "run_local lk st now (Timescale k) s = run_local lk st now (k (mem s TIMESCALEADDR)) s"
| "run_local lk st now (Trap_load a k) s = (Trap_load a k, s)"
| "run_local lk st now (Trap_store a x k) s = (Trap_store a x k, s)"
| "run_local lk st now (Clock_delay k) s = (Clock_delay k, s)"
| "run_local lk st now (Resume x) s = (Resume x, s)"
| "run_local lk st now Panic_call s = (Panic_call, s)"
| "run_local lk st now Leave s = (Leave, s)"

definition local_steps :: "p2_addrs \<Rightarrow> p2prog \<Rightarrow> p2prog \<times> nucleus \<Rightarrow> p2prog \<times> nucleus \<Rightarrow> bool" where
  "local_steps lk left = (\<lambda>(t, s) (t', s'). local_step lk left t s t' s')\<^sup>*\<^sup>*"

lemma local_steps_into: "local_step lk left t s t1 s1 \<Longrightarrow> local_steps lk left (t1, s1) x \<Longrightarrow> local_steps lk left (t, s) x"
  unfolding local_steps_def by (rule converse_rtranclp_into_rtranclp) auto

lemma local_steps_refl: "local_steps lk left x x"
  by (simp add: local_steps_def)

lemma run_local_steps: "local_steps lk left (t, s) (run_local lk st now t s)"
proof (induction t arbitrary: s)
  case (Load_word w k)
  show ?case using local_steps_into [OF local_step.load_word Load_word.IH] by simp
next
  case (Store_word w x k)
  show ?case using local_steps_into [OF local_step.store_word Store_word.IH] by simp
next
  case (Read_state n k)
  show ?case using local_steps_into [OF local_step.read_state Read_state.IH] by simp
next
  case (Write_state n x k)
  show ?case using local_steps_into [OF local_step.write_state Write_state.IH] by simp
next
  case (Read_support k)
  show ?case using local_steps_into [OF local_step.read_support Read_support.IH] by simp
next
  case (Write_support x k)
  show ?case using local_steps_into [OF local_step.write_support Write_support.IH] by simp
next
  case (Stst k)
  show ?case using local_steps_into [OF local_step.stst Stst.IH] by simp
next
  case (Stck k)
  show ?case using local_steps_into [OF local_step.stck Stck.IH] by simp
next
  case (Timescale k)
  show ?case using local_steps_into [OF local_step.timescale Timescale.IH] by simp
qed (simp_all add: local_steps_refl)

primrec entry_of :: "p2state \<Rightarrow> p2proc" where
  "entry_of P2state = P2" | "entry_of P3state = P3" | "entry_of P4state = P4" | "entry_of P5state = P5"
| "entry_of P6state = P6" | "entry_of P7state = P7" | "entry_of P8rootstate = P8root"
| "entry_of Child1state = Child1" | "entry_of Child2state = Child2" | "entry_of Gchild1state = P8leaf1"
| "entry_of Gchild2state = P8leaf2" | "entry_of Gchild3state = P8leaf3" | "entry_of Gchild4state = P8leaf4"
| "entry_of P9state = P9" | "entry_of P10state = P10" | "entry_of Hp_p1state = Hp_p1" | "entry_of Hp_p2state = Hp_p2"

text \<open>The stacks are numbered down from the one of the root process.\<close>

primrec stack_no :: "p2state \<Rightarrow> nat" where
  "stack_no Hp_p1state = 1" | "stack_no Hp_p2state = 2" | "stack_no P2state = 3" | "stack_no P3state = 4"
| "stack_no P4state = 5" | "stack_no P5state = 7" | "stack_no P6state = 9" | "stack_no P7state = 10"
| "stack_no P8rootstate = 11" | "stack_no Child1state = 12" | "stack_no Child2state = 13"
| "stack_no Gchild1state = 14" | "stack_no Gchild2state = 15" | "stack_no Gchild3state = 16"
| "stack_no Gchild4state = 17" | "stack_no P9state = 18" | "stack_no P10state = 19"

definition stack_of :: "u32 \<Rightarrow> nat \<Rightarrow> u32 set" where
  "stack_of sp n = (\<lambda>i. sp - QPAGE * of_nat n - 1 - of_nat i) ` {..<1024}"

lemma stack_disjoint:
  assumes "m < n" and "n \<le> 20"
  shows "stack_of sp m \<inter> stack_of sp n = {}"
proof -
  have False if e: "sp - QPAGE * of_nat m - 1 - of_nat i = sp - QPAGE * of_nat n - 1 - of_nat j" and l: "i < 1024" "j < 1024" for i j
  proof -
    have "(of_nat (1024 * m + i) :: u32) = of_nat (1024 * n + j)" using e by (simp add: algebra_simps)
    then have "unat (of_nat (1024 * m + i) :: u32) = unat (of_nat (1024 * n + j) :: u32)" by simp
    moreover have "unat (of_nat x :: u32) = x" if "x < 30000" for x
      using that by (simp add: unat_of_nat take_bit_nat_eq_self)
    moreover have "1024 * m + i < 30000" "1024 * n + j < 30000" using assms l by simp_all
    ultimately have "1024 * m + i = 1024 * n + j" by metis
    with assms l show False by simp
  qed
  then show ?thesis unfolding stack_of_def by blast
qed

lemma stack_no_range: "stack_no n \<noteq> 0 \<and> stack_no n \<noteq> 6 \<and> stack_no n \<le> 20"
  by (cases n) simp_all

lemma stack_no_inj: "stack_no m = stack_no n \<Longrightarrow> m = n"
  by (cases m; cases n) simp_all

lemma stacks_disjoint: "m \<noteq> n \<Longrightarrow> m \<le> 20 \<Longrightarrow> n \<le> 20 \<Longrightarrow> stack_of sp m \<inter> stack_of sp n = {}"
  using stack_disjoint [of m n sp] stack_disjoint [of n m sp] by (cases m n rule: linorder_cases) auto

text \<open>
  C33. The start states: when the root process has set them up, every process starts at the address of
  its function, with the mode bits of kernel mode and the interrupt enable bit set in its status and
  every interrupt enabled in \<open>mie\<close>, at the top of a page of stack of its own, apart from the one of the
  root process. No process has page 6 below the root's: it is the one \<open>p4\<close> gives its second incarnation,
  when it moves the stack pointer of its start state down by a page. The stack of the handlers of \<open>p5\<close>
  is not free: it is the one of \<open>p5\<close> itself.
\<close>

theorem start_states_are_separate:
  assumes lk: "inj (state_at lk)" and sp: "sp = reg_sp st"
    and r: "run_local lk st now (set_up_states lk (set_up_p5 lk Leave)) s = (Leave, s')"
  shows "(\<forall>n. let x = state_mem s' (state_at lk n) in
      pc_epc x = code_at lk (entry_of n) \<and> reg_sp x = sp - 1024 * of_nat (stack_no n) \<and>
      status x AND 0x1800 = 0x1800 \<and> status x AND 8 = 8 \<and> mie x = MIE_ALL) \<and>
    (\<forall>n. stack_of sp (stack_no n) \<inter> (stack_of sp 0 \<union> stack_of sp 6) = {}) \<and>
    (\<forall>m n. m \<noteq> n \<longrightarrow> stack_of sp (stack_no m) \<inter> stack_of sp (stack_no n) = {}) \<and>
    (\<exists>k s''. run_local lk st now (p4_second lk) s' = (create lk P4state PROCESS_PRIO_LOW 0 k, s'') \<and>
      state_mem s'' (state_at lk P4state) = (state_mem s' (state_at lk P4state))\<lparr>reg_sp := sp - 1024 * 6\<rparr>) \<and>
    (\<forall>e\<in>{GENERALEXCEPT, PGFAULTEXCEPT}.
      stackPtr (sup_exceptContext (support_mem s' (pFiveSupport lk)) e) = reg_sp (state_mem s' (state_at lk P5state)))"
proof (intro conjI)
  have ne: "state_at lk m \<noteq> state_at lk n" if "m \<noteq> n" for m n using lk that by (auto dest: injD)
  have s': "s' = snd (run_local lk st now (set_up_states lk (set_up_p5 lk Leave)) s)" by (simp add: r)
  have st: "state_mem s' (state_at lk n) = start_state lk (entry_of n) (sp - QPAGE * of_nat (stack_no n)) st" for n
    unfolding s' sp
    by (cases n) (simp_all add: set_up_states_def set_up_def set_up_p5_def Let_def ne)
  have bits: "(w OR 0x1808) AND 0x1800 = 0x1800 \<and> (w OR 0x1808) AND 8 = 8" for w :: u32
    by (simp add: bit.conj_disj_distrib2)
  show "\<forall>n. let x = state_mem s' (state_at lk n) in
      pc_epc x = code_at lk (entry_of n) \<and> reg_sp x = sp - 1024 * of_nat (stack_no n) \<and>
      status x AND 0x1800 = 0x1800 \<and> status x AND 8 = 8 \<and> mie x = MIE_ALL"
    using bits by (simp add: st start_state_def)
  show "\<forall>n. stack_of sp (stack_no n) \<inter> (stack_of sp 0 \<union> stack_of sp 6) = {}"
    using stacks_disjoint [of "stack_no n" 0 for n] stacks_disjoint [of "stack_no n" 6 for n] stack_no_range
    by (simp add: Int_Un_distrib)
  show "\<forall>m n. m \<noteq> n \<longrightarrow> stack_of sp (stack_no m) \<inter> stack_of sp (stack_no n) = {}"
    using stacks_disjoint stack_no_range stack_no_inj by metis
  show "\<exists>k s''. run_local lk st now (p4_second lk) s' = (create lk P4state PROCESS_PRIO_LOW 0 k, s'') \<and>
      state_mem s'' (state_at lk P4state) = (state_mem s' (state_at lk P4state))\<lparr>reg_sp := sp - 1024 * 6\<rparr>"
    using st [of P4state] by (simp add: p4_second_def create_def start_state_def)
  show "\<forall>e\<in>{GENERALEXCEPT, PGFAULTEXCEPT}.
      stackPtr (sup_exceptContext (support_mem s' (pFiveSupport lk)) e) = reg_sp (state_mem s' (state_at lk P5state))"
    using st [of P5state] unfolding s' sp
    by (simp add: set_up_states_def set_up_def set_up_p5_def p5_context_def start_state_def Let_def)
qed

theorem start_states_are_separate_witness:
  "\<exists>s'. run_local (demo_p2\<lparr>state_at := \<lambda>n. 0x20004000 + 256 * of_nat (stack_no n)\<rparr>) demo_state 0
      (set_up_states (demo_p2\<lparr>state_at := \<lambda>n. 0x20004000 + 256 * of_nat (stack_no n)\<rparr>)
        (set_up_p5 (demo_p2\<lparr>state_at := \<lambda>n. 0x20004000 + 256 * of_nat (stack_no n)\<rparr>) Leave)) demo_run = (Leave, s') \<and>
    stackPtr (sup_exceptContext (support_mem s' 0x20008000) GENERALEXCEPT) =
      reg_sp (state_mem s' (0x20004000 + 256 * 7))"
proof -
  let ?lk = "demo_p2\<lparr>state_at := \<lambda>n. 0x20004000 + 256 * of_nat (stack_no n)\<rparr>"
  have "unat (state_at ?lk n) = 0x20004000 + 256 * stack_no n" for n
    using stack_no_range [of n] by (simp add: unat_word_ariths unat_of_nat take_bit_nat_eq_self)
  then have "inj (state_at ?lk)" using stack_no_inj by (intro injI) (metis add_left_cancel mult_left_cancel zero_neq_numeral)
  moreover obtain s' where r: "run_local ?lk demo_state 0 (set_up_states ?lk (set_up_p5 ?lk Leave)) demo_run = (Leave, s')"
    by (simp add: set_up_states_def set_up_def set_up_p5_def Let_def)
  ultimately have "stackPtr (sup_exceptContext (support_mem s' (pFiveSupport ?lk)) GENERALEXCEPT) =
      reg_sp (state_mem s' (state_at ?lk P5state))"
    using start_states_are_separate [OF _ refl r] by blast
  then show ?thesis using r by (simp add: demo_p2_def)
qed

end
