(* ===== verification/Support.thy ===== *)
theory Support
  imports Exceptions
begin

text \<open>
  The state of the support level (\<^verbatim>\<open>phase3/headers/support.h\<close>) and the programs its handlers are.

  The handlers run as processes, with interrupts enabled: between two steps of one, others run. So
  a handler is not a function from states to states but a value of type \<open>prog\<close>, the tree of its
  steps: a read or a write of the shared state, an access to the memory of the user program, a call
  of the Nucleus, whose answer selects the rest, or a final step. A C function that returns takes
  the rest of its caller as its last argument. \<open>run\<close> executes a program in an environment that
  answers the calls and may change the state at each of them.
\<close>

section \<open>Constants\<close>

abbreviation (input) KUSEG :: u32 where "KUSEG \<equiv> 0x80000000"
abbreviation (input) RAMSTART :: u32 where "RAMSTART \<equiv> 0x20000000"
abbreviation (input) OSFRAMES :: u32 where "OSFRAMES \<equiv> 32"
abbreviation (input) IL_DISK :: nat where "IL_DISK \<equiv> 17"
abbreviation (input) IL_FLASH :: nat where "IL_FLASH \<equiv> 18"
abbreviation (input) IL_TERMINAL :: nat where "IL_TERMINAL \<equiv> 21"
abbreviation (input) DIRTYON :: u32 where "DIRTYON \<equiv> 0x400"
abbreviation (input) VALIDON :: u32 where "VALIDON \<equiv> 0x200"
abbreviation (input) VPNSHIFT :: nat where "VPNSHIFT \<equiv> 12"
abbreviation (input) ASIDSHIFT :: nat where "ASIDSHIFT \<equiv> 6"
abbreviation (input) TRANSMITCHAR :: u32 where "TRANSMITCHAR \<equiv> 2"
abbreviation (input) RECEIVECHAR :: u32 where "RECEIVECHAR \<equiv> 2"
abbreviation (input) FLASHREAD :: u32 where "FLASHREAD \<equiv> 2"
abbreviation (input) FLASHWRITE :: u32 where "FLASHWRITE \<equiv> 3"
abbreviation (input) UPROCSTARTADDR :: u32 where "UPROCSTARTADDR \<equiv> 0x800000B0"
abbreviation (input) USERSTACKTOP :: u32 where "USERSTACKTOP \<equiv> 0xC0000000"
abbreviation (input) UPROCMAX :: nat where "UPROCMAX \<equiv> 8"
abbreviation (input) POOLSIZE :: nat where "POOLSIZE \<equiv> UPROCMAX * 2"

abbreviation (input) SWAP_POOL_START :: u32 where "SWAP_POOL_START \<equiv> RAMSTART + OSFRAMES * PAGESIZE"
abbreviation (input) SWAP_POOL_SIZE :: nat where "SWAP_POOL_SIZE \<equiv> POOLSIZE"
abbreviation (input) KUSEG_VPN_START :: u32 where "KUSEG_VPN_START \<equiv> 0x80000"
abbreviation (input) KUSEG_STACK_VPN :: u32 where "KUSEG_STACK_VPN \<equiv> 0xBFFFF"
abbreviation (input) UPROC_STACKPAGE :: nat where "UPROC_STACKPAGE \<equiv> 31"
abbreviation (input) UPROC_TEXTPAGES :: nat where "UPROC_TEXTPAGES \<equiv> 31"
abbreviation (input) SWAP_FRAME_FREE :: u32 where "SWAP_FRAME_FREE \<equiv> -1"
abbreviation (input) UPROC_STATUS :: u32 where "UPROC_STATUS \<equiv> MSTATUS_MPIE_MASK OR MSTATUS_MPP_U"
abbreviation (input) SUPPORT_STATUS :: u32 where
  "SUPPORT_STATUS \<equiv> MSTATUS_MIE_MASK OR MSTATUS_MPIE_MASK OR MSTATUS_MPP_M"
abbreviation (input) SUP_TERMINATE :: int where "SUP_TERMINATE \<equiv> 2"
abbreviation (input) SUP_WRITETERMINAL :: int where "SUP_WRITETERMINAL \<equiv> 4"
abbreviation (input) SUP_READTERMINAL :: int where "SUP_READTERMINAL \<equiv> 5"
abbreviation (input) SUP_EXECUTE :: int where "SUP_EXECUTE \<equiv> 6"
abbreviation (input) MAXSTRLEN :: int where "MAXSTRLEN \<equiv> 128"
abbreviation (input) DEVPERINT :: nat where "DEVPERINT \<equiv> 8"
abbreviation (input) DEVCNT :: nat where "DEVCNT \<equiv> 40"
abbreviation (input) DEV_MUTEX_TOTAL :: nat where "DEV_MUTEX_TOTAL \<equiv> DEVCNT + DEVPERINT"

text \<open>Values of the uRISCV library: the status of an idle device, two exception codes.\<close>

abbreviation (input) READY :: u32 where "READY \<equiv> 1"
abbreviation (input) EXC_MOD :: u32 where "EXC_MOD \<equiv> 24"
abbreviation (input) EXC_ECU :: u32 where "EXC_ECU \<equiv> 8"

definition FLASH_MUTEX :: "nat \<Rightarrow> nat" where "FLASH_MUTEX dev = (IL_FLASH - IL_DISK) * DEVPERINT + dev"
definition TERMW_MUTEX :: "nat \<Rightarrow> nat" where "TERMW_MUTEX dev = (IL_TERMINAL - IL_DISK) * DEVPERINT + dev"
definition TERMR_MUTEX :: "nat \<Rightarrow> nat" where "TERMR_MUTEX dev = DEVCNT + dev"

section \<open>State\<close>

text \<open>
  The addresses the linker gives to the variables and handlers, the address of the local variable
  \<open>s\<close> of \<open>launchUproc\<close>, and the macro \<open>DEV_REG_ADDR\<close> of the library.
\<close>

record link_addrs =
  a_swapPoolSem :: u32
  a_masterSemaphore :: u32
  a_shellSemaphore :: u32
  a_devMutex :: u32
  a_supportPool :: u32
  a_pager :: u32
  a_generalExceptionHandler :: u32
  a_local_state :: u32
  DEV_REG_ADDR :: "nat \<Rightarrow> nat \<Rightarrow> u32"

definition devMutex :: "link_addrs \<Rightarrow> nat \<Rightarrow> u32" where
  "devMutex lk i = a_devMutex lk + 4 * of_nat i"

text \<open>A pointer to a page table entry is a support structure and an index.\<close>

type_synonym pte_ptr = "u32 \<times> nat"

record swap_t =
  sw_asid :: u32
  sw_pageNo :: nat
  sw_pte :: pte_ptr

text \<open>
  \<open>smem\<close> holds the semaphores and device registers, \<open>umem a\<close> the user memory of the process with
  identifier \<open>a\<close> as it sees it, \<open>state_area\<close> the processor states on kernel stacks. \<open>tlb_random n\<close>
  is the entry the processor chooses at the \<open>n\<close>-th \<open>TLBWR\<close>. \<open>frame_data\<close> is the contents of the
  frames, \<open>flash_data d b\<close> of the blocks of the flash devices; only devices change them here.
\<close>

type_synonym page = "u32 list"

record slevel =
  swapPool :: "nat \<Rightarrow> swap_t"
  fifoNext :: nat
  supports :: "u32 \<Rightarrow> support_t"
  smem :: "u32 \<Rightarrow> u32"
  umem :: "u32 \<Rightarrow> u32 \<Rightarrow> 8 word"
  state_area :: "u32 \<Rightarrow> state_t"
  s_status :: u32
  s_entryhi :: u32
  s_entrylo :: u32
  s_tlb :: "(u32 \<times> u32) list"
  tlb_random :: "nat \<Rightarrow> nat"
  tlb_writes :: nat
  frame_data :: "u32 \<Rightarrow> page"
  flash_data :: "nat \<Rightarrow> nat \<Rightarrow> page"

definition store_word :: "u32 \<Rightarrow> u32 \<Rightarrow> slevel \<Rightarrow> slevel" where
  [simp]: "store_word a v s = s\<lparr>smem := (smem s)(a := v)\<rparr>"

definition upd_support :: "u32 \<Rightarrow> (support_t \<Rightarrow> support_t) \<Rightarrow> slevel \<Rightarrow> slevel" where
  [simp]: "upd_support su f s = s\<lparr>supports := (supports s)(su := f (supports s su))\<rparr>"

definition get_pte :: "slevel \<Rightarrow> pte_ptr \<Rightarrow> pteEntry_t" where
  "get_pte s = (\<lambda>(su, p). sup_privatePgTbl (supports s su) p)"

definition upd_pte :: "pte_ptr \<Rightarrow> (pteEntry_t \<Rightarrow> pteEntry_t) \<Rightarrow> slevel \<Rightarrow> slevel" where
  "upd_pte = (\<lambda>(su, p) f. upd_support su
     (\<lambda>u. u\<lparr>sup_privatePgTbl := (sup_privatePgTbl u)(p := f (sup_privatePgTbl u p))\<rparr>))"

definition ex_state :: "slevel \<Rightarrow> u32 \<Rightarrow> nat \<Rightarrow> state_t" where
  "ex_state s su e = sup_exceptState (supports s su) e"

definition asid_of :: "slevel \<Rightarrow> u32 \<Rightarrow> u32" where
  "asid_of s su = sup_asid (supports s su)"

section \<open>Pages\<close>

definition vpnToIndex :: "u32 \<Rightarrow> int" where
  "vpnToIndex entryHI =
     (let vpn = drop_bit VPNSHIFT entryHI AND 0xFFFFF in
      if vpn = KUSEG_STACK_VPN then int UPROC_STACKPAGE
      else if vpn \<ge> KUSEG_VPN_START \<and> vpn < KUSEG_VPN_START + of_nat UPROC_TEXTPAGES
      then sint (vpn - KUSEG_VPN_START)
      else -1)"

definition valid :: "pteEntry_t \<Rightarrow> bool" where
  "valid e \<longleftrightarrow> pte_entryLO e AND VALIDON \<noteq> 0"

text \<open>The page table with the entries at \<open>su\<close> has the page of the address \<open>va\<close>.\<close>

definition resident :: "slevel \<Rightarrow> u32 \<Rightarrow> u32 \<Rightarrow> bool" where
  "resident s su va \<longleftrightarrow> 0 \<le> vpnToIndex va \<and> valid (get_pte s (su, nat (vpnToIndex va)))"

section \<open>Programs\<close>

text \<open>
  \<open>Access su va f k\<close> is an instruction of a handler that loads or stores at the user address \<open>va\<close>:
  its effect on the state is \<open>f\<close>, and the rest is \<open>k s\<close> if it is executed in state \<open>s\<close>.
\<close>

datatype prog =
    Return
  | Syscall int u32 u32 u32 "u32 \<Rightarrow> prog"  \<comment> \<open>\<open>SYSCALL(a0, a1, a2, a3)\<close> and what follows its result\<close>
  | Read "slevel \<Rightarrow> prog"
  | Write "slevel \<Rightarrow> slevel" prog
  | Access u32 u32 "slevel \<Rightarrow> slevel" "slevel \<Rightarrow> prog"
  | Load state_t                            \<comment> \<open>\<open>LDST\<close>: the user program goes on\<close>
  | No_fuel

abbreviation P :: "u32 \<Rightarrow> prog \<Rightarrow> prog" where "P sem k \<equiv> Syscall PASSEREN sem 0 0 (\<lambda>_. k)"
abbreviation V :: "u32 \<Rightarrow> prog \<Rightarrow> prog" where "V sem k \<equiv> Syscall VERHOGEN sem 0 0 (\<lambda>_. k)"

text \<open>\<open>Faulted\<close>: the process has been terminated at an access to its memory.\<close>

datatype ending = Returned | Loaded state_t | Terminated | Faulted | Exhausted

text \<open>
  A call, and the state at this call. A page fault of a handler is an event too: the Nucleus passes
  it up to the pager, in the middle of the handler. It is not a call, so its number is 0, and its
  arguments are the address and the support structure.
\<close>

abbreviation (input) PAGE_FAULT :: int where "PAGE_FAULT \<equiv> 0"

record event =
  ev_call :: int
  ev_a1 :: u32
  ev_a2 :: u32
  ev_a3 :: u32
  ev_state :: slevel

text \<open>A call of the Nucleus with one argument.\<close>

abbreviation call :: "int \<Rightarrow> u32 \<Rightarrow> slevel \<Rightarrow> event" where
  "call c x s \<equiv> \<lparr>ev_call = c, ev_a1 = x, ev_a2 = 0, ev_a3 = 0, ev_state = s\<rparr>"

definition page_fault :: "u32 \<Rightarrow> u32 \<Rightarrow> slevel \<Rightarrow> event" where
  "page_fault su va s = \<lparr>ev_call = PAGE_FAULT, ev_a1 = va, ev_a2 = su, ev_a3 = 0, ev_state = s\<rparr>"

text \<open>
  The environment answers the \<open>n\<close>-th call; a process that calls \<open>TERMPROCESS\<close> for itself does not
  go on. At a page fault the environment stands for the pager and what runs meanwhile: the state it
  answers is the one in which the instruction is executed again, or, if the page is still missing
  there, the one in which the pager has terminated the process. Page faults are not numbered.
\<close>

type_synonym env = "nat \<Rightarrow> event \<Rightarrow> u32 \<times> slevel"

definition next_index :: "int \<Rightarrow> nat \<Rightarrow> nat" where
  "next_index c n = (if c = PAGE_FAULT then n else Suc n)"

lemma next_index [simp]: "next_index 0 n = n" "c \<noteq> 0 \<Longrightarrow> next_index c n = Suc n"
  by (simp_all add: next_index_def)

primrec run :: "prog \<Rightarrow> env \<Rightarrow> nat \<Rightarrow> slevel \<Rightarrow> event list \<times> ending \<times> slevel" where
  "run Return env n s = ([], Returned, s)"
| "run (Syscall c a b d k) env n s =
     (let e = \<lparr>ev_call = c, ev_a1 = a, ev_a2 = b, ev_a3 = d, ev_state = s\<rparr>;
          (r, s') = env n e;
          (es, f, t) = run (k r) env (next_index c n) s'
      in if c = TERMPROCESS \<and> a = 0 then ([e], Terminated, s) else (e # es, f, t))"
| "run (Read k) env n s = run (k s) env n s"
| "run (Write f k) env n s = run k env n (f s)"
| "run (Access su va f k) env n s =
     (if resident s su va then run (k s) env n (f s)
      else let e = page_fault su va s;
               s' = snd (env n e);
               (es, x, t) = run (k s') env n (f s')
           in if resident s' su va then (e # es, x, t) else ([e], Faulted, s'))"
| "run (Load st) env n s = ([], Loaded st, s)"
| "run No_fuel env n s = ([], Exhausted, s)"

end
