(* ===== verification/VmSupport.thy ===== *)
theory VmSupport
  imports Support
begin

text \<open>
  \<^verbatim>\<open>phase3/vmSupport.c\<close>: the swap pool, the page tables and the pager; and \<open>supTerminate\<close> of
  \<^verbatim>\<open>phase3/sysSupport.c\<close>, which the pager calls. \<open>vpnToIndex\<close> is in \<open>Support\<close>, where the accesses to
  user memory need it.
\<close>

section \<open>Utilities\<close>

definition interruptsOff :: "slevel \<Rightarrow> slevel" where
  "interruptsOff s = s\<lparr>s_status := s_status s AND NOT MSTATUS_MIE_MASK\<rparr>"

definition interruptsOn :: "slevel \<Rightarrow> slevel" where
  "interruptsOn s = s\<lparr>s_status := s_status s OR MSTATUS_MIE_MASK\<rparr>"

definition frameAddr :: "nat \<Rightarrow> u32" where
  "frameAddr i = SWAP_POOL_START + of_nat i * PAGESIZE"

text \<open>\<open>TLBCLR\<close> empties the TLB, \<open>TLBWR\<close> writes the entry registers to an entry of its choice.\<close>

definition sTLBCLR :: "slevel \<Rightarrow> slevel" where
  "sTLBCLR s = s\<lparr>s_tlb := map (\<lambda>_. (0, 0)) (s_tlb s)\<rparr>"

definition sTLBWR :: "slevel \<Rightarrow> slevel" where
  "sTLBWR s = s\<lparr>s_tlb := (s_tlb s)[tlb_random s (tlb_writes s) := (s_entryhi s, s_entrylo s)],
     tlb_writes := Suc (tlb_writes s)\<rparr>"

text \<open>Between \<open>interruptsOff\<close> and \<open>interruptsOn\<close> nobody else runs: the whole function is one step.\<close>

definition markPageNotValid :: "pte_ptr \<Rightarrow> slevel \<Rightarrow> slevel" where
  "markPageNotValid pte s =
     (let s = interruptsOff s;
          s = upd_pte pte (\<lambda>e. e\<lparr>pte_entryLO := pte_entryLO e AND NOT VALIDON\<rparr>) s;
          s = sTLBCLR s
      in interruptsOn s)"

definition markPagePresent :: "pte_ptr \<Rightarrow> u32 \<Rightarrow> slevel \<Rightarrow> slevel" where
  "markPagePresent pte phys s =
     (let s = interruptsOff s;
          s = upd_pte pte (\<lambda>e. e\<lparr>pte_entryLO := phys OR DIRTYON OR VALIDON\<rparr>) s;
          s = sTLBCLR s;
          s = s\<lparr>s_entryhi := pte_entryHI (get_pte s pte)\<rparr>;
          s = s\<lparr>s_entrylo := pte_entryLO (get_pte s pte)\<rparr>;
          s = sTLBWR s
      in interruptsOn s)"

section \<open>Initialisation\<close>

definition free_frame :: "nat \<Rightarrow> slevel \<Rightarrow> slevel" where
  "free_frame i s = s\<lparr>swapPool := (swapPool s)(i := (swapPool s i)\<lparr>sw_asid := SWAP_FRAME_FREE\<rparr>)\<rparr>"

definition initSwapStructs :: "link_addrs \<Rightarrow> slevel \<Rightarrow> slevel" where
  "initSwapStructs lk s =
     (let s = store_word (a_swapPoolSem lk) 1 s;
          s = s\<lparr>fifoNext := 0\<rparr>
      in fold free_frame [0..<SWAP_POOL_SIZE] s)"

definition initUprocPageTable :: "u32 \<Rightarrow> slevel \<Rightarrow> slevel" where
  "initUprocPageTable su s =
     (let asid = asid_of s su;
          s = fold (\<lambda>i. upd_pte (su, i) (\<lambda>e. e\<lparr>
                pte_entryHI := push_bit VPNSHIFT (KUSEG_VPN_START + of_nat i) OR push_bit ASIDSHIFT asid,
                pte_entryLO := DIRTYON\<rparr>)) [0..<UPROC_TEXTPAGES] s
      in upd_pte (su, UPROC_STACKPAGE) (\<lambda>e. e\<lparr>
           pte_entryHI := push_bit VPNSHIFT KUSEG_STACK_VPN OR push_bit ASIDSHIFT asid,
           pte_entryLO := DIRTYON\<rparr>) s)"

section \<open>Backing store\<close>

definition flashOperation ::
  "link_addrs \<Rightarrow> u32 \<Rightarrow> nat \<Rightarrow> u32 \<Rightarrow> u32 \<Rightarrow> (u32 \<Rightarrow> prog) \<Rightarrow> prog" where
  "flashOperation lk asid blockNo fa op k =
     (let devNo = unat (asid - 1);
          flash = DEV_REG_ADDR lk IL_FLASH devNo;
          mutex = FLASH_MUTEX devNo;
          command = push_bit 8 (of_nat blockNo) OR op
      in P (devMutex lk mutex)
           (Write (store_word (reg_word flash 2) fa)
             (Syscall DOIO (reg_word flash 1) command 0 (\<lambda>status.
               V (devMutex lk mutex) (k status)))))"

section \<open>Termination of a process\<close>

definition supTerminate :: "link_addrs \<Rightarrow> u32 \<Rightarrow> prog \<Rightarrow> prog" where
  "supTerminate lk asid k =
     P (a_swapPoolSem lk)
       (foldr (\<lambda>i. Write (\<lambda>s. if sw_asid (swapPool s i) = asid then free_frame i s else s))
         [0..<SWAP_POOL_SIZE]
         (V (a_swapPoolSem lk)
           (V (if asid = 1 then a_masterSemaphore lk else a_shellSemaphore lk)
             (Syscall TERMPROCESS 0 0 0 (\<lambda>_. k)))))"

text \<open>\<open>supTerminate(sup->sup_asid)\<close>.\<close>

definition terminate_self :: "link_addrs \<Rightarrow> u32 \<Rightarrow> prog \<Rightarrow> prog" where
  "terminate_self lk su k = Read (\<lambda>s. supTerminate lk (asid_of s su) k)"

section \<open>The pager\<close>

text \<open>From the read of the missing page on; \<open>i\<close> is the chosen frame.\<close>

definition pager_load :: "link_addrs \<Rightarrow> u32 \<Rightarrow> nat \<Rightarrow> nat \<Rightarrow> prog" where
  "pager_load lk su p i =
     Read (\<lambda>s. flashOperation lk (asid_of s su) p (frameAddr i) FLASHREAD (\<lambda>st.
       if st \<noteq> READY then V (a_swapPoolSem lk) (terminate_self lk su Return)
       else
         Write (\<lambda>s. s\<lparr>swapPool := (swapPool s)(i := (swapPool s i)\<lparr>sw_asid := asid_of s su\<rparr>)\<rparr>)
        (Write (\<lambda>s. s\<lparr>swapPool := (swapPool s)(i := (swapPool s i)\<lparr>sw_pageNo := p\<rparr>)\<rparr>)
        (Write (\<lambda>s. s\<lparr>swapPool := (swapPool s)(i := (swapPool s i)\<lparr>sw_pte := (su, p)\<rparr>)\<rparr>)
        (Write (markPagePresent (su, p) (frameAddr i))
        (V (a_swapPoolSem lk) (Read (\<lambda>s. Load (ex_state s su PGFAULTEXCEPT)))))))))"

text \<open>Eviction of the page in the frame, if there is one.\<close>

definition pager_evict :: "link_addrs \<Rightarrow> u32 \<Rightarrow> nat \<Rightarrow> prog \<Rightarrow> prog" where
  "pager_evict lk su i k =
     Read (\<lambda>s. if sw_asid (swapPool s i) = SWAP_FRAME_FREE then k
       else
         let victimAsid = sw_asid (swapPool s i);
             victimPage = sw_pageNo (swapPool s i);
             victimPte = sw_pte (swapPool s i)
         in Write (markPageNotValid victimPte)
              (flashOperation lk victimAsid victimPage (frameAddr i) FLASHWRITE (\<lambda>st.
                if st \<noteq> READY then V (a_swapPoolSem lk) (terminate_self lk su Return)
                else k)))"

definition pager :: "link_addrs \<Rightarrow> prog" where
  "pager lk =
     Syscall GETSUPPORTPTR 0 0 0 (\<lambda>su.
       Read (\<lambda>s. if cause (ex_state s su PGFAULTEXCEPT) AND CAUSE_EXCCODE_MASK = EXC_MOD
         then terminate_self lk su Return
         else P (a_swapPoolSem lk) (Read (\<lambda>s.
           let p = vpnToIndex (entry_hi (ex_state s su PGFAULTEXCEPT)) in
           if p < 0 then V (a_swapPoolSem lk) (terminate_self lk su Return)
           else
             let i = fifoNext s in
             Write (\<lambda>s. s\<lparr>fifoNext := (fifoNext s + 1) mod SWAP_POOL_SIZE\<rparr>)
               (pager_evict lk su i (pager_load lk su (nat p) i))))))"

end
