(* ===== verification/InitProc.thy ===== *)
theory InitProc
  imports VmSupport
begin

text \<open>
  \<^verbatim>\<open>phase3/initProc.c\<close>: the start of the support level and of its processes. A \<open>support_t\<close> is 4588
  bytes: the identifier, two states, two contexts, the page table, two stacks of 500 words and a
  list link.
\<close>

definition sizeof_support :: nat where
  "sizeof_support = 4 + 2 * STATE_T_SIZE_IN_BYTES + 2 * 12 + 32 * 8 + 500 * 4 + 500 * 4 + 8"

definition sup_stackTLB :: "u32 \<Rightarrow> nat \<Rightarrow> u32" where
  "sup_stackTLB su i = su + of_nat (4 + 2 * STATE_T_SIZE_IN_BYTES + 2 * 12 + 32 * 8 + 4 * i)"

definition sup_stackGen :: "u32 \<Rightarrow> nat \<Rightarrow> u32" where
  "sup_stackGen su i = sup_stackTLB su (500 + i)"

definition getSupport :: "link_addrs \<Rightarrow> u32 \<Rightarrow> u32" where
  "getSupport lk asid = a_supportPool lk + (asid - 1) * of_nat sizeof_support"

definition set_context :: "nat \<Rightarrow> context_t \<Rightarrow> support_t \<Rightarrow> support_t" where
  "set_context e c u = u\<lparr>sup_exceptContext := (sup_exceptContext u)(e := c)\<rparr>"

text \<open>The state of a new process: all words zero but five.\<close>

definition zero_state :: state_t where
  "zero_state = \<lparr>entry_hi = 0, cause = 0, status = 0, pc_epc = 0, mie = 0, reg_sp = 0, reg_a0 = 0,
     reg_a1 = 0, reg_a2 = 0, reg_a3 = 0, gpr_rest = \<lambda>_. 0\<rparr>"

definition uproc_state :: "u32 \<Rightarrow> state_t" where
  "uproc_state asid = zero_state\<lparr>pc_epc := UPROCSTARTADDR, reg_sp := USERSTACKTOP, status := UPROC_STATUS,
     mie := MIE_ALL, entry_hi := push_bit ASIDSHIFT asid\<rparr>"

definition setup_support :: "link_addrs \<Rightarrow> u32 \<Rightarrow> slevel \<Rightarrow> slevel" where
  "setup_support lk asid s =
     (let su = getSupport lk asid;
          s = upd_support su (\<lambda>u. u\<lparr>sup_asid := asid\<rparr>) s;
          s = initUprocPageTable su s;
          s = upd_support su (set_context PGFAULTEXCEPT
                \<lparr>stackPtr = sup_stackTLB su 499, ctx_status = SUPPORT_STATUS, ctx_pc = a_pager lk\<rparr>) s
      in upd_support su (set_context GENERALEXCEPT
           \<lparr>stackPtr = sup_stackGen su 499, ctx_status = SUPPORT_STATUS,
            ctx_pc = a_generalExceptionHandler lk\<rparr>) s)"

definition launchUproc :: "link_addrs \<Rightarrow> u32 \<Rightarrow> prog \<Rightarrow> prog" where
  "launchUproc lk asid k =
     Write (setup_support lk asid)
    (Write (\<lambda>s. s\<lparr>state_area := (state_area s)(a_local_state lk := uproc_state asid)\<rparr>)
    (Syscall CREATEPROCESS (a_local_state lk) PROCESS_PRIO_LOW (getSupport lk asid) (\<lambda>_. k)))"

definition test :: "link_addrs \<Rightarrow> prog" where
  "test lk =
     Write (initSwapStructs lk)
    (Write (store_word (a_masterSemaphore lk) 0)
    (Write (store_word (a_shellSemaphore lk) 0)
    (Write (fold (\<lambda>i. store_word (devMutex lk i) 1) [0..<DEV_MUTEX_TOTAL])
    (launchUproc lk 1
    (P (a_masterSemaphore lk)
    (Syscall TERMPROCESS 0 0 0 (\<lambda>_. Return)))))))"

end
