(* ===== verification/SysSupport.thy ===== *)
theory SysSupport
  imports InitProc
begin

text \<open>
  \<^verbatim>\<open>phase3/sysSupport.c\<close>: the general exception handler and the system calls of the support level.
  \<open>readTerminal\<close> reads until the end of the line, so its loop takes a bound on the number of
  characters (\<open>fuel\<close>).
\<close>

section \<open>Terminal output and input\<close>

definition write_cmd :: "8 word \<Rightarrow> u32" where
  "write_cmd c = push_bit 8 (ucast c) OR TRANSMITCHAR"

text \<open>\<open>-(int)(status & 0xFF)\<close>.\<close>

definition neg_status :: "u32 \<Rightarrow> u32" where
  "neg_status st = - (st AND 0xFF)"

text \<open>The loop over \<open>virtAddr[i]\<close>, with \<open>n\<close> characters to go. The access may fault.\<close>

primrec write_loop :: "link_addrs \<Rightarrow> u32 \<Rightarrow> u32 \<Rightarrow> u32 \<Rightarrow> nat \<Rightarrow> nat \<Rightarrow> (u32 \<Rightarrow> prog) \<Rightarrow> prog" where
  "write_loop lk su term virtAddr i 0 k = V (devMutex lk (TERMW_MUTEX 0)) (k (of_nat i))"
| "write_loop lk su term virtAddr i (Suc n) k =
     Access su (virtAddr + of_nat i) (\<lambda>s. s) (\<lambda>s.
       Syscall DOIO (reg_word term 3) (write_cmd (umem s (asid_of s su) (virtAddr + of_nat i))) 0 (\<lambda>status.
       if status AND 0xFF \<noteq> OKCHARTRANS
       then V (devMutex lk (TERMW_MUTEX 0)) (k (neg_status status))
       else write_loop lk su term virtAddr (Suc i) n k))"

definition writeTerminal :: "link_addrs \<Rightarrow> u32 \<Rightarrow> u32 \<Rightarrow> int \<Rightarrow> (u32 \<Rightarrow> prog) \<Rightarrow> prog" where
  "writeTerminal lk su virtAddr len k =
     (let body = P (devMutex lk (TERMW_MUTEX 0))
            (write_loop lk su (DEV_REG_ADDR lk IL_TERMINAL 0) virtAddr 0 (nat len) k)
      in if virtAddr < KUSEG \<or> virtAddr \<ge> USERSTACKTOP \<or> len < 0 \<or> len > MAXSTRLEN
         then terminate_self lk su body
         else body)"

primrec read_loop :: "nat \<Rightarrow> link_addrs \<Rightarrow> u32 \<Rightarrow> u32 \<Rightarrow> u32 \<Rightarrow> nat \<Rightarrow> (u32 \<Rightarrow> prog) \<Rightarrow> prog" where
  "read_loop 0 lk su term virtAddr count k = No_fuel"
| "read_loop (Suc fuel) lk su term virtAddr count k =
     Syscall DOIO (reg_word term 1) RECEIVECHAR 0 (\<lambda>status.
       if status AND 0xFF \<noteq> CHARRECV
       then V (devMutex lk (TERMR_MUTEX 0)) (k (neg_status status))
       else
         let c = ucast (drop_bit 8 status AND 0xFF) in
         Access su (virtAddr + of_nat count)
           (\<lambda>s. s\<lparr>umem := (umem s)(asid_of s su := (umem s (asid_of s su))(virtAddr + of_nat count := c))\<rparr>)
           (\<lambda>_. if c = 10
            then V (devMutex lk (TERMR_MUTEX 0)) (k (of_nat (Suc count)))
            else read_loop fuel lk su term virtAddr (Suc count) k))"

definition readTerminal :: "nat \<Rightarrow> link_addrs \<Rightarrow> u32 \<Rightarrow> u32 \<Rightarrow> (u32 \<Rightarrow> prog) \<Rightarrow> prog" where
  "readTerminal fuel lk su virtAddr k =
     (let body = P (devMutex lk (TERMR_MUTEX 0))
            (read_loop fuel lk su (DEV_REG_ADDR lk IL_TERMINAL 0) virtAddr 0 k)
      in if virtAddr < KUSEG \<or> virtAddr \<ge> USERSTACKTOP then terminate_self lk su body else body)"

section \<open>Execute\<close>

definition doExecute :: "link_addrs \<Rightarrow> u32 \<Rightarrow> (u32 \<Rightarrow> prog) \<Rightarrow> prog" where
  "doExecute lk asid k =
     (if sint asid < 1 \<or> sint asid > int UPROCMAX then k (-1)
      else launchUproc lk asid (P (a_shellSemaphore lk) (k 0)))"

section \<open>The handler\<close>

definition upd_ex_state :: "u32 \<Rightarrow> nat \<Rightarrow> (state_t \<Rightarrow> state_t) \<Rightarrow> slevel \<Rightarrow> slevel" where
  "upd_ex_state su e f = upd_support su
     (\<lambda>u. u\<lparr>sup_exceptState := (sup_exceptState u)(e := f (sup_exceptState u e))\<rparr>)"

definition return_to_user :: "u32 \<Rightarrow> u32 \<Rightarrow> prog" where
  "return_to_user su result =
     Write (upd_ex_state su GENERALEXCEPT (\<lambda>st. st\<lparr>reg_a0 := result\<rparr>))
    (Write (upd_ex_state su GENERALEXCEPT (\<lambda>st. st\<lparr>pc_epc := pc_epc st + WORDLEN\<rparr>))
    (Read (\<lambda>s. Load (ex_state s su GENERALEXCEPT))))"

definition supSyscallHandler :: "nat \<Rightarrow> link_addrs \<Rightarrow> u32 \<Rightarrow> prog" where
  "supSyscallHandler fuel lk su =
     Read (\<lambda>s.
       let st = ex_state s su GENERALEXCEPT; number = sint (reg_a0 st) in
       if number = SUP_TERMINATE then terminate_self lk su Return
       else if number = SUP_WRITETERMINAL
         then writeTerminal lk su (reg_a1 st) (sint (reg_a2 st)) (return_to_user su)
       else if number = SUP_READTERMINAL then readTerminal fuel lk su (reg_a1 st) (return_to_user su)
       else if number = SUP_EXECUTE then doExecute lk (reg_a1 st) (return_to_user su)
       else terminate_self lk su Return)"

definition generalExceptionHandler :: "nat \<Rightarrow> link_addrs \<Rightarrow> prog" where
  "generalExceptionHandler fuel lk =
     Syscall GETSUPPORTPTR 0 0 0 (\<lambda>su.
       Read (\<lambda>s. if cause (ex_state s su GENERALEXCEPT) AND CAUSE_EXCCODE_MASK = EXC_ECU
         then supSyscallHandler fuel lk su
         else terminate_self lk su Return))"

end
