(* ===== verification/Support_Logic.thy ===== *)
theory Support_Logic
  imports SysSupport
begin

text \<open>
  Reasoning about the programs of the support level. \<open>wp p R G Q s\<close>: started in \<open>s\<close>, whatever answers
  and state changes the relation \<open>R\<close> allows at the calls of \<open>p\<close>, every call satisfies \<open>G\<close> and \<open>p\<close>
  ends as \<open>Q\<close> says. It follows the structure of the program, so the simplifier computes it, and
  \<open>run_wp\<close> carries it over to every environment.
\<close>

section \<open>Preconditions\<close>

primrec wp :: "prog \<Rightarrow> (event \<Rightarrow> u32 \<Rightarrow> slevel \<Rightarrow> bool) \<Rightarrow> (event \<Rightarrow> bool) \<Rightarrow>
    (ending \<Rightarrow> slevel \<Rightarrow> bool) \<Rightarrow> slevel \<Rightarrow> bool" where
  "wp Return R G Q s \<longleftrightarrow> Q Returned s"
| "wp (Syscall c a b d k) R G Q s \<longleftrightarrow>
     (let e = \<lparr>ev_call = c, ev_a1 = a, ev_a2 = b, ev_a3 = d, ev_state = s\<rparr> in
      G e \<and> (if c = TERMPROCESS \<and> a = 0 then Q Terminated s
        else \<forall>r s'. R e r s' \<longrightarrow> wp (k r) R G Q s'))"
| "wp (Read k) R G Q s \<longleftrightarrow> wp (k s) R G Q s"
| "wp (Write f k) R G Q s \<longleftrightarrow> wp k R G Q (f s)"
| "wp (Access su va f k) R G Q s \<longleftrightarrow>
     (if resident s su va then wp (k s) R G Q (f s)
      else G (page_fault su va s) \<and> (\<forall>r s'. R (page_fault su va s) r s' \<longrightarrow>
        (if resident s' su va then wp (k s') R G Q (f s') else Q Faulted s')))"
| "wp (Load st) R G Q s \<longleftrightarrow> Q (Loaded st) s"
| "wp No_fuel R G Q s \<longleftrightarrow> Q Exhausted s"

text \<open>The answers to the calls \<open>es\<close>, the first of which is the \<open>n\<close>-th, are as \<open>R\<close> allows.\<close>

primrec obeys :: "env \<Rightarrow> (event \<Rightarrow> u32 \<Rightarrow> slevel \<Rightarrow> bool) \<Rightarrow> nat \<Rightarrow> event list \<Rightarrow> bool" where
  "obeys env R n [] \<longleftrightarrow> True"
| "obeys env R n (e # es) \<longleftrightarrow> R e (fst (env n e)) (snd (env n e)) \<and>
     obeys env R (next_index (ev_call e) n) es"

lemma run_wp:
  assumes "wp p R G Q s" and "run p env n s = (es, f, t)" and "obeys env R n es"
  shows "list_all G es \<and> Q f t"
  using assms
proof (induction p arbitrary: n s es f t)
  case (Syscall c a b d k)
  define e where "e = \<lparr>ev_call = c, ev_a1 = a, ev_a2 = b, ev_a3 = d, ev_state = s\<rparr>"
  obtain r s' where r: "env n e = (r, s')" by force
  obtain es' f' t' where c: "run (k r) env (next_index c n) s' = (es', f', t')" by (metis prod_cases3)
  show ?case
  proof (cases "c = TERMPROCESS \<and> a = 0")
    case True
    then show ?thesis using Syscall.prems by (auto simp: Let_def r c)
  next
    case False
    then have eq: "es = e # es'" "f = f'" "t = t'"
      using Syscall.prems by (auto simp: Let_def e_def [symmetric] r c)
    then have "R e r s'" and ob: "obeys env R (next_index c n) es'" using Syscall.prems(3) r by (auto simp: e_def)
    then have "wp (k r) R G Q s'" "G e"
      using Syscall.prems(1) False by (auto simp: Let_def e_def [symmetric])
    with Syscall.IH [OF rangeI _ c ob] show ?thesis by (simp add: eq)
  qed
next
  case (Read k)
  have "wp (k s) R G Q s" "run (k s) env n s = (es, f, t)" using Read.prems by simp_all
  from Read.IH [OF rangeI this Read.prems(3)] show ?case .
next
  case (Access su va g k)
  show ?case
  proof (cases "resident s su va")
    case True
    then have "wp (k s) R G Q (g s)" "run (k s) env n (g s) = (es, f, t)" using Access.prems by simp_all
    from Access.IH [OF rangeI this Access.prems(3)] show ?thesis .
  next
    case False
    define e where "e = page_fault su va s"
    obtain r s' where r: "env n e = (r, s')" by force
    obtain es' f' t' where c: "run (k s') env n (g s') = (es', f', t')" by (metis prod_cases3)
    have G: "G e" and w: "R e r s' \<Longrightarrow> if resident s' su va then wp (k s') R G Q (g s') else Q Faulted s'"
      using Access.prems(1) False by (auto simp: e_def)
    have eq: "(es, f, t) = (if resident s' su va then (e # es', f', t') else ([e], Faulted, s'))"
      using Access.prems(2) False by (simp add: Let_def e_def [symmetric] r c split: if_splits)
    then have R: "R e r s'" using Access.prems(3) r by (auto split: if_splits)
    show ?thesis
    proof (cases "resident s' su va")
      case True
      have "obeys env R n es'" using Access.prems(3) eq True by (simp add: e_def page_fault_def)
      with Access.IH [OF rangeI _ c] w [OF R] True G eq show ?thesis by simp
    next
      case False
      then show ?thesis using w [OF R] G eq by simp
    qed
  qed
qed auto

text \<open>The condition on the answers, along a run.\<close>

lemma obeys_run:
  "obeys env R n (fst (run Return env n s))" "obeys env R n (fst (run (Load st) env n s))"
  "obeys env R n (fst (run (Read f) env n s)) = obeys env R n (fst (run (f s) env n s))"
  "obeys env R n (fst (run (Write g k) env n s)) = obeys env R n (fst (run k env n (g s)))"
  "\<not> (c = TERMPROCESS \<and> x = 0) \<Longrightarrow> obeys env R n (fst (run (Syscall c x y z h) env n s)) =
    (let e = \<lparr>ev_call = c, ev_a1 = x, ev_a2 = y, ev_a3 = z, ev_state = s\<rparr>; (r, s') = env n e
     in R e r s' \<and> obeys env R (next_index c n) (fst (run (h r) env (next_index c n) s')))"
  "obeys env R n (fst (run (Syscall TERMPROCESS 0 y z h) env n s)) =
    (let e = \<lparr>ev_call = TERMPROCESS, ev_a1 = 0, ev_a2 = y, ev_a3 = z, ev_state = s\<rparr>; (r, s') = env n e in R e r s')"
  by (auto simp: Let_def split_def)

text \<open>An environment that answers every call that satisfies \<open>G\<close> as \<open>R\<close> allows.\<close>

lemma wp_obeys:
  assumes "wp p R G Q s" and "\<And>m e. G e \<Longrightarrow> R e (fst (env m e)) (snd (env m e))"
  shows "obeys env R n (fst (run p env n s))"
  using assms(1)
proof (induction p arbitrary: n s)
  case (Syscall c a b d k)
  define e where "e = \<lparr>ev_call = c, ev_a1 = a, ev_a2 = b, ev_a3 = d, ev_state = s\<rparr>"
  have "G e" and k: "\<not> (c = TERMPROCESS \<and> a = 0) \<Longrightarrow> R e r s' \<Longrightarrow> wp (k r) R G Q s'" for r s'
    using Syscall.prems by (auto simp: Let_def e_def [symmetric])
  then have R: "R e (fst (env n e)) (snd (env n e))" using assms(2) by blast
  then show ?case
    using Syscall.IH [OF rangeI k] by (auto simp: Let_def split_def e_def [symmetric])
      (simp_all add: e_def)
next
  case (Access su va f k)
  then show ?case
    using assms(2) [of "page_fault su va s" n]
    by (auto simp: Let_def split_def) (simp_all add: page_fault_def)
qed auto

lemma wp_mono:
  assumes "wp p R G Q s" and "\<And>e r s'. R' e r s' \<Longrightarrow> R e r s'" and "\<And>e. G e \<Longrightarrow> G' e"
    and "\<And>f t. Q f t \<Longrightarrow> Q' f t"
  shows "wp p R' G' Q' s"
  using assms(1)
proof (induction p arbitrary: s)
  case (Syscall c a b d k)
  then show ?case using assms(2-4) by (auto simp: Let_def split: if_splits)
next
  case (Access su va f k)
  have "wp (k s) R' G' Q' (f s)" if "wp (k s) R G Q (f s)" for s by (rule Access.IH [OF rangeI that])
  then show ?case using Access.prems assms(2-4) by (simp split: if_splits) blast
qed (use assms(4) in auto)

end
