(* ===== verification/Vm_Consistency.thy ===== *)
theory Vm_Consistency
  imports Support_Logic
begin

text \<open>
  The invariant of the virtual memory: the table of the swap pool and the page tables of the live
  processes describe the same assignment of frames to pages. \<open>L\<close> is the set of the identifiers of
  the live processes.
\<close>

section \<open>Page table entries and frames\<close>

lemma asid_cases: "a \<in> {1..8 :: u32} \<longleftrightarrow> a \<in> {1, 2, 3, 4, 5, 6, 7, 8}"
proof
  assume "a \<in> {1..8}"
  then have n: "1 \<le> unat a" "unat a \<le> 8" by (simp_all add: word_le_nat_alt)
  then have "unat a \<in> {1, 2, 3, 4, 5, 6, 7, 8}" by auto
  moreover have "of_nat (unat a) = a" by simp
  ultimately have "a \<in> of_nat ` {1, 2, 3, 4, 5, 6, 7, 8}" by (metis image_eqI)
  then show "a \<in> {1, 2, 3, 4, 5, 6, 7, 8}" by auto
qed auto

lemma getSupport_inject:
  "a \<in> {1..8} \<Longrightarrow> b \<in> {1..8} \<Longrightarrow> getSupport lk a = getSupport lk b \<longleftrightarrow> a = b"
  unfolding asid_cases by (auto simp: getSupport_def sizeof_support_def)

lemma free_not_asid: "L \<subseteq> {1..8 :: u32} \<Longrightarrow> SWAP_FRAME_FREE \<notin> L"
  using asid_cases [of SWAP_FRAME_FREE] by auto

definition present_lo :: "nat \<Rightarrow> u32" where
  "present_lo i = frameAddr i OR DIRTYON OR VALIDON"

lemma present_lo_eq: "i < 16 \<Longrightarrow> present_lo i = 0x20020600 + of_nat i * 0x1000"
proof -
  have "list_all (\<lambda>i. present_lo i = 0x20020600 + of_nat i * 0x1000) [0..<16]" by code_simp
  then show "i < 16 \<Longrightarrow> ?thesis" by (auto simp: list_all_iff)
qed

lemma present_lo_inject: "i < 16 \<Longrightarrow> j < 16 \<Longrightarrow> present_lo i = present_lo j \<longleftrightarrow> i = j"
proof -
  have "list_all (\<lambda>i. list_all (\<lambda>j. (of_nat i * 0x1000 = (of_nat j * 0x1000 :: u32)) = (i = j)) [0..<16]) [0..<16]"
    by code_simp
  then show "i < 16 \<Longrightarrow> j < 16 \<Longrightarrow> ?thesis" by (auto simp: list_all_iff present_lo_eq)
qed

lemma valid_present [simp]: "valid (e\<lparr>pte_entryLO := frameAddr i OR DIRTYON OR VALIDON\<rparr>)"
proof -
  have "(x OR 1536) AND VALIDON = VALIDON" for x :: u32
    by (simp add: bit.conj_disj_distrib2)
  then show ?thesis by (simp add: valid_def)
qed

lemma valid_present_lo: "valid (e\<lparr>pte_entryLO := present_lo i\<rparr>)"
  unfolding present_lo_def by (rule valid_present)

lemma not_valid_cleared [simp]: "\<not> valid (e\<lparr>pte_entryLO := x AND -513\<rparr>)"
proof -
  have "(x AND -513) AND VALIDON = 0" by (simp add: and.assoc)
  then show ?thesis by (simp add: valid_def)
qed

lemma get_pte_upd [simp]:
  "get_pte (upd_pte q f s) r = (if r = q then f (get_pte s q) else get_pte s r)"
  by (cases q; cases r) (simp add: get_pte_def upd_pte_def)

lemma upd_pte_sel [simp]:
  "swapPool (upd_pte q f s) = swapPool s" "fifoNext (upd_pte q f s) = fifoNext s"
  "smem (upd_pte q f s) = smem s" "umem (upd_pte q f s) = umem s"
  "frame_data (upd_pte q f s) = frame_data s" "flash_data (upd_pte q f s) = flash_data s"
  "asid_of (upd_pte q f s) su = asid_of s su" "ex_state (upd_pte q f s) su x = ex_state s su x"
  "s_tlb (upd_pte q f s) = s_tlb s" "tlb_random (upd_pte q f s) = tlb_random s"
  "tlb_writes (upd_pte q f s) = tlb_writes s"
  by (cases q; simp add: upd_pte_def asid_of_def ex_state_def)+

lemma marks_sel [simp]:
  "swapPool (markPageNotValid q s) = swapPool s" "fifoNext (markPageNotValid q s) = fifoNext s"
  "asid_of (markPageNotValid q s) su = asid_of s su" "ex_state (markPageNotValid q s) su x = ex_state s su x"
  "frame_data (markPageNotValid q s) = frame_data s" "flash_data (markPageNotValid q s) = flash_data s"
  "smem (markPageNotValid q s) = smem s"
  "swapPool (markPagePresent q fa s) = swapPool s" "fifoNext (markPagePresent q fa s) = fifoNext s"
  "asid_of (markPagePresent q fa s) su = asid_of s su" "ex_state (markPagePresent q fa s) su x = ex_state s su x"
  "frame_data (markPagePresent q fa s) = frame_data s" "flash_data (markPagePresent q fa s) = flash_data s"
  "smem (markPagePresent q fa s) = smem s"
  by (simp_all add: markPageNotValid_def markPagePresent_def Let_def interruptsOff_def interruptsOn_def
      sTLBCLR_def sTLBWR_def asid_of_def ex_state_def upd_pte_def split: prod.splits)

lemma get_pte_marks [simp]:
  "get_pte (markPageNotValid q s) r =
    (if r = q then (get_pte s q)\<lparr>pte_entryLO := pte_entryLO (get_pte s q) AND NOT VALIDON\<rparr> else get_pte s r)"
  "get_pte (markPagePresent q fa s) r =
    (if r = q then (get_pte s q)\<lparr>pte_entryLO := fa OR DIRTYON OR VALIDON\<rparr> else get_pte s r)"
proof -
  have c: "get_pte (interruptsOn t) = get_pte t" "get_pte (interruptsOff t) = get_pte t"
    "get_pte (sTLBCLR t) = get_pte t" "get_pte (sTLBWR t) = get_pte t"
    "get_pte (t\<lparr>s_entryhi := x\<rparr>) = get_pte t" "get_pte (t\<lparr>s_entrylo := x\<rparr>) = get_pte t" for t x
    by (auto simp: fun_eq_iff get_pte_def interruptsOn_def interruptsOff_def sTLBCLR_def sTLBWR_def)
  show "get_pte (markPageNotValid q s) r =
      (if r = q then (get_pte s q)\<lparr>pte_entryLO := pte_entryLO (get_pte s q) AND NOT VALIDON\<rparr> else get_pte s r)"
    "get_pte (markPagePresent q fa s) r =
      (if r = q then (get_pte s q)\<lparr>pte_entryLO := fa OR DIRTYON OR VALIDON\<rparr> else get_pte s r)"
    by (simp_all add: markPageNotValid_def markPagePresent_def Let_def c)
qed

section \<open>The invariant\<close>

definition frame_ok :: "link_addrs \<Rightarrow> u32 set \<Rightarrow> slevel \<Rightarrow> nat \<Rightarrow> bool" where
  "frame_ok lk L s i \<longleftrightarrow> (let e = swapPool s i in sw_asid e \<noteq> SWAP_FRAME_FREE \<longrightarrow>
     sw_asid e \<in> L \<and> sw_pageNo e < 32 \<and> sw_pte e = (getSupport lk (sw_asid e), sw_pageNo e) \<and>
     pte_entryLO (get_pte s (sw_pte e)) = present_lo i)"

definition in_frame :: "slevel \<Rightarrow> u32 \<Rightarrow> nat \<Rightarrow> nat \<Rightarrow> bool" where
  "in_frame s a p i \<longleftrightarrow> i < SWAP_POOL_SIZE \<and> sw_asid (swapPool s i) = a \<and> sw_pageNo (swapPool s i) = p"

text \<open>The invariant, but for frame \<open>i\<close>, which no page table refers to.\<close>

definition pool_except :: "link_addrs \<Rightarrow> u32 set \<Rightarrow> nat set \<Rightarrow> slevel \<Rightarrow> bool" where
  "pool_except lk L X s \<longleftrightarrow> fifoNext s < SWAP_POOL_SIZE \<and>
     (\<forall>a\<in>L. asid_of s (getSupport lk a) = a) \<and>
     (\<forall>i<SWAP_POOL_SIZE. i \<notin> X \<longrightarrow> frame_ok lk L s i) \<and>
     (\<forall>a\<in>L. \<forall>p<32. valid (get_pte s (getSupport lk a, p)) \<longrightarrow> (\<exists>i. i \<notin> X \<and> in_frame s a p i))"

definition pool_ok :: "link_addrs \<Rightarrow> u32 set \<Rightarrow> slevel \<Rightarrow> bool" where
  "pool_ok lk L s \<longleftrightarrow> pool_except lk L {} s"

lemma pool_except_cong:
  assumes "pool_except lk L X s" and "swapPool s' = swapPool s" "fifoNext s' = fifoNext s"
    and "\<And>a. a \<in> L \<Longrightarrow> asid_of s' (getSupport lk a) = asid_of s (getSupport lk a)"
    and "\<And>a p. a \<in> L \<Longrightarrow> get_pte s' (getSupport lk a, p) = get_pte s (getSupport lk a, p)"
  shows "pool_except lk L X s'"
proof -
  have "frame_ok lk L s' i \<longleftrightarrow> frame_ok lk L s i" for i
    using assms(2,5) by (auto simp: frame_ok_def Let_def)
  then show ?thesis using assms by (simp add: pool_except_def in_frame_def)
qed

lemma pool_ok_free:
  "pool_ok lk L s \<Longrightarrow> sw_asid (swapPool s i) = SWAP_FRAME_FREE \<Longrightarrow> L \<subseteq> {1..8} \<Longrightarrow> pool_except lk L {i} s"
  using free_not_asid [of L] unfolding pool_ok_def pool_except_def in_frame_def by (metis empty_iff singletonD)

text \<open>A page is in one frame at most.\<close>

lemma in_frame_unique:
  assumes "pool_except lk L X s" and "in_frame s a p i" "in_frame s a p j" and "i \<notin> X" "j \<notin> X" and "a \<in> L" "L \<subseteq> {1..8}"
  shows "i = j"
proof -
  have "a \<noteq> SWAP_FRAME_FREE" using assms(6,7) free_not_asid by auto
  then have "pte_entryLO (get_pte s (getSupport lk a, p)) = present_lo i"
    "pte_entryLO (get_pte s (getSupport lk a, p)) = present_lo j"
    using assms(1-5) by (auto simp: pool_except_def frame_ok_def in_frame_def Let_def)
  then show ?thesis using assms(2,3) present_lo_inject by (auto simp: in_frame_def)
qed

lemma evict_pool:
  assumes I: "pool_ok lk L s" and i: "i < SWAP_POOL_SIZE" "sw_asid (swapPool s i) \<noteq> SWAP_FRAME_FREE"
    and L: "L \<subseteq> {1..8}"
  shows "pool_except lk L {i} (markPageNotValid (sw_pte (swapPool s i)) s)" (is "pool_except lk L {i} ?s")
proof -
  let ?e = "swapPool s i"
  have E: "pool_except lk L {} s" using I by (simp add: pool_ok_def)
  have fi: "sw_asid ?e \<in> L" "sw_pageNo ?e < 32" "sw_pte ?e = (getSupport lk (sw_asid ?e), sw_pageNo ?e)"
    using E i by (auto simp: pool_except_def frame_ok_def Let_def)
  have inj: "a = b \<and> p = q" if "(getSupport lk a, p) = (getSupport lk b, q)" "a \<in> L" "b \<in> L" for a b p q
    using that L getSupport_inject by blast
  have "frame_ok lk L ?s j" if j: "j < SWAP_POOL_SIZE" "j \<noteq> i" for j
  proof -
    let ?d = "swapPool s j"
    have "frame_ok lk L s j" using E j by (auto simp: pool_except_def)
    moreover have "sw_pte ?d \<noteq> sw_pte ?e" if "sw_asid ?d \<noteq> SWAP_FRAME_FREE"
    proof
      assume eq: "sw_pte ?d = sw_pte ?e"
      have fj: "sw_asid ?d \<in> L" "sw_pte ?d = (getSupport lk (sw_asid ?d), sw_pageNo ?d)"
        using \<open>frame_ok lk L s j\<close> that by (auto simp: frame_ok_def Let_def)
      then have "sw_asid ?d = sw_asid ?e \<and> sw_pageNo ?d = sw_pageNo ?e" using inj eq fi by metis
      then have "in_frame s (sw_asid ?e) (sw_pageNo ?e) j" "in_frame s (sw_asid ?e) (sw_pageNo ?e) i"
        using i j by (simp_all add: in_frame_def)
      then show False using in_frame_unique [OF E] fi(1) L j(2) by blast
    qed
    ultimately show ?thesis by (auto simp: frame_ok_def Let_def)
  qed
  moreover have "\<exists>j. j \<noteq> i \<and> in_frame ?s a p j"
    if a: "a \<in> L" "p < 32" and v: "valid (get_pte ?s (getSupport lk a, p))" for a p
  proof -
    have ne: "(getSupport lk a, p) \<noteq> sw_pte ?e" using v by auto
    then have "valid (get_pte s (getSupport lk a, p))" using v by simp
    then have "\<exists>j. in_frame s a p j" using E a by (simp add: pool_except_def)
    then obtain j where j: "in_frame s a p j" by blast
    moreover have "j \<noteq> i" using j ne fi(3) by (auto simp: in_frame_def)
    ultimately show ?thesis by (auto simp: in_frame_def)
  qed
  ultimately show ?thesis using E by (auto simp: pool_except_def)
qed

lemma load_pool:
  assumes I: "pool_except lk L {i} s" and i: "i < SWAP_POOL_SIZE" and a: "a \<in> L" "p < 32" and L: "L \<subseteq> {1..8}"
    and new: "\<not> valid (get_pte s (getSupport lk a, p))"
    and e: "swapPool s' = (swapPool s)(i := \<lparr>sw_asid = a, sw_pageNo = p, sw_pte = (getSupport lk a, p)\<rparr>)"
    "fifoNext s' = fifoNext s" "\<And>su. asid_of s' su = asid_of s su"
    "\<And>q. get_pte s' q = (if q = (getSupport lk a, p) then (get_pte s q)\<lparr>pte_entryLO := present_lo i\<rparr> else get_pte s q)"
  shows "pool_ok lk L s'"
proof -
  have "frame_ok lk L s' j" if j: "j < SWAP_POOL_SIZE" for j
  proof (cases "j = i")
    case True
    then show ?thesis using a by (simp add: frame_ok_def e)
  next
    case False
    then have f: "frame_ok lk L s j" using I j by (auto simp: pool_except_def)
    have "sw_pte (swapPool s j) \<noteq> (getSupport lk a, p)" if "sw_asid (swapPool s j) \<noteq> SWAP_FRAME_FREE"
    proof
      assume q: "sw_pte (swapPool s j) = (getSupport lk a, p)"
      then have "pte_entryLO (get_pte s (getSupport lk a, p)) = present_lo j"
        using f that by (auto simp: frame_ok_def Let_def)
      then show False
        using new valid_present [of j] by (simp add: valid_def present_lo_def)
    qed
    then show ?thesis using f False by (auto simp: frame_ok_def Let_def e)
  qed
  moreover have "\<exists>j. in_frame s' b q j"
    if b: "b \<in> L" "q < 32" and v: "valid (get_pte s' (getSupport lk b, q))" for b q
  proof (cases "(getSupport lk b, q) = (getSupport lk a, p)")
    case True
    have "a \<in> {1..8}" "b \<in> {1..8}" using L a b by auto
    then have "b = a" "q = p" using getSupport_inject True by auto
    then show ?thesis using i by (intro exI [of _ i]) (simp add: in_frame_def e)
  next
    case False
    then have "valid (get_pte s (getSupport lk b, q))" using v by (auto simp: e(4) split: if_splits)
    then have "\<exists>j. j \<noteq> i \<and> in_frame s b q j" using I b by (simp add: pool_except_def)
    then obtain j where "j \<noteq> i" "in_frame s b q j" by blast
    then show ?thesis by (intro exI [of _ j]) (simp add: in_frame_def e)
  qed
  ultimately show ?thesis using I by (simp add: pool_ok_def pool_except_def e(2,3))
qed

end
