(* ===== verification/Vm_Pager.thy ===== *)
theory Vm_Pager
  imports Vm_Consistency
begin

text \<open>
  The pager and the termination of a process keep the virtual memory consistent, and paging does
  not change what a process finds in its memory.
\<close>

section \<open>The environment of a handler\<close>

definition same_pool :: "link_addrs \<Rightarrow> u32 set \<Rightarrow> slevel \<Rightarrow> slevel \<Rightarrow> bool" where
  "same_pool lk L s s' \<longleftrightarrow> swapPool s' = swapPool s \<and> fifoNext s' = fifoNext s \<and>
     (\<forall>a\<in>L. asid_of s' (getSupport lk a) = asid_of s (getSupport lk a) \<and>
       (\<forall>p. get_pte s' (getSupport lk a, p) = get_pte s (getSupport lk a, p)))"

text \<open>The mutexes and semaphores are at different addresses.\<close>

definition link_ok :: "link_addrs \<Rightarrow> bool" where
  "link_ok lk \<longleftrightarrow> distinct ([a_swapPoolSem lk, a_masterSemaphore lk, a_shellSemaphore lk] @
     map (devMutex lk) [0..<DEV_MUTEX_TOTAL])"

lemma link_ok_sel:
  assumes "link_ok lk"
  shows "i < DEV_MUTEX_TOTAL \<Longrightarrow> devMutex lk i \<noteq> a_swapPoolSem lk" "i < DEV_MUTEX_TOTAL \<Longrightarrow> devMutex lk i \<noteq> a_masterSemaphore lk"
    "i < DEV_MUTEX_TOTAL \<Longrightarrow> devMutex lk i \<noteq> a_shellSemaphore lk" "a_swapPoolSem lk \<noteq> a_masterSemaphore lk"
    "a_swapPoolSem lk \<noteq> a_shellSemaphore lk" "a_masterSemaphore lk \<noteq> a_shellSemaphore lk"
    "i < DEV_MUTEX_TOTAL \<Longrightarrow> j < DEV_MUTEX_TOTAL \<Longrightarrow> devMutex lk i = devMutex lk j \<longleftrightarrow> i = j"
proof -
  have "set (map (devMutex lk) [0..<48]) \<inter> {a_swapPoolSem lk, a_masterSemaphore lk, a_shellSemaphore lk} = {}"
    using assms by (auto simp: link_ok_def simp del: upt_rec_numeral)
  then show "i < DEV_MUTEX_TOTAL \<Longrightarrow> devMutex lk i \<noteq> a_swapPoolSem lk" "i < DEV_MUTEX_TOTAL \<Longrightarrow> devMutex lk i \<noteq> a_masterSemaphore lk"
    "i < DEV_MUTEX_TOTAL \<Longrightarrow> devMutex lk i \<noteq> a_shellSemaphore lk" by force+
  show "i < DEV_MUTEX_TOTAL \<Longrightarrow> j < DEV_MUTEX_TOTAL \<Longrightarrow> devMutex lk i = devMutex lk j \<longleftrightarrow> i = j"
    using assms by (auto simp: link_ok_def distinct_map inj_on_def simp del: upt_rec_numeral)
qed (use assms in \<open>auto simp: link_ok_def simp del: upt_rec_numeral\<close>)

text \<open>The processor reports a page fault only for a page that is not present.\<close>

definition fault_ok :: "link_addrs \<Rightarrow> u32 \<Rightarrow> slevel \<Rightarrow> bool" where
  "fault_ok lk a s \<longleftrightarrow> (let su = getSupport lk a; st = ex_state s su PGFAULTEXCEPT; p = vpnToIndex (entry_hi st) in
     0 \<le> p \<longrightarrow> cause st AND CAUSE_EXCCODE_MASK \<noteq> EXC_MOD \<longrightarrow> \<not> valid (get_pte s (su, nat p)))"

text \<open>
  What the process \<open>a\<close> relies on. It gets its own support structure, and nobody touches the saved
  states and the identifier there; when it gets the mutex of the swap pool the pool is consistent;
  while it waits for a device or its mutex, the pager holds that mutex, so the pool does not change.
\<close>

definition vm_rely :: "link_addrs \<Rightarrow> u32 set \<Rightarrow> u32 \<Rightarrow> event \<Rightarrow> u32 \<Rightarrow> slevel \<Rightarrow> bool" where
  "vm_rely lk L a e r s' \<longleftrightarrow> (let su = getSupport lk a; s = ev_state e in
     ex_state s' su = ex_state s su \<and> asid_of s' su = asid_of s su \<and>
     (ev_call e = PASSEREN \<and> ev_a1 e = a_swapPoolSem lk \<longrightarrow> pool_ok lk L s' \<and> fault_ok lk a s') \<and>
     (ev_call e = DOIO \<or> ev_call e \<in> {PASSEREN, VERHOGEN} \<and> ev_a1 e \<in> devMutex lk ` {..<DEV_MUTEX_TOTAL} \<longrightarrow>
        same_pool lk L s s') \<and>
     (ev_call e = GETSUPPORTPTR \<longrightarrow> r = su))"

definition flash_ready :: "event \<Rightarrow> u32 \<Rightarrow> slevel \<Rightarrow> bool" where
  "flash_ready e r s' \<longleftrightarrow> (ev_call e = DOIO \<longrightarrow> r = READY)"

definition releases :: "link_addrs \<Rightarrow> event \<Rightarrow> bool" where
  "releases lk e \<longleftrightarrow> ev_call e = VERHOGEN \<and> ev_a1 e = a_swapPoolSem lk"

lemma same_pool_ok: "same_pool lk L s s' \<Longrightarrow> pool_except lk L X s \<Longrightarrow> pool_except lk L X s'"
  by (erule pool_except_cong) (simp_all add: same_pool_def)

lemma same_pool_trans: "same_pool lk L s t \<Longrightarrow> same_pool lk L t u \<Longrightarrow> same_pool lk L s u"
  by (simp add: same_pool_def)

lemma flash_mutex:
  assumes "link_ok lk" and "b \<in> {1..8 :: u32}"
  shows "devMutex lk (FLASH_MUTEX (unat (b - 1))) \<in> devMutex lk ` {..<DEV_MUTEX_TOTAL}"
    and "devMutex lk (FLASH_MUTEX (unat (b - 1))) \<noteq> a_swapPoolSem lk"
proof -
  have "FLASH_MUTEX (unat (b - 1)) < DEV_MUTEX_TOTAL"
  proof -
    have "b \<in> {1, 2, 3, 4, 5, 6, 7, 8}" using assms(2) by (simp only: asid_cases)
    then show ?thesis by (auto simp: FLASH_MUTEX_def)
  qed
  then show "devMutex lk (FLASH_MUTEX (unat (b - 1))) \<in> devMutex lk ` {..<DEV_MUTEX_TOTAL}"
    "devMutex lk (FLASH_MUTEX (unat (b - 1))) \<noteq> a_swapPoolSem lk"
    using link_ok_sel(1) [OF assms(1)] by simp_all
qed

section \<open>Termination\<close>

lemma wp_foldr_Write:
  "wp (foldr (\<lambda>i. Write (F i)) is k) R G Q s = wp k R G Q (fold F is s)"
  by (induction "is" arbitrary: s) auto

definition freed :: "u32 \<Rightarrow> slevel \<Rightarrow> slevel" where
  "freed a s = s\<lparr>swapPool := \<lambda>i. if i < SWAP_POOL_SIZE \<and> sw_asid (swapPool s i) = a
     then (swapPool s i)\<lparr>sw_asid := SWAP_FRAME_FREE\<rparr> else swapPool s i\<rparr>"

lemma free_frames:
  "fold (\<lambda>i s. if sw_asid (swapPool s i) = a then free_frame i s else s) [0..<SWAP_POOL_SIZE] s = freed a s"
proof -
  have "fold (\<lambda>i s. if sw_asid (swapPool s i) = a then free_frame i s else s) [0..<n] s =
      s\<lparr>swapPool := \<lambda>i. if i < n \<and> sw_asid (swapPool s i) = a
        then (swapPool s i)\<lparr>sw_asid := SWAP_FRAME_FREE\<rparr> else swapPool s i\<rparr>" for n
    by (induction n) (auto simp: free_frame_def fun_eq_iff less_Suc_eq intro!: arg_cong [where f = "\<lambda>f. s\<lparr>swapPool := f\<rparr>"])
  then show ?thesis by (simp add: freed_def)
qed

lemma freed_sel [simp]:
  "fifoNext (freed a s) = fifoNext s" "asid_of (freed a s) = asid_of s" "get_pte (freed a s) = get_pte s"
  "ex_state (freed a s) = ex_state s" "frame_data (freed a s) = frame_data s" "flash_data (freed a s) = flash_data s"
  "s_tlb (freed a s) = s_tlb s" "supports (freed a s) = supports s" "smem (freed a s) = smem s"
  by (auto simp: freed_def asid_of_def get_pte_def ex_state_def fun_eq_iff)

lemma freed_pool:
  assumes "pool_ok lk L s" and "L \<subseteq> {1..8}"
  shows "pool_ok lk (L - {a}) (freed a s)"
proof -
  have "frame_ok lk (L - {a}) (freed a s) i" if "i < SWAP_POOL_SIZE" for i
    using assms(1) that by (auto simp: pool_ok_def pool_except_def frame_ok_def Let_def freed_def get_pte_def)
  moreover have "\<exists>i. in_frame (freed a s) b p i" if "b \<in> L - {a}" "p < 32" "valid (get_pte s (getSupport lk b, p))" for b p
  proof -
    have "\<exists>i. in_frame s b p i" using assms(1) that by (auto simp: pool_ok_def pool_except_def)
    then show ?thesis using that(1) by (auto simp: in_frame_def freed_def)
  qed
  ultimately show ?thesis using assms(1) by (simp add: pool_ok_def pool_except_def)
qed

lemma wp_supTerminate:
  assumes lk: "link_ok lk" and L: "L \<subseteq> {1..8}" and Q: "\<And>s. Q Terminated s"
    and R: "\<And>e r s'. R e r s' \<Longrightarrow> vm_rely lk L a e r s'"
    and G: "\<And>e. \<not> releases lk e \<Longrightarrow> G e" "\<And>e. pool_ok lk (L - {a}) (ev_state e) \<Longrightarrow> G e"
  shows "wp (supTerminate lk a k) R G Q s"
proof -
  have P: "pool_ok lk L s'"
    if "R \<lparr>ev_call = PASSEREN, ev_a1 = a_swapPoolSem lk, ev_a2 = 0, ev_a3 = 0, ev_state = s\<rparr> r s'" for r s'
    using R [OF that] by (simp add: vm_rely_def Let_def)
  have Ge: "G e" if "releases lk e \<Longrightarrow> \<exists>t. pool_ok lk L t \<and> ev_state e = freed a t" for e
    using that G freed_pool [OF _ L, of lk _ a] by metis
  show ?thesis
    unfolding supTerminate_def
    by (simp only: wp.simps wp_foldr_Write free_frames Let_def)
      (use link_ok_sel(4,5) [OF lk] in \<open>auto simp: releases_def Q intro!: Ge dest!: P\<close>)
qed

section \<open>The pager\<close>

lemma wp_flashOperation:
  assumes lk: "link_ok lk" and b: "b \<in> {1..8}" and R: "\<And>e r s'. R e r s' \<Longrightarrow> vm_rely lk L a e r s'"
    and G: "\<And>e. \<not> releases lk e \<Longrightarrow> G e"
    and k: "\<And>r s'. same_pool lk L s s' \<Longrightarrow> ex_state s' (getSupport lk a) = ex_state s (getSupport lk a) \<Longrightarrow>
      (\<forall>e r s'. R e r s' \<longrightarrow> flash_ready e r s') \<longrightarrow> r = READY \<Longrightarrow> wp (k r) R G Q s'"
  shows "wp (flashOperation lk b blk fa op k) R G Q s"
proof -
  note m = flash_mutex [OF lk b]
  have st: "same_pool lk L t (store_word x y t)" "ex_state (store_word x y t) = ex_state t" for t x y
    by (auto simp: same_pool_def asid_of_def get_pte_def ex_state_def fun_eq_iff)
  let ?cmd = "push_bit 8 (of_nat blk) OR op" and ?reg = "DEV_REG_ADDR lk IL_FLASH (unat (b - 1))"
  let ?ev = "\<lambda>c x y t. \<lparr>ev_call = c, ev_a1 = x, ev_a2 = y, ev_a3 = 0, ev_state = t\<rparr>"
    and ?m = "devMutex lk (FLASH_MUTEX (unat (b - 1)))"
  have "wp (k r2) R G Q s3"
    if r: "R (?ev PASSEREN ?m 0 s) r1 s1" "R (?ev DOIO (reg_word ?reg 1) ?cmd (store_word (reg_word ?reg 2) fa s1)) r2 s2"
      "R (?ev VERHOGEN ?m 0 s2) r3 s3" for r1 s1 r2 s2 r3 s3
  proof (rule k)
    have e: "same_pool lk L s s1" "ex_state s1 (getSupport lk a) = ex_state s (getSupport lk a)"
      "same_pool lk L (store_word (reg_word ?reg 2) fa s1) s2"
      "ex_state s2 (getSupport lk a) = ex_state (store_word (reg_word ?reg 2) fa s1) (getSupport lk a)"
      "same_pool lk L s2 s3" "ex_state s3 (getSupport lk a) = ex_state s2 (getSupport lk a)"
      using R [OF r(1)] R [OF r(2)] R [OF r(3)] m(1) by (simp_all add: vm_rely_def Let_def del: store_word_def)
    show "same_pool lk L s s3" using same_pool_trans e(1,3,5) st(1) by blast
    show "ex_state s3 (getSupport lk a) = ex_state s (getSupport lk a)" using e(2,4,6) by (simp only: st(2))
    show "(\<forall>e r s'. R e r s' \<longrightarrow> flash_ready e r s') \<longrightarrow> r2 = READY" using r(2) by (force simp: flash_ready_def)
  qed
  then show ?thesis
    using m(2) by (auto simp: flashOperation_def Let_def releases_def simp del: store_word_def intro!: G)
qed

lemma same_pool_sel:
  assumes "same_pool lk L s s'"
  shows "swapPool s' = swapPool s" "fifoNext s' = fifoNext s"
    "a \<in> L \<Longrightarrow> asid_of s' (getSupport lk a) = asid_of s (getSupport lk a)"
    "a \<in> L \<Longrightarrow> get_pte s' (getSupport lk a, p) = get_pte s (getSupport lk a, p)"
  using assms by (simp_all add: same_pool_def)

text \<open>The four writes at the end of the pager.\<close>

definition enter_page :: "u32 \<Rightarrow> nat \<Rightarrow> nat \<Rightarrow> slevel \<Rightarrow> slevel" where
  "enter_page su p i s =
     (let s = s\<lparr>swapPool := (swapPool s)(i := (swapPool s i)\<lparr>sw_asid := asid_of s su\<rparr>)\<rparr>;
          s = s\<lparr>swapPool := (swapPool s)(i := (swapPool s i)\<lparr>sw_pageNo := p\<rparr>)\<rparr>;
          s = s\<lparr>swapPool := (swapPool s)(i := (swapPool s i)\<lparr>sw_pte := (su, p)\<rparr>)\<rparr>
      in markPagePresent (su, p) (frameAddr i) s)"

lemma pool_update_sel [simp]:
  "asid_of (s\<lparr>swapPool := f\<rparr>) = asid_of s" "get_pte (s\<lparr>swapPool := f\<rparr>) = get_pte s"
  "ex_state (s\<lparr>swapPool := f\<rparr>) = ex_state s"
  "asid_of (s\<lparr>fifoNext := n\<rparr>) = asid_of s" "get_pte (s\<lparr>fifoNext := n\<rparr>) = get_pte s"
  "ex_state (s\<lparr>fifoNext := n\<rparr>) = ex_state s"
  by (auto simp: asid_of_def get_pte_def ex_state_def fun_eq_iff)

lemma enter_page_sel:
  "swapPool (enter_page su p i s) = (swapPool s)(i := \<lparr>sw_asid = asid_of s su, sw_pageNo = p, sw_pte = (su, p)\<rparr>)"
  "fifoNext (enter_page su p i s) = fifoNext s" "asid_of (enter_page su p i s) x = asid_of s x"
  "get_pte (enter_page su p i s) q =
    (if q = (su, p) then (get_pte s q)\<lparr>pte_entryLO := present_lo i\<rparr> else get_pte s q)"
  "ex_state (enter_page su p i s) x y = ex_state s x y"
  "frame_data (enter_page su p i s) = frame_data s" "flash_data (enter_page su p i s) = flash_data s"
  by (cases "swapPool s i"; simp add: enter_page_def Let_def present_lo_def)+

lemma wp_pager_load_def:
  "wp (pager_load lk su p i) R G Q s =
   wp (flashOperation lk (asid_of s su) p (frameAddr i) FLASHREAD (\<lambda>st.
     if st \<noteq> READY then V (a_swapPoolSem lk) (terminate_self lk su Return)
     else Write (enter_page su p i) (V (a_swapPoolSem lk) (Read (\<lambda>s. Load (ex_state s su PGFAULTEXCEPT)))))) R G Q s"
  by (simp add: pager_load_def flashOperation_def enter_page_def Let_def if_distrib [of "\<lambda>p. wp p R G Q s" for R G Q s]
      cong: if_cong)

text \<open>Every valid translation in the TLB is an entry of the page table of a live process.\<close>

definition tlb_ok :: "link_addrs \<Rightarrow> u32 set \<Rightarrow> slevel \<Rightarrow> bool" where
  "tlb_ok lk L s \<longleftrightarrow> list_all (\<lambda>(hi, lo). lo AND VALIDON = 0 \<or>
     (\<exists>a\<in>L. \<exists>p<32. (hi, lo) = (let e = get_pte s (getSupport lk a, p) in (pte_entryHI e, pte_entryLO e)))) (s_tlb s)"

lemma enter_page_tlb_eq:
  "s_tlb (enter_page su p i s) = (map (\<lambda>_. (0, 0)) (s_tlb s))[tlb_random s (tlb_writes s) :=
     (pte_entryHI (get_pte s (su, p)), present_lo i)]"
proof -
  have s: "get_pte (interruptsOff t) = get_pte t" "s_tlb (interruptsOn t) = s_tlb t" "s_tlb (interruptsOff t) = s_tlb t"
    "tlb_random (interruptsOff t) = tlb_random t" "tlb_writes (interruptsOff t) = tlb_writes t"
    "s_tlb (sTLBWR t) = (s_tlb t)[tlb_random t (tlb_writes t) := (s_entryhi t, s_entrylo t)]"
    "s_tlb (sTLBCLR t) = map (\<lambda>_. (0, 0)) (s_tlb t)" "get_pte (sTLBCLR t) = get_pte t"
    "tlb_random (sTLBCLR t) = tlb_random t" "tlb_writes (sTLBCLR t) = tlb_writes t"
    "get_pte (t\<lparr>s_entryhi := x\<rparr>) = get_pte t" "get_pte (t\<lparr>s_entrylo := x\<rparr>) = get_pte t" for t x
    by (auto simp: interruptsOn_def interruptsOff_def sTLBWR_def sTLBCLR_def get_pte_def fun_eq_iff)
  show ?thesis by (simp add: enter_page_def markPagePresent_def Let_def s present_lo_def)
qed

lemma enter_page_tlb: "a \<in> L \<Longrightarrow> p < 32 \<Longrightarrow> tlb_ok lk L (enter_page (getSupport lk a) p i s)"
  by (auto simp: tlb_ok_def enter_page_tlb_eq enter_page_sel list_all_iff dest!: set_update_subset_insert [THEN subsetD])

text \<open>What holds when the pager gives the mutex back: the page is present, in the frame whose turn it was.\<close>

definition page_loaded :: "link_addrs \<Rightarrow> u32 set \<Rightarrow> u32 \<Rightarrow> nat \<Rightarrow> slevel \<Rightarrow> bool" where
  "page_loaded lk L a p s \<longleftrightarrow> pool_ok lk L s \<and> tlb_ok lk L s \<and> valid (get_pte s (getSupport lk a, p)) \<and>
     list_ex (\<lambda>i. in_frame s a p i \<and> fifoNext s = Suc i mod SWAP_POOL_SIZE) [0..<SWAP_POOL_SIZE]"

lemma wp_pager_load:
  assumes lk: "link_ok lk" and L: "L \<subseteq> {1..8}" "a \<in> L" and p: "p < 32" and i: "i < SWAP_POOL_SIZE"
    and R: "\<And>e r s'. R e r s' \<Longrightarrow> vm_rely lk L a e r s'" "\<And>e r s'. R e r s' \<Longrightarrow> flash_ready e r s'"
    and G: "\<And>e. \<not> releases lk e \<Longrightarrow> G e" "\<And>e. page_loaded lk L a p (ev_state e) \<Longrightarrow> G e"
    and I: "pool_except lk L {i} s" and nxt: "fifoNext s = Suc i mod SWAP_POOL_SIZE"
    and new: "\<not> valid (get_pte s (getSupport lk a, p))"
    and Q: "\<And>s'. Q (Loaded (ex_state s (getSupport lk a) PGFAULTEXCEPT)) s'"
  shows "wp (pager_load lk (getSupport lk a) p i) R G Q s"
proof -
  let ?su = "getSupport lk a"
  have a: "asid_of s ?su = a" "a \<in> {1..8}" using I L by (auto simp: pool_except_def)
  show ?thesis
    unfolding wp_pager_load_def a(1)
  proof (rule wp_flashOperation [OF lk a(2) R(1) G(1)])
    fix r t
    assume t: "same_pool lk L s t" "ex_state t ?su = ex_state s ?su"
      and "(\<forall>e r s'. R e r s' \<longrightarrow> flash_ready e r s') \<longrightarrow> r = READY"
    then have r: "r = READY" using R(2) by blast
    have It: "pool_except lk L {i} t" by (rule same_pool_ok [OF t(1) I])
    let ?t = "enter_page ?su p i t"
    note same = same_pool_sel [OF t(1)]
    have "pool_ok lk L ?t"
      by (rule load_pool [OF It i L(2) p L(1)]) (use new a same L(2) in \<open>simp_all add: enter_page_sel\<close>)
    moreover have "tlb_ok lk L ?t" by (rule enter_page_tlb [OF L(2) p])
    moreover have "valid (get_pte ?t (?su, p))" by (simp add: enter_page_sel valid_present_lo)
    moreover have "in_frame ?t a p i" using i a(1) same(3) [OF L(2)] by (simp add: in_frame_def enter_page_sel)
    moreover have "fifoNext ?t = Suc i mod SWAP_POOL_SIZE" using nxt same(2) by (simp add: enter_page_sel)
    ultimately have "page_loaded lk L a p ?t" using i by (auto simp: page_loaded_def list_ex_iff)
    moreover have "Q (Loaded (ex_state s' ?su PGFAULTEXCEPT)) s'"
      if "R \<lparr>ev_call = VERHOGEN, ev_a1 = a_swapPoolSem lk, ev_a2 = 0, ev_a3 = 0, ev_state = ?t\<rparr> x s'" for x s'
    proof -
      have "ex_state s' ?su = ex_state ?t ?su" using R(1) [OF that] by (simp add: vm_rely_def Let_def)
      then have "ex_state s' ?su = ex_state s ?su" using t(2) by (simp add: fun_eq_iff enter_page_sel)
      then show ?thesis using Q by simp
    qed
    ultimately show "wp (if r \<noteq> READY then V (a_swapPoolSem lk) (terminate_self lk ?su Return)
        else Write (enter_page ?su p i) (V (a_swapPoolSem lk) (Read (\<lambda>s. Load (ex_state s ?su PGFAULTEXCEPT)))))
        R G Q t"
      using r by (auto simp: Let_def intro!: G(2))
  qed auto
qed

lemma wp_pager_body:
  assumes lk: "link_ok lk" and L: "L \<subseteq> {1..8}" "a \<in> L" and p: "p < 32" and i: "i < SWAP_POOL_SIZE"
    and R: "\<And>e r s'. R e r s' \<Longrightarrow> vm_rely lk L a e r s'" "\<And>e r s'. R e r s' \<Longrightarrow> flash_ready e r s'"
    and G: "\<And>e. \<not> releases lk e \<Longrightarrow> G e" "\<And>e. page_loaded lk L a p (ev_state e) \<Longrightarrow> G e"
    and I: "pool_ok lk L s" and nxt: "fifoNext s = Suc i mod SWAP_POOL_SIZE"
    and new: "\<not> valid (get_pte s (getSupport lk a, p))"
    and Q: "\<And>s'. Q (Loaded (ex_state s (getSupport lk a) PGFAULTEXCEPT)) s'"
  shows "wp (pager_evict lk (getSupport lk a) i (pager_load lk (getSupport lk a) p i)) R G Q s"
proof (cases "sw_asid (swapPool s i) = SWAP_FRAME_FREE")
  case True
  then have "wp (pager_load lk (getSupport lk a) p i) R G Q s"
    using nxt new Q by (intro wp_pager_load [OF lk L p i R G pool_ok_free [OF I True L(1)]]) auto
  then show ?thesis using True by (simp add: pager_evict_def)
next
  case False
  let ?e = "swapPool s i" and ?su = "getSupport lk a"
  let ?s = "markPageNotValid (sw_pte ?e) s"
  have E: "pool_except lk L {i} ?s" by (rule evict_pool [OF I i False L(1)])
  have "sw_asid ?e \<in> L" using I i False by (auto simp: pool_ok_def pool_except_def frame_ok_def Let_def)
  then have b: "sw_asid ?e \<in> {1..8}" using L by auto
  have "wp (flashOperation lk (sw_asid ?e) (sw_pageNo ?e) (frameAddr i) FLASHWRITE
      (\<lambda>st. if st \<noteq> READY then V (a_swapPoolSem lk) (terminate_self lk ?su Return)
        else pager_load lk ?su p i)) R G Q ?s"
  proof (rule wp_flashOperation [OF lk b R(1) G(1)])
    fix r t
    assume t: "same_pool lk L ?s t" "ex_state t ?su = ex_state ?s ?su"
      and "(\<forall>e r s'. R e r s' \<longrightarrow> flash_ready e r s') \<longrightarrow> r = READY"
    then have r: "r = READY" using R(2) by blast
    have ex: "ex_state t ?su = ex_state s ?su" using t(2) by (simp add: fun_eq_iff)
    have "wp (pager_load lk ?su p i) R G Q t"
    proof (rule wp_pager_load [OF lk L p i R G same_pool_ok [OF t(1) E]])
      show "fifoNext t = Suc i mod SWAP_POOL_SIZE" using nxt same_pool_sel(2) [OF t(1)] by simp
      show "\<not> valid (get_pte t (?su, p))" using new same_pool_sel(4) [OF t(1) L(2)] by auto
      show "Q (Loaded (ex_state t ?su PGFAULTEXCEPT)) s'" for s' using Q by (simp add: ex)
    qed auto
    then show "wp (if r \<noteq> READY then V (a_swapPoolSem lk) (terminate_self lk ?su Return)
        else pager_load lk ?su p i) R G Q t" using r by simp
  qed auto
  then show ?thesis using False by (simp add: pager_evict_def Let_def)
qed

lemma vpnToIndex_less: "vpnToIndex e < 32"
proof -
  define v where "v = drop_bit VPNSHIFT e AND (0xFFFFF :: u32)"
  have "sint (v - KUSEG_VPN_START) < 32" if "KUSEG_VPN_START \<le> v" "v < 0x8001F"
  proof -
    have "unat (v - KUSEG_VPN_START) < 31" using that by unat_arith
    then have "v - KUSEG_VPN_START < 31" by (simp add: word_less_nat_alt)
    then have "uint (v - KUSEG_VPN_START) < 31" by (simp add: word_less_def)
    moreover from this have "signed_take_bit 31 (uint (v - KUSEG_VPN_START)) = uint (v - KUSEG_VPN_START)"
      by (intro signed_take_bit_int_eq_self) (auto intro: order_trans [OF _ uint_ge_0])
    ultimately show ?thesis by (simp add: sint_uint)
  qed
  then show ?thesis by (simp add: vpnToIndex_def v_def [symmetric] Let_def)
qed

text \<open>The page whose absence the saved state reports, \<open>-1\<close> if there is none that the pager can load.\<close>

definition missing_page :: "state_t \<Rightarrow> int" where
  "missing_page st = (if cause st AND CAUSE_EXCCODE_MASK = EXC_MOD then -1 else vpnToIndex (entry_hi st))"

definition serves :: "link_addrs \<Rightarrow> u32 set \<Rightarrow> u32 \<Rightarrow> int \<Rightarrow> event \<Rightarrow> bool" where
  "serves lk L a p e \<longleftrightarrow> (releases lk e \<longrightarrow>
     (if p < 0 then pool_ok lk L (ev_state e) \<or> pool_ok lk (L - {a}) (ev_state e)
      else page_loaded lk L a (nat p) (ev_state e)))"

lemma wp_pager:
  assumes lk: "link_ok lk" and L: "L \<subseteq> {1..8}" "a \<in> L"
    and R: "\<And>e r s'. R e r s' \<Longrightarrow> vm_rely lk L a e r s'" "\<And>e r s'. R e r s' \<Longrightarrow> flash_ready e r s'"
    and a: "asid_of s (getSupport lk a) = a"
  shows "wp (pager lk) R (serves lk L a (missing_page (ex_state s (getSupport lk a) PGFAULTEXCEPT)))
    (\<lambda>f t. f = (if missing_page (ex_state s (getSupport lk a) PGFAULTEXCEPT) < 0 then Terminated
       else Loaded (ex_state s (getSupport lk a) PGFAULTEXCEPT))) s"
    (is "wp _ R ?G ?Q s")
proof -
  let ?su = "getSupport lk a"
  let ?x = "ex_state s ?su PGFAULTEXCEPT"
  have rely: "ex_state s' ?su = ex_state (ev_state e) ?su" "asid_of s' ?su = asid_of (ev_state e) ?su"
    "ev_call e = GETSUPPORTPTR \<Longrightarrow> r = ?su"
    "ev_call e = PASSEREN \<Longrightarrow> ev_a1 e = a_swapPoolSem lk \<Longrightarrow> pool_ok lk L s' \<and> fault_ok lk a s'"
    if "R e r s'" for e r s'
    using R(1) [OF that] by (simp_all add: vm_rely_def Let_def)
  define G Q where "G = ?G" and "Q = ?Q"
  have G1: "G e" if "\<not> releases lk e" for e using that by (simp add: serves_def G_def)
  have exit: "wp (terminate_self lk ?su Return) R G Q t" if "missing_page ?x < 0" "asid_of t ?su = a" for t
    using that by (auto simp: terminate_self_def serves_def G_def Q_def intro!: wp_supTerminate [OF lk L(1) _ R(1)])
  have body: "wp (let p = vpnToIndex (entry_hi ?x) in
      if p < 0 then V (a_swapPoolSem lk) (terminate_self lk ?su Return)
      else let i = fifoNext t in Write (\<lambda>s. s\<lparr>fifoNext := (fifoNext s + 1) mod SWAP_POOL_SIZE\<rparr>)
        (pager_evict lk ?su i (pager_load lk ?su (nat p) i))) R G Q t"
    if t: "ex_state t ?su = ex_state s ?su" "asid_of t ?su = a" "pool_ok lk L t" "fault_ok lk a t"
      and m: "cause ?x AND CAUSE_EXCCODE_MASK \<noteq> EXC_MOD" for t
  proof (cases "vpnToIndex (entry_hi ?x) < 0")
    case True
    then have neg: "missing_page ?x < 0" by (simp add: missing_page_def)
    have "G e" if "ev_state e = t" for e using t(3) neg that by (simp add: G_def serves_def)
    then show ?thesis using True t(2) neg by (auto simp: Let_def intro!: exit dest: rely(2))
  next
    case False
    let ?t = "t\<lparr>fifoNext := (fifoNext t + 1) mod SWAP_POOL_SIZE\<rparr>" and ?p = "nat (vpnToIndex (entry_hi ?x))"
    have "wp (pager_evict lk ?su (fifoNext t) (pager_load lk ?su ?p (fifoNext t))) R G Q ?t"
    proof (rule wp_pager_body [OF lk L _ _ R G1])
      show "?p < 32" using vpnToIndex_less [of "entry_hi ?x"] by simp
      show "fifoNext t < SWAP_POOL_SIZE" using t(3) by (simp add: pool_ok_def pool_except_def)
      show "pool_ok lk L ?t" using t(3) by (simp add: pool_ok_def pool_except_def frame_ok_def in_frame_def asid_of_def get_pte_def)
      show "\<not> valid (get_pte ?t (?su, ?p))" using t(1,4) m False by (simp add: fault_ok_def Let_def get_pte_def)
      show "G e" if "page_loaded lk L a ?p (ev_state e)" for e
        using that False m by (simp add: G_def serves_def missing_page_def)
      show "Q (Loaded (ex_state ?t ?su PGFAULTEXCEPT)) s'" for s'
        using t(1) False m by (simp add: Q_def missing_page_def ex_state_def)
    qed auto
    then show ?thesis using False by (simp add: Let_def)
  qed
  have fault: "wp (if cause (ex_state t ?su PGFAULTEXCEPT) AND CAUSE_EXCCODE_MASK = EXC_MOD
      then terminate_self lk ?su Return
      else P (a_swapPoolSem lk) (Read (\<lambda>s.
        let p = vpnToIndex (entry_hi (ex_state s ?su PGFAULTEXCEPT)) in
        if p < 0 then V (a_swapPoolSem lk) (terminate_self lk ?su Return)
        else let i = fifoNext s in Write (\<lambda>s. s\<lparr>fifoNext := (fifoNext s + 1) mod SWAP_POOL_SIZE\<rparr>)
          (pager_evict lk ?su i (pager_load lk ?su (nat p) i))))) R G Q t"
    if t: "ex_state t ?su = ex_state s ?su" "asid_of t ?su = a" for t
  proof (cases "cause ?x AND CAUSE_EXCCODE_MASK = EXC_MOD")
    case True
    then show ?thesis using t exit [of t] by (simp add: missing_page_def)
  next
    case False
    have "wp (let p = vpnToIndex (entry_hi (ex_state t' ?su PGFAULTEXCEPT)) in
        if p < 0 then V (a_swapPoolSem lk) (terminate_self lk ?su Return)
        else let i = fifoNext t' in Write (\<lambda>s. s\<lparr>fifoNext := (fifoNext s + 1) mod SWAP_POOL_SIZE\<rparr>)
          (pager_evict lk ?su i (pager_load lk ?su (nat p) i))) R G Q t'"
      if "R \<lparr>ev_call = PASSEREN, ev_a1 = a_swapPoolSem lk, ev_a2 = 0, ev_a3 = 0, ev_state = t\<rparr> r t'" for r t'
      using body [of t'] rely(1,2,4) [OF that] t False by simp
    then show ?thesis using t(1) False by (simp add: G1 releases_def)
  qed
  have "wp (Read (\<lambda>t. if cause (ex_state t r PGFAULTEXCEPT) AND CAUSE_EXCCODE_MASK = EXC_MOD
      then terminate_self lk r Return
      else P (a_swapPoolSem lk) (Read (\<lambda>s.
        let p = vpnToIndex (entry_hi (ex_state s r PGFAULTEXCEPT)) in
        if p < 0 then V (a_swapPoolSem lk) (terminate_self lk r Return)
        else let i = fifoNext s in Write (\<lambda>s. s\<lparr>fifoNext := (fifoNext s + 1) mod SWAP_POOL_SIZE\<rparr>)
          (pager_evict lk r i (pager_load lk r (nat p) i)))))) R G Q t"
    if "R \<lparr>ev_call = GETSUPPORTPTR, ev_a1 = 0, ev_a2 = 0, ev_a3 = 0, ev_state = s\<rparr> r t" for r t
    using rely(1-3) [OF that] a fault [of t] by (simp only: wp.simps event.simps)
  then have "wp (pager lk) R G Q s"
    unfolding pager_def wp.simps(2) Let_def by (simp add: G1 releases_def del: wp.simps(2))
  then show ?thesis by (simp add: G_def Q_def)
qed

end
