(* ===== verification/Vm_Transparency.thy ===== *)
theory Vm_Transparency
  imports Vm_Pager
begin

text \<open>
  Paging does not change what a process finds in its memory. \<open>solo\<close> is the environment in which the
  pager runs alone with flash devices that work; the contents of a page are those of its frame if
  it is present, those of its block of the flash device otherwise.
\<close>

section \<open>The flash devices\<close>

definition flash_unit :: "link_addrs \<Rightarrow> u32 \<Rightarrow> nat option" where
  "flash_unit lk reg = find (\<lambda>d. reg = reg_word (DEV_REG_ADDR lk IL_FLASH d) 1) [0..<DEVPERINT]"

definition transfer :: "nat \<Rightarrow> nat \<Rightarrow> u32 \<Rightarrow> u32 \<Rightarrow> slevel \<Rightarrow> slevel" where
  "transfer d blk fa op s =
     (if op = FLASHREAD then s\<lparr>frame_data := (frame_data s)(fa := flash_data s d blk)\<rparr>
      else if op = FLASHWRITE then s\<lparr>flash_data := (flash_data s)(d := (flash_data s d)(blk := frame_data s fa))\<rparr>
      else s)"

definition flash_step :: "link_addrs \<Rightarrow> event \<Rightarrow> slevel" where
  "flash_step lk e = (let s = ev_state e in case flash_unit lk (ev_a1 e) of
     None \<Rightarrow> s
   | Some d \<Rightarrow> transfer d (unat (drop_bit 8 (ev_a2 e)))
       (smem s (reg_word (DEV_REG_ADDR lk IL_FLASH d) 2)) (ev_a2 e AND 0xFF) s)"

definition solo :: "link_addrs \<Rightarrow> u32 \<Rightarrow> env" where
  "solo lk su n e =
     (if ev_call e = GETSUPPORTPTR then (su, ev_state e)
      else if ev_call e = DOIO then (READY, flash_step lk e)
      else (0, ev_state e))"

text \<open>The flash devices have different registers.\<close>

definition flash_regs_ok :: "link_addrs \<Rightarrow> bool" where
  "flash_regs_ok lk \<longleftrightarrow> distinct (map (\<lambda>d. DEV_REG_ADDR lk IL_FLASH d) [0..<DEVPERINT])"

lemma flash_unit_reg:
  assumes "flash_regs_ok lk" and "d < DEVPERINT"
  shows "flash_unit lk (reg_word (DEV_REG_ADDR lk IL_FLASH d) 1) = Some d"
proof -
  have inj: "DEV_REG_ADDR lk IL_FLASH d = DEV_REG_ADDR lk IL_FLASH e \<longleftrightarrow> d = e" if "e < DEVPERINT" for e
    using assms that by (auto simp: flash_regs_ok_def distinct_map inj_on_def)
  show ?thesis
    using assms(2) by (auto simp: flash_unit_def find_Some_iff find_None_iff reg_word_def inj nth_upt intro!: exI [of _ d])
qed

lemma command_word:
  assumes "blk < 32" and "op = FLASHREAD \<or> op = FLASHWRITE"
  shows "unat (drop_bit 8 (push_bit 8 (of_nat blk) OR op)) = blk" "(push_bit 8 (of_nat blk) OR op) AND 0xFF = op"
proof -
  have "list_all (\<lambda>b. list_all (\<lambda>op :: u32. unat (drop_bit 8 (push_bit 8 (of_nat b) OR op)) = b \<and>
      (push_bit 8 (of_nat b) OR op) AND 0xFF = op) [2, 3]) [0..<32]" by code_simp
  then have "\<forall>b<32. \<forall>op\<in>{2, 3 :: u32}. unat (drop_bit 8 (push_bit 8 (of_nat b) OR op)) = b \<and>
      (push_bit 8 (of_nat b) OR op) AND 0xFF = op" by (simp add: list_all_iff)
  then show "unat (drop_bit 8 (push_bit 8 (of_nat blk) OR op)) = blk" "(push_bit 8 (of_nat blk) OR op) AND 0xFF = op"
    using assms by auto
qed

section \<open>The final state of a program\<close>

definition final :: "prog \<Rightarrow> env \<Rightarrow> nat \<Rightarrow> slevel \<Rightarrow> slevel" where
  "final p env n s = snd (snd (run p env n s))"

lemma final_simps [simp]:
  "final Return env n s = s" "final (Read f) env n s = final (f s) env n s"
  "final (Write g k) env n s = final k env n (g s)" "final (Load st) env n s = s"
  by (simp_all add: final_def)

lemma final_Syscall:
  "\<not> (c = TERMPROCESS \<and> x = 0) \<Longrightarrow> final (Syscall c x y z k) env n s =
    (let (r, s') = env n \<lparr>ev_call = c, ev_a1 = x, ev_a2 = y, ev_a3 = z, ev_state = s\<rparr> in final (k r) env (next_index c n) s')"
  by (auto simp: final_def Let_def split: prod.splits)

lemma final_solo [simp]:
  "final (P x k) (solo lk su) n s = final k (solo lk su) (Suc n) s"
  "final (V x k) (solo lk su) n s = final k (solo lk su) (Suc n) s"
  "final (Syscall GETSUPPORTPTR 0 0 0 f) (solo lk su) n s = final (f su) (solo lk su) (Suc n) s"
  "final (Syscall DOIO x y z f) (solo lk su) n s =
    final (f READY) (solo lk su) (Suc n)
      (flash_step lk \<lparr>ev_call = DOIO, ev_a1 = x, ev_a2 = y, ev_a3 = z, ev_state = s\<rparr>)"
  by (simp_all add: final_Syscall solo_def)

lemma final_flashOperation:
  assumes "flash_regs_ok lk" and "b \<in> {1..8}" and "blk < 32" and "op = FLASHREAD \<or> op = FLASHWRITE"
  shows "final (flashOperation lk b blk fa op k) (solo lk su) n s =
    final (k READY) (solo lk su) (n + 3)
      (transfer (unat (b - 1)) blk fa op (store_word (reg_word (DEV_REG_ADDR lk IL_FLASH (unat (b - 1))) 2) fa s))"
proof -
  have d: "unat (b - 1) < DEVPERINT"
  proof -
    have "b \<in> {1, 2, 3, 4, 5, 6, 7, 8}" using assms(2) by (simp only: asid_cases)
    then show ?thesis by auto
  qed
  show ?thesis
    by (simp add: flashOperation_def Let_def flash_step_def flash_unit_reg [OF assms(1) d, simplified] command_word [OF assms(3,4)]
        numeral_3_eq_3 del: drop_bit_or)
qed

section \<open>The contents of the pages\<close>

definition page_of :: "link_addrs \<Rightarrow> slevel \<Rightarrow> u32 \<Rightarrow> nat \<Rightarrow> page" where
  "page_of lk s a p = (let e = get_pte s (getSupport lk a, p) in
     if valid e then frame_data s (pte_entryLO e AND 0xFFFFF000) else flash_data s (unat (a - 1)) p)"

lemma frame_of_present: "i < 16 \<Longrightarrow> present_lo i AND 0xFFFFF000 = frameAddr i"
proof -
  have "list_all (\<lambda>i. present_lo i AND 0xFFFFF000 = frameAddr i) [0..<16]" by code_simp
  then show "i < 16 \<Longrightarrow> ?thesis" by (auto simp: list_all_iff)
qed

lemma frameAddr_inject: "i < 16 \<Longrightarrow> j < 16 \<Longrightarrow> frameAddr i = frameAddr j \<longleftrightarrow> i = j"
proof -
  have "list_all (\<lambda>i. list_all (\<lambda>j. (frameAddr i = frameAddr j) = (i = j)) [0..<16]) [0..<16]" by code_simp
  then show "i < 16 \<Longrightarrow> j < 16 \<Longrightarrow> ?thesis" by (auto simp: list_all_iff)
qed

text \<open>In a consistent pool a page that is in no frame of \<open>X\<close> is in its frame or on its device.\<close>

lemma page_of_frame:
  assumes "pool_except lk L X s" and "in_frame s a p i" "i \<notin> X" "a \<in> L" "p < 32" "L \<subseteq> {1..8}"
  shows "page_of lk s a p = frame_data s (frameAddr i)" and "valid (get_pte s (getSupport lk a, p))"
proof -
  have "pte_entryLO (get_pte s (getSupport lk a, p)) = present_lo i"
    using assms free_not_asid [of L] by (auto simp: pool_except_def frame_ok_def in_frame_def Let_def)
  moreover from this have "valid (get_pte s (getSupport lk a, p))"
    using valid_present_lo [where e = "get_pte s (getSupport lk a, p)" and i = i] by (simp add: valid_def)
  ultimately show "page_of lk s a p = frame_data s (frameAddr i)" "valid (get_pte s (getSupport lk a, p))"
    using assms(2) by (simp_all add: page_of_def Let_def frame_of_present in_frame_def)
qed

lemma asid_device:
  assumes "a \<in> {1..8 :: u32}" "b \<in> {1..8}"
  shows "unat (a - 1) = unat (b - 1) \<longleftrightarrow> a = b"
  using assms unfolding asid_cases by auto

lemma transfer_sel [simp]:
  "swapPool (transfer d b fa op s) = swapPool s" "fifoNext (transfer d b fa op s) = fifoNext s"
  "asid_of (transfer d b fa op s) = asid_of s" "get_pte (transfer d b fa op s) = get_pte s"
  "ex_state (transfer d b fa op s) = ex_state s"
  by (auto simp: transfer_def asid_of_def get_pte_def ex_state_def fun_eq_iff)

lemma smem_sel [simp]:
  "asid_of (s\<lparr>smem := m\<rparr>) = asid_of s" "get_pte (s\<lparr>smem := m\<rparr>) = get_pte s" "ex_state (s\<lparr>smem := m\<rparr>) = ex_state s"
  by (auto simp: asid_of_def get_pte_def ex_state_def fun_eq_iff)

lemma flash_step_sel [simp]:
  "swapPool (flash_step lk e) = swapPool (ev_state e)" "fifoNext (flash_step lk e) = fifoNext (ev_state e)"
  "asid_of (flash_step lk e) = asid_of (ev_state e)" "get_pte (flash_step lk e) = get_pte (ev_state e)"
  "ex_state (flash_step lk e) = ex_state (ev_state e)"
  by (auto simp: flash_step_def Let_def split: option.splits)

text \<open>The state after an eviction.\<close>

definition evicted :: "link_addrs \<Rightarrow> nat \<Rightarrow> slevel \<Rightarrow> slevel" where
  "evicted lk i s =
     (if sw_asid (swapPool s i) = SWAP_FRAME_FREE then s
      else let e = swapPool s i; d = unat (sw_asid e - 1) in
        transfer d (sw_pageNo e) (frameAddr i) FLASHWRITE
          (store_word (reg_word (DEV_REG_ADDR lk IL_FLASH d) 2) (frameAddr i) (markPageNotValid (sw_pte e) s)))"

lemma evicted_pool:
  assumes "pool_ok lk L s" "i < SWAP_POOL_SIZE" "L \<subseteq> {1..8}"
  shows "pool_except lk L {i} (evicted lk i s)"
proof (cases "sw_asid (swapPool s i) = SWAP_FRAME_FREE")
  case True
  then show ?thesis using pool_ok_free assms by (simp add: evicted_def)
next
  case False
  then show ?thesis
    by (auto simp: evicted_def Let_def intro: pool_except_cong [OF evict_pool [OF assms(1,2) False assms(3)]])
qed

lemma evicted_page:
  assumes I: "pool_ok lk L s" and i: "i < SWAP_POOL_SIZE" and L: "L \<subseteq> {1..8}" and b: "b \<in> L" "q < 32"
  shows "page_of lk (evicted lk i s) b q = page_of lk s b q"
proof (cases "sw_asid (swapPool s i) = SWAP_FRAME_FREE")
  case True
  then show ?thesis by (simp add: evicted_def)
next
  case False
  let ?e = "swapPool s i"
  let ?a = "sw_asid ?e" and ?p = "sw_pageNo ?e"
  have v: "?a \<in> L" "?p < 32" "sw_pte ?e = (getSupport lk ?a, ?p)"
    using I i False by (auto simp: pool_ok_def pool_except_def frame_ok_def Let_def)
  have d: "unat (?a - 1) = unat (b - 1) \<longleftrightarrow> ?a = b" using asid_device v(1) b(1) L by blast
  have su: "getSupport lk ?a = getSupport lk b \<longleftrightarrow> ?a = b" using getSupport_inject v(1) b(1) L by blast
  show ?thesis
  proof (cases "?a = b \<and> ?p = q")
    case True
    then have "in_frame s b q i" using i by (simp add: in_frame_def)
    then have "page_of lk s b q = frame_data s (frameAddr i)"
      using page_of_frame I b L by (auto simp: pool_ok_def)
    then show ?thesis using True False v(3)
      by (simp add: page_of_def Let_def evicted_def) (simp add: transfer_def)
  next
    case False': False
    then have "(getSupport lk b, q) \<noteq> (getSupport lk ?a, ?p)" using su by auto
    then show ?thesis using False False' v(3) d
      by (auto simp: page_of_def Let_def evicted_def) (auto simp: transfer_def)
  qed
qed

text \<open>The state after the missing page is loaded.\<close>

definition loaded :: "link_addrs \<Rightarrow> u32 \<Rightarrow> nat \<Rightarrow> nat \<Rightarrow> slevel \<Rightarrow> slevel" where
  "loaded lk a p i s =
     (let d = unat (a - 1) in enter_page (getSupport lk a) p i
       (transfer d p (frameAddr i) FLASHREAD
         (store_word (reg_word (DEV_REG_ADDR lk IL_FLASH d) 2) (frameAddr i) s)))"

lemma loaded_page:
  assumes I: "pool_except lk L {i} s" and i: "i < SWAP_POOL_SIZE" and L: "L \<subseteq> {1..8}" "a \<in> L" and p: "p < 32"
    and new: "\<not> valid (get_pte s (getSupport lk a, p))" and b: "b \<in> L" "q < 32"
  shows "page_of lk (loaded lk a p i s) b q = page_of lk s b q"
proof (cases "a = b \<and> p = q")
  case True
  then show ?thesis using new i
    by (simp add: page_of_def Let_def loaded_def enter_page_sel valid_present_lo frame_of_present)
      (simp add: transfer_def)
next
  case False
  have su: "getSupport lk a = getSupport lk b \<longleftrightarrow> a = b" using getSupport_inject L b(1) by blast
  have pte: "get_pte (loaded lk a p i s) (getSupport lk b, q) = get_pte s (getSupport lk b, q)"
    using False su by (auto simp: loaded_def Let_def enter_page_sel)
  have fd: "flash_data (loaded lk a p i s) = flash_data s"
    by (simp add: loaded_def Let_def enter_page_sel) (simp add: transfer_def)
  show ?thesis
  proof (cases "valid (get_pte s (getSupport lk b, q))")
    case True
    then have "\<exists>j. j \<notin> {i} \<and> in_frame s b q j" using I b by (auto simp: pool_except_def)
    then obtain j where j: "j \<noteq> i" "in_frame s b q j" by auto
    then have lo: "pte_entryLO (get_pte s (getSupport lk b, q)) = present_lo j"
      using I b free_not_asid [OF L(1)] by (auto simp: pool_except_def frame_ok_def in_frame_def Let_def)
    have "j < 16" using j(2) by (simp add: in_frame_def)
    then have "frame_data (loaded lk a p i s) (frameAddr j) = frame_data s (frameAddr j)"
      using frameAddr_inject [of i j] i j(1) by (simp add: loaded_def Let_def enter_page_sel) (simp add: transfer_def)
    then show ?thesis using True lo \<open>j < 16\<close> by (simp add: page_of_def Let_def pte frame_of_present)
  next
    case False
    then show ?thesis by (simp add: page_of_def Let_def pte fd)
  qed
qed

lemma final_pager:
  assumes reg: "flash_regs_ok lk" and I: "pool_ok lk L s" and L: "L \<subseteq> {1..8}" "a \<in> L"
    and m: "missing_page (ex_state s (getSupport lk a) PGFAULTEXCEPT) = int p"
  shows "final (pager lk) (solo lk (getSupport lk a)) n s =
    loaded lk a p (fifoNext s) (evicted lk (fifoNext s) (s\<lparr>fifoNext := (fifoNext s + 1) mod SWAP_POOL_SIZE\<rparr>))"
proof -
  let ?su = "getSupport lk a" and ?i = "fifoNext s"
  have p: "p < 32" "cause (ex_state s ?su PGFAULTEXCEPT) AND CAUSE_EXCCODE_MASK \<noteq> EXC_MOD"
    "vpnToIndex (entry_hi (ex_state s ?su PGFAULTEXCEPT)) = int p"
    using m vpnToIndex_less [of "entry_hi (ex_state s ?su PGFAULTEXCEPT)"] by (auto simp: missing_page_def split: if_splits)
  have a: "a \<in> {1..8}" "asid_of s ?su = a" using L I by (auto simp: pool_ok_def pool_except_def)
  have ld: "final (pager_load lk ?su p ?i) (solo lk ?su) k t = loaded lk a p ?i t" if "asid_of t ?su = a" for k t
    using that a(1) p(1)
    by (simp add: pager_load_def final_flashOperation [OF reg] loaded_def Let_def enter_page_def del: store_word_def)
  let ?s = "s\<lparr>fifoNext := (fifoNext s + 1) mod SWAP_POOL_SIZE\<rparr>"
  have "final (pager_evict lk ?su ?i (pager_load lk ?su p ?i)) (solo lk ?su) k ?s = loaded lk a p ?i (evicted lk ?i ?s)" for k
  proof (cases "sw_asid (swapPool s ?i) = SWAP_FRAME_FREE")
    case True
    then show ?thesis using a(2) by (simp add: pager_evict_def evicted_def ld)
  next
    case False
    have v: "sw_asid (swapPool s ?i) \<in> {1..8}" "sw_pageNo (swapPool s ?i) < 32"
      using I L(1) False by (auto simp: pool_ok_def pool_except_def frame_ok_def Let_def)
    then show ?thesis using False a(2)
      by (simp add: pager_evict_def Let_def final_flashOperation [OF reg] evicted_def ld del: store_word_def)
        (simp add: ld)
  qed
  then show ?thesis using p by (simp add: pager_def Let_def)
qed

text \<open>The pager preserves the contents of all pages.\<close>

lemma final_pager_page:
  assumes reg: "flash_regs_ok lk" and I: "pool_ok lk L s" and L: "L \<subseteq> {1..8}" "a \<in> L"
    and m: "missing_page (ex_state s (getSupport lk a) PGFAULTEXCEPT) = int p"
    and new: "\<not> valid (get_pte s (getSupport lk a, p))" and b: "b \<in> L" "q < 32"
  shows "page_of lk (final (pager lk) (solo lk (getSupport lk a)) n s) b q = page_of lk s b q"
proof -
  let ?s = "s\<lparr>fifoNext := (fifoNext s + 1) mod SWAP_POOL_SIZE\<rparr>" and ?i = "fifoNext s"
  have I': "pool_ok lk L ?s" using I by (simp add: pool_ok_def pool_except_def frame_ok_def in_frame_def)
  have nx: "page_of lk (s\<lparr>fifoNext := k\<rparr>) b q = page_of lk s b q" for k by (simp add: page_of_def Let_def)
  have i: "?i < SWAP_POOL_SIZE" using I by (simp add: pool_ok_def pool_except_def)
  have p: "p < 32" using m vpnToIndex_less [of "entry_hi (ex_state s (getSupport lk a) PGFAULTEXCEPT)"]
    by (auto simp: missing_page_def split: if_splits)
  have "\<not> valid (get_pte (evicted lk ?i ?s) (getSupport lk a, p))"
    using new by (auto simp: evicted_def Let_def)
  then show ?thesis
    unfolding final_pager [OF reg I L m]
    using loaded_page [OF evicted_pool [OF I' i L(1)] i L p _ b] evicted_page [OF I' i L(1) b]
    by (simp add: nx)
qed

end
