(* ===== verification/Vm_Tables.thy ===== *)
theory Vm_Tables
  imports Vm_Transparency
begin

text \<open>
  The page table of a new process, the index of a page in it as the pager and the refill handler of
  the Nucleus compute it, and what a launch and a termination do to the virtual memory.
\<close>

section \<open>The page table of a new process\<close>

definition page_hi :: "u32 \<Rightarrow> nat \<Rightarrow> u32" where
  "page_hi asid i = push_bit VPNSHIFT (if i = UPROC_STACKPAGE then KUSEG_STACK_VPN else KUSEG_VPN_START + of_nat i)
     OR push_bit ASIDSHIFT asid"

lemma fold_upd_pte:
  "get_pte (fold (\<lambda>i. upd_pte (su, i) (F i)) [0..<n] s) q =
    (if fst q = su \<and> snd q < n then F (snd q) (get_pte s q) else get_pte s q)"
  by (cases q, induction n) (auto simp: less_Suc_eq)

lemma fold_upd_pte_sel:
  "swapPool (fold (\<lambda>i. upd_pte (su, i) (F i)) xs s) = swapPool s"
  "fifoNext (fold (\<lambda>i. upd_pte (su, i) (F i)) xs s) = fifoNext s"
  "asid_of (fold (\<lambda>i. upd_pte (su, i) (F i)) xs s) x = asid_of s x"
  "ex_state (fold (\<lambda>i. upd_pte (su, i) (F i)) xs s) x = ex_state s x"
  "s_tlb (fold (\<lambda>i. upd_pte (su, i) (F i)) xs s) = s_tlb s"
  "smem (fold (\<lambda>i. upd_pte (su, i) (F i)) xs s) = smem s"
  "tlb_random (fold (\<lambda>i. upd_pte (su, i) (F i)) xs s) = tlb_random s"
  "tlb_writes (fold (\<lambda>i. upd_pte (su, i) (F i)) xs s) = tlb_writes s"
  by (induction xs arbitrary: s) (auto simp: fun_eq_iff)

lemma get_pte_init:
  "get_pte (initUprocPageTable su s) q =
    (if fst q = su \<and> snd q < 32
     then (get_pte s q)\<lparr>pte_entryHI := page_hi (asid_of s su) (snd q), pte_entryLO := DIRTYON\<rparr> else get_pte s q)"
  by (cases q) (auto simp: initUprocPageTable_def Let_def fold_upd_pte page_hi_def)

lemma init_table_sel [simp]:
  "swapPool (initUprocPageTable su s) = swapPool s" "fifoNext (initUprocPageTable su s) = fifoNext s"
  "asid_of (initUprocPageTable su s) x = asid_of s x" "ex_state (initUprocPageTable su s) x = ex_state s x"
  "s_tlb (initUprocPageTable su s) = s_tlb s" "smem (initUprocPageTable su s) = smem s"
  "tlb_random (initUprocPageTable su s) = tlb_random s" "tlb_writes (initUprocPageTable su s) = tlb_writes s"
  by (simp_all add: initUprocPageTable_def Let_def fold_upd_pte_sel fun_eq_iff)

section \<open>The index of a page\<close>

definition vpn_of :: "u32 \<Rightarrow> u32" where
  "vpn_of e = drop_bit VPNSHIFT e AND 0xFFFFF"

lemma vpnToIndex_cases:
  "vpnToIndex e = (if vpn_of e = 0xBFFFF then 31
     else if 0x80000 \<le> vpn_of e \<and> vpn_of e < 0x8001F then uint (vpn_of e) - 0x80000 else -1)"
proof -
  have "sint (v - 0x80000) = uint v - 0x80000" if "0x80000 \<le> v" "v < 0x8001F" for v :: u32
  proof -
    have u: "uint (v - 0x80000) = uint v - 0x80000" using that by (simp add: uint_minus_simple_alt [THEN iffD1])
    have "0x80000 \<le> uint v" "uint v < 0x8001F" using that by (simp_all add: word_le_def word_less_def)
    then show ?thesis using signed_take_bit_int_eq_self [of 31 "uint v - 0x80000"] by (simp add: sint_uint u)
  qed
  then show ?thesis by (simp add: vpnToIndex_def vpn_of_def Let_def)
qed

lemma vpn_page_hi:
  assumes "a < 64" and "i < 32"
  shows "vpn_of (page_hi a i) = (if i = 31 then 0xBFFFF else 0x80000 + of_nat i)"
proof -
  have "list_all (\<lambda>n. drop_bit 12 (push_bit 6 (of_nat n :: u32)) = 0) [0..<64]" by code_simp
  from bspec [OF this [unfolded list_all_iff], of "unat a"] have "drop_bit 12 (push_bit 6 a) = 0"
    using assms(1) by (simp add: word_less_nat_alt)
  moreover have "list_all (\<lambda>i. drop_bit 12 (push_bit 12 (if i = 31 then 0xBFFFF else 0x80000 + of_nat i :: u32)) AND 0xFFFFF =
      (if i = 31 then 0xBFFFF else 0x80000 + of_nat i)) [0..<32]" by code_simp
  ultimately show ?thesis using assms(2) by (simp add: vpn_of_def page_hi_def list_all_iff drop_bit_or)
qed

text \<open>A page has one index, and every index in the table is that of a page.\<close>

lemma vpnToIndex_page_hi:
  assumes "a < 64" and "i < 32"
  shows "vpnToIndex (page_hi a i) = int i"
proof (cases "i = 31")
  case True
  then show ?thesis using assms by (simp add: vpnToIndex_cases vpn_page_hi)
next
  case False
  have "list_all (\<lambda>i. (0x80000 + of_nat i :: u32) \<noteq> 0xBFFFF \<and> (0x80000 :: u32) \<le> 0x80000 + of_nat i \<and>
      (0x80000 + of_nat i :: u32) < 0x8001F \<and> uint (0x80000 + of_nat i :: u32) - 0x80000 = int i) [0..<31]"
    by code_simp
  from bspec [OF this [unfolded list_all_iff], of i] show ?thesis
    using assms False by (simp add: vpnToIndex_cases vpn_page_hi)
qed

lemma page_of_index:
  assumes "vpnToIndex e = int i" and "a < 64"
  shows "vpn_of e = vpn_of (page_hi a i)"
proof -
  have i: "i < 32" using assms(1) vpnToIndex_less [of e] by simp
  show ?thesis
  proof (cases "vpn_of e = 0xBFFFF")
    case True
    then show ?thesis using assms i by (simp add: vpnToIndex_cases vpn_page_hi)
  next
    case False
    then have v: "0x80000 \<le> vpn_of e" "vpn_of e < 0x8001F" "uint (vpn_of e) - 0x80000 = int i"
      using assms(1) by (auto simp: vpnToIndex_cases split: if_splits)
    have "unat (vpn_of e) = 0x80000 + i" using v(3) uint_nat [of "vpn_of e"] by linarith
    then have "vpn_of e = of_nat (0x80000 + i)" using word_unat_eq_iff [of "vpn_of e" "of_nat (0x80000 + i)"] by (metis of_nat_unat unsigned_ucast_eq ucast_id)
    moreover have "i \<noteq> 31" using v(2,3) by (auto simp: word_less_def)
    ultimately show ?thesis using assms(2) i by (simp add: vpn_page_hi)
  qed
qed

lemma refill_index_cases:
  "refill_index e = (if vpn_of e = 0xBFFFF then 31 else vpn_of e - 0x80000)"
  by (simp add: refill_index_def vpn_of_def Let_def)

lemma refill_in_table:
  "unat (refill_index e) < 32 \<longleftrightarrow> 0 \<le> vpnToIndex e \<or> vpn_of e = 0x8001F"
proof -
  define v where "v = vpn_of e"
  have "v = 0xBFFFF \<or> unat (v - 0x80000) < 32 \<longleftrightarrow> v = 0xBFFFF \<or> (0x80000 \<le> v \<and> v < 0x8001F) \<or> v = 0x8001F"
    by (unat_arith; simp; arith)
  moreover have "0 \<le> uint v - 0x80000" if "0x80000 \<le> v" using that by (simp add: word_le_def)
  ultimately show ?thesis by (auto simp: refill_index_cases vpnToIndex_cases v_def [symmetric])
qed

lemma refill_index_eq:
  assumes "0 \<le> vpnToIndex e"
  shows "uint (refill_index e) = vpnToIndex e"
  using assms by (auto simp: refill_index_cases vpnToIndex_cases uint_minus_simple_alt [THEN iffD1] split: if_splits)

section \<open>Launch and start\<close>

lemma upd_support_keeps:
  "get_pte (upd_support su (set_context x c) s) = get_pte s"
  "asid_of (upd_support su (set_context x c) s) = asid_of s"
  "ex_state (upd_support su (set_context x c) s) = ex_state s"
  "get_pte (upd_support su (\<lambda>u. u\<lparr>sup_asid := a\<rparr>) s) = get_pte s"
  "asid_of (upd_support su (\<lambda>u. u\<lparr>sup_asid := a\<rparr>) s) = (asid_of s)(su := a)"
  "ex_state (upd_support su (\<lambda>u. u\<lparr>sup_asid := a\<rparr>) s) = ex_state s"
  by (auto simp: get_pte_def asid_of_def ex_state_def set_context_def fun_eq_iff)

lemma setup_support_sel:
  "swapPool (setup_support lk a s) = swapPool s" "fifoNext (setup_support lk a s) = fifoNext s"
  "s_tlb (setup_support lk a s) = s_tlb s" "ex_state (setup_support lk a s) = ex_state s"
  "smem (setup_support lk a s) = smem s" "tlb_random (setup_support lk a s) = tlb_random s"
  "tlb_writes (setup_support lk a s) = tlb_writes s"
  "asid_of (setup_support lk a s) su = (if su = getSupport lk a then a else asid_of s su)"
  "get_pte (setup_support lk a s) q = (if fst q = getSupport lk a \<and> snd q < 32
     then (get_pte s q)\<lparr>pte_entryHI := page_hi a (snd q), pte_entryLO := DIRTYON\<rparr> else get_pte s q)"
proof -
  show "asid_of (setup_support lk a s) su = (if su = getSupport lk a then a else asid_of s su)"
    by (simp add: setup_support_def Let_def upd_support_keeps del: upd_support_def)
  show "get_pte (setup_support lk a s) q = (if fst q = getSupport lk a \<and> snd q < 32
     then (get_pte s q)\<lparr>pte_entryHI := page_hi a (snd q), pte_entryLO := DIRTYON\<rparr> else get_pte s q)"
    by (simp add: setup_support_def Let_def upd_support_keeps get_pte_init del: upd_support_def)
  show "ex_state (setup_support lk a s) = ex_state s"
    by (simp add: setup_support_def Let_def upd_support_keeps fun_eq_iff del: upd_support_def)
qed (simp_all add: setup_support_def Let_def)

lemma DIRTYON_not_valid: "\<not> valid (e\<lparr>pte_entryHI := h, pte_entryLO := DIRTYON\<rparr>)"
  by (simp add: valid_def)

lemma setup_support_pool:
  assumes I: "pool_ok lk L s" and L: "L \<subseteq> {1..8}" and a: "a \<in> {1..8}" "a \<notin> L"
  shows "pool_ok lk (insert a L) (setup_support lk a s)"
proof -
  have ne: "getSupport lk b \<noteq> getSupport lk a" if "b \<in> L" for b
    using that getSupport_inject [of b a lk] L a by blast
  have "frame_ok lk (insert a L) (setup_support lk a s) i" if "i < SWAP_POOL_SIZE" for i
    using I that ne by (auto simp: pool_ok_def pool_except_def frame_ok_def Let_def setup_support_sel)
  moreover have "\<exists>i. in_frame (setup_support lk a s) b p i"
    if b: "b \<in> insert a L" "p < 32" and v: "valid (get_pte (setup_support lk a s) (getSupport lk b, p))" for b p
  proof -
    have "b \<noteq> a" using v b(2) by (auto simp: setup_support_sel DIRTYON_not_valid)
    then have "b \<in> L" "valid (get_pte s (getSupport lk b, p))" using b v ne by (auto simp: setup_support_sel)
    then have "\<exists>i. in_frame s b p i" using I b(2) by (simp add: pool_ok_def pool_except_def)
    then show ?thesis by (simp add: in_frame_def setup_support_sel)
  qed
  ultimately show ?thesis
    using I ne by (auto simp: pool_ok_def pool_except_def setup_support_sel)
qed

lemma initSwapStructs_eq:
  "initSwapStructs lk s = s\<lparr>smem := (smem s)(a_swapPoolSem lk := 1), fifoNext := 0,
     swapPool := \<lambda>i. if i < SWAP_POOL_SIZE then (swapPool s i)\<lparr>sw_asid := SWAP_FRAME_FREE\<rparr> else swapPool s i\<rparr>"
proof -
  have f: "fold free_frame [0..<n] t = t\<lparr>swapPool := \<lambda>i. if i < n then (swapPool t i)\<lparr>sw_asid := SWAP_FRAME_FREE\<rparr> else swapPool t i\<rparr>" for n t
    by (induction n) (auto simp: free_frame_def fun_eq_iff less_Suc_eq intro!: arg_cong [where f = "\<lambda>f. t\<lparr>swapPool := f\<rparr>"])
  show ?thesis by (rule slevel.equality) (simp_all add: initSwapStructs_def Let_def f fun_eq_iff)
qed

lemma initSwapStructs_sel:
  "swapPool (initSwapStructs lk s) i = (if i < SWAP_POOL_SIZE then (swapPool s i)\<lparr>sw_asid := SWAP_FRAME_FREE\<rparr> else swapPool s i)"
  "fifoNext (initSwapStructs lk s) = 0" "supports (initSwapStructs lk s) = supports s"
  "smem (initSwapStructs lk s) = (smem s)(a_swapPoolSem lk := 1)" "s_tlb (initSwapStructs lk s) = s_tlb s"
  "tlb_random (initSwapStructs lk s) = tlb_random s" "tlb_writes (initSwapStructs lk s) = tlb_writes s"
  by (simp_all add: initSwapStructs_eq)

lemma initSwapStructs_pool: "pool_ok lk {} (initSwapStructs lk s)"
  by (simp add: pool_ok_def pool_except_def frame_ok_def initSwapStructs_sel)

end
