(* ===== verification/Support_Demo.thy ===== *)
theory Support_Demo
  imports Vm_Tables
begin

text \<open>
  A concrete memory layout and a concrete state of the support level, for the instances of the
  properties: the shell has been launched and has faulted on its page \<open>hi >> 12\<close>.
\<close>

definition demo_lk :: link_addrs where
  "demo_lk = \<lparr>a_swapPoolSem = 0x20010000, a_masterSemaphore = 0x20010004, a_shellSemaphore = 0x20010008,
     a_devMutex = 0x20010100, a_supportPool = 0x20011000, a_pager = 0x20002000,
     a_generalExceptionHandler = 0x20003000, a_local_state = 0x2001F000,
     DEV_REG_ADDR = \<lambda>il d. 0x10000054 + of_nat ((il - 17) * 0x80 + d * 0x10)\<rparr>"

definition blank_support :: "state_t \<Rightarrow> support_t" where
  "blank_support st = \<lparr>sup_asid = 0, sup_exceptState = \<lambda>_. st, sup_exceptContext = \<lambda>_. \<lparr>stackPtr = 0, ctx_status = 0, ctx_pc = 0\<rparr>,
     sup_privatePgTbl = \<lambda>_. \<lparr>pte_entryHI = 0, pte_entryLO = 0\<rparr>\<rparr>"

definition blank :: "state_t \<Rightarrow> slevel" where
  "blank st = \<lparr>swapPool = \<lambda>_. \<lparr>sw_asid = 0, sw_pageNo = 0, sw_pte = (0, 0)\<rparr>, fifoNext = 0,
     supports = \<lambda>_. blank_support st, smem = \<lambda>_. 0, umem = \<lambda>_ _. 104, state_area = \<lambda>_. zero_state,
     s_status = 0, s_entryhi = 0, s_entrylo = 0, s_tlb = replicate 16 (0, 0), tlb_random = \<lambda>n. n mod 16, tlb_writes = 0,
     frame_data = \<lambda>_. [], flash_data = \<lambda>d b. [of_nat d, of_nat b]\<rparr>"

definition demo_vm :: "u32 \<Rightarrow> slevel" where
  "demo_vm hi = setup_support demo_lk 1 (initSwapStructs demo_lk (blank (zero_state\<lparr>entry_hi := hi\<rparr>)))"

lemma demo_link: "link_ok demo_lk"
  by code_simp

lemma demo_flash_regs: "flash_regs_ok demo_lk"
  by code_simp

lemma demo_vm_pool: "pool_ok demo_lk {1} (demo_vm hi)"
  unfolding demo_vm_def by (rule setup_support_pool [OF initSwapStructs_pool]) auto

lemma demo_vm_sel:
  "ex_state (demo_vm hi) su e = zero_state\<lparr>entry_hi := hi\<rparr>" "fifoNext (demo_vm hi) = 0"
  "asid_of (demo_vm hi) (getSupport demo_lk 1) = 1" "sw_asid (swapPool (demo_vm hi) 0) = SWAP_FRAME_FREE"
  "\<not> valid (get_pte (demo_vm hi) (getSupport demo_lk 1, p))"
proof -
  show "\<not> valid (get_pte (demo_vm hi) (getSupport demo_lk 1, p))"
    by (cases "p < 32") (simp_all add: demo_vm_def setup_support_sel DIRTYON_not_valid,
      simp add: valid_def get_pte_def initSwapStructs_sel blank_def blank_support_def)
qed (simp_all add: demo_vm_def setup_support_sel, simp_all add: initSwapStructs_sel ex_state_def blank_def blank_support_def)

end
