(* ===== verification/Vm_Services.thy ===== *)
theory Vm_Services
  imports Support_Demo
begin

text \<open>
  What the virtual memory promises: the pager keeps the swap pool, the page tables and the TLB
  consistent and the contents of the pages unchanged, and termination and launch fit in with it.
\<close>

section \<open>The pager\<close>

text \<open>
  C7. Provided the flash devices answer every operation with \<open>READY\<close> (if one fails the pool breaks,
  see \<open>failed_eviction_breaks_pool\<close>) and the other processes respect the mutexes (\<open>vm_rely\<close>: the
  pool is consistent when the mutex is obtained, and nobody changes it while it is held), whenever
  the pager gives the mutex of the swap pool back, the swap pool table and the page
  tables of the live processes agree: every frame that is not free holds the page the table names,
  and the entry of this page, and of no other, refers to the frame; the TLB holds no other valid
  entries; and the missing page is present, in the frame whose turn it was. Then the faulting
  process goes on with the saved state. A fault that no page can serve (outside the address space,
  a write to a read-only page) ends in the termination of the process, again with a consistent pool.
\<close>

theorem pager_keeps_pool_consistent:
  assumes "link_ok lk" and "L \<subseteq> {1..8}" and "a \<in> L" and "asid_of s (getSupport lk a) = a"
    and "run (pager lk) env n s = (es, f, t)"
    and "obeys env (\<lambda>e r s'. vm_rely lk L a e r s' \<and> flash_ready e r s') n es"
  shows "let st = ex_state s (getSupport lk a) PGFAULTEXCEPT; p = missing_page st in
    list_all (\<lambda>e. releases lk e \<longrightarrow>
      (if p < 0 then pool_ok lk L (ev_state e) \<or> pool_ok lk (L - {a}) (ev_state e)
       else page_loaded lk L a (nat p) (ev_state e))) es \<and>
    f = (if p < 0 then Terminated else Loaded st)"
  using run_wp [OF wp_pager [OF assms(1-3), where R = "\<lambda>e r s'. vm_rely lk L a e r s' \<and> flash_ready e r s'"] assms(5,6)] assms(4)
  by (simp add: Let_def serves_def [abs_def])

lemma demo_fault:
  "obeys (solo demo_lk (getSupport demo_lk 1)) (\<lambda>e r s'. vm_rely demo_lk {1} 1 e r s' \<and> flash_ready e r s') 0
    (fst (run (pager demo_lk) (solo demo_lk (getSupport demo_lk 1)) 0 (demo_vm 0x80005040)))"
proof -
  let ?su = "getSupport demo_lk 1"
  have v: "vpnToIndex 0x80005040 = 5" by code_simp
  have c: "cause (zero_state\<lparr>entry_hi := 0x80005040\<rparr>) = 0" by (simp add: zero_state_def)
  have ne: "a_swapPoolSem demo_lk \<notin> devMutex demo_lk ` {..<48}"
    using link_ok_sel(1) [OF demo_link] by force
  have f: "fault_ok demo_lk 1 (demo_vm 0x80005040)" by (simp add: fault_ok_def Let_def demo_vm_sel)
  have m: "devMutex demo_lk (FLASH_MUTEX 0) \<noteq> a_swapPoolSem demo_lk"
    using link_ok_sel(1) [OF demo_link, of 8] by (simp add: FLASH_MUTEX_def)
  show ?thesis
    by (simp add: pager_def obeys_run solo_def demo_vm_sel v c pager_evict_def pager_load_def flashOperation_def Let_def)
      (simp add: vm_rely_def same_pool_def flash_ready_def demo_vm_sel demo_vm_pool f m ne Let_def)
qed

theorem pager_keeps_pool_consistent_witness:
  "let (es, f, t) = run (pager demo_lk) (solo demo_lk (getSupport demo_lk 1)) 0 (demo_vm 0x80005040) in
   list_all (\<lambda>e. releases demo_lk e \<longrightarrow> page_loaded demo_lk {1} 1 5 (ev_state e)) es \<and>
   f = Loaded (zero_state\<lparr>entry_hi := 0x80005040\<rparr>)"
proof -
  obtain es f t where r: "run (pager demo_lk) (solo demo_lk (getSupport demo_lk 1)) 0 (demo_vm 0x80005040) = (es, f, t)"
    by (metis prod_cases3)
  have m: "missing_page (zero_state\<lparr>entry_hi := 0x80005040\<rparr>) = 5" by code_simp
  show ?thesis
    using pager_keeps_pool_consistent [OF demo_link _ _ _ r demo_fault [unfolded r fst_conv]]
    by (simp add: r demo_vm_sel m)
qed

text \<open>
  C8. Paging is transparent: running alone with flash devices that work, the pager changes the
  contents of no page of any live process, where the contents of a page are those of its frame when
  it is present and those of its block of the flash device when it is not. So the evicted page is
  on its device and the loaded one in its frame, as the process left them.
\<close>

theorem pager_preserves_memory:
  assumes "flash_regs_ok lk" and "pool_ok lk L s" and "L \<subseteq> {1..8}" and "a \<in> L"
    and "missing_page (ex_state s (getSupport lk a) PGFAULTEXCEPT) = int p"
    and "\<not> valid (get_pte s (getSupport lk a, p))"
    and "run (pager lk) (solo lk (getSupport lk a)) n s = (es, f, t)"
    and "b \<in> L" and "q < 32"
  shows "page_of lk t b q = page_of lk s b q"
  using final_pager_page [OF assms(1-6,8,9), of n] assms(7) by (simp add: final_def)

theorem pager_preserves_memory_witness:
  "let (es, f, t) = run (pager demo_lk) (solo demo_lk (getSupport demo_lk 1)) 0 (demo_vm 0x80005040)
   in page_of demo_lk t 1 5 = page_of demo_lk (demo_vm 0x80005040) 1 5"
proof -
  obtain es f t where r: "run (pager demo_lk) (solo demo_lk (getSupport demo_lk 1)) 0 (demo_vm 0x80005040) = (es, f, t)"
    by (metis prod_cases3)
  have m: "missing_page (ex_state (demo_vm 0x80005040) (getSupport demo_lk 1) PGFAULTEXCEPT) = int 5"
    unfolding demo_vm_sel by code_simp
  show ?thesis
    using pager_preserves_memory [OF demo_flash_regs demo_vm_pool _ _ m demo_vm_sel(5) r] by (simp add: r)
qed

text \<open>Flash devices that answer every operation with the status \<open>st\<close>.\<close>

definition flash_answers :: "u32 \<Rightarrow> env" where
  "flash_answers st n e = (if ev_call e = DOIO then st else 0, ev_state e)"

text \<open>
  C39. A failing flash device breaks the swap pool: when the write of the victim fails, the pager
  gives the mutex back although the frame is still in the table as the victim's page, whose page
  table entry is not valid any more.
\<close>

theorem failed_eviction_breaks_pool:
  assumes "pool_ok lk L s" and "L \<subseteq> {1..8}" and "i < SWAP_POOL_SIZE"
    and "sw_asid (swapPool s i) \<noteq> SWAP_FRAME_FREE" and "st \<noteq> READY"
    and "run (pager_evict lk su i k) (flash_answers st) n s = (es, f, t)"
  shows "map (\<lambda>e. (ev_call e, ev_a1 e)) (take 4 es) =
      (let d = unat (sw_asid (swapPool s i) - 1); m = devMutex lk (FLASH_MUTEX d) in
       [(PASSEREN, m), (DOIO, reg_word (DEV_REG_ADDR lk IL_FLASH d) 1), (VERHOGEN, m), (VERHOGEN, a_swapPoolSem lk)]) \<and>
    \<not> pool_ok lk L (ev_state (es ! 3))"
proof -
  let ?e = "swapPool s i" and ?d = "unat (sw_asid (swapPool s i) - 1)"
  let ?t = "store_word (reg_word (DEV_REG_ADDR lk IL_FLASH ?d) 2) (frameAddr i) (markPageNotValid (sw_pte ?e) s)"
  have f: "frame_ok lk L s i" using assms(1,3) by (auto simp: pool_ok_def pool_except_def)
  have "\<not> frame_ok lk L ?t i"
  proof
    assume "frame_ok lk L ?t i"
    moreover have "swapPool ?t = swapPool s" by simp
    ultimately have "pte_entryLO (get_pte ?t (sw_pte ?e)) = present_lo i"
      using assms(4) unfolding frame_ok_def Let_def by metis
    moreover have "\<not> valid (get_pte ?t (sw_pte ?e))" by simp
    ultimately show False using valid_present_lo [where e = "get_pte ?t (sw_pte ?e)" and i = i] by (simp add: valid_def)
  qed
  then have "\<not> pool_ok lk L ?t" using assms(3) by (auto simp: pool_ok_def pool_except_def)
  then show ?thesis
    using assms(4-6) by (auto simp: pager_evict_def flashOperation_def Let_def split_def flash_answers_def)
qed

text \<open>A pool whose first frame holds page 5 of the shell.\<close>

definition demo_full :: slevel where
  "demo_full = enter_page (getSupport demo_lk 1) 5 0 (demo_vm 0x80005040)"

lemma demo_full: "pool_ok demo_lk {1} demo_full" "sw_asid (swapPool demo_full 0) = 1"
proof -
  have I: "pool_except demo_lk {1} {0} (demo_vm 0x80005040)"
    by (rule pool_ok_free [OF demo_vm_pool demo_vm_sel(4)]) simp
  have sp: "swapPool demo_full = (swapPool (demo_vm 0x80005040))(0 := \<lparr>sw_asid = 1, sw_pageNo = 5, sw_pte = (getSupport demo_lk 1, 5)\<rparr>)"
    unfolding demo_full_def enter_page_sel demo_vm_sel by (rule refl)
  show "pool_ok demo_lk {1} demo_full"
    by (rule load_pool [OF I _ _ _ _ demo_vm_sel(5) sp]) (simp_all add: demo_full_def enter_page_sel)
  show "sw_asid (swapPool demo_full 0) = 1" by (simp add: sp)
qed

theorem failed_eviction_breaks_pool_witness:
  "let (es, f, t) = run (pager_evict demo_lk (getSupport demo_lk 1) 0 Return) (flash_answers 4) 0 demo_full
   in \<not> pool_ok demo_lk {1} (ev_state (es ! 3))"
proof -
  obtain es f t where r: "run (pager_evict demo_lk (getSupport demo_lk 1) 0 Return) (flash_answers 4) 0 demo_full = (es, f, t)"
    by (metis prod_cases3)
  show ?thesis
    using failed_eviction_breaks_pool [OF demo_full(1) _ _ _ _ r] demo_full(2) by (simp add: r)
qed

section \<open>Page tables\<close>

text \<open>
  C25. The page table of a new process is the inverse of the page index: the index of the page whose
  number the \<open>i\<close>-th entry has is \<open>i\<close>, for all 32 entries, and an address has index \<open>i\<close> only if its
  page number is that of the \<open>i\<close>-th entry. No entry is valid.
\<close>

theorem page_table_index_roundtrip:
  assumes "asid_of s su < 64" and "vpnToIndex e = int k"
  shows "let entry = \<lambda>i. get_pte (initUprocPageTable su s) (su, i) in
    map (\<lambda>i. vpnToIndex (pte_entryHI (entry i))) [0..<32] = map int [0..<32] \<and>
    list_all (\<lambda>i. \<not> valid (entry i)) [0..<32] \<and>
    k < 32 \<and> vpn_of (pte_entryHI (entry k)) = vpn_of e"
proof -
  have k: "k < 32" using assms(2) vpnToIndex_less [of e] by simp
  have i: "vpnToIndex (page_hi (asid_of s su) i) = int i" if "i < 32" for i
    by (rule vpnToIndex_page_hi [OF assms(1) that])
  show ?thesis
    unfolding Let_def
    using k i page_of_index [OF assms(2,1)]
    by (auto simp: get_pte_init DIRTYON_not_valid list_all_iff simp del: upt_rec_numeral)
qed

theorem page_table_index_roundtrip_witness:
  "let entry = \<lambda>i. get_pte (initUprocPageTable (getSupport demo_lk 1) (demo_vm 0)) (getSupport demo_lk 1, i) in
   map (\<lambda>i. vpnToIndex (pte_entryHI (entry i))) [0..<32] = map int [0..<32] \<and>
   vpn_of (pte_entryHI (entry 31)) = vpn_of 0xBFFFFABC"
proof -
  have "vpnToIndex 0xBFFFFABC = int 31" by code_simp
  from page_table_index_roundtrip [OF _ this, of "demo_vm 0" "getSupport demo_lk 1"] show ?thesis
    by (simp add: demo_vm_sel Let_def)
qed

text \<open>
  The TLB refill handler of the Nucleus and the pager compute the same index for every page of
  the address space. For page \<open>0x8001F\<close>, which the pager rejects, the refill handler takes the entry
  of the stack page, and for every other number it reads outside the page table.
\<close>

theorem refill_index_agrees_with_pager:
  "if 0 \<le> vpnToIndex e then uint (refill_index e) = vpnToIndex e
   else if vpn_of e = 0x8001F then refill_index e = 31
   else 32 \<le> unat (refill_index e)"
  using refill_index_eq [of e] refill_in_table [of e] by (auto simp: refill_index_cases)

section \<open>Termination and launch\<close>

lemma freed_frame:
  "swapPool (freed a s) i = (if i < SWAP_POOL_SIZE \<and> sw_asid (swapPool s i) = a
     then (swapPool s i)\<lparr>sw_asid := SWAP_FRAME_FREE\<rparr> else swapPool s i)"
  by (simp add: freed_def)

lemma run_supTerminate:
  assumes "s1 = snd (env n (call PASSEREN (a_swapPoolSem lk) s))"
    and "s2 = snd (env (Suc n) (call VERHOGEN (a_swapPoolSem lk) (freed a s1)))"
    and "waiter = (if a = 1 then a_masterSemaphore lk else a_shellSemaphore lk)"
    and "s3 = snd (env (Suc (Suc n)) (call VERHOGEN waiter s2))"
  shows "run (supTerminate lk a k) env n s =
      ([call PASSEREN (a_swapPoolSem lk) s, call VERHOGEN (a_swapPoolSem lk) (freed a s1),
        call VERHOGEN waiter s2, call TERMPROCESS 0 s3], Terminated, s3)"
proof -
  have w: "run (foldr (\<lambda>i. Write (F i)) is k) e m t = run k e m (fold F is t)" for F "is" k e m t
    by (induction "is" arbitrary: t) auto
  show ?thesis by (simp only: supTerminate_def run.simps w free_frames Let_def split_def assms) simp
qed

text \<open>
  C23. A process that terminates takes the mutex of the swap pool, makes its own frames free and no
  others, gives the mutex back, wakes the process that waits for it (the creator of the shell for
  the shell, the shell for the others) and calls the Nucleus, in this order, and does not go on. If
  the pool was consistent, it is consistent for the remaining processes.
\<close>

theorem supTerminate_frees_frames:
  assumes "L \<subseteq> {1..8}" and "pool_ok lk L s1"
    and "s1 = snd (env n (call PASSEREN (a_swapPoolSem lk) s))"
    and "s2 = snd (env (Suc n) (call VERHOGEN (a_swapPoolSem lk) (freed a s1)))"
    and "waiter = (if a = 1 then a_masterSemaphore lk else a_shellSemaphore lk)"
    and "s3 = snd (env (Suc (Suc n)) (call VERHOGEN waiter s2))"
  shows "run (supTerminate lk a k) env n s =
      ([call PASSEREN (a_swapPoolSem lk) s, call VERHOGEN (a_swapPoolSem lk) (freed a s1),
        call VERHOGEN waiter s2, call TERMPROCESS 0 s3], Terminated, s3) \<and>
    pool_ok lk (L - {a}) (freed a s1) \<and>
    (\<forall>i. swapPool (freed a s1) i = (if i < SWAP_POOL_SIZE \<and> sw_asid (swapPool s1 i) = a
       then (swapPool s1 i)\<lparr>sw_asid := SWAP_FRAME_FREE\<rparr> else swapPool s1 i))"
  using run_supTerminate [OF assms(3-6)] freed_pool [OF assms(2,1)] freed_frame by simp

theorem supTerminate_frees_frames_witness:
  "let s1 = demo_full; waiter = a_masterSemaphore demo_lk in
   fst (run (supTerminate demo_lk 1 Return) (flash_answers 1) 0 s1) =
     [call PASSEREN (a_swapPoolSem demo_lk) s1, call VERHOGEN (a_swapPoolSem demo_lk) (freed 1 s1),
      call VERHOGEN waiter (freed 1 s1), call TERMPROCESS 0 (freed 1 s1)] \<and>
   pool_ok demo_lk {} (freed 1 s1)"
  using supTerminate_frees_frames [OF _ demo_full(1), where env = "flash_answers 1" and n = 0 and s = demo_full
      and a = 1 and k = Return, OF _ _ refl refl refl]
  by (simp add: flash_answers_def)

lemma fold_store_word:
  "fold (\<lambda>i. store_word (f i) v) xs s = s\<lparr>smem := (\<lambda>x. if x \<in> f ` set xs then v else smem s x)\<rparr>"
  by (induction xs arbitrary: s) (auto simp: fun_eq_iff intro!: arg_cong [where f = "\<lambda>m. s\<lparr>smem := m\<rparr>" for s])

text \<open>The state in which \<open>test\<close> launches the shell.\<close>

definition start_state :: "link_addrs \<Rightarrow> slevel \<Rightarrow> slevel" where
  "start_state lk s = fold (\<lambda>i. store_word (devMutex lk i) 1) [0..<DEV_MUTEX_TOTAL]
     (store_word (a_shellSemaphore lk) 0 (store_word (a_masterSemaphore lk) 0 (initSwapStructs lk s)))"

lemma start_state_smem:
  assumes "link_ok lk"
  shows "smem (start_state lk s) (a_swapPoolSem lk) = 1" "smem (start_state lk s) (a_masterSemaphore lk) = 0"
    "smem (start_state lk s) (a_shellSemaphore lk) = 0"
    "i < DEV_MUTEX_TOTAL \<Longrightarrow> smem (start_state lk s) (devMutex lk i) = 1"
  using assms by (auto simp: start_state_def fold_store_word initSwapStructs_sel link_ok_def)

lemma start_state_pool: "pool_ok lk {} (start_state lk s)"
  using initSwapStructs_pool [of lk s] by (simp add: start_state_def fold_store_word pool_ok_def pool_except_def frame_ok_def)

lemma setup_support_context:
  "sup_exceptContext (supports (setup_support lk a s) (getSupport lk a)) PGFAULTEXCEPT =
    \<lparr>stackPtr = sup_stackTLB (getSupport lk a) 499, ctx_status = SUPPORT_STATUS, ctx_pc = a_pager lk\<rparr>"
  "sup_exceptContext (supports (setup_support lk a s) (getSupport lk a)) GENERALEXCEPT =
    \<lparr>stackPtr = sup_stackGen (getSupport lk a) 499, ctx_status = SUPPORT_STATUS, ctx_pc = a_generalExceptionHandler lk\<rparr>"
  by (simp_all add: setup_support_def Let_def set_context_def)

text \<open>
  C24. The start of the support level frees all frames, sets the mutexes to 1 and the two
  semaphores of waiting processes to 0, and creates the shell, with identifier 1, at low priority,
  in user mode at the start of its text with the stack at the top of its address space, none of its
  pages present, its two handlers on the stacks of its support structure; then it waits for the
  shell to terminate, and terminates.
\<close>

theorem test_starts_shell:
  assumes "link_ok lk" and "run (test lk) env n s = (es, f, t)"
  shows "let s1 = ev_state (hd es); su = getSupport lk 1 in
    map (\<lambda>e. (ev_call e, ev_a1 e)) es =
      [(CREATEPROCESS, a_local_state lk), (PASSEREN, a_masterSemaphore lk), (TERMPROCESS, 0)] \<and>
    ev_a2 (hd es) = PROCESS_PRIO_LOW \<and> ev_a3 (hd es) = su \<and> f = Terminated \<and>
    map (smem s1) ([a_swapPoolSem lk, a_masterSemaphore lk, a_shellSemaphore lk] @ map (devMutex lk) [0..<DEV_MUTEX_TOTAL]) =
      [1, 0, 0] @ replicate DEV_MUTEX_TOTAL 1 \<and>
    pool_ok lk {1} s1 \<and> list_all (\<lambda>i. \<not> valid (get_pte s1 (su, i))) [0..<32] \<and>
    (pc_epc (state_area s1 (a_local_state lk)), reg_sp (state_area s1 (a_local_state lk)),
     status (state_area s1 (a_local_state lk)), entry_hi (state_area s1 (a_local_state lk))) =
      (UPROCSTARTADDR, USERSTACKTOP, UPROC_STATUS, 64) \<and>
    map (sup_exceptContext (supports s1 su)) [PGFAULTEXCEPT, GENERALEXCEPT] =
      [\<lparr>stackPtr = sup_stackTLB su 499, ctx_status = SUPPORT_STATUS, ctx_pc = a_pager lk\<rparr>,
       \<lparr>stackPtr = sup_stackGen su 499, ctx_status = SUPPORT_STATUS, ctx_pc = a_generalExceptionHandler lk\<rparr>]"
proof -
  let ?s = "setup_support lk 1 (start_state lk s)"
  let ?s1 = "?s\<lparr>state_area := (state_area ?s)(a_local_state lk := uproc_state 1)\<rparr>"
  have es: "hd es = \<lparr>ev_call = CREATEPROCESS, ev_a1 = a_local_state lk, ev_a2 = PROCESS_PRIO_LOW,
      ev_a3 = getSupport lk 1, ev_state = ?s1\<rparr>" "f = Terminated"
    "map (\<lambda>e. (ev_call e, ev_a1 e)) es =
      [(CREATEPROCESS, a_local_state lk), (PASSEREN, a_masterSemaphore lk), (TERMPROCESS, 0)]"
    using assms(2) unfolding test_def launchUproc_def run.simps start_state_def [symmetric]
    by (auto simp: Let_def split_def)
  have p: "pool_ok lk {1} ?s" by (rule setup_support_pool [OF start_state_pool]) auto
  have "pool_ok lk {1} ?s1" using p by (simp add: pool_ok_def pool_except_def frame_ok_def in_frame_def asid_of_def get_pte_def)
  moreover have "get_pte ?s1 = get_pte ?s" by (auto simp: get_pte_def fun_eq_iff)
  moreover have "\<not> valid (get_pte ?s (getSupport lk 1, i))" if "i < 32" for i
    using that by (simp add: setup_support_sel DIRTYON_not_valid)
  moreover have "map (smem ?s1) (map (devMutex lk) [0..<48]) = replicate 48 1"
    using start_state_smem(4) [OF assms(1)] by (intro nth_equalityI) (auto simp: setup_support_sel)
  ultimately show ?thesis
    using start_state_smem(1-3) [OF assms(1)]
    by (simp add: Let_def es setup_support_sel setup_support_context [simplified] uproc_state_def list_all_iff del: upt_rec_numeral)
qed

theorem test_starts_shell_witness:
  "let (es, f, t) = run (test demo_lk) (flash_answers 1) 0 (blank zero_state) in
   pool_ok demo_lk {1} (ev_state (hd es)) \<and> smem (ev_state (hd es)) (a_swapPoolSem demo_lk) = 1"
proof -
  obtain es f t where r: "run (test demo_lk) (flash_answers 1) 0 (blank zero_state) = (es, f, t)"
    by (metis prod_cases3)
  from test_starts_shell [OF demo_link r] show ?thesis by (simp add: r Let_def del: upt_rec_numeral)
qed

text \<open>
  C40. A launch after a termination leaves the translations of the terminated process in the TLB:
  neither \<open>supTerminate\<close> nor \<open>launchUproc\<close> clears it. When the two run one after the other for the
  same identifier, the new process is created with this identifier, no page of it is present and
  it owns no frame, but the TLB is the one the old process has left, so the processor still
  translates addresses of the new process to the old frames.
\<close>

theorem relaunch_keeps_stale_translations:
  assumes "a \<in> {1..8}"
    and "run (supTerminate lk a k1) (flash_answers st) n s = (es1, f1, t1)"
    and "run (launchUproc lk a k2) (flash_answers st) m t1 = (es2, f2, t2)"
  shows "let e = hd es2; s' = ev_state e; su = getSupport lk a in
    f1 = Terminated \<and> ev_call e = CREATEPROCESS \<and> ev_a3 e = su \<and>
    s_tlb s' = s_tlb s \<and> asid_of s' su = a \<and>
    list_all (\<lambda>p. \<not> valid (get_pte s' (su, p)) \<and> pte_entryHI (get_pte s' (su, p)) = page_hi a p) [0..<32] \<and>
    list_all (\<lambda>i. sw_asid (swapPool s' i) \<noteq> a) [0..<SWAP_POOL_SIZE]"
proof -
  let ?s = "setup_support lk a (freed a s)"
  let ?s' = "?s\<lparr>state_area := (state_area ?s)(a_local_state lk := uproc_state a)\<rparr>"
  have "a \<noteq> SWAP_FRAME_FREE" using assms(1) free_not_asid [of "{a}"] by auto
  then have fr: "list_all (\<lambda>i. sw_asid (swapPool ?s i) \<noteq> a) [0..<SWAP_POOL_SIZE]"
    by (auto simp: setup_support_sel freed_frame list_all_iff simp del: upt_rec_numeral)
  have pt: "list_all (\<lambda>p. \<not> valid (get_pte ?s (getSupport lk a, p)) \<and>
      pte_entryHI (get_pte ?s (getSupport lk a, p)) = page_hi a p) [0..<32]"
    by (auto simp: setup_support_sel DIRTYON_not_valid list_all_iff simp del: upt_rec_numeral)
  have e: "get_pte ?s' = get_pte ?s" "asid_of ?s' = asid_of ?s" "s_tlb ?s' = s_tlb s" "swapPool ?s' = swapPool ?s"
    by (auto simp: get_pte_def asid_of_def fun_eq_iff setup_support_sel)
  have "f1 = Terminated \<and> t1 = freed a s"
    using assms(2) run_supTerminate [where env = "flash_answers st" and n = n and s = s and lk = lk and a = a and k = k1,
        OF refl refl refl refl] by (simp add: flash_answers_def)
  moreover from this have "hd es2 = \<lparr>ev_call = CREATEPROCESS, ev_a1 = a_local_state lk, ev_a2 = PROCESS_PRIO_LOW,
      ev_a3 = getSupport lk a, ev_state = ?s'\<rparr>"
    using assms(3) by (auto simp: launchUproc_def Let_def split_def)
  ultimately show ?thesis
    using fr pt unfolding Let_def by (simp only: event.simps e) (simp add: setup_support_sel del: upt_rec_numeral)
qed

text \<open>An instance in which the stale entry is there: it makes the TLB inconsistent.\<close>

theorem relaunch_keeps_stale_translations_witness:
  "\<exists>es f t. run (launchUproc demo_lk 1 Return) (flash_answers 1) 0
      (snd (snd (run (supTerminate demo_lk 1 Return) (flash_answers 1) 0 demo_full))) = (es, f, t) \<and>
   (page_hi 1 5, present_lo 0) \<in> set (s_tlb (ev_state (hd es))) \<and> present_lo 0 AND VALIDON \<noteq> 0 \<and>
   list_all (\<lambda>p. \<not> valid (get_pte (ev_state (hd es)) (getSupport demo_lk 1, p))) [0..<32]"
proof -
  have t: "s_tlb (demo_vm h) = replicate 16 (0, 0)" "tlb_random (demo_vm h) = (\<lambda>n. n mod 16)" "tlb_writes (demo_vm h) = 0" for h
    by (simp_all add: demo_vm_def setup_support_sel, simp_all add: initSwapStructs_sel blank_def)
  have "s_tlb demo_full ! 0 = (page_hi 1 5, present_lo 0)" "length (s_tlb demo_full) = 16"
    by (simp_all add: demo_full_def enter_page_tlb_eq t) (simp add: demo_vm_def setup_support_sel)
  then have m: "(page_hi 1 5, present_lo 0) \<in> set (s_tlb demo_full)" by (metis nth_mem zero_less_numeral)
  obtain es1 f1 t1 where r1: "run (supTerminate demo_lk 1 Return) (flash_answers 1) 0 demo_full = (es1, f1, t1)"
    by (metis prod_cases3)
  obtain es f t where r2: "run (launchUproc demo_lk 1 Return) (flash_answers 1) 0 t1 = (es, f, t)"
    by (metis prod_cases3)
  have "present_lo 0 AND VALIDON \<noteq> 0" by code_simp
  then show ?thesis
    using relaunch_keeps_stale_translations [OF _ r1 r2] m r1 r2
    by (auto simp: Let_def list_all_iff simp del: upt_rec_numeral)
qed

end
