(* ===== verification/Mutex_Order.thy ===== *)
theory Mutex_Order
  imports Vm_Tables
begin

text \<open>
  The discipline of the mutexes of the support level: they are taken in the order terminal, swap
  pool, flash device, given back in the reverse order, and none is held when a handler ends, waits for another
  process or terminates. \<open>orderly\<close> states it of a program and \<open>held\<close> of the calls of a run. A handler
  accesses user memory only while it holds the mutex of a terminal, so the pager can run while this
  mutex is held. \<open>B\<close> is the list of the mutexes held when the handler starts: empty, or for such a
  pager that mutex.
\<close>

section \<open>Ranks\<close>

definition term_mutexes :: "link_addrs \<Rightarrow> u32 set" where
  "term_mutexes lk = {devMutex lk (TERMW_MUTEX 0), devMutex lk (TERMR_MUTEX 0)}"

definition flash_mutexes :: "link_addrs \<Rightarrow> u32 set" where
  "flash_mutexes lk = (\<lambda>d. devMutex lk (FLASH_MUTEX d)) ` {..<DEVPERINT}"

definition rank :: "link_addrs \<Rightarrow> u32 \<Rightarrow> nat" where
  "rank lk m = (if m \<in> term_mutexes lk then 1 else if m = a_swapPoolSem lk then 2
     else if m \<in> flash_mutexes lk then 3 else 0)"

lemma rank_simps:
  assumes "link_ok lk"
  shows "rank lk (devMutex lk (TERMW_MUTEX 0)) = 1" "rank lk (devMutex lk (TERMR_MUTEX 0)) = 1"
    "rank lk (a_swapPoolSem lk) = 2" "d < DEVPERINT \<Longrightarrow> rank lk (devMutex lk (FLASH_MUTEX d)) = 3"
    "rank lk (a_masterSemaphore lk) = 0" "rank lk (a_shellSemaphore lk) = 0"
  using link_ok_sel [OF assms]
  by (auto simp: rank_def term_mutexes_def flash_mutexes_def TERMW_MUTEX_def TERMR_MUTEX_def FLASH_MUTEX_def
      dest: sym)

section \<open>The discipline\<close>

text \<open>\<open>held lk B H es\<close>: the mutexes held after \<open>es\<close>, starting with \<open>H\<close>; \<open>None\<close> after a violation.\<close>

definition next_held :: "link_addrs \<Rightarrow> u32 list \<Rightarrow> int \<Rightarrow> u32 \<Rightarrow> u32 list \<Rightarrow> u32 list option" where
  "next_held lk B c m H =
     (if c = PASSEREN \<and> rank lk m \<noteq> 0 then (if list_all (\<lambda>h. rank lk h < rank lk m) H then Some (m # H) else None)
      else if c = VERHOGEN \<and> rank lk m \<noteq> 0 then (case H of h # H' \<Rightarrow> if h = m then Some H' else None | [] \<Rightarrow> None)
      else if c = TERMPROCESS then (if H = B then Some B else None)
      else if c = PASSEREN \<or> c = CREATEPROCESS then (if H = [] then Some [] else None)
      else Some H)"

primrec held :: "link_addrs \<Rightarrow> u32 list \<Rightarrow> u32 list \<Rightarrow> event list \<Rightarrow> u32 list option" where
  "held lk B H [] = Some H"
| "held lk B H (e # es) = (case next_held lk B (ev_call e) (ev_a1 e) H of None \<Rightarrow> None | Some H' \<Rightarrow> held lk B H' es)"

lemma held_append: "held lk B H (es @ fs) = (case held lk B H es of None \<Rightarrow> None | Some H' \<Rightarrow> held lk B H' fs)"
  by (induction es arbitrary: H) (auto split: option.splits)

text \<open>The states in which the identifiers are those of processes; \<open>L\<close> is the set of the live processes.\<close>

definition asids_ok :: "link_addrs \<Rightarrow> u32 set \<Rightarrow> slevel \<Rightarrow> bool" where
  "asids_ok lk L s \<longleftrightarrow> fifoNext s < SWAP_POOL_SIZE \<and> (\<forall>a\<in>L. asid_of s (getSupport lk a) = a) \<and>
     (\<forall>i<SWAP_POOL_SIZE. sw_asid (swapPool s i) \<noteq> SWAP_FRAME_FREE \<longrightarrow> sw_asid (swapPool s i) \<in> {1..8})"

primrec orderly :: "link_addrs \<Rightarrow> u32 list \<Rightarrow> u32 set \<Rightarrow> prog \<Rightarrow> u32 list \<Rightarrow> bool" where
  "orderly lk B L Return H \<longleftrightarrow> H = B"
| "orderly lk B L (Syscall c a b d k) H \<longleftrightarrow> (case next_held lk B c a H of None \<Rightarrow> False
     | Some H' \<Rightarrow> \<forall>r. (c = GETSUPPORTPTR \<longrightarrow> r \<in> getSupport lk ` L) \<longrightarrow> orderly lk B L (k r) H')"
| "orderly lk B L (Read k) H \<longleftrightarrow> (\<forall>s. asids_ok lk L s \<longrightarrow> orderly lk B L (k s) H)"
| "orderly lk B L (Write f k) H \<longleftrightarrow> (\<forall>s. asids_ok lk L s \<longrightarrow> asids_ok lk L (f s)) \<and> orderly lk B L k H"
| "orderly lk B L (Access su va f k) H \<longleftrightarrow> (\<exists>m\<in>term_mutexes lk. H = [m]) \<and>
     (\<forall>s. asids_ok lk L s \<longrightarrow> asids_ok lk L (f s) \<and> orderly lk B L (k s) H)"
| "orderly lk B L (Load st) H \<longleftrightarrow> H = B"
| "orderly lk B L No_fuel H \<longleftrightarrow> True"

text \<open>What a handler relies on: the other processes keep \<open>asids_ok\<close>, and it gets a live support structure.\<close>

definition asid_rely :: "link_addrs \<Rightarrow> u32 set \<Rightarrow> event \<Rightarrow> u32 \<Rightarrow> slevel \<Rightarrow> bool" where
  "asid_rely lk L e r s' \<longleftrightarrow> asids_ok lk L s' \<and> (ev_call e = GETSUPPORTPTR \<longrightarrow> r \<in> getSupport lk ` L)"

text \<open>The mutexes held when a handler that started with \<open>B\<close> ends, and how it may end.\<close>

definition held_at_end :: "link_addrs \<Rightarrow> u32 list \<Rightarrow> ending \<Rightarrow> u32 list option \<Rightarrow> bool" where
  "held_at_end lk B f G \<longleftrightarrow> (case f of
     Exhausted \<Rightarrow> G \<noteq> None
   | Faulted \<Rightarrow> \<exists>m\<in>term_mutexes lk. G = Some [m]
   | _ \<Rightarrow> G = Some B)"

lemma run_orderly:
  assumes "orderly lk B L p H" and "run p env n s = (es, f, t)" and "asids_ok lk L s"
    and "obeys env (asid_rely lk L) n es"
  shows "held_at_end lk B f (held lk B H es)"
  using assms
proof (induction p arbitrary: n s es f t H)
  case (Syscall c a b d k)
  define e where "e = \<lparr>ev_call = c, ev_a1 = a, ev_a2 = b, ev_a3 = d, ev_state = s\<rparr>"
  obtain r s' where r: "env n e = (r, s')" by force
  obtain es' f' t' where c: "run (k r) env (next_index c n) s' = (es', f', t')" by (metis prod_cases3)
  obtain H' where H': "next_held lk B c a H = Some H'"
    "\<And>r. (c = GETSUPPORTPTR \<longrightarrow> r \<in> getSupport lk ` L) \<Longrightarrow> orderly lk B L (k r) H'"
    using Syscall.prems(1) by (auto split: option.splits)
  show ?case
  proof (cases "c = TERMPROCESS \<and> a = 0")
    case True
    then have "H' = B" using H'(1) by (auto simp: next_held_def split: if_splits)
    then show ?thesis using True Syscall.prems H'(1) by (auto simp: Let_def r c held_at_end_def)
  next
    case False
    then have eq: "es = e # es'" "f = f'"
      using Syscall.prems by (auto simp: Let_def e_def [symmetric] r c)
    then have ob: "asid_rely lk L e r s'" "obeys env (asid_rely lk L) (next_index c n) es'"
      using Syscall.prems(4) r by (auto simp: e_def)
    then have "orderly lk B L (k r) H'" by (intro H'(2)) (auto simp: asid_rely_def e_def)
    from Syscall.IH [OF rangeI this c _ ob(2)] ob(1) show ?thesis
      by (auto simp: eq asid_rely_def H'(1) e_def split: if_splits)
  qed
next
  case (Read k)
  have "orderly lk B L (k s) H" "run (k s) env n s = (es, f, t)" using Read.prems by simp_all
  from Read.IH [OF rangeI this Read.prems(3,4)] show ?case .
next
  case (Write g k)
  then show ?case by auto
next
  case (Access su va g k)
  have o: "\<exists>m\<in>term_mutexes lk. H = [m]" "\<And>u. asids_ok lk L u \<Longrightarrow> asids_ok lk L (g u) \<and> orderly lk B L (k u) H"
    using Access.prems(1) by auto
  show ?case
  proof (cases "resident s su va")
    case True
    then have "run (k s) env n (g s) = (es, f, t)" using Access.prems(2) by simp
    from Access.IH [OF rangeI _ this _ Access.prems(4)] o(2) [OF Access.prems(3)] show ?thesis by blast
  next
    case False
    define e where "e = page_fault su va s"
    obtain r s' where r: "env n e = (r, s')" by force
    obtain es' f' t' where c: "run (k s') env n (g s') = (es', f', t')" by (metis prod_cases3)
    have eq: "(es, f, t) = (if resident s' su va then (e # es', f', t') else ([e], Faulted, s'))"
      using Access.prems(2) False by (simp add: Let_def e_def [symmetric] r c split: if_splits)
    have h: "held lk B H (e # fs) = held lk B H fs" for fs by (simp add: e_def page_fault_def next_held_def)
    have "asid_rely lk L e r s'" using Access.prems(4) eq r by (auto split: if_splits)
    then have s': "asids_ok lk L s'" by (simp add: asid_rely_def)
    show ?thesis
    proof (cases "resident s' su va")
      case True
      then have "obeys env (asid_rely lk L) n es'" using Access.prems(4) eq by (simp add: e_def page_fault_def)
      from Access.IH [OF rangeI _ c _ this] o(2) [OF s'] True eq h show ?thesis by simp
    next
      case False
      then show ?thesis using eq h o(1) by (auto simp: held_at_end_def)
    qed
  qed
qed (auto simp: held_at_end_def)


section \<open>The programs\<close>

lemma next_held_term [simp]: "next_held lk B TERMPROCESS m B = Some B" "next_held lk B CREATEPROCESS m [] = Some []"
  "next_held lk B DOIO m H = Some H" "next_held lk B GETSUPPORTPTR m H = Some H"
  by (simp_all add: next_held_def)

lemma next_held_mutex:
  "rank lk m \<noteq> 0 \<Longrightarrow> list_all (\<lambda>h. rank lk h < rank lk m) H \<Longrightarrow> next_held lk B PASSEREN m H = Some (m # H)"
  "rank lk m \<noteq> 0 \<Longrightarrow> next_held lk B VERHOGEN m (m # H) = Some H"
  "rank lk m = 0 \<Longrightarrow> next_held lk B VERHOGEN m H = Some H"
  "rank lk m = 0 \<Longrightarrow> next_held lk B PASSEREN m [] = Some []"
  by (simp_all add: next_held_def)

lemma orderly_foldr_Write:
  "(\<And>i s. asids_ok lk L s \<Longrightarrow> asids_ok lk L (F i s)) \<Longrightarrow>
   orderly lk B L (foldr (\<lambda>i. Write (F i)) is k) H = orderly lk B L k H"
  by (induction "is") auto

lemma asids_ok_free [simp]: "asids_ok lk L s \<Longrightarrow> asids_ok lk L (free_frame i s)"
  by (auto simp: asids_ok_def free_frame_def)

text \<open>The mutexes the pager may find held are below the one of the swap pool.\<close>

definition base_ok :: "link_addrs \<Rightarrow> u32 list \<Rightarrow> bool" where
  "base_ok lk B \<longleftrightarrow> B = [] \<or> (\<exists>m\<in>term_mutexes lk. B = [m])"

lemma base_ok_rank:
  assumes "link_ok lk" and "base_ok lk B"
  shows "list_all (\<lambda>h. rank lk h < 2) B" "list_all (\<lambda>h. rank lk h < 3) B"
  using assms by (auto simp: base_ok_def rank_def)

lemma base_ok_Nil [simp]: "base_ok lk []"
  by (simp add: base_ok_def)

lemma orderly_supTerminate:
  assumes "link_ok lk" and "base_ok lk B" and "orderly lk B L k B"
  shows "orderly lk B L (supTerminate lk a k) B"
  unfolding supTerminate_def using assms(3) base_ok_rank [OF assms(1,2)]
  by (simp add: next_held_mutex rank_simps [OF assms(1)] orderly_foldr_Write del: foldr_Cons upt_rec_numeral)

lemma orderly_terminate_self:
  assumes "link_ok lk" and "base_ok lk B" and "orderly lk B L k B"
  shows "orderly lk B L (terminate_self lk su k) B"
  using orderly_supTerminate [OF assms] by (simp add: terminate_self_def)

lemma asids_ok_store [simp]: "asids_ok lk L s \<Longrightarrow> asids_ok lk L (store_word x v s)"
  by (simp add: asids_ok_def)

lemma orderly_flashOperation:
  assumes lk: "link_ok lk" and a: "a \<in> {1..8}" and H: "list_all (\<lambda>h. rank lk h < 3) H"
    and k: "\<And>r. orderly lk B L (k r) H"
  shows "orderly lk B L (flashOperation lk a blk fa op k) H"
proof -
  have "unat (a - 1) < DEVPERINT"
  proof -
    have "a \<in> {1, 2, 3, 4, 5, 6, 7, 8}" using a by (simp only: asid_cases)
    then show ?thesis by auto
  qed
  then show ?thesis
    using H by (simp add: flashOperation_def Let_def next_held_mutex rank_simps [OF lk] k del: store_word_def)
qed

lemma asids_ok_marks [simp]:
  "asids_ok lk L s \<Longrightarrow> asids_ok lk L (markPageNotValid q s)" "asids_ok lk L s \<Longrightarrow> asids_ok lk L (markPagePresent q fa s)"
  by (simp_all add: asids_ok_def)

lemma orderly_pager_load:
  assumes lk: "link_ok lk" and B: "base_ok lk B" and L: "L \<subseteq> {1..8}" "a \<in> L"
  shows "orderly lk B L (pager_load lk (getSupport lk a) p i) (a_swapPoolSem lk # B)"
proof -
  have a: "asid_of s (getSupport lk a) = a" "asid_of s (getSupport lk a) \<in> {1..8}" if "asids_ok lk L s" for s
    using that L by (auto simp: asids_ok_def)
  note r = rank_simps [OF lk]
  have w: "asids_ok lk L (s\<lparr>swapPool := (swapPool s)(i := (swapPool s i)\<lparr>sw_pageNo := p\<rparr>)\<rparr>)"
    "asids_ok lk L (s\<lparr>swapPool := (swapPool s)(i := (swapPool s i)\<lparr>sw_pte := q\<rparr>)\<rparr>)"
    "asids_ok lk L (s\<lparr>swapPool := (swapPool s)(i := (swapPool s i)\<lparr>sw_asid := asid_of s (getSupport lk a)\<rparr>)\<rparr>)"
    if "asids_ok lk L s" for s q
    using that a(2) [OF that] by (auto simp: asids_ok_def asid_of_def)
  show ?thesis
    unfolding pager_load_def
    using base_ok_rank [OF lk B]
    by (auto intro!: orderly_flashOperation [OF lk a(2)] orderly_terminate_self [OF lk B]
        simp: next_held_mutex r w list_all_iff)
qed

lemma orderly_pager:
  assumes lk: "link_ok lk" and B: "base_ok lk B" and L: "L \<subseteq> {1..8}"
  shows "orderly lk B L (pager lk) B"
proof -
  note r = rank_simps [OF lk] and b = base_ok_rank [OF lk B]
  have evict: "orderly lk B L (pager_evict lk (getSupport lk a) i (pager_load lk (getSupport lk a) p i)) (a_swapPoolSem lk # B)"
    if a: "a \<in> L" and i: "i < SWAP_POOL_SIZE" for a p i
    using orderly_pager_load [OF lk B L a] i base_ok_rank [OF lk B]
    by (auto simp: list_all_iff pager_evict_def Let_def next_held_mutex r asids_ok_def
        intro!: orderly_flashOperation [OF lk] orderly_terminate_self [OF lk B])
  show ?thesis
    unfolding pager_def using b
    by (auto simp: next_held_mutex r Let_def asids_ok_def [of lk L "fifoNext_update f s" for f s]
        intro!: orderly_terminate_self [OF lk B] evict) (auto simp: asids_ok_def asid_of_def)
qed

lemma orderly_write_loop:
  assumes lk: "link_ok lk" and k: "\<And>r. orderly lk [] L (k r) []"
  shows "orderly lk [] L (write_loop lk su term va i n k) [devMutex lk (TERMW_MUTEX 0)]"
proof (induction n arbitrary: i)
  case 0
  then show ?case using k by (simp add: next_held_mutex rank_simps [OF lk])
next
  case (Suc n)
  then show ?case using k by (simp add: next_held_mutex rank_simps [OF lk] term_mutexes_def)
qed

lemma orderly_writeTerminal:
  assumes lk: "link_ok lk" and k: "\<And>r. orderly lk [] L (k r) []"
  shows "orderly lk [] L (writeTerminal lk su va len k) []"
proof -
  have "orderly lk [] L (P (devMutex lk (TERMW_MUTEX 0)) (write_loop lk su term va 0 n k)) []" for n "term"
    using orderly_write_loop [OF lk k] by (simp add: next_held_mutex rank_simps [OF lk])
  then show ?thesis
    unfolding writeTerminal_def Let_def by (cases "va < KUSEG \<or> va \<ge> USERSTACKTOP \<or> len < 0 \<or> len > MAXSTRLEN")
      (simp_all only: if_True if_False orderly_terminate_self [OF lk base_ok_Nil])
qed

lemma orderly_read_loop:
  assumes lk: "link_ok lk" and k: "\<And>r. orderly lk [] L (k r) []"
  shows "orderly lk [] L (read_loop fuel lk su term va i k) [devMutex lk (TERMR_MUTEX 0)]"
proof (induction fuel arbitrary: i)
  case 0
  then show ?case by simp
next
  case (Suc n)
  have "asids_ok lk L (s\<lparr>umem := m\<rparr>)" if "asids_ok lk L s" for s m using that by (simp add: asids_ok_def asid_of_def)
  then show ?case using k Suc by (simp add: next_held_mutex rank_simps [OF lk] Let_def term_mutexes_def)
qed

lemma orderly_readTerminal:
  assumes lk: "link_ok lk" and k: "\<And>r. orderly lk [] L (k r) []"
  shows "orderly lk [] L (readTerminal fuel lk su va k) []"
  unfolding readTerminal_def Let_def
  by (auto intro!: orderly_terminate_self [OF lk base_ok_Nil] orderly_read_loop [OF lk k] simp: next_held_mutex rank_simps [OF lk])

lemma asids_ok_setup: "a \<in> {1..8} \<Longrightarrow> L \<subseteq> {1..8} \<Longrightarrow> asids_ok lk L s \<Longrightarrow> asids_ok lk L (setup_support lk a s)"
  using getSupport_inject [of _ a lk] by (auto simp: asids_ok_def setup_support_sel)

lemma orderly_launchUproc:
  assumes "a \<in> {1..8}" and "L \<subseteq> {1..8}" and "orderly lk [] L k []"
  shows "orderly lk [] L (launchUproc lk a k) []"
proof -
  have "asids_ok lk L (s\<lparr>state_area := m\<rparr>)" if "asids_ok lk L s" for s m using that by (simp add: asids_ok_def asid_of_def)
  then show ?thesis using assms by (simp add: launchUproc_def asids_ok_setup)
qed

lemma sint_asid: "\<not> (sint (a :: u32) < 1 \<or> sint a > 8) \<Longrightarrow> a \<in> {1..8}"
proof -
  assume a: "\<not> (sint a < 1 \<or> sint a > 8)"
  then have "of_int (sint a) = a" "sint a \<in> {1..8}" by simp_all
  then have "sint a \<in> {1, 2, 3, 4, 5, 6, 7, 8}" by auto
  then have "a \<in> of_int ` {1, 2, 3, 4, 5, 6, 7, 8}" using \<open>of_int (sint a) = a\<close> by (metis image_eqI)
  then show ?thesis unfolding asid_cases by auto
qed

lemma orderly_doExecute:
  assumes lk: "link_ok lk" and L: "L \<subseteq> {1..8}" and k: "\<And>r. orderly lk [] L (k r) []"
  shows "orderly lk [] L (doExecute lk a k) []"
  unfolding doExecute_def using k sint_asid [of a]
  by (auto intro!: orderly_launchUproc L simp: next_held_mutex rank_simps [OF lk])

lemma orderly_return_to_user: "orderly lk [] L (return_to_user su r) []"
proof -
  have "asids_ok lk L (upd_ex_state su e g s)" if "asids_ok lk L s" for s e g
    using that by (auto simp: asids_ok_def upd_ex_state_def asid_of_def)
  then show ?thesis by (simp add: return_to_user_def)
qed

lemma orderly_generalExceptionHandler:
  assumes lk: "link_ok lk" and L: "L \<subseteq> {1..8}"
  shows "orderly lk [] L (generalExceptionHandler fuel lk) []"
  by (auto simp: generalExceptionHandler_def supSyscallHandler_def Let_def
      intro!: orderly_terminate_self [OF lk base_ok_Nil] orderly_writeTerminal [OF lk] orderly_readTerminal [OF lk]
        orderly_doExecute [OF lk L] orderly_return_to_user)

section \<open>No circular wait\<close>

lemma held_wait:
  assumes "held lk B H (es @ [e]) \<noteq> None" and "ev_call e = PASSEREN" and "held lk B H es = Some H'" and "m \<in> set H'"
  shows "rank lk m < rank lk (ev_a1 e)"
  using assms by (auto simp: held_append next_held_def list_all_iff split: if_splits)

end
