(* ===== verification/Handler_Faults.thy ===== *)
theory Handler_Faults
  imports Mutex_Order Support_Demo
begin

text \<open>
  Page faults in the middle of a handler: \<open>WriteTerminal\<close> and \<open>ReadTerminal\<close> access the buffer of the
  user program, whose pages need not be there. The Nucleus passes the fault up to the pager, on the
  other stack and with the other saved state, and the pager returns to the instruction. Here the
  pager runs alone, with flash devices that work, and the handler goes on in the state it leaves.
\<close>

section \<open>Saved states\<close>

lemma upd_ex_state_keeps:
  "swapPool (upd_ex_state su e g s) = swapPool s" "fifoNext (upd_ex_state su e g s) = fifoNext s"
  "get_pte (upd_ex_state su e g s) = get_pte s" "asid_of (upd_ex_state su e g s) = asid_of s"
  "umem (upd_ex_state su e g s) = umem s"
  by (auto simp: upd_ex_state_def get_pte_def asid_of_def fun_eq_iff)

lemma ex_state_upd:
  "ex_state (upd_ex_state su e g s) x e' = (if x = su \<and> e' = e then g (ex_state s su e) else ex_state s x e')"
  by (simp add: upd_ex_state_def ex_state_def)

section \<open>The pager as the answer to a fault\<close>

text \<open>The processor state saved at a fault on \<open>va\<close>: it names the page, and is no write to a read-only page.\<close>

definition faults_ok :: "(u32 \<Rightarrow> state_t) \<Rightarrow> bool" where
  "faults_ok fs \<longleftrightarrow> (\<forall>va. vpn_of (entry_hi (fs va)) = vpn_of va \<and>
     cause (fs va) AND CAUSE_EXCCODE_MASK \<noteq> EXC_MOD)"

definition at_fault :: "(u32 \<Rightarrow> state_t) \<Rightarrow> u32 \<Rightarrow> u32 \<Rightarrow> slevel \<Rightarrow> slevel" where
  "at_fault fs su va s = upd_ex_state su PGFAULTEXCEPT (\<lambda>_. fs va) s"

text \<open>
  The environment that answers the \<open>n\<close>-th call with \<open>st n\<close> and leaves the state alone, and in which
  the pager runs at every page fault.
\<close>

definition paging :: "link_addrs \<Rightarrow> (u32 \<Rightarrow> state_t) \<Rightarrow> (nat \<Rightarrow> u32) \<Rightarrow> env" where
  "paging lk fs st n e =
     (if ev_call e = PAGE_FAULT
      then (0, final (pager lk) (solo lk (ev_a2 e)) 0 (at_fault fs (ev_a2 e) (ev_a1 e) (ev_state e)))
      else (st n, ev_state e))"

lemma missing_at_fault:
  "faults_ok fs \<Longrightarrow> missing_page (ex_state (at_fault fs su va s) su PGFAULTEXCEPT) = vpnToIndex va"
  by (simp add: faults_ok_def at_fault_def ex_state_upd missing_page_def vpnToIndex_cases)

lemma umem_pages:
  "umem (markPageNotValid q s) = umem s" "umem (enter_page su p i s) = umem s"
  by (simp_all add: markPageNotValid_def enter_page_def markPagePresent_def interruptsOn_def interruptsOff_def
      sTLBCLR_def sTLBWR_def upd_pte_def Let_def split: prod.splits)

lemma umem_transfer: "umem (transfer d b fa op s) = umem s"
  by (simp add: transfer_def)

lemma evicted_sel:
  "umem (evicted lk i s) = umem s" "asid_of (evicted lk i s) = asid_of s" "ex_state (evicted lk i s) = ex_state s"
  "fifoNext (evicted lk i s) = fifoNext s"
  by (auto simp: evicted_def Let_def umem_pages umem_transfer fun_eq_iff)

lemma loaded_sel:
  "umem (loaded lk a p i s) = umem s" "asid_of (loaded lk a p i s) = asid_of s" "ex_state (loaded lk a p i s) = ex_state s"
  "get_pte (loaded lk a p i s) q =
    (if q = (getSupport lk a, p) then (get_pte s q)\<lparr>pte_entryLO := present_lo i\<rparr> else get_pte s q)"
  by (auto simp: loaded_def Let_def umem_pages umem_transfer enter_page_sel fun_eq_iff)

lemma loaded_pool:
  assumes I: "pool_except lk L {i} s" and i: "i < SWAP_POOL_SIZE" and a: "a \<in> L" "p < 32" and L: "L \<subseteq> {1..8}"
    and new: "\<not> valid (get_pte s (getSupport lk a, p))"
  shows "pool_ok lk L (loaded lk a p i s)"
proof (rule load_pool [OF I i a L new])
  have "asid_of s (getSupport lk a) = a" using I a by (simp add: pool_except_def)
  then show "swapPool (loaded lk a p i s) =
      (swapPool s)(i := \<lparr>sw_asid = a, sw_pageNo = p, sw_pte = (getSupport lk a, p)\<rparr>)"
    by (simp add: loaded_def Let_def enter_page_sel)
qed (simp_all add: loaded_sel, simp add: loaded_def Let_def enter_page_sel)

text \<open>The pager brings the page in, and what the handler works with is as before.\<close>

lemma fault_served:
  assumes reg: "flash_regs_ok lk" and I: "pool_ok lk L s" and L: "L \<subseteq> {1..8}" "a \<in> L" and fs: "faults_ok fs"
    and va: "0 \<le> vpnToIndex va" "\<not> resident s (getSupport lk a) va"
    and t: "t = final (pager lk) (solo lk (getSupport lk a)) 0 (at_fault fs (getSupport lk a) va s)"
  shows "pool_ok lk L t" "resident t (getSupport lk a) va" "umem t = umem s" "asid_of t = asid_of s"
    "ex_state t (getSupport lk a) GENERALEXCEPT = ex_state s (getSupport lk a) GENERALEXCEPT"
proof -
  let ?su = "getSupport lk a" and ?p = "nat (vpnToIndex va)" and ?i = "fifoNext s"
  let ?s = "at_fault fs ?su va s"
  let ?s1 = "?s\<lparr>fifoNext := (fifoNext ?s + 1) mod SWAP_POOL_SIZE\<rparr>"
  have k: "swapPool ?s = swapPool s" "fifoNext ?s = fifoNext s" "get_pte ?s = get_pte s" "asid_of ?s = asid_of s"
    "umem ?s = umem s" by (simp_all add: at_fault_def upd_ex_state_keeps)
  have I0: "pool_ok lk L ?s" using I unfolding pool_ok_def by (rule pool_except_cong) (simp_all add: k)
  have m: "missing_page (ex_state ?s ?su PGFAULTEXCEPT) = int ?p" using missing_at_fault [OF fs] va(1) by simp
  have t': "t = loaded lk a ?p ?i (evicted lk ?i ?s1)"
    using final_pager [OF reg I0 L m, of 0] unfolding t k(2) .
  have I1: "pool_ok lk L ?s1" using I0 by (simp add: pool_ok_def pool_except_def frame_ok_def in_frame_def)
  have i: "?i < SWAP_POOL_SIZE" using I by (simp add: pool_ok_def pool_except_def)
  have p: "?p < 32" using vpnToIndex_less [of va] by simp
  have "\<not> valid (get_pte s (?su, ?p))" using va by (simp add: resident_def)
  then have new: "\<not> valid (get_pte (evicted lk ?i ?s1) (?su, ?p))" by (auto simp: evicted_def Let_def k)
  show "pool_ok lk L t" unfolding t' by (rule loaded_pool [OF evicted_pool [OF I1 i L(1)] i L(2) p L(1) new])
  show "resident t ?su va" using va(1) by (simp add: resident_def t' loaded_sel valid_present_lo)
  show "umem t = umem s" "asid_of t = asid_of s" by (simp_all add: t' loaded_sel evicted_sel k)
  show "ex_state t ?su GENERALEXCEPT = ex_state s ?su GENERALEXCEPT"
    by (simp add: t' loaded_sel evicted_sel at_fault_def ex_state_upd)
qed

section \<open>Runs with page faults\<close>

text \<open>The calls of the Nucleus a handler makes, with their first two arguments; page faults are no calls.\<close>

definition service_calls :: "event list \<Rightarrow> (int \<times> u32 \<times> u32) list" where
  "service_calls es = map (\<lambda>e. (ev_call e, ev_a1 e, ev_a2 e)) (filter (\<lambda>e. ev_call e \<noteq> PAGE_FAULT) es)"

lemma service_calls [simp]:
  "service_calls [] = []" "service_calls (es @ fs) = service_calls es @ service_calls fs"
  "service_calls (e # es) = (if ev_call e = PAGE_FAULT then service_calls es
    else (ev_call e, ev_a1 e, ev_a2 e) # service_calls es)"
  by (simp_all add: service_calls_def)

definition after :: "event list \<Rightarrow> event list \<times> ending \<times> slevel \<Rightarrow> event list \<times> ending \<times> slevel" where
  "after es r = (es @ fst r, snd r)"

lemma after_append: "after es (after fs r) = after (es @ fs) r" "after [] r = r"
  by (simp_all add: after_def)

lemma run_paging:
  "run (P x k) (paging lk fs st) n s = after [call PASSEREN x s] (run k (paging lk fs st) (Suc n) s)"
  "run (V x k) (paging lk fs st) n s = after [call VERHOGEN x s] (run k (paging lk fs st) (Suc n) s)"
  "run (Syscall DOIO x y z f) (paging lk fs st) n s =
    after [\<lparr>ev_call = DOIO, ev_a1 = x, ev_a2 = y, ev_a3 = z, ev_state = s\<rparr>] (run (f (st n)) (paging lk fs st) (Suc n) s)"
  by (simp_all add: paging_def after_def split_def Let_def)

text \<open>A state of the handler of process \<open>a\<close>: the pool is consistent, and \<open>u\<close>, \<open>x\<close> are its memory and saved state.\<close>

definition serving :: "link_addrs \<Rightarrow> u32 set \<Rightarrow> u32 \<Rightarrow> (u32 \<Rightarrow> u32 \<Rightarrow> 8 word) \<Rightarrow> state_t \<Rightarrow> slevel \<Rightarrow> bool" where
  "serving lk L a u x s \<longleftrightarrow> pool_ok lk L s \<and> L \<subseteq> {1..8} \<and> a \<in> L \<and> umem s = u \<and>
     ex_state s (getSupport lk a) GENERALEXCEPT = x"

lemma serving_asid: "serving lk L a u x s \<Longrightarrow> asid_of s (getSupport lk a) = a"
  by (simp add: serving_def pool_ok_def pool_except_def)

lemma serving_umem: "serving lk L a u x s \<Longrightarrow> serving lk L a v x (s\<lparr>umem := v\<rparr>)"
  by (simp add: serving_def pool_ok_def pool_except_def frame_ok_def in_frame_def asid_of_def get_pte_def ex_state_def)

text \<open>An access to a page of the process is made, perhaps after a page fault.\<close>

lemma run_access:
  assumes reg: "flash_regs_ok lk" and fs: "faults_ok fs" and S: "serving lk L a u x s" and va: "0 \<le> vpnToIndex va"
  obtains es t where "service_calls es = []" "serving lk L a u x t"
    "run (Access (getSupport lk a) va f k) (paging lk fs st) n s = after es (run (k t) (paging lk fs st) n (f t))"
proof (cases "resident s (getSupport lk a) va")
  case True
  then show ?thesis using that [of "[]" s] S by (simp add: after_def)
next
  case False
  let ?su = "getSupport lk a"
  let ?e = "page_fault ?su va s" and ?t = "snd (paging lk fs st n (page_fault ?su va s))"
  have I: "pool_ok lk L s" "L \<subseteq> {1..8}" "a \<in> L" using S by (simp_all add: serving_def)
  have "?t = final (pager lk) (solo lk ?su) 0 (at_fault fs ?su va s)"
    by (simp add: paging_def page_fault_def)
  note t = fault_served [OF reg I fs va False this]
  have "serving lk L a u x ?t" using t S by (simp add: serving_def)
  moreover have "service_calls [?e] = []" by (simp add: page_fault_def)
  moreover have "run (Access ?su va f k) (paging lk fs st) n s = after [?e] (run (k ?t) (paging lk fs st) n (f ?t))"
    using False t(2) by (simp add: Let_def after_def split_def)
  ultimately show ?thesis using that by blast
qed

end
