(* ===== verification/Sys_Services.thy ===== *)
theory Sys_Services
  imports Handler_Faults
begin

text \<open>
  What the system calls of the support level promise: terminal output and input, \<open>Execute\<close>, the
  services that do not exist, and the discipline of the mutexes.
\<close>

section \<open>Mutexes\<close>

text \<open>The calls of a run of one of the two handlers, in an environment as they rely on it.\<close>

text \<open>\<open>B\<close> is what is held at the start: nothing, or the mutex of the handler the pager has interrupted.\<close>

definition handler_calls :: "link_addrs \<Rightarrow> u32 list \<Rightarrow> u32 set \<Rightarrow> event list \<Rightarrow> ending \<Rightarrow> bool" where
  "handler_calls lk B L es f \<longleftrightarrow> (\<exists>p env n s t fuel.
     (p = pager lk \<and> base_ok lk B \<or> p = generalExceptionHandler fuel lk \<and> B = []) \<and>
     run p env n s = (es, f, t) \<and> asids_ok lk L s \<and> obeys env (asid_rely lk L) n es)"

lemma handler_held:
  assumes "link_ok lk" and "L \<subseteq> {1..8}" and "handler_calls lk B L es f"
  shows "held_at_end lk B f (held lk B B es)"
proof -
  obtain p env n s t fuel where p: "p = pager lk \<and> base_ok lk B \<or> p = generalExceptionHandler fuel lk \<and> B = []"
    and r: "run p env n s = (es, f, t)" "asids_ok lk L s" "obeys env (asid_rely lk L) n es"
    using assms(3) unfolding handler_calls_def by metis
  have "orderly lk B L p B"
    using p orderly_pager [OF assms(1) _ assms(2)] orderly_generalExceptionHandler [OF assms(1,2)] by auto
  from run_orderly [OF this r] show ?thesis .
qed

lemma held_at_end_not_None: "held_at_end lk B f G \<Longrightarrow> G \<noteq> None"
  by (auto simp: held_at_end_def split: ending.splits)

text \<open>
  C22. The pager and the general exception handler take the mutexes in the order terminal, swap pool,
  flash device, give them back in the reverse order, and hold none while they wait for another
  process. When a handler ends, because the process goes on or terminates itself, it holds what it
  held at the start: nothing, or, for a pager that serves a fault of \<open>WriteTerminal\<close> or
  \<open>ReadTerminal\<close> on the buffer, the mutex of that terminal. The only exception: a process that the
  pager terminates at such a fault is left with exactly the mutex of the terminal.
\<close>

theorem handlers_release_mutexes:
  assumes "link_ok lk" and "L \<subseteq> {1..8}" and "handler_calls lk B L es f" and "f \<noteq> Exhausted"
  shows "if f = Faulted then \<exists>m\<in>term_mutexes lk. held lk B B es = Some [m] else held lk B B es = Some B"
  using handler_held [OF assms(1-3)] assms(4) by (cases f) (auto simp: held_at_end_def)

definition demo_calls :: "event list" where
  "demo_calls = fst (run (pager demo_lk) (solo demo_lk (getSupport demo_lk 1)) 0 (demo_vm 0x80005040))"

lemma demo_asids: "asids_ok demo_lk {1} (demo_vm hi)"
  using demo_vm_pool [of hi] by (auto simp: asids_ok_def pool_ok_def pool_except_def frame_ok_def Let_def)

lemma demo_calls:
  "handler_calls demo_lk [] {1} demo_calls (Loaded (zero_state\<lparr>entry_hi := 0x80005040\<rparr>))"
  "map (\<lambda>e. (ev_call e, ev_a1 e)) demo_calls =
    [(GETSUPPORTPTR, 0), (PASSEREN, a_swapPoolSem demo_lk), (PASSEREN, devMutex demo_lk (FLASH_MUTEX 0)),
     (DOIO, reg_word (DEV_REG_ADDR demo_lk IL_FLASH 0) 1), (VERHOGEN, devMutex demo_lk (FLASH_MUTEX 0)),
     (VERHOGEN, a_swapPoolSem demo_lk)]"
proof -
  let ?su = "getSupport demo_lk 1" and ?p = "pager demo_lk"
  have v: "vpnToIndex 0x80005040 = 5" by code_simp
  have c: "cause (zero_state\<lparr>entry_hi := 0x80005040\<rparr>) = 0" by (simp add: zero_state_def)
  note defs = pager_def solo_def demo_vm_sel v c pager_evict_def pager_load_def flashOperation_def Let_def
  have a: "asids_ok demo_lk {1} (s\<lparr>fifoNext := n\<rparr>) \<longleftrightarrow> n < 16 \<and> asids_ok demo_lk {1} (s\<lparr>fifoNext := 0\<rparr>)" for s n
    by (auto simp: asids_ok_def asid_of_def)
  have d: "asids_ok demo_lk {1} (demo_vm 0x80005040)" by (rule demo_asids)
  show "map (\<lambda>e. (ev_call e, ev_a1 e)) demo_calls =
    [(GETSUPPORTPTR, 0), (PASSEREN, a_swapPoolSem demo_lk), (PASSEREN, devMutex demo_lk (FLASH_MUTEX 0)),
     (DOIO, reg_word (DEV_REG_ADDR demo_lk IL_FLASH 0) 1), (VERHOGEN, devMutex demo_lk (FLASH_MUTEX 0)),
     (VERHOGEN, a_swapPoolSem demo_lk)]"
    by (simp add: demo_calls_def defs)
  have l: "fst (snd (run ?p (solo demo_lk ?su) 0 (demo_vm 0x80005040))) = Loaded (zero_state\<lparr>entry_hi := 0x80005040\<rparr>)"
    by (simp add: defs)
  have ob: "obeys (solo demo_lk ?su) (asid_rely demo_lk {1}) 0 demo_calls"
    unfolding demo_calls_def
    by (simp add: defs obeys_run) (use d in \<open>auto simp: asid_rely_def asids_ok_def\<close>)
  obtain es f t where r: "run ?p (solo demo_lk ?su) 0 (demo_vm 0x80005040) = (es, f, t)" by (metis prod_cases3)
  then have "es = demo_calls" "f = Loaded (zero_state\<lparr>entry_hi := 0x80005040\<rparr>)" using l by (simp_all add: demo_calls_def)
  then show "handler_calls demo_lk [] {1} demo_calls (Loaded (zero_state\<lparr>entry_hi := 0x80005040\<rparr>))"
    unfolding handler_calls_def using ob d r
    by (intro exI [of _ ?p] exI [of _ "solo demo_lk ?su"] exI [of _ 0] exI [of _ "demo_vm 0x80005040"] exI [of _ t]) simp
qed

theorem handlers_release_mutexes_witness:
  "held demo_lk [] [] demo_calls = Some []"
  using handlers_release_mutexes [OF demo_link _ demo_calls(1)] by simp

text \<open>A process has made the first \<open>k\<close> calls of \<open>es\<close> and waits in the next one, for a mutex another one holds.\<close>

definition waits_in :: "u32 list \<times> event list \<times> nat \<Rightarrow> u32 option" where
  "waits_in = (\<lambda>(B, es, k). if k < length es \<and> ev_call (es ! k) = PASSEREN then Some (ev_a1 (es ! k)) else None)"

definition holds :: "link_addrs \<Rightarrow> u32 list \<times> event list \<times> nat \<Rightarrow> u32 set" where
  "holds lk = (\<lambda>(B, es, k). case held lk B B (take k es) of None \<Rightarrow> {} | Some H \<Rightarrow> set H)"

text \<open>
  No deadlock over the mutexes: whatever number of processes are in the two handlers, each at
  any point of its run, no cycle of processes wait for mutexes that the next one holds.
\<close>

theorem no_circular_wait:
  assumes "link_ok lk" and "L \<subseteq> {1..8}"
    and "\<forall>(B, es, k)\<in>set ps. (\<exists>f. handler_calls lk B L es f) \<and> waits_in (B, es, k) \<noteq> None"
  shows "acyclic {(x, y). x \<in> set ps \<and> y \<in> set ps \<and> the (waits_in x) \<in> holds lk y}"
proof -
  define f where "f x = rank lk (the (waits_in x))" for x
  have "f x < f y" if x: "x \<in> set ps" and y: "y \<in> set ps" and w: "the (waits_in x) \<in> holds lk y" for x y
  proof -
    obtain B es k where yk: "y = (B, es, k)" by (cases y)
    then have k: "k < length es" "ev_call (es ! k) = PASSEREN" and h: "held lk B B es \<noteq> None"
      using y assms(3) held_at_end_not_None [OF handler_held [OF assms(1,2)]] by (force simp: waits_in_def split: if_splits)+
    have "es = take k es @ [es ! k] @ drop (Suc k) es" using k(1) by (simp add: id_take_nth_drop)
    then have "held lk B B (take k es @ [es ! k]) \<noteq> None"
      using h held_append [of lk B B "take k es @ [es ! k]" "drop (Suc k) es"]
      by (auto split: option.splits)
    moreover obtain H where H: "held lk B B (take k es) = Some H" "the (waits_in x) \<in> set H"
      using w by (auto simp: holds_def yk split: option.splits)
    ultimately have "rank lk (the (waits_in x)) < rank lk (ev_a1 (es ! k))" using held_wait k(2) by blast
    then show ?thesis using k by (simp add: f_def yk waits_in_def)
  qed
  then have "{(x, y). x \<in> set ps \<and> y \<in> set ps \<and> the (waits_in x) \<in> holds lk y} \<subseteq> measure f" by auto
  then show ?thesis using acyclic_subset wf_acyclic wf_measure by blast
qed

theorem no_circular_wait_witness:
  "acyclic {(x, y). x \<in> set [([], demo_calls, 1), ([], demo_calls, 2)] \<and> y \<in> set [([], demo_calls, 1), ([], demo_calls, 2)] \<and>
     the (waits_in x) \<in> holds demo_lk y}"
proof (rule no_circular_wait [OF demo_link])
  have l: "length demo_calls = 6" using arg_cong [OF demo_calls(2), of length] by simp
  have n: "k < 6 \<Longrightarrow> (ev_call (demo_calls ! k), ev_a1 (demo_calls ! k)) = map (\<lambda>e. (ev_call e, ev_a1 e)) demo_calls ! k" for k
    using l by simp
  have "ev_call (demo_calls ! 1) = PASSEREN" "ev_call (demo_calls ! 2) = PASSEREN"
    using n [of 1] n [of 2] unfolding demo_calls(2) by simp_all
  then show "\<forall>(B, es, k)\<in>set [([], demo_calls, 1), ([], demo_calls, 2)]. (\<exists>f. handler_calls demo_lk B {1} es f) \<and> waits_in (B, es, k) \<noteq> None"
    using demo_calls(1) l by (auto simp: waits_in_def)
qed simp

section \<open>Terminal output\<close>

text \<open>The number of characters, of \<open>len\<close>, that the terminal accepts when the first is the \<open>n\<close>-th call.\<close>

definition accepted :: "(nat \<Rightarrow> u32) \<Rightarrow> nat \<Rightarrow> nat \<Rightarrow> nat" where
  "accepted st n len = length (takeWhile (\<lambda>i. st (n + i) AND 0xFF = OKCHARTRANS) [0..<len])"

lemma accepted_simps:
  "accepted st n 0 = 0"
  "accepted st n (Suc len) = (if st n AND 0xFF = OKCHARTRANS then Suc (accepted st (Suc n) len) else 0)"
proof -
  have "[0..<Suc len] = 0 # map Suc [0..<len]" by (simp add: upt_conv_Cons map_Suc_upt del: upt_Suc)
  then show "accepted st n (Suc len) = (if st n AND 0xFF = OKCHARTRANS then Suc (accepted st (Suc n) len) else 0)"
    by (simp add: accepted_def takeWhile_map comp_def del: upt_Suc)
qed (simp add: accepted_def)

definition transmit_call :: "link_addrs \<Rightarrow> 8 word \<Rightarrow> int \<times> u32 \<times> u32" where
  "transmit_call lk c = (DOIO, reg_word (DEV_REG_ADDR lk IL_TERMINAL 0) 3, write_cmd c)"

lemma run_write_loop:
  assumes reg: "flash_regs_ok lk" and fs: "faults_ok fs"
  shows "serving lk L a u x s \<Longrightarrow> (\<And>j. j < len \<Longrightarrow> 0 \<le> vpnToIndex (va + of_nat (i + j))) \<Longrightarrow>
    \<exists>es t. serving lk L a u x t \<and>
      (let m = accepted st n len; buf = map (\<lambda>j. u a (va + of_nat (i + j))) [0..<len] in
       service_calls es = map (transmit_call lk) (take (Suc m) buf) @ [(VERHOGEN, devMutex lk (TERMW_MUTEX 0), 0)] \<and>
       run (write_loop lk (getSupport lk a) (DEV_REG_ADDR lk IL_TERMINAL 0) va i len k) (paging lk fs st) n s =
         after es (run (k (if m = len then of_nat (i + len) else neg_status (st (n + m))))
           (paging lk fs st) (Suc (n + min (Suc m) len)) t))"
proof (induction len arbitrary: i n s)
  case 0
  then show ?case
    by (intro exI [of _ "[call VERHOGEN (devMutex lk (TERMW_MUTEX 0)) s]"] exI [of _ s])
      (simp add: accepted_simps run_paging Let_def del: run.simps(2))
next
  case (Suc len)
  let ?su = "getSupport lk a" and ?reg = "DEV_REG_ADDR lk IL_TERMINAL 0"
  have v: "[0..<Suc len] = 0 # map Suc [0..<len]" by (simp add: upt_conv_Cons map_Suc_upt del: upt_Suc)
  have p: "0 \<le> vpnToIndex (va + of_nat i)" using Suc.prems(2) [of 0] by simp
  let ?rest = "\<lambda>s. Syscall DOIO (reg_word ?reg 3) (write_cmd (umem s (asid_of s ?su) (va + of_nat i))) 0 (\<lambda>status.
    if status AND 0xFF \<noteq> OKCHARTRANS then V (devMutex lk (TERMW_MUTEX 0)) (k (neg_status status))
    else write_loop lk ?su ?reg va (Suc i) len k)"
  obtain es t where c: "service_calls es = []" and S: "serving lk L a u x t"
    and r: "run (write_loop lk ?su ?reg va i (Suc len) k) (paging lk fs st) n s = after es (run (?rest t) (paging lk fs st) n t)"
    by (rule run_access [OF reg fs Suc.prems(1) p, where f = "\<lambda>s. s" and k = ?rest and st = st and n = n])
      (simp only: write_loop.simps(2))
  define e where "e = \<lparr>ev_call = DOIO, ev_a1 = reg_word ?reg 3, ev_a2 = write_cmd (u a (va + of_nat i)), ev_a3 = 0, ev_state = t\<rparr>"
  have u: "umem t (asid_of t ?su) = u a" using S serving_asid [OF S] by (simp add: serving_def)
  have d: "run (?rest t) (paging lk fs st) n t = after [e] (run (if st n AND 0xFF \<noteq> OKCHARTRANS
      then V (devMutex lk (TERMW_MUTEX 0)) (k (neg_status (st n))) else write_loop lk ?su ?reg va (Suc i) len k) (paging lk fs st) (Suc n) t)"
    unfolding run_paging(3) e_def u by (rule refl)
  have e: "service_calls (es @ [e]) = [transmit_call lk (u a (va + of_nat i))]"
    by (simp add: c e_def transmit_call_def)
  have e': "service_calls ((es @ [e]) @ gs) = transmit_call lk (u a (va + of_nat i)) # service_calls gs" for gs
    by (subst service_calls(2), subst e) simp
  show ?case
  proof (cases "st n AND 0xFF = OKCHARTRANS")
    case True
    have "0 \<le> vpnToIndex (va + of_nat (Suc i + j))" if "j < len" for j using Suc.prems(2) [of "Suc j"] that by simp
    from Suc.IH [OF S this, of "Suc n"]
    obtain fs' t' where S': "serving lk L a u x t'"
      and f: "service_calls fs' = map (transmit_call lk) (take (Suc (accepted st (Suc n) len))
          (map (\<lambda>j. u a (va + of_nat (Suc i + j))) [0..<len])) @ [(VERHOGEN, devMutex lk (TERMW_MUTEX 0), 0)]"
      and r': "run (write_loop lk ?su ?reg va (Suc i) len k) (paging lk fs st) (Suc n) t =
        after fs' (run (k (if accepted st (Suc n) len = len then of_nat (Suc i + len) else neg_status (st (Suc n + accepted st (Suc n) len))))
           (paging lk fs st) (Suc (Suc n + min (Suc (accepted st (Suc n) len)) len)) t')"
      unfolding Let_def by blast
    have "run (write_loop lk ?su ?reg va i (Suc len) k) (paging lk fs st) n s =
        after ((es @ [e]) @ fs') (run (k (if accepted st (Suc n) len = len then of_nat (Suc i + len) else neg_status (st (Suc n + accepted st (Suc n) len))))
           (paging lk fs st) (Suc (Suc n + min (Suc (accepted st (Suc n) len)) len)) t')"
      unfolding r d using True r' by (simp add: after_append)
    moreover have "service_calls ((es @ [e]) @ fs') = transmit_call lk (u a (va + of_nat i)) # service_calls fs'" by (rule e')
    ultimately show ?thesis
      using S' True f by (intro exI [of _ "(es @ [e]) @ fs'"] exI [of _ t'])
        (simp add: Let_def accepted_simps v comp_def del: upt_Suc of_nat_Suc of_nat_add append_assoc)
  next
    case False
    let ?v = "call VERHOGEN (devMutex lk (TERMW_MUTEX 0)) t"
    have "run (write_loop lk ?su ?reg va i (Suc len) k) (paging lk fs st) n s =
        after ((es @ [e]) @ [?v]) (run (k (neg_status (st n))) (paging lk fs st) (Suc (Suc n)) t)"
      unfolding r d using False by (simp add: after_append run_paging del: run.simps(2))
    moreover have "service_calls ((es @ [e]) @ [?v]) = [transmit_call lk (u a (va + of_nat i)), (VERHOGEN, devMutex lk (TERMW_MUTEX 0), 0)]"
      by (subst e') simp
    ultimately show ?thesis
      using S False by (intro exI [of _ "(es @ [e]) @ [?v]"] exI [of _ t])
        (simp add: Let_def accepted_simps v del: upt_Suc of_nat_Suc of_nat_add append_assoc)
  qed
qed

text \<open>What the user program sees: the result in \<open>a0\<close>, and the instruction after the call.\<close>

definition result_state :: "state_t \<Rightarrow> u32 \<Rightarrow> state_t" where
  "result_state st r = st\<lparr>reg_a0 := r, pc_epc := pc_epc st + WORDLEN\<rparr>"

lemma run_return_to_user:
  "fst (run (return_to_user su r) env n s) = []"
  "fst (snd (run (return_to_user su r) env n s)) = Loaded (result_state (ex_state s su GENERALEXCEPT) r)"
  "umem (snd (snd (run (return_to_user su r) env n s))) = umem s"
  by (simp_all add: return_to_user_def upd_ex_state_def ex_state_def result_state_def)

text \<open>
  C26. \<open>WriteTerminal\<close> of a buffer of 0 to 128 characters in the 32 pages of the process sends the
  characters of the buffer to the terminal, in order and under the mutex of the transmitter, until
  one is not accepted, whether the pages of the buffer are present or not: at each access to a page
  that is missing the pager runs and the access is made again. The result is the number of characters
  if all were accepted, and otherwise minus the status of the one that was not; in both cases the
  mutex is given back and the process goes on after the call. Like C8 it is about a process that runs
  alone, from a state with a consistent pool, with flash devices that work. For addresses outside the
  32 pages see \<open>fatal_fault_keeps_terminal\<close>.
\<close>

theorem writeTerminal_sends_buffer:
  assumes "flash_regs_ok lk" and "faults_ok fs" and "pool_ok lk L s" and "L \<subseteq> {1..8}" and "a \<in> L" and "su = getSupport lk a"
    and "KUSEG \<le> va" and "va < USERSTACKTOP" and "len \<le> 128" and "\<forall>j<len. 0 \<le> vpnToIndex (va + of_nat j)"
    and "run (writeTerminal lk su va (int len) (return_to_user su)) (paging lk fs st) n s = (es, f, t)"
  shows "let m = accepted st (Suc n) len;
      buf = map (\<lambda>j. umem s a (va + of_nat j)) [0..<len];
      result = if m = len then of_nat len else - (st (Suc n + m) AND 0xFF)
    in service_calls es = (PASSEREN, devMutex lk (TERMW_MUTEX 0), 0) #
        map (\<lambda>c. (DOIO, reg_word (DEV_REG_ADDR lk IL_TERMINAL 0) 3, write_cmd c)) (take (Suc m) buf) @
        [(VERHOGEN, devMutex lk (TERMW_MUTEX 0), 0)] \<and>
      f = Loaded (result_state (ex_state s su GENERALEXCEPT) result) \<and> umem t = umem s"
proof -
  let ?reg = "DEV_REG_ADDR lk IL_TERMINAL 0" and ?x = "ex_state s su GENERALEXCEPT"
  have S: "serving lk L a (umem s) ?x s" using assms(3-6) by (simp add: serving_def)
  have va: "\<not> va < KUSEG" "\<not> va \<ge> USERSTACKTOP" using assms(7,8) by auto
  from run_write_loop [where len = len and va = va and i = 0 and n = "Suc n" and st = st and k = "return_to_user su", OF assms(1,2) S] assms(10)
  obtain fs' t' where S': "serving lk L a (umem s) ?x t'"
    and c: "service_calls fs' = map (transmit_call lk) (take (Suc (accepted st (Suc n) len)) (map (\<lambda>j. umem s a (va + of_nat j)) [0..<len])) @
      [(VERHOGEN, devMutex lk (TERMW_MUTEX 0), 0)]"
    and r: "run (write_loop lk su ?reg va 0 len (return_to_user su)) (paging lk fs st) (Suc n) s =
      after fs' (run (return_to_user su (if accepted st (Suc n) len = len then of_nat len else neg_status (st (Suc n + accepted st (Suc n) len))))
        (paging lk fs st) (Suc (Suc n + min (Suc (accepted st (Suc n) len)) len)) t')"
    by (auto simp: Let_def assms(6))
  have "run (writeTerminal lk su va (int len) (return_to_user su)) (paging lk fs st) n s =
      after [call PASSEREN (devMutex lk (TERMW_MUTEX 0)) s]
        (run (write_loop lk su ?reg va 0 len (return_to_user su)) (paging lk fs st) (Suc n) s)"
    using va assms(9) by (simp add: writeTerminal_def Let_def run_paging del: run.simps(2))
  then have e: "(es, f, t) = after [call PASSEREN (devMutex lk (TERMW_MUTEX 0)) s] (after fs'
      (run (return_to_user su (if accepted st (Suc n) len = len then of_nat len else neg_status (st (Suc n + accepted st (Suc n) len))))
        (paging lk fs st) (Suc (Suc n + min (Suc (accepted st (Suc n) len)) len)) t'))"
    using assms(11) r by simp
  have x: "ex_state t' su GENERALEXCEPT = ?x" "umem t' = umem s" using S' assms(6) by (simp_all add: serving_def)
  show ?thesis
    using e c x by (simp add: Let_def after_def prod_eq_iff run_return_to_user neg_status_def transmit_call_def)
qed

text \<open>A buffer that begins at the end of page 0 and goes on in page 1; neither is present.\<close>

definition demo_faults :: "u32 \<Rightarrow> state_t" where
  "demo_faults va = zero_state\<lparr>entry_hi := va\<rparr>"

lemma demo_faults: "faults_ok demo_faults"
  by (simp add: faults_ok_def demo_faults_def zero_state_def)

theorem writeTerminal_sends_buffer_witness:
  "let (es, f, t) = run (writeTerminal demo_lk (getSupport demo_lk 1) 0x80000FFE 3 (return_to_user (getSupport demo_lk 1)))
     (paging demo_lk demo_faults (\<lambda>n. if n = 3 then 4 else 5)) 0 (demo_vm 0)
   in map fst (service_calls es) = [PASSEREN, DOIO, DOIO, DOIO, VERHOGEN] \<and>
     f = Loaded (result_state (zero_state\<lparr>entry_hi := 0\<rparr>) (- 4))"
proof -
  obtain es f t where r: "run (writeTerminal demo_lk (getSupport demo_lk 1) 0x80000FFE (int 3)
      (return_to_user (getSupport demo_lk 1))) (paging demo_lk demo_faults (\<lambda>n. if n = 3 then 4 else 5)) 0 (demo_vm 0) = (es, f, t)"
    by (metis prod_cases3)
  have a: "accepted (\<lambda>n. if n = 3 then 4 else 5) 1 3 = 2" by code_simp
  have "list_all (\<lambda>j. 0 \<le> vpnToIndex (0x80000FFE + of_nat j)) [0..<3]" by code_simp
  then have p: "\<forall>j<3. 0 \<le> vpnToIndex (0x80000FFE + of_nat j)" by (auto simp: list_all_iff)
  show ?thesis
    using writeTerminal_sends_buffer [OF demo_flash_regs demo_faults demo_vm_pool _ _ refl _ _ _ p r] r a
    by (simp add: Let_def demo_vm_sel numeral_3_eq_3)
qed

section \<open>Terminal input\<close>

definition input_char :: "(nat \<Rightarrow> u32) \<Rightarrow> nat \<Rightarrow> 8 word" where
  "input_char st n = ucast (drop_bit 8 (st n) AND 0xFF)"

definition received :: "(nat \<Rightarrow> u32) \<Rightarrow> nat \<Rightarrow> bool" where
  "received st n \<longleftrightarrow> st n AND 0xFF = CHARRECV"

primrec store_chars :: "u32 \<Rightarrow> nat \<Rightarrow> 8 word list \<Rightarrow> (u32 \<Rightarrow> 8 word) \<Rightarrow> u32 \<Rightarrow> 8 word" where
  "store_chars va i [] m = m"
| "store_chars va i (c # cs) m = store_chars va (Suc i) cs (m(va + of_nat i := c))"

lemma store_chars_other:
  "(\<And>j. j < length cs \<Longrightarrow> x \<noteq> va + of_nat (i + j)) \<Longrightarrow> store_chars va i cs m x = m x"
proof (induction cs arbitrary: i m)
  case (Cons c cs)
  have "x \<noteq> va + of_nat i" using Cons.prems [of 0] by simp
  moreover have "store_chars va (Suc i) cs m' x = m' x" for m'
    by (rule Cons.IH) (use Cons.prems [of "Suc j" for j] in simp)
  ultimately show ?case by simp
qed simp

lemma of_nat_offset:
  assumes "i < 2 ^ 32" "j < 2 ^ 32"
  shows "va + of_nat i = va + (of_nat j :: u32) \<longleftrightarrow> i = j"
proof -
  have l: "LENGTH(32) = 32" by simp
  have "unat (of_nat i :: u32) = i" "unat (of_nat j :: u32) = j"
    unfolding unat_of_nat l by (rule mod_less [OF assms(1)], rule mod_less [OF assms(2)])
  then show ?thesis unfolding add_left_cancel by metis
qed

lemma store_chars_at:
  "j < length cs \<Longrightarrow> i + length cs \<le> 2 ^ 32 \<Longrightarrow> store_chars va i cs m (va + of_nat (i + j)) = cs ! j"
proof (induction cs arbitrary: i j m)
  case (Cons c cs)
  show ?case
  proof (cases j)
    case 0
    have "store_chars va (Suc i) cs m' (va + of_nat i) = m' (va + of_nat i)" for m'
    proof (rule store_chars_other)
      show "va + of_nat i \<noteq> va + of_nat (Suc i + k)" if "k < length cs" for k
        using of_nat_offset [of i "Suc i + k" va] Cons.prems(2) that by simp
    qed
    then show ?thesis by (simp add: 0)
  next
    case (Suc j')
    then show ?thesis using Cons.IH [of j' "Suc i"] Cons.prems by (simp del: of_nat_Suc of_nat_add)
  qed
qed simp

text \<open>One character is received and stored.\<close>

lemma read_step:
  assumes reg: "flash_regs_ok lk" and fs: "faults_ok fs" and S: "serving lk L a u x s"
    and va: "0 \<le> vpnToIndex (va + of_nat i)" and r: "received st n"
  obtains es t where
    "serving lk L a (u(a := (u a)(va + of_nat i := input_char st n))) x t"
    "service_calls es = [(DOIO, reg_word reg 1, RECEIVECHAR)]"
    "run (read_loop (Suc g) lk (getSupport lk a) reg va i k) (paging lk fs st) n s =
      after es (run (if input_char st n = 10 then V (devMutex lk (TERMR_MUTEX 0)) (k (of_nat (Suc i)))
        else read_loop g lk (getSupport lk a) reg va (Suc i) k) (paging lk fs st) (Suc n) t)"
proof -
  let ?su = "getSupport lk a" and ?c = "input_char st n"
  let ?f = "\<lambda>s. s\<lparr>umem := (umem s)(asid_of s ?su := (umem s (asid_of s ?su))(va + of_nat i := ?c))\<rparr>"
  let ?rest = "if ?c = 10 then V (devMutex lk (TERMR_MUTEX 0)) (k (of_nat (Suc i))) else read_loop g lk ?su reg va (Suc i) k"
  let ?e = "\<lparr>ev_call = DOIO, ev_a1 = reg_word reg 1, ev_a2 = RECEIVECHAR, ev_a3 = 0, ev_state = s\<rparr>"
  have d: "run (read_loop (Suc g) lk ?su reg va i k) (paging lk fs st) n s =
      after [?e] (run (Access ?su (va + of_nat i) ?f (\<lambda>_. ?rest)) (paging lk fs st) (Suc n) s)"
    using r unfolding read_loop.simps(2) run_paging(3) Let_def input_char_def received_def by simp
  obtain es t where es: "service_calls es = []" and T: "serving lk L a u x t"
    and a: "run (Access ?su (va + of_nat i) ?f (\<lambda>_. ?rest)) (paging lk fs st) (Suc n) s =
      after es (run ?rest (paging lk fs st) (Suc n) (?f t))"
    by (rule run_access [OF reg fs S va, where f = ?f and k = "\<lambda>_. ?rest" and st = st and n = "Suc n"])
  have "serving lk L a (u(a := (u a)(va + of_nat i := ?c))) x (?f t)"
    using serving_umem [OF T, of "u(a := (u a)(va + of_nat i := ?c))"] T
    by (simp add: serving_asid [OF T]) (simp add: serving_def)
  then show ?thesis using that [of "?f t" "[?e] @ es"] d a es by (simp add: after_append)
qed

lemma run_read_loop:
  assumes reg: "flash_regs_ok lk" and fs: "faults_ok fs"
  shows "serving lk L a u x s \<Longrightarrow>
    (\<And>j. j < m \<Longrightarrow> received st (n + j) \<and> input_char st (n + j) \<noteq> 10) \<Longrightarrow>
    ok = received st (n + m) \<Longrightarrow> (ok \<Longrightarrow> input_char st (n + m) = 10) \<Longrightarrow> m < fuel \<Longrightarrow>
    (\<And>j. j < (if ok then Suc m else m) \<Longrightarrow> 0 \<le> vpnToIndex (va + of_nat (i + j))) \<Longrightarrow>
    \<exists>es t. serving lk L a (u(a := store_chars va i (map (\<lambda>j. input_char st (n + j)) [0..<(if ok then Suc m else m)]) (u a))) x t \<and>
      service_calls es = replicate (Suc m) (DOIO, reg_word reg 1, RECEIVECHAR) @ [(VERHOGEN, devMutex lk (TERMR_MUTEX 0), 0)] \<and>
      run (read_loop fuel lk (getSupport lk a) reg va i k) (paging lk fs st) n s =
        after es (run (k (if ok then of_nat (Suc (i + m)) else neg_status (st (n + m)))) (paging lk fs st) (Suc (Suc (n + m))) t)"
proof (induction m arbitrary: n i s u fuel)
  case 0
  then obtain g where fuel: "fuel = Suc g" by (cases fuel) auto
  show ?case
  proof (cases ok)
    case True
    then have p: "0 \<le> vpnToIndex (va + of_nat i)" and r: "received st n" "input_char st n = 10"
      using 0 by auto
    obtain es t where S: "serving lk L a (u(a := (u a)(va + of_nat i := input_char st n))) x t"
      and c: "service_calls es = [(DOIO, reg_word reg 1, RECEIVECHAR)]"
      and d: "run (read_loop (Suc g) lk (getSupport lk a) reg va i k) (paging lk fs st) n s =
        after es (run (if input_char st n = 10 then V (devMutex lk (TERMR_MUTEX 0)) (k (of_nat (Suc i)))
          else read_loop g lk (getSupport lk a) reg va (Suc i) k) (paging lk fs st) (Suc n) t)"
      by (rule read_step [OF reg fs 0(1) p r(1)])
    have "run (read_loop (Suc g) lk (getSupport lk a) reg va i k) (paging lk fs st) n s =
      after (es @ [call VERHOGEN (devMutex lk (TERMR_MUTEX 0)) t]) (run (k (of_nat (Suc i))) (paging lk fs st) (Suc (Suc n)) t)"
      unfolding d if_P [OF r(2)] run_paging(2) by (simp only: after_append)
    then show ?thesis
      using S c
      by (intro exI [of _ "es @ [call VERHOGEN (devMutex lk (TERMR_MUTEX 0)) t]"] exI [of _ t])
        (simp add: True fuel del: read_loop.simps run.simps fun_upd_apply)
  next
    case False
    then have "\<not> received st n" using 0(3) by simp
    then show ?thesis
      using 0(1) False unfolding fuel
      by (intro exI [of _ "[\<lparr>ev_call = DOIO, ev_a1 = reg_word reg 1, ev_a2 = RECEIVECHAR, ev_a3 = 0, ev_state = s\<rparr>,
          call VERHOGEN (devMutex lk (TERMR_MUTEX 0)) s]"] exI [of _ s])
        (simp add: run_paging after_append received_def del: run.simps(2))
  qed
next
  case (Suc m)
  then obtain g where fuel: "fuel = Suc g" "m < g" by (cases fuel) auto
  have c: "received st n" "input_char st n \<noteq> 10" using Suc.prems(2) [of 0] by simp_all
  have p: "0 \<le> vpnToIndex (va + of_nat i)" using Suc.prems(6) [of 0] by simp
  obtain es t where S: "serving lk L a (u(a := (u a)(va + of_nat i := input_char st n))) x t"
    and e: "service_calls es = [(DOIO, reg_word reg 1, RECEIVECHAR)]"
    and d: "run (read_loop (Suc g) lk (getSupport lk a) reg va i k) (paging lk fs st) n s =
      after es (run (if input_char st n = 10 then V (devMutex lk (TERMR_MUTEX 0)) (k (of_nat (Suc i)))
        else read_loop g lk (getSupport lk a) reg va (Suc i) k) (paging lk fs st) (Suc n) t)"
    by (rule read_step [OF reg fs Suc.prems(1) p c(1)])
  have prems: "\<And>j. j < m \<Longrightarrow> received st (Suc n + j) \<and> input_char st (Suc n + j) \<noteq> 10"
    "ok = received st (Suc n + m)" "ok \<Longrightarrow> input_char st (Suc n + m) = 10"
    "\<And>j. j < (if ok then Suc m else m) \<Longrightarrow> 0 \<le> vpnToIndex (va + of_nat (Suc i + j))"
    using Suc.prems(2) [of "Suc j" for j] Suc.prems(3,4) Suc.prems(6) [of "Suc j" for j] by (auto split: if_splits)
  have v: "map (\<lambda>j. input_char st (n + j)) [0..<Suc l] = input_char st n # map (\<lambda>j. input_char st (Suc n + j)) [0..<l]" for l
    by (simp add: upt_conv_Cons map_Suc_upt [symmetric] comp_def del: upt_Suc)
  have l: "(if ok then Suc (Suc m) else Suc m) = Suc (if ok then Suc m else m)" by simp
  from Suc.IH [OF S prems(1-3) fuel(2) prems(4)]
  obtain fs' t' where S': "serving lk L a (u(a := store_chars va (Suc i) (map (\<lambda>j. input_char st (Suc n + j)) [0..<(if ok then Suc m else m)])
        ((u a)(va + of_nat i := input_char st n)))) x t'"
    and e': "service_calls fs' = replicate (Suc m) (DOIO, reg_word reg 1, RECEIVECHAR) @ [(VERHOGEN, devMutex lk (TERMR_MUTEX 0), 0)]"
    and d': "run (read_loop g lk (getSupport lk a) reg va (Suc i) k) (paging lk fs st) (Suc n) t =
      after fs' (run (k (if ok then of_nat (Suc (Suc i + m)) else neg_status (st (Suc n + m)))) (paging lk fs st) (Suc (Suc (Suc n + m))) t')"
    unfolding fun_upd_upd fun_upd_same by blast
  have "run (read_loop fuel lk (getSupport lk a) reg va i k) (paging lk fs st) n s =
      after (es @ fs') (run (k (if ok then of_nat (Suc (i + Suc m)) else neg_status (st (n + Suc m)))) (paging lk fs st) (Suc (Suc (n + Suc m))) t')"
    unfolding fuel(1) d if_not_P [OF c(2)] d' by (simp only: after_append add_Suc add_Suc_right)
  moreover have "service_calls (es @ fs') = replicate (Suc (Suc m)) (DOIO, reg_word reg 1, RECEIVECHAR) @
      [(VERHOGEN, devMutex lk (TERMR_MUTEX 0), 0)]" by (simp add: e e')
  ultimately show ?case unfolding l v store_chars.simps(2) using S' by blast
qed

text \<open>
  C27. \<open>ReadTerminal\<close> reads a line into the 32 pages of the process: it takes the characters the
  terminal receives one by one, up to and including the first newline, and stores them from the given
  address on, in order, whether the pages of the buffer are present or not; the result is their
  number. If the terminal reports an error first, the characters before it are stored and the result
  is minus the status. Nothing else in memory changes, and the mutex of the receiver is taken before
  and given back after. The length of the line is not limited, except that all characters have to lie
  in the 32 pages; for addresses outside them see \<open>fatal_fault_keeps_terminal\<close>. Like C26 it is about a
  process that runs alone, from a state with a consistent pool, with flash devices that work. Fuel
  for one character more than the line is enough.
\<close>

theorem readTerminal_reads_line:
  assumes "flash_regs_ok lk" and "faults_ok fs" and "pool_ok lk L s" and "L \<subseteq> {1..8}" and "a \<in> L" and "su = getSupport lk a"
    and "KUSEG \<le> va" and "va < USERSTACKTOP"
    and "list_all (\<lambda>j. received st (Suc n + j) \<and> input_char st (Suc n + j) \<noteq> 10) [0..<m]"
    and "ok = received st (Suc n + m)" and "ok \<Longrightarrow> input_char st (Suc n + m) = 10"
    and "len = (if ok then Suc m else m)" and "\<forall>j<len. 0 \<le> vpnToIndex (va + of_nat j)"
    and "m < fuel" and "m < 2 ^ 32"
    and "run (readTerminal fuel lk su va (return_to_user su)) (paging lk fs st) n s = (es, f, t)"
  shows "f = Loaded (result_state (ex_state s su GENERALEXCEPT) (if ok then of_nat len else - (st (Suc n + m) AND 0xFF))) \<and>
    map (\<lambda>j. umem t a (va + of_nat j)) [0..<len] = map (\<lambda>j. input_char st (Suc n + j)) [0..<len] \<and>
    (\<forall>x. x \<notin> (\<lambda>j. va + of_nat j) ` {..<len} \<longrightarrow> umem t a x = umem s a x) \<and>
    (\<forall>b. b \<noteq> a \<longrightarrow> umem t b = umem s b) \<and>
    service_calls es = (PASSEREN, devMutex lk (TERMR_MUTEX 0), 0) #
      replicate (Suc m) (DOIO, reg_word (DEV_REG_ADDR lk IL_TERMINAL 0) 1, RECEIVECHAR) @
      [(VERHOGEN, devMutex lk (TERMR_MUTEX 0), 0)]"
proof -
  let ?reg = "DEV_REG_ADDR lk IL_TERMINAL 0" and ?x = "ex_state s su GENERALEXCEPT"
  let ?result = "if ok then of_nat (Suc m) else neg_status (st (Suc n + m))"
  define cs where "cs = map (\<lambda>j. input_char st (Suc n + j)) [0..<len]"
  have S: "serving lk L a (umem s) ?x s" using assms(3-6) by (simp add: serving_def)
  have va: "\<not> va < KUSEG" "\<not> va \<ge> USERSTACKTOP" using assms(7,8) by auto
  have len: "length cs = len" "len \<le> 2 ^ 32" using assms(12,15) by (auto simp: cs_def)
  from run_read_loop [where va = va and i = 0 and n = "Suc n" and st = st and m = m and ok = ok and fuel = fuel
      and reg = ?reg and k = "return_to_user su", OF assms(1,2) S] assms(9-11,13,14)
  obtain fs' t' where S': "serving lk L a ((umem s)(a := store_chars va 0 cs (umem s a))) ?x t'"
    and c: "service_calls fs' = replicate (Suc m) (DOIO, reg_word ?reg 1, RECEIVECHAR) @ [(VERHOGEN, devMutex lk (TERMR_MUTEX 0), 0)]"
    and r: "run (read_loop fuel lk su ?reg va 0 (return_to_user su)) (paging lk fs st) (Suc n) s =
      after fs' (run (return_to_user su ?result) (paging lk fs st) (Suc (Suc (Suc n + m))) t')"
    unfolding cs_def assms(6) assms(12) by (auto simp: list_all_iff)
  have "run (readTerminal fuel lk su va (return_to_user su)) (paging lk fs st) n s =
      after [call PASSEREN (devMutex lk (TERMR_MUTEX 0)) s]
        (run (read_loop fuel lk su ?reg va 0 (return_to_user su)) (paging lk fs st) (Suc n) s)"
    using va by (simp add: readTerminal_def Let_def run_paging del: run.simps(2))
  then have e: "(es, f, t) = after [call PASSEREN (devMutex lk (TERMR_MUTEX 0)) s] (after fs'
      (run (return_to_user su ?result) (paging lk fs st) (Suc (Suc (Suc n + m))) t'))"
    using assms(16) r by simp
  have t: "umem t = (umem s)(a := store_chars va 0 cs (umem s a))" and x: "ex_state t' su GENERALEXCEPT = ?x"
    using e S' assms(6) by (auto simp: serving_def after_def prod_eq_iff run_return_to_user)
  have "umem t a (va + of_nat j) = input_char st (Suc n + j)" if "j < len" for j
    using store_chars_at [of j cs 0 va "umem s a"] that len by (simp add: t cs_def)
  moreover have "umem t a y = umem s a y" if "y \<notin> (\<lambda>j. va + of_nat j) ` {..<len}" for y
    unfolding t fun_upd_same by (rule store_chars_other) (use that in \<open>auto simp: len\<close>)
  moreover have "umem t b = umem s b" if "b \<noteq> a" for b using that by (simp add: t)
  moreover have "service_calls es = (PASSEREN, devMutex lk (TERMR_MUTEX 0), 0) #
      replicate (Suc m) (DOIO, reg_word ?reg 1, RECEIVECHAR) @ [(VERHOGEN, devMutex lk (TERMR_MUTEX 0), 0)]"
    "f = Loaded (result_state ?x ?result)"
    using e c x by (simp_all add: after_def prod_eq_iff run_return_to_user)
  ultimately show ?thesis using assms(12) by (simp add: neg_status_def)
qed

text \<open>The line \<open>hi\<close> and a newline, at \<open>0x80000FFF\<close>: the last byte of page 0, and page 1.\<close>

definition demo_line :: "nat \<Rightarrow> u32" where
  "demo_line n = (if n = 1 then 0x6805 else if n = 2 then 0x6905 else 0x0A05)"

theorem readTerminal_reads_line_witness:
  "let (es, f, t) = run (readTerminal 5 demo_lk (getSupport demo_lk 1) 0x80000FFF (return_to_user (getSupport demo_lk 1)))
     (paging demo_lk demo_faults demo_line) 0 (demo_vm 0)
   in f = Loaded (result_state (zero_state\<lparr>entry_hi := 0\<rparr>) 3) \<and>
      map (\<lambda>j. umem t 1 (0x80000FFF + of_nat j)) [0..<3] = [104, 105, 10]"
proof -
  obtain es f t where r: "run (readTerminal 5 demo_lk (getSupport demo_lk 1) 0x80000FFF
      (return_to_user (getSupport demo_lk 1))) (paging demo_lk demo_faults demo_line) 0 (demo_vm 0) = (es, f, t)"
    by (metis prod_cases3)
  have i: "list_all (\<lambda>j. received demo_line (Suc 0 + j) \<and> input_char demo_line (Suc 0 + j) \<noteq> 10) [0..<2]"
    "True = received demo_line (Suc 0 + 2)" "input_char demo_line (Suc 0 + 2) = 10" "3 = (if True then Suc 2 else 2)"
    "map (\<lambda>j. input_char demo_line (Suc 0 + j)) [0..<3] = [104, 105, 10]"
    by code_simp+
  have "list_all (\<lambda>j. 0 \<le> vpnToIndex (0x80000FFF + of_nat j)) [0..<3]" by code_simp
  then have p: "\<forall>j<3. 0 \<le> vpnToIndex (0x80000FFF + of_nat j)" by (auto simp: list_all_iff)
  have "f = Loaded (result_state (zero_state\<lparr>entry_hi := 0\<rparr>) (of_nat 3))"
    "map (\<lambda>j. umem t 1 (0x80000FFF + of_nat j)) [0..<3] = map (\<lambda>j. input_char demo_line (Suc 0 + j)) [0..<3]"
    using readTerminal_reads_line [OF demo_flash_regs demo_faults demo_vm_pool _ _ refl _ _ i(1,2) i(3) i(4) p _ _ r]
    by (simp_all add: demo_vm_sel del: upt_rec_numeral)
  then show ?thesis unfolding r i(5) by simp
qed

section \<open>Errors\<close>

text \<open>The environment that answers the \<open>n\<close>-th call with \<open>st n\<close> and leaves the state alone.\<close>

definition quiet :: "(nat \<Rightarrow> u32) \<Rightarrow> env" where
  "quiet st n e = (st n, ev_state e)"

text \<open>The events of a run, page faults included, with the first argument.\<close>

definition calls_of :: "event list \<Rightarrow> (int \<times> u32) list" where
  "calls_of es = map (\<lambda>e. (ev_call e, ev_a1 e)) es"

lemma run_supTerminate_calls:
  "calls_of (fst (run (supTerminate lk a k) env n s)) =
    [(PASSEREN, a_swapPoolSem lk), (VERHOGEN, a_swapPoolSem lk),
     (VERHOGEN, if a = 1 then a_masterSemaphore lk else a_shellSemaphore lk), (TERMPROCESS, 0)]"
  "fst (snd (run (supTerminate lk a k) env n s)) = Terminated"
proof -
  have w: "run (foldr (\<lambda>i. Write (F i)) is k) e m t = run k e m (fold F is t)" for F :: "nat \<Rightarrow> slevel \<Rightarrow> slevel" and "is" k e m t
    by (induction "is" arbitrary: t) auto
  show "calls_of (fst (run (supTerminate lk a k) env n s)) =
    [(PASSEREN, a_swapPoolSem lk), (VERHOGEN, a_swapPoolSem lk),
     (VERHOGEN, if a = 1 then a_masterSemaphore lk else a_shellSemaphore lk), (TERMPROCESS, 0)]"
    "fst (snd (run (supTerminate lk a k) env n s)) = Terminated"
    by (simp_all only: supTerminate_def run.simps w Let_def split_def) (simp_all add: calls_of_def)
qed

text \<open>
  An exception of a user program that is not a system call, and a system call whose number is
  none of the four services, terminate the process, whatever the environment answers: its mutexes,
  frames and waiting processes are dealt with as \<open>supTerminate\<close> does, and the program never goes on.
\<close>

theorem unknown_service_terminates:
  assumes "su = fst (env n (call GETSUPPORTPTR 0 s))" and "s1 = snd (env n (call GETSUPPORTPTR 0 s))"
    and "st = ex_state s1 su GENERALEXCEPT"
    and "cause st AND CAUSE_EXCCODE_MASK \<noteq> EXC_ECU \<or>
      sint (reg_a0 st) \<notin> {SUP_WRITETERMINAL, SUP_READTERMINAL, SUP_EXECUTE}"
    and "run (generalExceptionHandler fuel lk) env n s = (es, f, t)"
  shows "es = call GETSUPPORTPTR 0 s # fst (run (supTerminate lk (asid_of s1 su) Return) env (Suc n) s1) \<and>
    f = Terminated \<and>
    map ev_call es = [GETSUPPORTPTR, PASSEREN, VERHOGEN, VERHOGEN, TERMPROCESS]"
proof -
  have "run (generalExceptionHandler fuel lk) env n s =
      after [call GETSUPPORTPTR 0 s] (run (supTerminate lk (asid_of s1 su) Return) env (Suc n) s1)"
    using assms(3,4)
    by (auto simp: generalExceptionHandler_def supSyscallHandler_def Let_def split_def terminate_self_def
        assms(1,2) [symmetric] after_def)
  then have es: "es = call GETSUPPORTPTR 0 s # fst (run (supTerminate lk (asid_of s1 su) Return) env (Suc n) s1)"
    and f: "f = fst (snd (run (supTerminate lk (asid_of s1 su) Return) env (Suc n) s1))"
    using assms(5) by (simp_all add: after_def prod_eq_iff)
  have "map ev_call xs = map fst (calls_of xs)" for xs by (simp add: calls_of_def)
  then show ?thesis unfolding es f by (simp add: run_supTerminate_calls)
qed

theorem unknown_service_terminates_witness:
  "let (es, f, t) = run (generalExceptionHandler 9 demo_lk) (quiet (\<lambda>_. getSupport demo_lk 1)) 0 (demo_vm 0)
   in f = Terminated \<and> map ev_call es = [GETSUPPORTPTR, PASSEREN, VERHOGEN, VERHOGEN, TERMPROCESS]"
proof -
  obtain es f t where r: "run (generalExceptionHandler 9 demo_lk) (quiet (\<lambda>_. getSupport demo_lk 1)) 0 (demo_vm 0) = (es, f, t)"
    by (metis prod_cases3)
  have "cause (ex_state (demo_vm 0) (getSupport demo_lk 1) GENERALEXCEPT) AND CAUSE_EXCCODE_MASK \<noteq> EXC_ECU"
    by (simp add: demo_vm_sel zero_state_def)
  then have "f = Terminated \<and> map ev_call es = [GETSUPPORTPTR, PASSEREN, VERHOGEN, VERHOGEN, TERMPROCESS]"
    using unknown_service_terminates [OF refl refl refl _ r, unfolded quiet_def fst_conv snd_conv event.simps] by blast
  then show ?thesis unfolding r by simp
qed



end
