(* ===== verification/Vm_Types.thy ===== *)
theory Vm_Types
  imports Vm_Services Sys_Services
begin

text \<open>
  The types of the words the memory management unit reads: the entries of the page tables and of the
  TLB. Whatever happens at the calls, and even if a device fails, an entry keeps the page and the
  process it belongs to, and a valid one refers to a frame of the swap pool.
\<close>

section \<open>Well-typed entries\<close>

definition entry_lo_ok :: "u32 \<Rightarrow> bool" where
  "entry_lo_ok lo \<longleftrightarrow> lo = DIRTYON \<or>
     (\<exists>i<SWAP_POOL_SIZE. lo = frameAddr i OR DIRTYON \<or> lo = present_lo i)"

definition table_typed :: "link_addrs \<Rightarrow> u32 \<Rightarrow> slevel \<Rightarrow> bool" where
  "table_typed lk a s \<longleftrightarrow> (\<forall>p<32. let e = get_pte s (getSupport lk a, p) in
     pte_entryHI e = page_hi a p \<and> entry_lo_ok (pte_entryLO e))"

text \<open>A valid translation is that of a page of one of the processes \<open>L\<close> to a frame.\<close>

definition tlb_typed :: "u32 set \<Rightarrow> slevel \<Rightarrow> bool" where
  "tlb_typed L s \<longleftrightarrow> (\<forall>(hi, lo) \<in> set (s_tlb s). lo AND VALIDON \<noteq> 0 \<longrightarrow>
     (\<exists>a\<in>L. \<exists>p<32. hi = page_hi a p) \<and> (\<exists>i<SWAP_POOL_SIZE. lo = present_lo i))"

definition typed :: "link_addrs \<Rightarrow> u32 set \<Rightarrow> slevel \<Rightarrow> bool" where
  "typed lk L s \<longleftrightarrow> fifoNext s < SWAP_POOL_SIZE \<and>
     (\<forall>a\<in>L. asid_of s (getSupport lk a) = a \<and> table_typed lk a s) \<and> tlb_typed L s"

text \<open>The processes of \<open>L\<close> have been launched; the others leave the state well typed too.\<close>

definition type_rely :: "link_addrs \<Rightarrow> u32 set \<Rightarrow> event \<Rightarrow> u32 \<Rightarrow> slevel \<Rightarrow> bool" where
  "type_rely lk L e r s' \<longleftrightarrow> typed lk L s' \<and> (ev_call e = GETSUPPORTPTR \<longrightarrow> r \<in> getSupport lk ` L)"

lemma typed_cong:
  assumes "typed lk L s" and "fifoNext s' < SWAP_POOL_SIZE" "supports s' = supports s" "s_tlb s' = s_tlb s"
  shows "typed lk L s'"
  using assms by (simp add: typed_def asid_of_def table_typed_def get_pte_def tlb_typed_def)

lemma entry_lo_ok_clear: "entry_lo_ok lo \<Longrightarrow> entry_lo_ok (lo AND NOT VALIDON)"
proof -
  have "list_all (\<lambda>i. (frameAddr i OR DIRTYON) AND NOT VALIDON = frameAddr i OR DIRTYON \<and>
      present_lo i AND NOT VALIDON = frameAddr i OR DIRTYON) [0..<16]" by code_simp
  then show "entry_lo_ok lo \<Longrightarrow> ?thesis" by (auto simp: list_all_iff entry_lo_ok_def)
qed

section \<open>The steps keep the types\<close>

lemma set_tlb_marks:
  "set (s_tlb (markPageNotValid q s)) \<subseteq> {(0, 0)}"
  "set (s_tlb (markPagePresent q fa s)) \<subseteq> {(0, 0), (pte_entryHI (get_pte s q), fa OR DIRTYON OR VALIDON)}"
proof -
  have c: "set (map (\<lambda>_. (0, 0)) xs) \<subseteq> {(0, 0 :: u32)}" for xs :: "(u32 \<times> u32) list" by auto
  then show "set (s_tlb (markPageNotValid q s)) \<subseteq> {(0, 0)}"
    by (simp add: markPageNotValid_def Let_def interruptsOn_def sTLBCLR_def)
  have u: "get_pte (t\<lparr>s_status := x\<rparr>) = get_pte t" "get_pte (t\<lparr>s_tlb := y\<rparr>) = get_pte t"
    "get_pte (t\<lparr>s_entryhi := x\<rparr>) = get_pte t" for t x y
    by (simp_all add: get_pte_def fun_eq_iff)
  show "set (s_tlb (markPagePresent q fa s)) \<subseteq> {(0, 0), (pte_entryHI (get_pte s q), fa OR DIRTYON OR VALIDON)}"
    using c [of "s_tlb s"]
    by (auto simp: markPagePresent_def Let_def interruptsOn_def interruptsOff_def sTLBCLR_def sTLBWR_def u
        dest!: set_update_subset_insert [THEN subsetD])
qed

lemma typed_markPageNotValid:
  assumes "typed lk L s"
  shows "typed lk L (markPageNotValid q s)"
proof -
  have "table_typed lk a (markPageNotValid q s)" if "table_typed lk a s" for a
    using that entry_lo_ok_clear by (auto simp: table_typed_def Let_def)
  moreover have "tlb_typed L (markPageNotValid q s)"
    using set_tlb_marks(1) [of q s] by (auto simp: tlb_typed_def dest: subsetD)
  ultimately show ?thesis using assms by (simp add: typed_def)
qed

lemma typed_markPagePresent:
  assumes "typed lk L s" and a: "a \<in> L" "p < 32" and i: "i < SWAP_POOL_SIZE"
  shows "typed lk L (markPagePresent (getSupport lk a, p) (frameAddr i) s)"
proof -
  let ?t = "markPagePresent (getSupport lk a, p) (frameAddr i) s"
  have "entry_lo_ok (frameAddr i OR DIRTYON OR VALIDON)" using i by (auto simp: entry_lo_ok_def present_lo_def)
  then have "table_typed lk b ?t" if "table_typed lk b s" for b
    using that by (auto simp: table_typed_def Let_def)
  moreover have "table_typed lk a s" using assms(1) a by (simp add: typed_def)
  then have "pte_entryHI (get_pte s (getSupport lk a, p)) = page_hi a p" using a by (simp add: table_typed_def Let_def)
  then have "tlb_typed L ?t"
    using a i set_tlb_marks(2) [of "(getSupport lk a, p)" "frameAddr i" s]
    by (fastforce simp: tlb_typed_def present_lo_def)
  ultimately show ?thesis using assms(1) by (simp add: typed_def)
qed

lemma typed_setup_support:
  assumes t: "typed lk L s" and L: "L \<subseteq> {1..8}" "b \<in> {1..8}"
  shows "typed lk (insert b L) (setup_support lk b s)"
proof -
  have ne: "getSupport lk a = getSupport lk b \<longleftrightarrow> a = b" if "a \<in> insert b L" for a
    using that getSupport_inject [of a b lk] L by blast
  have "asid_of (setup_support lk b s) (getSupport lk a) = a \<and> table_typed lk a (setup_support lk b s)"
    if "a \<in> insert b L" for a
    using t that ne [OF that]
    by (auto simp: typed_def setup_support_sel table_typed_def Let_def entry_lo_ok_def)
  then show ?thesis using t by (auto simp: typed_def tlb_typed_def setup_support_sel)
qed

lemma typed_fifo: "typed lk L s \<Longrightarrow> fifoNext s < SWAP_POOL_SIZE"
  by (simp add: typed_def)

lemma typed_data:
  assumes "typed lk L s"
  shows "typed lk L (s\<lparr>swapPool := w\<rparr>)" "typed lk L (store_word x v s)" "typed lk L (s\<lparr>umem := u\<rparr>)"
    "typed lk L (s\<lparr>state_area := z\<rparr>)" "n < SWAP_POOL_SIZE \<Longrightarrow> typed lk L (s\<lparr>fifoNext := n\<rparr>)"
    "typed lk L (free_frame i s)"
  using typed_fifo [OF assms] by (auto intro!: typed_cong [OF assms] simp: free_frame_def)

lemma typed_ex_state: "typed lk L s \<Longrightarrow> typed lk L (upd_ex_state su e f s)"
proof -
  have "get_pte (upd_ex_state su e f s) = get_pte s" "asid_of (upd_ex_state su e f s) = asid_of s"
    by (auto simp: upd_ex_state_def get_pte_def asid_of_def fun_eq_iff)
  then show "typed lk L s \<Longrightarrow> ?thesis" by (simp add: typed_def table_typed_def tlb_typed_def upd_ex_state_def)
qed

lemma typed_launch:
  assumes "typed lk L s" and "L \<subseteq> {1..8}" "b \<in> {1..8}"
  shows "typed lk L (setup_support lk b s)"
proof -
  have t: "typed lk (insert b L) (setup_support lk b s)" by (rule typed_setup_support [OF assms])
  have "tlb_typed L (setup_support lk b s)" using assms(1) by (simp add: typed_def tlb_typed_def setup_support_sel)
  then show ?thesis using t by (simp add: typed_def)
qed

section \<open>The handlers keep the types\<close>

definition keeps_types :: "link_addrs \<Rightarrow> u32 set \<Rightarrow> prog \<Rightarrow> bool" where
  "keeps_types lk L p \<longleftrightarrow> (\<forall>s. typed lk L s \<longrightarrow>
     wp p (type_rely lk L) (\<lambda>e. typed lk L (ev_state e)) (\<lambda>f t. typed lk L t) s)"

named_theorems keeps

lemma keeps_ends [keeps]: "keeps_types lk L Return" "keeps_types lk L (Load st)" "keeps_types lk L No_fuel"
  by (simp_all add: keeps_types_def)

lemma keeps_Syscall [keeps]:
  "(\<And>r. (c = GETSUPPORTPTR \<Longrightarrow> r \<in> getSupport lk ` L) \<Longrightarrow> keeps_types lk L (k r)) \<Longrightarrow>
   keeps_types lk L (Syscall c x y z k)"
  by (auto simp: keeps_types_def type_rely_def Let_def)

lemma keeps_Read [keeps]: "(\<And>s. typed lk L s \<Longrightarrow> keeps_types lk L (k s)) \<Longrightarrow> keeps_types lk L (Read k)"
  by (simp add: keeps_types_def)

lemma keeps_Write [keeps]:
  "(\<And>s. typed lk L s \<Longrightarrow> typed lk L (f s)) \<Longrightarrow> keeps_types lk L k \<Longrightarrow> keeps_types lk L (Write f k)"
  by (simp add: keeps_types_def)

lemma keeps_Access [keeps]:
  "(\<And>s. typed lk L s \<Longrightarrow> typed lk L (f s)) \<Longrightarrow> (\<And>s. keeps_types lk L (k s)) \<Longrightarrow> keeps_types lk L (Access su va f k)"
  by (simp add: keeps_types_def type_rely_def page_fault_def)

lemma keeps_foldr_Write [keeps]:
  "(\<And>i s. typed lk L s \<Longrightarrow> typed lk L (F i s)) \<Longrightarrow> keeps_types lk L k \<Longrightarrow>
   keeps_types lk L (foldr (\<lambda>i. Write (F i)) is k)"
  by (induction "is") (auto intro!: keeps)

lemma keeps_terminate [keeps]: "keeps_types lk L k \<Longrightarrow> keeps_types lk L (terminate_self lk su k)"
  unfolding terminate_self_def supTerminate_def
  by (auto intro!: keeps intro: typed_data simp del: foldr_Cons upt_rec_numeral)

lemma keeps_flashOperation [keeps]:
  "(\<And>r. keeps_types lk L (k r)) \<Longrightarrow> keeps_types lk L (flashOperation lk a b fa op k)"
  unfolding flashOperation_def Let_def by (intro keeps typed_data)

lemma keeps_pager_load:
  assumes "a \<in> L" "p < 32" "i < SWAP_POOL_SIZE"
  shows "keeps_types lk L (pager_load lk (getSupport lk a) p i)"
  unfolding pager_load_def
  by (auto intro!: keeps typed_data(1) typed_markPagePresent assms)

lemma keeps_pager_evict [keeps]: "keeps_types lk L k \<Longrightarrow> keeps_types lk L (pager_evict lk su i k)"
  unfolding pager_evict_def Let_def by (auto intro!: keeps typed_markPageNotValid)

lemma keeps_pager: "keeps_types lk L (pager lk)"
proof -
  have "nat (vpnToIndex e) < 32" for e using vpnToIndex_less [of e] by simp
  then show ?thesis
    unfolding pager_def Let_def
    by (auto intro!: keeps typed_data(5) keeps_pager_load) (simp_all add: typed_def)
qed

lemma keeps_write_loop: "(\<And>r. keeps_types lk L (k r)) \<Longrightarrow> keeps_types lk L (write_loop lk su t va i n k)"
  by (induction n arbitrary: i) (auto intro!: keeps)

lemma keeps_read_loop: "(\<And>r. keeps_types lk L (k r)) \<Longrightarrow> keeps_types lk L (read_loop n lk su t va i k)"
  by (induction n arbitrary: i) (auto intro!: keeps typed_data(3) simp: Let_def)

lemma keeps_launch:
  assumes "L \<subseteq> {1..8}" "b \<in> {1..8}" "keeps_types lk L k"
  shows "keeps_types lk L (launchUproc lk b k)"
  unfolding launchUproc_def by (auto intro!: keeps typed_launch typed_data(4) assms)

lemma keeps_general:
  assumes "L \<subseteq> {1..8}"
  shows "keeps_types lk L (generalExceptionHandler fuel lk)"
proof -
  have r: "keeps_types lk L (return_to_user su x)" for su x
    unfolding return_to_user_def by (intro keeps typed_ex_state)
  then show ?thesis
    unfolding generalExceptionHandler_def supSyscallHandler_def writeTerminal_def readTerminal_def doExecute_def Let_def
    by (auto intro!: keeps keeps_write_loop keeps_read_loop keeps_launch assms sint_asid)
qed

section \<open>No access outside the swap pool\<close>

lemma typed_frame:
  assumes "typed lk L s" and "(hi, lo) \<in> set (s_tlb s)" and "lo AND VALIDON \<noteq> 0"
  shows "SWAP_POOL_START \<le> lo AND NOT 0xFFF \<and> lo AND NOT 0xFFF < SWAP_POOL_START + of_nat SWAP_POOL_SIZE * PAGESIZE"
proof -
  obtain i where i: "i < 16" "lo = present_lo i" using assms by (fastforce simp: typed_def tlb_typed_def)
  have "list_all (\<lambda>i. SWAP_POOL_START \<le> present_lo i AND NOT 0xFFF \<and>
      present_lo i AND NOT 0xFFF < SWAP_POOL_START + of_nat SWAP_POOL_SIZE * PAGESIZE) [0..<16]" by code_simp
  then show ?thesis using i by (auto simp: list_all_iff)
qed

text \<open>
  C28. The words of the memory management unit stay well typed. Whatever a call answers, also when a
  device fails, and as long as what runs during a call or a page fault of the handler leaves the state
  well typed (\<open>type_rely\<close>), at every call and at the end of the pager and of the general exception handler the
  entries of the page tables keep their page and their process, they are invalid or refer to a frame
  of the swap pool, and a valid translation of the TLB maps a page of a launched process into the
  swap pool: no entry lets a user program reach the memory of the kernel. What the refill handler
  enters for an address outside the 32 pages, from beyond the end of a page table, is not covered.
\<close>

theorem translations_stay_typed:
  assumes "L \<subseteq> {1..8}" and "typed lk L s" and "p \<in> {pager lk, generalExceptionHandler fuel lk}"
    and "run p env n s = (es, f, t)" and "obeys env (type_rely lk L) n es"
  shows "list_all (\<lambda>u. typed lk L u \<and> (\<forall>(hi, lo) \<in> set (s_tlb u). lo AND VALIDON \<noteq> 0 \<longrightarrow>
      SWAP_POOL_START \<le> lo AND NOT 0xFFF \<and>
      lo AND NOT 0xFFF < SWAP_POOL_START + of_nat SWAP_POOL_SIZE * PAGESIZE)) (map ev_state es @ [t])"
proof -
  have "keeps_types lk L p" using assms(3) keeps_pager keeps_general [OF assms(1)] by blast
  then have "wp p (type_rely lk L) (\<lambda>e. typed lk L (ev_state e)) (\<lambda>f. typed lk L) s"
    using assms(2) by (simp add: keeps_types_def)
  from run_wp [OF this assms(4,5)] have "list_all (\<lambda>e. typed lk L (ev_state e)) es \<and> typed lk L t" .
  then show ?thesis using typed_frame by (fastforce simp: list_all_iff)
qed

lemma demo_typed: "typed demo_lk {1} (demo_vm hi)"
proof -
  have "typed demo_lk {} (initSwapStructs demo_lk (blank (zero_state\<lparr>entry_hi := hi\<rparr>)))"
    by (simp add: typed_def tlb_typed_def initSwapStructs_sel blank_def)
  from typed_setup_support [OF this, of 1] show ?thesis by (simp add: demo_vm_def)
qed

text \<open>The flash device of the shell fails: the pager terminates the shell, and the types hold.\<close>

theorem translations_stay_typed_witness:
  "let (es, f, t) = run (pager demo_lk) (quiet (\<lambda>_. getSupport demo_lk 1)) 0 (demo_vm 0x80005040)
   in f = Terminated \<and> list_all (\<lambda>e. typed demo_lk {1} (ev_state e)) es"
proof -
  let ?env = "quiet (\<lambda>_. getSupport demo_lk 1)" and ?s = "demo_vm 0x80005040"
  obtain es f t where r: "run (pager demo_lk) ?env 0 ?s = (es, f, t)" by (metis prod_cases3)
  have v: "vpnToIndex 0x80005040 = 5" by code_simp
  have c: "cause (zero_state\<lparr>entry_hi := 0x80005040\<rparr>) = 0" by (simp add: zero_state_def)
  have g: "getSupport demo_lk 1 = 0x20011000" by code_simp
  have "wp (pager demo_lk) (type_rely demo_lk {1}) (\<lambda>e. typed demo_lk {1} (ev_state e)) (\<lambda>f. typed demo_lk {1}) ?s"
    using keeps_pager demo_typed by (simp add: keeps_types_def)
  then have "obeys ?env (type_rely demo_lk {1}) 0 (fst (run (pager demo_lk) ?env 0 ?s))"
    by (rule wp_obeys) (simp add: quiet_def type_rely_def)
  then have ob: "obeys ?env (type_rely demo_lk {1}) 0 es" by (simp add: r)
  have "fst (snd (run (supTerminate demo_lk a Return) ?env m u)) = Terminated" for a m u
    by (simp add: run_supTerminate_calls)
  then have "f = Terminated"
    using arg_cong [OF r, of "\<lambda>x. fst (snd x)"]
    by (simp add: pager_def demo_vm_sel v c g pager_evict_def pager_load_def flashOperation_def Let_def quiet_def
        terminate_self_def split_def)
  moreover have "list_all (typed demo_lk {1}) (map ev_state es @ [t])"
    using translations_stay_typed [OF _ demo_typed _ r ob] by (simp add: list_all_iff)
  ultimately show ?thesis by (simp add: r list_all_iff)
qed

end
