(* ===== verification/Vm_System.thy ===== *)
theory Vm_System
  imports Vm_Services
begin

text \<open>
  The processes of the support level running together. Every step of a handler, a read or a write of
  the shared state or a call of the Nucleus, may be followed by a step of any other process, since
  handlers run with interrupts enabled. The semaphores are counters: \<open>P\<close> waits for a positive value.
\<close>

section \<open>States\<close>

text \<open>
  A process with its identifier: it executes its user program, or it is in one of its handlers. The
  list is that of the programs a page fault has interrupted: a handler that accesses user memory can
  be interrupted by the pager. \<open>Killed\<close> is a process the pager has terminated at such a fault, with the
  programs that will never go on.
\<close>

datatype task = Off | User u32 | Handler u32 prog "prog list" | Killed u32 "prog list"

text \<open>The pager returns to what it has interrupted, or it ends the process.\<close>

definition resumed :: "u32 \<Rightarrow> prog list \<Rightarrow> task" where
  "resumed a rs = (case rs of [] \<Rightarrow> User a | q # qs \<Rightarrow> Handler a q qs)"

definition gone :: "u32 \<Rightarrow> prog list \<Rightarrow> task" where
  "gone a rs = (if rs = [] then Off else Killed a rs)"

record vm_system =
  tasks :: "nat \<Rightarrow> task"
  shared :: slevel
  sem :: "u32 \<Rightarrow> int"

text \<open>A process that has given its frames back and only wakes others and ends.\<close>

primrec doomed :: "prog \<Rightarrow> bool" where
  "doomed Return \<longleftrightarrow> False"
| "doomed (Syscall c x y z k) \<longleftrightarrow> c = TERMPROCESS \<and> x = 0 \<or> c = VERHOGEN \<and> (\<forall>r. doomed (k r))"
| "doomed (Read k) \<longleftrightarrow> False"
| "doomed (Write f k) \<longleftrightarrow> False"
| "doomed (Access su va f k) \<longleftrightarrow> False"
| "doomed (Load st) \<longleftrightarrow> False"
| "doomed No_fuel \<longleftrightarrow> False"

primrec alive :: "task \<Rightarrow> u32 \<Rightarrow> bool" where
  "alive Off a \<longleftrightarrow> False"
| "alive (User b) a \<longleftrightarrow> a = b"
| "alive (Handler b p rs) a \<longleftrightarrow> a = b \<and> \<not> doomed p"
| "alive (Killed b rs) a \<longleftrightarrow> False"

definition launched :: "vm_system \<Rightarrow> u32 set" where
  "launched \<sigma> = {a. \<exists>i. alive (tasks \<sigma> i) a}"

definition move :: "nat \<Rightarrow> task \<Rightarrow> vm_system \<Rightarrow> vm_system" where
  "move i t \<sigma> = \<sigma>\<lparr>tasks := (tasks \<sigma>)(i := t)\<rparr>"

section \<open>Steps\<close>

text \<open>\<open>Execute\<close> with an identifier that \<open>doExecute\<close> accepts.\<close>

definition executes :: "state_t \<Rightarrow> bool" where
  "executes st \<longleftrightarrow> cause st AND CAUSE_EXCCODE_MASK = EXC_ECU \<and> sint (reg_a0 st) = SUP_EXECUTE \<and>
     1 \<le> sint (reg_a1 st) \<and> sint (reg_a1 st) \<le> int UPROCMAX"

definition flash_command :: "link_addrs \<Rightarrow> u32 \<Rightarrow> bool" where
  "flash_command lk m \<longleftrightarrow> (\<exists>d<DEVPERINT. m = reg_word (DEV_REG_ADDR lk IL_FLASH d) 1)"

text \<open>What user programs, devices and the refill handler do leaves the tables alone.\<close>

definition outside_step :: "slevel \<Rightarrow> slevel \<Rightarrow> bool" where
  "outside_step s s' \<longleftrightarrow> swapPool s' = swapPool s \<and> fifoNext s' = fifoNext s \<and> supports s' = supports s \<and>
     state_area s' = state_area s"

text \<open>The translation buffer still has an entry for \<open>va\<close> and the process.\<close>

definition cached :: "slevel \<Rightarrow> u32 \<Rightarrow> u32 \<Rightarrow> bool" where
  "cached s su va \<longleftrightarrow> (\<exists>(hi, lo)\<in>set (s_tlb s). lo AND VALIDON \<noteq> 0 \<and> vpn_of hi = vpn_of va \<and>
     drop_bit ASIDSHIFT hi AND 0x3F = asid_of s su)"

text \<open>
  An access of a handler to user memory is made if the page is present or its translation is in the
  buffer. Otherwise the access faults like one of a user program: the Nucleus saves the state, and the
  pager runs on top of the handler.
\<close>

inductive vm_step :: "link_addrs \<Rightarrow> nat \<Rightarrow> vm_system \<Rightarrow> vm_system \<Rightarrow> bool" for lk i where
  read: "tasks \<sigma> i = Handler a (Read k) rs \<Longrightarrow> vm_step lk i \<sigma> (move i (Handler a (k (shared \<sigma>)) rs) \<sigma>)"
| store: "tasks \<sigma> i = Handler a (Write f k) rs \<Longrightarrow>
    vm_step lk i \<sigma> (move i (Handler a k rs) \<sigma>\<lparr>shared := f (shared \<sigma>)\<rparr>)"
| access: "tasks \<sigma> i = Handler a (Access su va f k) rs \<Longrightarrow> resident (shared \<sigma>) su va \<or> cached (shared \<sigma>) su va \<Longrightarrow>
    vm_step lk i \<sigma> (move i (Handler a (k (shared \<sigma>)) rs) \<sigma>\<lparr>shared := f (shared \<sigma>)\<rparr>)"
| page_fault: "tasks \<sigma> i = Handler a (Access su va f k) rs \<Longrightarrow>
    \<not> resident (shared \<sigma>) su va \<Longrightarrow> \<not> cached (shared \<sigma>) su va \<Longrightarrow> vpn_of (entry_hi st) = vpn_of va \<Longrightarrow>
    vm_step lk i \<sigma> (move i (Handler a (pager lk) (Access su va f k # rs)) \<sigma>
      \<lparr>shared := upd_ex_state su PGFAULTEXCEPT (\<lambda>_. st) (shared \<sigma>)\<rparr>)"
| load: "tasks \<sigma> i = Handler a (Load st) rs \<Longrightarrow> vm_step lk i \<sigma> (move i (resumed a rs) \<sigma>)"
| P: "tasks \<sigma> i = Handler a (Syscall PASSEREN m x y k) rs \<Longrightarrow> 0 < sem \<sigma> m \<Longrightarrow>
    vm_step lk i \<sigma> (move i (Handler a (k r) rs) \<sigma>\<lparr>sem := (sem \<sigma>)(m := sem \<sigma> m - 1)\<rparr>)"
| V: "tasks \<sigma> i = Handler a (Syscall VERHOGEN m x y k) rs \<Longrightarrow>
    vm_step lk i \<sigma> (move i (Handler a (k r) rs) \<sigma>\<lparr>sem := (sem \<sigma>)(m := sem \<sigma> m + 1)\<rparr>)"
| support: "tasks \<sigma> i = Handler a (Syscall GETSUPPORTPTR x y z k) rs \<Longrightarrow>
    vm_step lk i \<sigma> (move i (Handler a (k (getSupport lk a)) rs) \<sigma>)"
| doio: "tasks \<sigma> i = Handler a (Syscall DOIO m x y k) rs \<Longrightarrow> (flash_command lk m \<longrightarrow> r = READY) \<Longrightarrow>
    vm_step lk i \<sigma> (move i (Handler a (k r) rs) \<sigma>)"
| create: "tasks \<sigma> i = Handler a (Syscall CREATEPROCESS x y su k) rs \<Longrightarrow> tasks \<sigma> j = Off \<Longrightarrow>
    vm_step lk i \<sigma> (move j (User (asid_of (shared \<sigma>) su)) (move i (Handler a (k r) rs) \<sigma>))"
| no_block: "tasks \<sigma> i = Handler a (Syscall CREATEPROCESS x y su k) rs \<Longrightarrow>
    vm_step lk i \<sigma> (move i (Handler a (k (-1)) rs) \<sigma>)"
| terminate: "tasks \<sigma> i = Handler a (Syscall TERMPROCESS 0 y z k) rs \<Longrightarrow> vm_step lk i \<sigma> (move i (gone a rs) \<sigma>)"
| fault: "tasks \<sigma> i = User a \<Longrightarrow>
    0 \<le> missing_page st \<longrightarrow> \<not> valid (get_pte (shared \<sigma>) (getSupport lk a, nat (missing_page st))) \<Longrightarrow>
    vm_step lk i \<sigma> (move i (Handler a (pager lk) []) \<sigma>
      \<lparr>shared := upd_ex_state (getSupport lk a) PGFAULTEXCEPT (\<lambda>_. st) (shared \<sigma>)\<rparr>)"
| trap: "tasks \<sigma> i = User a \<Longrightarrow> executes st \<longrightarrow> a = 1 \<and> reg_a1 st \<notin> launched \<sigma> \<Longrightarrow>
    vm_step lk i \<sigma> (move i (Handler a (generalExceptionHandler fuel lk) []) \<sigma>
      \<lparr>shared := upd_ex_state (getSupport lk a) GENERALEXCEPT (\<lambda>_. st) (shared \<sigma>)\<rparr>)"

text \<open>
  A run starts when \<open>test\<close> has launched the shell. The mutexes are 1 then, and the two semaphores on
  which processes wait for others are 0.
\<close>

definition mutexes :: "link_addrs \<Rightarrow> u32 set" where
  "mutexes lk = insert (a_swapPoolSem lk) (devMutex lk ` {..<DEV_MUTEX_TOTAL})"

inductive vm_run :: "link_addrs \<Rightarrow> vm_system \<Rightarrow> bool" for lk where
  start: "vm_run lk \<lparr>tasks = (\<lambda>_. Off)(0 := User 1), shared = setup_support lk 1 (initSwapStructs lk s),
     sem = (\<lambda>m. of_bool (m \<in> mutexes lk))\<rparr>"
| step: "vm_run lk \<sigma> \<Longrightarrow> vm_step lk i \<sigma> \<sigma>' \<Longrightarrow> vm_run lk \<sigma>'"
| outside: "vm_run lk \<sigma> \<Longrightarrow> outside_step (shared \<sigma>) s \<Longrightarrow> vm_run lk (\<sigma>\<lparr>shared := s\<rparr>)"

end
