(* ===== verification/Vm_Interleaving.thy ===== *)
theory Vm_Interleaving
  imports Vm_System Sys_Services
begin

text \<open>
  The handlers under the interference of the others. \<open>sound\<close> says of a program that every step it
  makes is one the others can live with, whatever they do between any two of its steps, and that it
  gives the mutex of the swap pool back with a consistent pool.
\<close>

section \<open>Interference\<close>

definition unmapped :: "link_addrs \<Rightarrow> u32 \<Rightarrow> slevel \<Rightarrow> bool" where
  "unmapped lk a s \<longleftrightarrow> (\<forall>p<32. \<not> valid (get_pte s (getSupport lk a, p)))"

definition fresh_table :: "link_addrs \<Rightarrow> u32 \<Rightarrow> slevel \<Rightarrow> bool" where
  "fresh_table lk a s \<longleftrightarrow> asid_of s (getSupport lk a) = a \<and> unmapped lk a s"

definition same_table :: "link_addrs \<Rightarrow> u32 \<Rightarrow> slevel \<Rightarrow> slevel \<Rightarrow> bool" where
  "same_table lk a s s' \<longleftrightarrow> asid_of s' (getSupport lk a) = asid_of s (getSupport lk a) \<and>
     (\<forall>p<32. get_pte s' (getSupport lk a, p) = get_pte s (getSupport lk a, p))"

text \<open>
  What the others may do while process \<open>a\<close> stands between two steps. \<open>d\<close>: it is doomed; \<open>h\<close>: it
  holds the mutex of the swap pool. \<open>L\<close> is the set of the processes that are launched and not doomed.
  Only the shell, process 1, launches others.
\<close>

definition interfere :: "link_addrs \<Rightarrow> u32 \<Rightarrow> bool \<Rightarrow> bool \<Rightarrow> u32 set \<Rightarrow> slevel \<Rightarrow> u32 set \<Rightarrow> slevel \<Rightarrow> bool" where
  "interfere lk a d h L s L' s' \<longleftrightarrow> (let su = getSupport lk a in
     L' \<subseteq> {1..8} \<and>
     (\<not> d \<longrightarrow> (a \<in> L \<longrightarrow> a \<in> L') \<and> asid_of s' su = asid_of s su \<and> ex_state s' su = ex_state s su \<and>
       (\<forall>p<32. valid (get_pte s' (su, p)) \<longrightarrow> valid (get_pte s (su, p))) \<and>
       (a = 1 \<longrightarrow> L' \<subseteq> L \<and> (\<forall>c\<in>{1..8} - L. same_table lk c s s'))) \<and>
     (h \<longrightarrow> swapPool s' = swapPool s \<and> fifoNext s' = fifoNext s \<and> L \<subseteq> L' \<and>
       (\<forall>c\<in>L. same_table lk c s s') \<and> (\<forall>c\<in>L' - L. fresh_table lk c s')))"

lemma same_table_trans: "same_table lk c s t \<Longrightarrow> same_table lk c t u \<Longrightarrow> same_table lk c s u"
  by (simp add: same_table_def)

lemma same_table_refl [simp]: "same_table lk c s s"
  by (simp add: same_table_def)

lemma same_table_fresh: "same_table lk c s t \<Longrightarrow> fresh_table lk c s \<Longrightarrow> fresh_table lk c t"
  by (simp add: same_table_def fresh_table_def unmapped_def)

lemma interfere_refl: "L \<subseteq> {1..8} \<Longrightarrow> interfere lk a d h L s L s"
  by (simp add: interfere_def)

lemma interfere_sel:
  assumes "interfere lk a d h L s L' s'"
  shows "L' \<subseteq> {1..8}"
    "\<not> d \<Longrightarrow> a \<in> L \<Longrightarrow> a \<in> L'"
    "\<not> d \<Longrightarrow> asid_of s' (getSupport lk a) = asid_of s (getSupport lk a)"
    "\<not> d \<Longrightarrow> ex_state s' (getSupport lk a) = ex_state s (getSupport lk a)"
    "\<not> d \<Longrightarrow> p < 32 \<Longrightarrow> valid (get_pte s' (getSupport lk a, p)) \<Longrightarrow> valid (get_pte s (getSupport lk a, p))"
    "\<not> d \<Longrightarrow> a = 1 \<Longrightarrow> L' \<subseteq> L"
    "\<not> d \<Longrightarrow> a = 1 \<Longrightarrow> c \<in> {1..8} \<Longrightarrow> c \<notin> L \<Longrightarrow> same_table lk c s s'"
    "h \<Longrightarrow> swapPool s' = swapPool s" "h \<Longrightarrow> fifoNext s' = fifoNext s" "h \<Longrightarrow> L \<subseteq> L'"
    "h \<Longrightarrow> c \<in> L \<Longrightarrow> same_table lk c s s'" "h \<Longrightarrow> c \<in> L' \<Longrightarrow> c \<notin> L \<Longrightarrow> fresh_table lk c s'"
  using assms by (simp_all add: interfere_def Let_def)

lemma interfere_trans:
  assumes i: "interfere lk a d h L s L1 s1" and j: "interfere lk a d h L1 s1 L2 s2"
  shows "interfere lk a d h L s L2 s2"
proof -
  note i' = interfere_sel [OF i] and j' = interfere_sel [OF j]
  have tab: "same_table lk c s s2" if "c \<in> L" h for c
    using i'(10,11) [OF that(2)] j'(11) [OF that(2)] that same_table_trans by blast
  have fr: "fresh_table lk c s2" if "c \<in> L2" "c \<notin> L" h for c
    using i'(12) [OF that(3)] j'(11,12) [OF that(3)] that same_table_fresh by blast
  have sh: "same_table lk c s s2" if c: "c \<in> {1..8}" "c \<notin> L" and d: "\<not> d" "a = 1" for c
  proof -
    have "c \<notin> L1" using i'(6) [OF d] c by blast
    then show ?thesis using i'(7) [OF d c] j'(7) [OF d c(1)] same_table_trans by blast
  qed
  have "L2 \<subseteq> L" if "\<not> d" "a = 1" using i'(6) [OF that] j'(6) [OF that] by blast
  moreover have "L \<subseteq> L2" if h using i'(10) [OF that] j'(10) [OF that] by blast
  ultimately show ?thesis using i'(2-5,8,9) j'(1-5,8,9) tab fr sh by (simp add: interfere_def Let_def)
qed

section \<open>Isolation\<close>

text \<open>No frame belongs to two pages of the processes \<open>L\<close>.\<close>

definition isolated :: "link_addrs \<Rightarrow> u32 set \<Rightarrow> slevel \<Rightarrow> bool" where
  "isolated lk L s \<longleftrightarrow> (\<forall>a\<in>L. \<forall>b\<in>L. \<forall>p<32. \<forall>q<32.
     let e = get_pte s (getSupport lk a, p); e' = get_pte s (getSupport lk b, q) in
     valid e \<longrightarrow> valid e' \<longrightarrow> pte_entryLO e = pte_entryLO e' \<longrightarrow> a = b \<and> p = q)"

lemma isolated_subset: "isolated lk L s \<Longrightarrow> K \<subseteq> L \<Longrightarrow> isolated lk K s"
  unfolding isolated_def Let_def by blast

text \<open>The pool in the middle of a termination: the frames below \<open>n\<close> have been given back.\<close>

definition partly_freed :: "link_addrs \<Rightarrow> u32 set \<Rightarrow> u32 \<Rightarrow> nat \<Rightarrow> nat set \<Rightarrow> slevel \<Rightarrow> bool" where
  "partly_freed lk L a n X s \<longleftrightarrow> fifoNext s < SWAP_POOL_SIZE \<and>
     (\<forall>b\<in>L. asid_of s (getSupport lk b) = b) \<and>
     (\<forall>i<SWAP_POOL_SIZE. i \<notin> X \<longrightarrow> frame_ok lk L s i) \<and> (\<forall>i<n. sw_asid (swapPool s i) \<noteq> a) \<and>
     (\<forall>b\<in>L - {a}. \<forall>p<32. valid (get_pte s (getSupport lk b, p)) \<longrightarrow> (\<exists>i. i \<notin> X \<and> in_frame s b p i))"

lemma pool_partly: "pool_except lk L X s \<Longrightarrow> partly_freed lk L a 0 X s"
  by (simp add: pool_except_def partly_freed_def)

lemma partly_pool: "partly_freed lk L a n X s \<Longrightarrow> a \<notin> L \<Longrightarrow> pool_except lk L X s"
  by (simp add: pool_except_def partly_freed_def)

lemma isolated_pool:
  assumes P: "partly_freed lk L a n X s" and L: "L \<subseteq> {1..8}"
  shows "isolated lk (L - {a}) s"
proof -
  have fr: "\<exists>i<16. in_frame s b p i \<and> pte_entryLO (get_pte s (getSupport lk b, p)) = present_lo i"
    if b: "b \<in> L - {a}" "p < 32" "valid (get_pte s (getSupport lk b, p))" for b p
  proof -
    obtain i where i: "i \<notin> X" "in_frame s b p i" using P b unfolding partly_freed_def by blast
    then have "frame_ok lk L s i" using P by (auto simp: partly_freed_def in_frame_def)
    moreover have "b \<noteq> SWAP_FRAME_FREE" using b(1) L free_not_asid [of L] by blast
    ultimately show ?thesis using i by (auto simp: frame_ok_def in_frame_def Let_def)
  qed
  show ?thesis
    unfolding isolated_def Let_def
  proof (intro ballI allI impI)
    fix b c p q
    assume b: "b \<in> L - {a}" "p < 32" "valid (get_pte s (getSupport lk b, p))"
      and c: "c \<in> L - {a}" "q < 32" "valid (get_pte s (getSupport lk c, q))"
      and eq: "pte_entryLO (get_pte s (getSupport lk b, p)) = pte_entryLO (get_pte s (getSupport lk c, q))"
    from fr [OF b] fr [OF c] eq show "b = c \<and> p = q" by (auto simp: in_frame_def present_lo_inject)
  qed
qed

lemma isolated_pool_ok: "pool_ok lk L s \<Longrightarrow> L \<subseteq> {1..8} \<Longrightarrow> isolated lk L s"
  using isolated_pool [OF pool_partly, of lk L "{}" s SWAP_FRAME_FREE] free_not_asid [of L] by (simp add: pool_ok_def)

text \<open>While a process holds the mutex, what it knows about the pool stays true.\<close>

lemma interfere_partly:
  assumes i: "interfere lk a d True L s L' s'" and P: "partly_freed lk L b n X s"
  shows "partly_freed lk L' b n X s'"
proof -
  note i' = interfere_sel [OF i, simplified]
  have "frame_ok lk L' s' j" if "frame_ok lk L s j" for j
    using that i'(8,10,11) by (auto simp: frame_ok_def Let_def same_table_def)
  moreover have "\<exists>j. j \<notin> X \<and> in_frame s' c p j"
    if c: "c \<in> L' - {b}" "p < 32" "valid (get_pte s' (getSupport lk c, p))" for c p
  proof -
    have "c \<in> L" using i'(12) [of c] c by (auto simp: fresh_table_def unmapped_def)
    then have "valid (get_pte s (getSupport lk c, p))" using i'(11) c by (simp add: same_table_def)
    then show ?thesis using P \<open>c \<in> L\<close> c by (simp add: partly_freed_def in_frame_def i'(8))
  qed
  moreover have "asid_of s' (getSupport lk c) = c" if "c \<in> L'" for c
    using that i'(11,12) [of c] P by (cases "c \<in> L") (simp_all add: partly_freed_def same_table_def fresh_table_def)
  ultimately show ?thesis using P by (simp add: partly_freed_def i'(8,9))
qed

lemma interfere_pool:
  assumes i: "interfere lk a d True L s L' s'" and P: "pool_except lk L X s"
  shows "pool_except lk L' X s'"
proof -
  have "SWAP_FRAME_FREE \<notin> L'" using interfere_sel(1) [OF i] by (rule free_not_asid)
  from partly_pool [OF interfere_partly [OF i pool_partly [OF P]] this] show ?thesis .
qed

section \<open>Sound programs\<close>

text \<open>An assertion about the processes that live and the shared state, and what a process always knows of itself.\<close>

type_synonym assertion = "u32 set \<Rightarrow> slevel \<Rightarrow> bool"

definition own_any :: "link_addrs \<Rightarrow> u32 \<Rightarrow> assertion" where
  "own_any lk a L s \<longleftrightarrow> a \<in> L \<and> asid_of s (getSupport lk a) = a"

lemma interfere_own_any: "own_any lk a L s \<Longrightarrow> interfere lk a False h L s L' s' \<Longrightarrow> own_any lk a L' s'"
  by (simp add: own_any_def interfere_sel(2,3))

text \<open>A step of process \<open>a\<close> as the others see it.\<close>

definition permitted :: "link_addrs \<Rightarrow> u32 \<Rightarrow> bool \<Rightarrow> u32 set \<Rightarrow> slevel \<Rightarrow> u32 set \<Rightarrow> slevel \<Rightarrow> bool" where
  "permitted lk a h L s L' s' \<longleftrightarrow>
     (\<forall>c\<in>L. asid_of s' (getSupport lk c) = asid_of s (getSupport lk c)) \<and>
     (\<forall>b d k. (\<not> d \<longrightarrow> b \<noteq> a \<and> b \<in> L) \<longrightarrow> \<not> (h \<and> k) \<longrightarrow> interfere lk b d k L s L' s')"

definition after_step :: "u32 \<Rightarrow> bool \<Rightarrow> prog \<Rightarrow> u32 set \<Rightarrow> u32 set" where
  "after_step a d p L = (if doomed p \<and> \<not> d then L - {a} else L)"

primrec sound :: "link_addrs \<Rightarrow> u32 \<Rightarrow> prog \<Rightarrow> bool \<Rightarrow> u32 set \<Rightarrow> slevel \<Rightarrow> bool" where
  "sound lk a Return h L s \<longleftrightarrow> False"
| "sound lk a (Load st) h L s \<longleftrightarrow> \<not> h"
| "sound lk a No_fuel h L s \<longleftrightarrow> \<not> h"
| "sound lk a (Read k) h L s \<longleftrightarrow> (\<forall>L' s'. interfere lk a False h L s L' s' \<longrightarrow>
     (h \<longrightarrow> isolated lk (L' - {a}) s') \<and> \<not> doomed (k s') \<and> sound lk a (k s') h L' s')"
| "sound lk a (Write f k) h L s \<longleftrightarrow> (\<forall>L' s'. interfere lk a False h L s L' s' \<longrightarrow>
     (h \<longrightarrow> isolated lk (L' - {a}) s') \<and>
     (let L'' = after_step a False k L' in permitted lk a h L' s' L'' (f s') \<and> sound lk a k h L'' (f s')))"
| "sound lk a (Access su va f k) h L s \<longleftrightarrow> su = getSupport lk a \<and> \<not> h \<and> own_any lk a L s \<and>
     (\<forall>L' s'. own_any lk a L' s' \<longrightarrow> L' \<subseteq> {1..8} \<longrightarrow>
       permitted lk a False L' s' L' (f s') \<and> \<not> doomed (k s') \<and> sound lk a (k s') False L' (f s'))"
| "sound lk a (Syscall c m y z k) h L s \<longleftrightarrow> (let d = doomed (Syscall c m y z k) in
     (c \<in> {PASSEREN, VERHOGEN, DOIO, GETSUPPORTPTR, CREATEPROCESS} \<or> c = TERMPROCESS \<and> m = 0) \<and>
     (\<forall>L' s'. interfere lk a d h L s L' s' \<longrightarrow>
       (h \<longrightarrow> isolated lk (if d then L' else L' - {a}) s') \<and> (\<forall>r. \<not> d \<longrightarrow> \<not> doomed (k r)) \<and>
       (if c = PASSEREN \<and> m = a_swapPoolSem lk then
          \<not> h \<and> (pool_ok lk L' s' \<longrightarrow> (\<forall>r. sound lk a (k r) True L' s'))
        else if c = VERHOGEN \<and> m = a_swapPoolSem lk then
          h \<and> pool_ok lk L' s' \<and> (\<forall>r. sound lk a (k r) False L' s')
        else if c = TERMPROCESS \<and> m = 0 then \<not> h
        else if c = CREATEPROCESS then
          (\<exists>b\<in>{1..8} - L'. z = getSupport lk b \<and> fresh_table lk b s' \<and> a = 1 \<and> \<not> h \<and>
             (\<forall>r. sound lk a (k r) False L' s' \<and> sound lk a (k r) False (insert b L') s'))
        else \<forall>r. (c = GETSUPPORTPTR \<longrightarrow> r = getSupport lk a) \<longrightarrow>
          (c = DOIO \<and> flash_command lk m \<longrightarrow> r = READY) \<longrightarrow> sound lk a (k r) h L' s')))"

lemma sound_stable:
  assumes p: "sound lk a p h L s" and i: "interfere lk a (doomed p) h L s L' s'"
  shows "sound lk a p h L' s'"
proof (cases p)
  case (Syscall c m y z k)
  show ?thesis
    using p interfere_trans [OF i] unfolding Syscall sound.simps Let_def by blast
next
  case (Read k)
  have "interfere lk a False h L s L' s'" using i Read by simp
  from interfere_trans [OF this] p show ?thesis unfolding Read sound.simps by blast
next
  case (Write f k)
  have "interfere lk a False h L s L' s'" using i Write by simp
  from interfere_trans [OF this] p show ?thesis unfolding Write sound.simps by blast
next
  case (Access su va f k)
  have "own_any lk a L' s'" using interfere_own_any [of lk a L s h L' s'] p i Access by simp
  then show ?thesis using p unfolding Access sound.simps by blast
qed (use p in auto)

section \<open>Steps\<close>

lemma permittedI:
  assumes "L' \<subseteq> {1..8}"
    and "\<And>b. b \<in> L \<Longrightarrow> asid_of s' (getSupport lk b) = asid_of s (getSupport lk b)"
    and "\<And>b. b \<noteq> a \<Longrightarrow> b \<in> L \<Longrightarrow> b \<in> L' \<and>
      ex_state s' (getSupport lk b) = ex_state s (getSupport lk b) \<and>
      (\<forall>p<32. valid (get_pte s' (getSupport lk b, p)) \<longrightarrow> valid (get_pte s (getSupport lk b, p)))"
    and "a \<noteq> 1 \<Longrightarrow> 1 \<in> L \<Longrightarrow> L' \<subseteq> L \<and> (\<forall>c\<in>{1..8} - L. same_table lk c s s')"
    and "\<not> h \<Longrightarrow> swapPool s' = swapPool s \<and> fifoNext s' = fifoNext s \<and> L \<subseteq> L' \<and>
      (\<forall>c\<in>L. same_table lk c s s') \<and> (\<forall>c\<in>L' - L. fresh_table lk c s')"
  shows "permitted lk a h L s L' s'"
  using assms by (auto simp: permitted_def interfere_def Let_def)

lemma permitted_quiet:
  assumes "L \<subseteq> {1..8}" and "get_pte s' = get_pte s" and "asid_of s' = asid_of s"
    and "\<And>b. b \<in> L \<Longrightarrow> b \<noteq> a \<Longrightarrow> ex_state s' (getSupport lk b) = ex_state s (getSupport lk b)"
    and "\<not> h \<Longrightarrow> swapPool s' = swapPool s \<and> fifoNext s' = fifoNext s"
  shows "permitted lk a h L s L s'"
  by (rule permittedI) (use assms in \<open>auto simp: same_table_def\<close>)

lemma permitted_leave: "permitted lk a True L s L s' \<Longrightarrow> L \<subseteq> {1..8} \<Longrightarrow> permitted lk a True L s (L - {a}) s'"
proof -
  assume p: "permitted lk a True L s L s'" and L: "L \<subseteq> {1..8}"
  have "interfere lk b False False L s L s'" if "b \<noteq> a" "b \<in> L" for b
    using p that unfolding permitted_def by (elim conjE allE [of _ b] allE [of _ False]) simp
  from interfere_sel(4,5,7) [OF this] show ?thesis
    by (intro permittedI) (use p L in \<open>auto simp: permitted_def\<close>)
qed

text \<open>An assertion that no interference invalidates; for a process that holds the mutex, it implies isolation.\<close>

definition stable :: "link_addrs \<Rightarrow> u32 \<Rightarrow> bool \<Rightarrow> assertion \<Rightarrow> bool" where
  "stable lk a h I \<longleftrightarrow> (\<forall>L s L' s'. I L s \<longrightarrow> interfere lk a False h L s L' s' \<longrightarrow> I L' s') \<and>
     (h \<longrightarrow> (\<forall>L s. I L s \<longrightarrow> L \<subseteq> {1..8} \<longrightarrow> isolated lk (L - {a}) s))"

lemma stableD:
  assumes "stable lk a h I" and "I L s" and "interfere lk a False h L s L' s'"
  shows "I L' s'" "L' \<subseteq> {1..8}" "h \<Longrightarrow> isolated lk (L' - {a}) s'"
  using assms interfere_sel(1) [OF assms(3)] by (auto simp: stable_def)

lemma sound_Read:
  assumes "stable lk a h I" and "I L s"
    and "\<And>L s. I L s \<Longrightarrow> L \<subseteq> {1..8} \<Longrightarrow> \<not> doomed (k s) \<and> sound lk a (k s) h L s"
  shows "sound lk a (Read k) h L s"
proof -
  have "\<not> doomed (k s') \<and> sound lk a (k s') h L' s'" if "interfere lk a False h L s L' s'" for L' s'
    by (rule assms(3) [OF stableD(1,2) [OF assms(1,2) that]])
  then show ?thesis using stableD(3) [OF assms(1,2)] unfolding sound.simps by blast
qed

lemma sound_Write:
  assumes "stable lk a h I" and "I L s" and "\<not> doomed k"
    and "\<And>L s. I L s \<Longrightarrow> L \<subseteq> {1..8} \<Longrightarrow> permitted lk a h L s L (f s) \<and> sound lk a k h L (f s)"
  shows "sound lk a (Write f k) h L s"
  using stableD [OF assms(1,2)] assms(3,4) by (cases h) (auto simp: after_step_def)

lemma sound_Syscall:
  assumes "stable lk a h I" and "I L s" and "\<And>r. \<not> doomed (k r)"
    and c: "c \<in> {GETSUPPORTPTR, DOIO} \<or> c \<in> {PASSEREN, VERHOGEN} \<and> m \<noteq> a_swapPoolSem lk"
    and k: "\<And>L s r. I L s \<Longrightarrow> L \<subseteq> {1..8} \<Longrightarrow> (c = GETSUPPORTPTR \<longrightarrow> r = getSupport lk a) \<Longrightarrow>
      (c = DOIO \<and> flash_command lk m \<longrightarrow> r = READY) \<Longrightarrow> sound lk a (k r) h L s"
  shows "sound lk a (Syscall c m y z k) h L s"
  using stableD [OF assms(1,2)] assms(3) k c by auto

lemma sound_P:
  assumes "stable lk a False I" and "I L s" and "\<And>r. \<not> doomed (k r)"
    and "\<And>L s r. I L s \<Longrightarrow> L \<subseteq> {1..8} \<Longrightarrow> pool_ok lk L s \<Longrightarrow> sound lk a (k r) True L s"
  shows "sound lk a (Syscall PASSEREN (a_swapPoolSem lk) y z k) False L s"
  using stableD [OF assms(1,2)] assms(3,4) by simp

lemma sound_V:
  assumes "stable lk a True I" and "I L s" and "\<And>r. \<not> doomed (k r)"
    and "\<And>L s r. I L s \<Longrightarrow> L \<subseteq> {1..8} \<Longrightarrow> pool_ok lk L s \<and> sound lk a (k r) False L s"
  shows "sound lk a (Syscall VERHOGEN (a_swapPoolSem lk) y z k) True L s"
  using stableD [OF assms(1,2)] assms(3,4) by simp

lemma stable_conj:
  "stable lk a h I \<Longrightarrow> (\<And>L s L' s'. I L s \<Longrightarrow> J L s \<Longrightarrow> interfere lk a False h L s L' s' \<Longrightarrow> J L' s') \<Longrightarrow>
   stable lk a h (\<lambda>L s. I L s \<and> J L s)"
  unfolding stable_def by blast

text \<open>What a process knows of itself, and of the pool while it holds the mutex.\<close>

definition own :: "link_addrs \<Rightarrow> u32 \<Rightarrow> (nat \<Rightarrow> state_t) \<Rightarrow> assertion" where
  "own lk a x L s \<longleftrightarrow> a \<in> L \<and> asid_of s (getSupport lk a) = a \<and> ex_state s (getSupport lk a) = x"

definition own_pool :: "link_addrs \<Rightarrow> u32 \<Rightarrow> (nat \<Rightarrow> state_t) \<Rightarrow> nat set \<Rightarrow> assertion" where
  "own_pool lk a x X L s \<longleftrightarrow> own lk a x L s \<and> pool_except lk L X s"

lemma stable_own: "stable lk a False (own lk a x)"
  by (auto simp: stable_def own_def dest: interfere_sel(2-4))

lemma stable_own_pool: "stable lk a True (own_pool lk a x X)"
proof -
  have "own_pool lk a x X L' s'" if "own_pool lk a x X L s" "interfere lk a False True L s L' s'" for L s L' s'
    using that interfere_sel(2-4) [OF that(2)] interfere_pool [OF that(2)] by (simp add: own_pool_def own_def)
  moreover have "isolated lk (L - {a}) s" if "own_pool lk a x X L s" "L \<subseteq> {1..8}" for L s
    using that by (auto simp: own_pool_def intro: isolated_pool [OF pool_partly])
  ultimately show ?thesis unfolding stable_def by blast
qed

section \<open>Termination\<close>

lemma partly_freed_step:
  assumes P: "partly_freed lk L a n {} s" and n: "n < SWAP_POOL_SIZE" and a: "a \<noteq> SWAP_FRAME_FREE"
  shows "partly_freed lk L a (Suc n) {} (if sw_asid (swapPool s n) = a then free_frame n s else s)"
    (is "partly_freed _ _ _ _ _ ?s")
proof -
  have e: "asid_of ?s = asid_of s" "get_pte ?s = get_pte s" "fifoNext ?s = fifoNext s"
    by (auto simp: free_frame_def asid_of_def get_pte_def fun_eq_iff)
  have w: "swapPool ?s i = (if i = n \<and> sw_asid (swapPool s n) = a then (swapPool s n)\<lparr>sw_asid := SWAP_FRAME_FREE\<rparr> else swapPool s i)" for i
    by (simp add: free_frame_def)
  have "frame_ok lk L ?s i" if "frame_ok lk L s i" for i
    using that by (auto simp: frame_ok_def Let_def e w)
  moreover have "in_frame ?s b p i" if "in_frame s b p i" "b \<noteq> a" for b p i
    using that by (auto simp: in_frame_def w)
  moreover have "sw_asid (swapPool ?s i) \<noteq> a" if "i < Suc n" for i
    using that a P by (auto simp: w partly_freed_def less_Suc_eq)
  ultimately show ?thesis using P unfolding partly_freed_def e by (metis Diff_iff insertCI)
qed

lemma partly_freed_all:
  assumes P: "partly_freed lk L a SWAP_POOL_SIZE {} s"
  shows "pool_ok lk (L - {a}) s"
proof -
  have "frame_ok lk (L - {a}) s i" if "i < SWAP_POOL_SIZE" for i
    using P that by (auto simp: partly_freed_def frame_ok_def Let_def)
  then show ?thesis using P by (simp add: partly_freed_def pool_ok_def pool_except_def)
qed

definition exit_calls :: "link_addrs \<Rightarrow> u32 \<Rightarrow> prog \<Rightarrow> prog" where
  "exit_calls lk m k = V (a_swapPoolSem lk) (V m (Syscall TERMPROCESS 0 0 0 (\<lambda>_. k)))"

lemma doomed_exit: "doomed (exit_calls lk m k)"
  by (simp add: exit_calls_def)

lemma sound_exit:
  assumes P: "pool_ok lk L s" and m: "m \<noteq> a_swapPoolSem lk"
  shows "sound lk a (exit_calls lk m k) True L s"
proof -
  have "pool_ok lk L' s' \<and> isolated lk L' s'" if "interfere lk a True True L s L' s'" for L' s'
    using interfere_pool [OF that] P isolated_pool_ok interfere_sel(1) [OF that] by (auto simp: pool_ok_def)
  then show ?thesis using m by (simp add: exit_calls_def Let_def)
qed

lemma sound_freeing:
  assumes "n < SWAP_POOL_SIZE" and "partly_freed lk L a n {} s" and "L \<subseteq> {1..8}" "a \<in> L" and m: "m \<noteq> a_swapPoolSem lk"
  shows "sound lk a (foldr (\<lambda>i. Write (\<lambda>s. if sw_asid (swapPool s i) = a then free_frame i s else s))
    [n..<SWAP_POOL_SIZE] (exit_calls lk m k)) True L s"
    (is "sound lk a (foldr (\<lambda>i. Write (?F i)) _ ?k) True L s")
  using assms(1-4)
proof (induction "SWAP_POOL_SIZE - n" arbitrary: n L s)
  case (Suc x)
  have cut: "[n..<SWAP_POOL_SIZE] = n # [Suc n..<SWAP_POOL_SIZE]" using Suc.prems(1) by (rule upt_conv_Cons)
  have "sound lk a (Write (?F n) (foldr (\<lambda>i. Write (?F i)) [Suc n..<SWAP_POOL_SIZE] ?k)) True L s"
    unfolding sound.simps Let_def
  proof (intro allI impI conjI)
    fix L' s'
    assume i: "interfere lk a False True L s L' s'"
    note i' = interfere_sel [OF i, simplified]
    have aL: "a \<in> L'" using i'(2) Suc.prems(4) by blast
    have P: "partly_freed lk L' a n {} s'" by (rule interfere_partly [OF i Suc.prems(2)])
    show "isolated lk (L' - {a}) s'" by (rule isolated_pool [OF P i'(1)])
    have "a \<noteq> SWAP_FRAME_FREE" using aL i'(1) free_not_asid [of L'] by blast
    then have P': "partly_freed lk L' a (Suc n) {} (?F n s')" by (rule partly_freed_step [OF P Suc.prems(1)])
    have q: "permitted lk a True L' s' L' (?F n s')"
      by (rule permitted_quiet [OF i'(1)]) (auto simp: free_frame_def asid_of_def get_pte_def ex_state_def fun_eq_iff)
    let ?p = "foldr (\<lambda>i. Write (?F i)) [Suc n..<SWAP_POOL_SIZE] ?k" 
    have *: "permitted lk a True L' s' (after_step a False ?p L') (?F n s') \<and>
      sound lk a ?p True (after_step a False ?p L') (?F n s')"
    proof (cases "Suc n < SWAP_POOL_SIZE")
      case True
      then have "?p = Write (?F (Suc n)) (foldr (\<lambda>i. Write (?F i)) [Suc (Suc n)..<SWAP_POOL_SIZE] ?k)"
        by (simp only: upt_conv_Cons foldr.simps comp_def)
      then have "after_step a False ?p L' = L'" by (simp only: after_step_def doomed.simps simp_thms if_False)
      then show ?thesis using q Suc.hyps(1) [OF _ True P' i'(1) aL] Suc.hyps(2) by simp
    next
      case False
      then have e: "[Suc n..<SWAP_POOL_SIZE] = []" "Suc n = SWAP_POOL_SIZE" using Suc.prems(1) by (simp_all del: upt_rec_numeral)
      have "sound lk a ?k True (L' - {a}) (?F n s')"
        by (rule sound_exit [OF partly_freed_all m]) (use P' e(2) in simp)
      moreover have "?p = ?k" by (simp only: e(1) foldr.simps id_apply)
      ultimately show ?thesis using permitted_leave [OF q i'(1)]
        by (simp only: after_step_def doomed_exit simp_thms if_True)
    qed
    then show "permitted lk a True L' s' (after_step a False ?p L') (?F n s')"
      "sound lk a ?p True (after_step a False ?p L') (?F n s')" by blast+
  qed
  then show ?case by (simp only: cut foldr.simps comp_def)
qed simp

lemma sound_supTerminate:
  assumes lk: "link_ok lk" and o: "own lk a x L s"
  shows "sound lk a (supTerminate lk a k) False L s"
proof -
  define m where "m = (if a = 1 then a_masterSemaphore lk else a_shellSemaphore lk)"
  have m: "m \<noteq> a_swapPoolSem lk" using link_ok_sel(4,5) [OF lk] by (auto simp: m_def)
  let ?f = "foldr (\<lambda>i. Write (\<lambda>s. if sw_asid (swapPool s i) = a then free_frame i s else s))
    [0..<SWAP_POOL_SIZE] (exit_calls lk m k)"
  have "[0..<SWAP_POOL_SIZE] = 0 # [1..<SWAP_POOL_SIZE]" by (simp add: upt_conv_Cons del: upt_rec_numeral)
  then have "\<not> doomed ?f" by (simp only: foldr.simps comp_def doomed.simps simp_thms)
  moreover have "sound lk a ?f True L s" if "own lk a x L s" "L \<subseteq> {1..8}" "pool_ok lk L s" for L s
    by (rule sound_freeing [OF _ _ that(2) _ m])
      (use that in \<open>simp_all add: own_def pool_ok_def pool_partly\<close>)
  ultimately have "sound lk a (P (a_swapPoolSem lk) ?f) False L s"
    by (intro sound_P [OF stable_own o])
  then show ?thesis by (simp only: supTerminate_def exit_calls_def m_def)
qed

lemma not_doomed_supTerminate: "\<not> doomed (supTerminate lk a k)"
  by (simp add: supTerminate_def)

lemma sound_terminate_self:
  assumes lk: "link_ok lk" and o: "own lk a x L s"
  shows "sound lk a (terminate_self lk (getSupport lk a) k) False L s"
  unfolding terminate_self_def
  by (rule sound_Read [OF stable_own o])
    (auto simp: own_def not_doomed_supTerminate intro!: sound_supTerminate [OF lk])

end
