(* ===== verification/Vm_Sound.thy ===== *)
theory Vm_Sound
  imports Vm_Interleaving
begin

text \<open>
  The pager and the general exception handler are sound: whatever the other processes do between
  their steps, they keep the swap pool consistent.
\<close>

declare sound.simps(4-7) [simp del]

section \<open>Doomed programs\<close>

lemma not_doomed_flash: "\<not> doomed (flashOperation lk b blk fa op k)"
  by (simp add: flashOperation_def Let_def)

lemma not_doomed_terminate: "\<not> doomed (terminate_self lk su k)"
  by (simp add: terminate_self_def)

lemma not_doomed_load: "\<not> doomed (pager_load lk su p i)"
  by (simp add: pager_load_def)

lemma not_doomed_evict: "\<not> doomed (pager_evict lk su i k)"
  by (simp add: pager_evict_def)

lemmas not_doomed = not_doomed_flash not_doomed_terminate not_doomed_load not_doomed_evict

section \<open>The pager\<close>

lemma own_cong:
  "own lk a x L s \<Longrightarrow> asid_of s' = asid_of s \<Longrightarrow> ex_state s' = ex_state s \<Longrightarrow> own lk a x L s'"
  by (simp add: own_def)

lemma store_word_keeps:
  "asid_of (store_word v w s) = asid_of s" "ex_state (store_word v w s) = ex_state s"
  "get_pte (store_word v w s) = get_pte s"
  by (simp_all add: asid_of_def ex_state_def get_pte_def fun_eq_iff)

lemma sound_flashOperation:
  assumes lk: "link_ok lk" and b: "b \<in> {1..8}" and st: "stable lk a True I"
    and store: "\<And>L s v w. I L s \<Longrightarrow> I L (store_word v w s)"
    and k: "\<And>L s. I L s \<Longrightarrow> L \<subseteq> {1..8} \<Longrightarrow> sound lk a (k READY) True L s" and nd: "\<And>r. \<not> doomed (k r)"
    and I: "I L s"
  shows "sound lk a (flashOperation lk b blk fa op k) True L s"
proof -
  let ?m = "devMutex lk (FLASH_MUTEX (unat (b - 1)))" and ?reg = "DEV_REG_ADDR lk IL_FLASH (unat (b - 1))"
  note m = flash_mutex(2) [OF lk b]
  have "unat (b - 1) < DEVPERINT"
  proof -
    have "b \<in> {1, 2, 3, 4, 5, 6, 7, 8}" using b by (simp only: asid_cases)
    then show ?thesis by auto
  qed
  then have fc: "flash_command lk (reg_word ?reg 1)" by (auto simp: flash_command_def)
  have v: "sound lk a (V ?m (k READY)) True L s" if "I L s" for L s
    by (rule sound_Syscall [OF st that nd]) (use m k in auto)
  have d: "sound lk a (Syscall DOIO (reg_word ?reg 1) cmd 0 (\<lambda>r. V ?m (k r))) True L s" if "I L s" for L s cmd
    by (rule sound_Syscall [OF st that]) (use nd fc v in auto)
  have w: "sound lk a (Write (store_word (reg_word ?reg 2) fa)
      (Syscall DOIO (reg_word ?reg 1) cmd 0 (\<lambda>r. V ?m (k r)))) True L s" if "I L s" for L s cmd
    by (rule sound_Write [OF st that])
      (use d store in \<open>auto simp: store_word_keeps simp del: store_word_def intro!: permitted_quiet\<close>)
  show ?thesis
    unfolding flashOperation_def Let_def
    by (rule sound_Syscall [OF st I]) (use m w in auto)
qed

text \<open>The page \<open>p\<close> of the process is missing, and the frame \<open>i\<close> is the one for it.\<close>

definition loading :: "link_addrs \<Rightarrow> u32 \<Rightarrow> (nat \<Rightarrow> state_t) \<Rightarrow> nat \<Rightarrow> nat set \<Rightarrow> (swap_t \<Rightarrow> bool) \<Rightarrow> nat \<Rightarrow> assertion" where
  "loading lk a x p X W i L s \<longleftrightarrow> own_pool lk a x X L s \<and> \<not> valid (get_pte s (getSupport lk a, p)) \<and> W (swapPool s i)"

lemma stable_loading: "p < 32 \<Longrightarrow> stable lk a True (loading lk a x p X W i)"
  unfolding loading_def
  by (intro stable_conj stable_own_pool) (auto dest: interfere_sel(5,8))

lemma loading_store: "loading lk a x p X W i L s \<Longrightarrow> loading lk a x p X W i L (store_word v w s)"
proof -
  have "pool_except lk L X (store_word v w s)" if "pool_except lk L X s"
    using that by (rule pool_except_cong) (simp_all add: store_word_keeps del: store_word_def, simp_all)
  then show "loading lk a x p X W i L s \<Longrightarrow> ?thesis"
    by (simp add: loading_def own_pool_def own_def store_word_keeps del: store_word_def) simp
qed

lemma pool_except_frame:
  assumes "pool_except lk L {i} s"
  shows "pool_except lk L {i} (s\<lparr>swapPool := (swapPool s)(i := e)\<rparr>)"
proof -
  have "frame_ok lk L (s\<lparr>swapPool := (swapPool s)(i := e)\<rparr>) j \<longleftrightarrow> frame_ok lk L s j" if "j \<noteq> i" for j
    using that by (simp add: frame_ok_def)
  moreover have "in_frame (s\<lparr>swapPool := (swapPool s)(i := e)\<rparr>) b q j \<longleftrightarrow> in_frame s b q j" if "j \<noteq> i" for j b q
    using that by (simp add: in_frame_def)
  ultimately show ?thesis using assms by (simp add: pool_except_def) metis
qed

text \<open>A change of the entry of the frame.\<close>

lemma sound_frame_write:
  assumes I: "loading lk a x p {i} W i L s" and p: "p < 32" and nd: "\<not> doomed k"
    and W: "\<And>L s. loading lk a x p {i} W i L s \<Longrightarrow> U (g s (swapPool s i))"
    and k: "\<And>L s. loading lk a x p {i} U i L s \<Longrightarrow> L \<subseteq> {1..8} \<Longrightarrow> sound lk a k True L s"
  shows "sound lk a (Write (\<lambda>s. s\<lparr>swapPool := (swapPool s)(i := g s (swapPool s i))\<rparr>) k) True L s"
proof (rule sound_Write [OF stable_loading [OF p] I nd])
  fix L s
  assume l: "loading lk a x p {i} W i L s" and L: "L \<subseteq> {1..8}"
  let ?t = "s\<lparr>swapPool := (swapPool s)(i := g s (swapPool s i))\<rparr>"
  have "loading lk a x p {i} U i L ?t"
    using l W [OF l] pool_except_frame by (simp add: loading_def own_pool_def own_def)
  moreover have "permitted lk a True L s L ?t" by (rule permitted_quiet [OF L]) simp_all
  ultimately show "permitted lk a True L s L ?t \<and> sound lk a k True L ?t" using k L by blast
qed

lemma sound_loaded:
  assumes "own_pool lk a x {} L s"
  shows "sound lk a (V (a_swapPoolSem lk) (Read (\<lambda>s. Load (f s)))) True L s"
proof -
  have "sound lk a (Read (\<lambda>s. Load (f s))) False L s" if "own lk a x L s" for L s
    by (rule sound_Read [OF stable_own that]) simp
  then show ?thesis
    by (intro sound_V [OF stable_own_pool assms]) (auto simp: own_pool_def pool_ok_def)
qed

lemma sound_present:
  assumes I: "loading lk a x p {i} (\<lambda>e. e = \<lparr>sw_asid = a, sw_pageNo = p, sw_pte = (getSupport lk a, p)\<rparr>) i L s"
    and p: "p < 32" and i: "i < SWAP_POOL_SIZE"
  shows "sound lk a (Write (markPagePresent (getSupport lk a, p) (frameAddr i))
    (V (a_swapPoolSem lk) (Read (\<lambda>s. Load (f s))))) True L s"
proof (rule sound_Write [OF stable_loading [OF p] I])
  fix L s
  assume l: "loading lk a x p {i} (\<lambda>e. e = \<lparr>sw_asid = a, sw_pageNo = p, sw_pte = (getSupport lk a, p)\<rparr>) i L s"
    and L: "L \<subseteq> {1..8}"
  let ?t = "markPagePresent (getSupport lk a, p) (frameAddr i) s"
  have a: "a \<in> L" using l by (simp add: loading_def own_pool_def own_def)
  have "pool_ok lk L ?t"
    by (rule load_pool [of lk L i s a p])
      (use l i p a L in \<open>simp_all add: loading_def own_pool_def present_lo_def fun_upd_idem\<close>)
  then have "own_pool lk a x {} L ?t"
    using l by (auto simp: loading_def own_pool_def own_def pool_ok_def fun_eq_iff)
  then have "sound lk a (V (a_swapPoolSem lk) (Read (\<lambda>s. Load (f s)))) True L ?t" by (rule sound_loaded)
  moreover have ne: "getSupport lk b \<noteq> getSupport lk a" if "b \<in> {1..8}" "b \<noteq> a" for b
    using that a L getSupport_inject [of b a lk] by blast
  have "permitted lk a True L s L ?t"
    by (rule permittedI) (use L ne a in \<open>auto simp: same_table_def fun_eq_iff simp del: atLeastAtMost_iff\<close>)
  ultimately show "permitted lk a True L s L ?t \<and> sound lk a (V (a_swapPoolSem lk) (Read (\<lambda>s. Load (f s)))) True L ?t"
    by blast
qed simp

lemma loading_own:
  "loading lk a x p X W i L s \<Longrightarrow> a \<in> L \<and> asid_of s (getSupport lk a) = a \<and> ex_state s (getSupport lk a) = x \<and>
    pool_except lk L X s \<and> W (swapPool s i)"
  by (simp add: loading_def own_pool_def own_def)

lemma sound_pager_load:
  assumes lk: "link_ok lk" and I: "loading lk a x p {i} (\<lambda>_. True) i L s" and p: "p < 32" and i: "i < SWAP_POOL_SIZE"
  shows "sound lk a (pager_load lk (getSupport lk a) p i) True L s"
proof -
  let ?su = "getSupport lk a"
  let ?present = "Write (markPagePresent (?su, p) (frameAddr i))
    (V (a_swapPoolSem lk) (Read (\<lambda>s. Load (ex_state s ?su PGFAULTEXCEPT))))"
  let ?enter3 = "Write (\<lambda>s. s\<lparr>swapPool := (swapPool s)(i := (swapPool s i)\<lparr>sw_pte := (?su, p)\<rparr>)\<rparr>) ?present"
  let ?enter2 = "Write (\<lambda>s. s\<lparr>swapPool := (swapPool s)(i := (swapPool s i)\<lparr>sw_pageNo := p\<rparr>)\<rparr>) ?enter3"
  let ?enter = "Write (\<lambda>s. s\<lparr>swapPool := (swapPool s)(i := (swapPool s i)\<lparr>sw_asid := asid_of s ?su\<rparr>)\<rparr>) ?enter2"
  have "sound lk a ?enter3 True L s" if "loading lk a x p {i} (\<lambda>e. sw_asid e = a \<and> sw_pageNo e = p) i L s" for L s
    by (rule sound_frame_write [OF that p, where g = "\<lambda>s e. e\<lparr>sw_pte := (?su, p)\<rparr>"
          and U = "\<lambda>e. e = \<lparr>sw_asid = a, sw_pageNo = p, sw_pte = (?su, p)\<rparr>"])
      (use loading_own in \<open>auto intro: sound_present [OF _ p i]\<close>, use loading_own in fastforce)
  then have "sound lk a ?enter2 True L s" if "loading lk a x p {i} (\<lambda>e. sw_asid e = a) i L s" for L s
    by (intro sound_frame_write [OF that p, where g = "\<lambda>s e. e\<lparr>sw_pageNo := p\<rparr>"
          and U = "\<lambda>e. sw_asid e = a \<and> sw_pageNo e = p"]) (auto dest: loading_own)
  then have enter: "sound lk a ?enter True L s" if "loading lk a x p {i} (\<lambda>_. True) i L s" for L s
    by (intro sound_frame_write [OF that p, where g = "\<lambda>s e. e\<lparr>sw_asid := asid_of s ?su\<rparr>"
          and U = "\<lambda>e. sw_asid e = a"]) (auto dest: loading_own)
  have "sound lk a (flashOperation lk a p (frameAddr i) FLASHREAD
      (\<lambda>st. if st \<noteq> READY then V (a_swapPoolSem lk) (terminate_self lk ?su Return) else ?enter)) True L s"
    if l: "loading lk a x p {i} (\<lambda>_. True) i L s" and L: "L \<subseteq> {1..8}" for L s
    by (rule sound_flashOperation [OF lk _ stable_loading [OF p] loading_store _ _ l])
      (use L loading_own [OF l] enter in \<open>auto simp: not_doomed\<close>)
  then show ?thesis
    unfolding pager_load_def
    by (intro sound_Read [OF stable_loading [OF p] I]) (simp add: not_doomed loading_own)
qed

text \<open>Eviction: the frame holds the page of a live process.\<close>

lemma sound_evicted:
  assumes I: "loading lk a x p {} (\<lambda>d. d = e \<and> sw_asid d \<noteq> SWAP_FRAME_FREE) i L s" and p: "p < 32" and i: "i < SWAP_POOL_SIZE"
    and nd: "\<not> doomed k"
    and k: "\<And>L s. loading lk a x p {i} (\<lambda>_. True) i L s \<Longrightarrow> L \<subseteq> {1..8} \<Longrightarrow> sw_asid e \<in> {1..8} \<Longrightarrow> sound lk a k True L s"
  shows "sound lk a (Write (markPageNotValid (sw_pte e)) k) True L s"
proof (rule sound_Write [OF stable_loading [OF p] I nd])
  fix L s
  assume l: "loading lk a x p {} (\<lambda>d. d = e \<and> sw_asid d \<noteq> SWAP_FRAME_FREE) i L s" and L: "L \<subseteq> {1..8}"
  note o = loading_own [OF l]
  let ?t = "markPageNotValid (sw_pte e) s"
  have f: "frame_ok lk L s i" using o i by (auto simp: pool_except_def)
  then have e: "sw_asid e \<in> L" "sw_pte e = (getSupport lk (sw_asid e), sw_pageNo e)"
    using o by (auto simp: frame_ok_def Let_def)
  have "pool_except lk L {i} ?t"
    using evict_pool [of lk L s i] o i L by (auto simp: pool_ok_def)
  then have t: "loading lk a x p {i} (\<lambda>_. True) i L ?t"
    using l by (auto simp: loading_def own_pool_def own_def fun_eq_iff)
  have "permitted lk a True L s L ?t"
  proof (rule permittedI)
    show "L \<subseteq> L \<and> (\<forall>c\<in>{1..8} - L. same_table lk c s ?t)"
    proof -
      have "getSupport lk c \<noteq> getSupport lk (sw_asid e)" if "c \<in> {1..8} - L" for c
        using that e(1) L getSupport_inject [of c "sw_asid e" lk] by blast
      then show ?thesis by (auto simp: same_table_def e(2) simp del: atLeastAtMost_iff)
    qed
  qed (use L in \<open>auto simp: fun_eq_iff\<close>)
  then show "permitted lk a True L s L ?t \<and> sound lk a k True L ?t" using k [OF t L] e(1) L by auto
qed

lemma sound_pager_evict:
  assumes lk: "link_ok lk" and I: "loading lk a x p {} (\<lambda>_. True) i L s" and p: "p < 32" and i: "i < SWAP_POOL_SIZE"
  shows "sound lk a (pager_evict lk (getSupport lk a) i (pager_load lk (getSupport lk a) p i)) True L s"
  unfolding pager_evict_def Let_def
proof (rule sound_Read [OF stable_loading [OF p] I])
  fix L s
  assume l: "loading lk a x p {} (\<lambda>_. True) i L s" and L: "L \<subseteq> {1..8}"
  let ?e = "swapPool s i" and ?load = "pager_load lk (getSupport lk a) p i"
  let ?evict = "Write (markPageNotValid (sw_pte ?e)) (flashOperation lk (sw_asid ?e) (sw_pageNo ?e) (frameAddr i) FLASHWRITE
    (\<lambda>st. if st \<noteq> READY then V (a_swapPoolSem lk) (terminate_self lk (getSupport lk a) Return) else ?load))"
  have "sound lk a ?load True L s" if "sw_asid ?e = SWAP_FRAME_FREE"
    by (rule sound_pager_load [OF lk _ p i])
      (use l L that in \<open>auto simp: loading_def own_pool_def pool_ok_def intro: pool_ok_free [unfolded pool_ok_def]\<close>)
  moreover have flash: "sound lk a (flashOperation lk (sw_asid ?e) (sw_pageNo ?e) (frameAddr i) FLASHWRITE
      (\<lambda>st. if st \<noteq> READY then V (a_swapPoolSem lk) (terminate_self lk (getSupport lk a) Return) else ?load)) True L' s'"
    if "loading lk a x p {i} (\<lambda>_. True) i L' s'" "sw_asid ?e \<in> {1..8}" for L' s'
    by (rule sound_flashOperation [OF lk that(2) stable_loading [OF p] loading_store _ _ that(1)])
      (use sound_pager_load [OF lk _ p i] in \<open>auto simp: not_doomed\<close>)
  have "sound lk a ?evict True L s" if "sw_asid ?e \<noteq> SWAP_FRAME_FREE"
    by (rule sound_evicted [OF _ p i _ flash]) (use l that in \<open>auto simp: loading_def not_doomed\<close>)
  ultimately show "\<not> doomed (if sw_asid ?e = SWAP_FRAME_FREE then ?load else ?evict) \<and>
      sound lk a (if sw_asid ?e = SWAP_FRAME_FREE then ?load else ?evict) True L s"
    by (simp add: not_doomed)
qed

text \<open>The pager in the mutex: \<open>v\<close> is the index of the page, \<open>i\<close> the frame.\<close>

definition serve :: "link_addrs \<Rightarrow> u32 \<Rightarrow> int \<Rightarrow> nat \<Rightarrow> prog" where
  "serve lk su v i = (if v < 0 then V (a_swapPoolSem lk) (terminate_self lk su Return)
     else Write (\<lambda>s. s\<lparr>fifoNext := (fifoNext s + 1) mod SWAP_POOL_SIZE\<rparr>)
       (pager_evict lk su i (pager_load lk su (nat v) i)))"

lemma pager_eq:
  "pager lk = Syscall GETSUPPORTPTR 0 0 0 (\<lambda>su. Read (\<lambda>s.
     if cause (ex_state s su PGFAULTEXCEPT) AND CAUSE_EXCCODE_MASK = EXC_MOD then terminate_self lk su Return
     else P (a_swapPoolSem lk) (Read (\<lambda>s. serve lk su (vpnToIndex (entry_hi (ex_state s su PGFAULTEXCEPT))) (fifoNext s)))))"
  by (simp only: pager_def serve_def Let_def)

lemma not_doomed_serve: "\<not> doomed (serve lk su v i)"
  by (simp add: serve_def not_doomed)

lemma sound_serve:
  assumes lk: "link_ok lk" and o: "own_pool lk a x {} L s" and v: "v < 32" and i: "i < SWAP_POOL_SIZE"
    and new: "0 \<le> v \<longrightarrow> \<not> valid (get_pte s (getSupport lk a, nat v))"
  shows "sound lk a (serve lk (getSupport lk a) v i) True L s"
proof (cases "v < 0")
  case True
  have "sound lk a (V (a_swapPoolSem lk) (terminate_self lk (getSupport lk a) Return)) True L s"
    by (rule sound_V [OF stable_own_pool o])
      (auto simp: own_pool_def pool_ok_def not_doomed intro: sound_terminate_self [OF lk])
  then show ?thesis using True by (simp add: serve_def)
next
  case False
  let ?I = "loading lk a x (nat v) {} (\<lambda>_. True) i"
  have p: "nat v < 32" using v by linarith
  have I: "?I L s" using o new False by (simp add: loading_def)
  have "sound lk a (Write (\<lambda>s. s\<lparr>fifoNext := (fifoNext s + 1) mod SWAP_POOL_SIZE\<rparr>)
    (pager_evict lk (getSupport lk a) i (pager_load lk (getSupport lk a) (nat v) i))) True L s"
  proof (rule sound_Write [OF stable_loading [OF p] I not_doomed_evict])
    fix L s
    assume l: "?I L s" and L: "L \<subseteq> {1..8}"
    let ?t = "s\<lparr>fifoNext := (fifoNext s + 1) mod SWAP_POOL_SIZE\<rparr>"
    have "?I L ?t" using l by (simp add: loading_def own_pool_def own_def pool_except_def frame_ok_def in_frame_def)
    moreover have "permitted lk a True L s L ?t" by (rule permitted_quiet [OF L]) simp_all
    ultimately show "permitted lk a True L s L ?t \<and>
        sound lk a (pager_evict lk (getSupport lk a) i (pager_load lk (getSupport lk a) (nat v) i)) True L ?t"
      using sound_pager_evict [OF lk _ p i] by blast
  qed
  then show ?thesis using False by (simp only: serve_def if_False)
qed

lemma sound_pager:
  assumes lk: "link_ok lk" and o: "own lk a x L s"
    and f: "0 \<le> missing_page (x PGFAULTEXCEPT) \<longrightarrow> \<not> valid (get_pte s (getSupport lk a, nat (missing_page (x PGFAULTEXCEPT))))"
  shows "sound lk a (pager lk) False L s"
proof -
  let ?su = "getSupport lk a" and ?st = "x PGFAULTEXCEPT"
  let ?q = "missing_page ?st"
  let ?new = "\<lambda>s. 0 \<le> ?q \<longrightarrow> \<not> valid (get_pte s (?su, nat ?q))"
  let ?I = "\<lambda>L s. own lk a x L s \<and> ?new s" and ?J = "\<lambda>L s. own_pool lk a x {} L s \<and> ?new s"
  let ?main = "Read (\<lambda>s. serve lk ?su (vpnToIndex (entry_hi (ex_state s ?su PGFAULTEXCEPT))) (fifoNext s))"
  have v: "vpnToIndex (entry_hi ?st) < 32" by (rule vpnToIndex_less)
  then have q: "nat ?q < 32" by (auto simp: missing_page_def)
  have I: "stable lk a False ?I" and J: "stable lk a True ?J"
    by (rule stable_conj [OF stable_own] stable_conj [OF stable_own_pool]; use q in \<open>auto dest: interfere_sel(5)\<close>)+
  have main: "sound lk a ?main True L s" if j: "?J L s" and nf: "cause ?st AND CAUSE_EXCCODE_MASK \<noteq> EXC_MOD" for L s
  proof (rule sound_Read [where I = ?J, OF J j])
    fix L s
    assume j: "?J L s"
    then have e: "ex_state s ?su = x" "fifoNext s < SWAP_POOL_SIZE" by (simp_all add: own_pool_def own_def pool_except_def)
    then show "\<not> doomed (serve lk ?su (vpnToIndex (entry_hi (ex_state s ?su PGFAULTEXCEPT))) (fifoNext s)) \<and>
      sound lk a (serve lk ?su (vpnToIndex (entry_hi (ex_state s ?su PGFAULTEXCEPT))) (fifoNext s)) True L s"
      unfolding e(1) using j nf by (intro conjI not_doomed_serve sound_serve [OF lk _ v, where x = x]) (simp_all add: missing_page_def)
  qed
  have begin': "sound lk a (P (a_swapPoolSem lk) ?main) False L s"
    if "?I L s" and nf: "cause ?st AND CAUSE_EXCCODE_MASK \<noteq> EXC_MOD" for L s
    by (rule sound_P [where I = ?I, OF I that(1)]) (auto simp: own_pool_def pool_ok_def intro!: main nf)
  have "sound lk a (Read (\<lambda>s. if cause (ex_state s ?su PGFAULTEXCEPT) AND CAUSE_EXCCODE_MASK = EXC_MOD
      then terminate_self lk ?su Return else P (a_swapPoolSem lk) ?main)) False L s" if "?I L s" for L s
    by (rule sound_Read [where I = ?I, OF I that])
      (use begin' sound_terminate_self [OF lk] in \<open>auto simp: not_doomed own_def\<close>)
  then show ?thesis
    unfolding pager_eq
    by (intro sound_Syscall [where I = ?I, OF I]) (use o f in auto)
qed

section \<open>The general exception handler\<close>

lemma stable_own_any: "stable lk a False (own_any lk a)"
  by (auto simp: stable_def own_any_def dest: interfere_sel(2,3))

lemma own_own_any: "own lk a x L s \<Longrightarrow> own_any lk a L s"
  by (simp add: own_def own_any_def)

lemma sound_terminate_any:
  "link_ok lk \<Longrightarrow> own_any lk a L s \<Longrightarrow> sound lk a (terminate_self lk (getSupport lk a) k) False L s"
  by (rule sound_terminate_self [where x = "ex_state s (getSupport lk a)"]) (simp_all add: own_any_def own_def)

text \<open>Programs that a handler goes on with.\<close>

definition continues :: "link_addrs \<Rightarrow> u32 \<Rightarrow> prog \<Rightarrow> bool" where
  "continues lk a k \<longleftrightarrow> \<not> doomed k \<and> (\<forall>L s. own_any lk a L s \<longrightarrow> sound lk a k False L s)"

lemma continues_terminate: "link_ok lk \<Longrightarrow> continues lk a (terminate_self lk (getSupport lk a) k)"
  by (simp add: continues_def not_doomed sound_terminate_any)

lemma continues_Read:
  "(\<And>s. own_any lk a UNIV s \<Longrightarrow> continues lk a (k s)) \<Longrightarrow> continues lk a (Read k)"
  by (auto simp: continues_def own_any_def intro!: sound_Read [OF stable_own_any])

lemma continues_Write:
  assumes k: "continues lk a k" and f: "\<And>s. swapPool (f s) = swapPool s" "\<And>s. fifoNext (f s) = fifoNext s"
    "\<And>s. get_pte (f s) = get_pte s" "\<And>s. asid_of (f s) = asid_of s"
    "\<And>b s. b \<in> {1..8} \<Longrightarrow> b \<noteq> a \<Longrightarrow> a \<in> {1..8} \<Longrightarrow> ex_state (f s) (getSupport lk b) = ex_state s (getSupport lk b)"
  shows "continues lk a (Write f k)"
proof -
  have "permitted lk a False L s L (f s)" if "own_any lk a L s" "L \<subseteq> {1..8}" for L s
  proof (rule permitted_quiet [OF that(2)])
    show "ex_state (f s) (getSupport lk b) = ex_state s (getSupport lk b)" if "b \<in> L" "b \<noteq> a" for b
      by (rule f(5)) (use that \<open>own_any lk a L s\<close> \<open>L \<subseteq> {1..8}\<close> in \<open>auto simp: own_any_def\<close>)
  qed (simp_all add: f)
  moreover have "own_any lk a L (f s)" if "own_any lk a L s" for L s using that f(4) by (simp add: own_any_def)
  ultimately show ?thesis
    using k unfolding continues_def by (auto intro!: sound_Write [OF stable_own_any])
qed

text \<open>An access that faults is made again later, in any state of the process.\<close>

lemma continues_Access:
  assumes k: "\<And>s. continues lk a (k s)" and f: "\<And>s. swapPool (f s) = swapPool s" "\<And>s. fifoNext (f s) = fifoNext s"
    "\<And>s. get_pte (f s) = get_pte s" "\<And>s. asid_of (f s) = asid_of s" "\<And>s. ex_state (f s) = ex_state s"
  shows "continues lk a (Access (getSupport lk a) va f k)"
proof -
  have "permitted lk a False L s L (f s)" if "L \<subseteq> {1..8}" for L s by (rule permitted_quiet [OF that]) (simp_all add: f)
  moreover have "own_any lk a L (f s)" if "own_any lk a L s" for L s using that f(4) by (simp add: own_any_def)
  ultimately show ?thesis using k unfolding continues_def by (auto simp: sound.simps)
qed

lemma sound_Access_continues: "sound lk a (Access su va f k) h L s \<Longrightarrow> continues lk a (Access su va f k)"
  by (simp add: continues_def sound.simps)

lemma continues_Syscall:
  assumes "\<And>r. (c = GETSUPPORTPTR \<longrightarrow> r = getSupport lk a) \<Longrightarrow> continues lk a (k r)" and "\<And>r. \<not> doomed (k r)"
    and "c \<in> {GETSUPPORTPTR, DOIO} \<or> c \<in> {PASSEREN, VERHOGEN} \<and> m \<noteq> a_swapPoolSem lk"
  shows "continues lk a (Syscall c m y z k)"
proof -
  have "\<not> doomed (Syscall c m y z k)" using assms(2,3) by auto
  then show ?thesis
    using assms unfolding continues_def by (auto intro!: sound_Syscall [OF stable_own_any])
qed

lemma continues_not_doomed: "continues lk a k \<Longrightarrow> \<not> doomed k"
  by (simp add: continues_def)

lemma continues_device:
  assumes "\<And>r. continues lk a (k r)" and "c = DOIO \<or> c \<in> {PASSEREN, VERHOGEN} \<and> m \<noteq> a_swapPoolSem lk"
  shows "continues lk a (Syscall c m y z k)"
  using assms by (intro continues_Syscall) (auto dest: continues_not_doomed)

lemma ex_state_other:
  "b \<in> {1..8} \<Longrightarrow> b \<noteq> a \<Longrightarrow> a \<in> {1..8} \<Longrightarrow>
   ex_state (upd_ex_state (getSupport lk a) e g s) (getSupport lk b) = ex_state s (getSupport lk b)"
  using getSupport_inject [of b a lk] by (simp add: upd_ex_state_def ex_state_def fun_eq_iff)

lemma continues_return: "continues lk a (return_to_user (getSupport lk a) r)"
proof -
  have "continues lk a (Read (\<lambda>s. Load (ex_state s (getSupport lk a) GENERALEXCEPT)))"
    by (rule continues_Read) (simp add: continues_def)
  then show ?thesis
    unfolding return_to_user_def by (intro continues_Write) (simp_all add: upd_ex_state_keeps ex_state_other)
qed

lemma continues_write_loop:
  assumes lk: "link_ok lk" and k: "\<And>r. continues lk a (k r)"
  shows "continues lk a (write_loop lk (getSupport lk a) term va i n k)"
proof (induction n arbitrary: i)
  case 0
  then show ?case using k link_ok_sel(1) [OF lk, of "TERMW_MUTEX 0"] by (auto simp: TERMW_MUTEX_def intro!: continues_device)
next
  case (Suc n)
  then show ?case
    using k link_ok_sel(1) [OF lk, of "TERMW_MUTEX 0"]
    by (auto simp: TERMW_MUTEX_def intro!: continues_Access continues_device)
qed

lemma continues_read_loop:
  assumes lk: "link_ok lk" and k: "\<And>r. continues lk a (k r)"
  shows "continues lk a (read_loop fuel lk (getSupport lk a) term va i k)"
proof (induction fuel arbitrary: i)
  case 0
  then show ?case by (simp add: continues_def)
next
  case (Suc n)
  have u: "get_pte (s\<lparr>umem := m\<rparr>) = get_pte s" "asid_of (s\<lparr>umem := m\<rparr>) = asid_of s" "ex_state (s\<lparr>umem := m\<rparr>) = ex_state s"
    for s m by (auto simp: get_pte_def asid_of_def ex_state_def fun_eq_iff)
  show ?case
    using Suc k link_ok_sel(1) [OF lk, of "TERMR_MUTEX 0"]
    by (auto simp: TERMR_MUTEX_def Let_def u intro!: continues_Access continues_device)
qed

text \<open>The shell launches a process that is not running.\<close>

lemma sound_launch:
  assumes k: "continues lk 1 k" and b: "b \<in> {1..8}" "b \<notin> L" and o: "own_any lk 1 L s"
  shows "sound lk 1 (launchUproc lk b k) False L s"
proof -
  let ?new = "\<lambda>L s. own_any lk 1 L s \<and> b \<notin> L" and ?set = "\<lambda>L s. (own_any lk 1 L s \<and> b \<notin> L) \<and> fresh_table lk b s"
  let ?area = "\<lambda>s. s\<lparr>state_area := (state_area s)(a_local_state lk := uproc_state b)\<rparr>"
  have n: "stable lk 1 False ?new" by (rule stable_conj [OF stable_own_any]) (auto dest: interfere_sel(6))
  have st: "stable lk 1 False ?set"
    by (rule stable_conj [OF n]) (use b(1) in \<open>auto dest: interfere_sel(7) same_table_fresh\<close>)
  have ne: "getSupport lk c \<noteq> getSupport lk b" if "c \<in> L" "L \<subseteq> {1..8}" "b \<notin> L" for c L
    using that b(1) getSupport_inject [of c b lk] by blast
  have create: "sound lk 1 (Syscall CREATEPROCESS x y (getSupport lk b) (\<lambda>_. k)) False L s" if "?set L s" for x y L s
  proof -
    have "own_any lk 1 (insert b L) s" if "own_any lk 1 L s" for L s using that by (simp add: own_any_def)
    then show ?thesis
      using stableD [where I = ?set, OF st that] b(1) k continues_not_doomed [OF k] unfolding sound.simps Let_def continues_def by auto
  qed
  have area: "sound lk 1 (Write ?area (Syscall CREATEPROCESS x y (getSupport lk b) (\<lambda>_. k))) False L s" if "?set L s" for x y L s
  proof (rule sound_Write [where I = ?set, OF st that])
    fix L s
    assume s: "?set L s" and L: "L \<subseteq> {1..8}"
    have e: "get_pte (?area s) = get_pte s" "asid_of (?area s) = asid_of s" "ex_state (?area s) = ex_state s"
      by (auto simp: get_pte_def asid_of_def ex_state_def fun_eq_iff)
    have "?set L (?area s)" using s by (simp add: own_any_def fresh_table_def unmapped_def e)
    then show "permitted lk 1 False L s L (?area s) \<and>
        sound lk 1 (Syscall CREATEPROCESS x y (getSupport lk b) (\<lambda>_. k)) False L (?area s)"
      using create by (intro conjI permitted_quiet [OF L]) (simp_all add: e)
  qed simp
  show ?thesis
    unfolding launchUproc_def
  proof (rule sound_Write [where I = ?new, OF n])
    fix L s
    assume s: "?new L s" and L: "L \<subseteq> {1..8}"
    let ?t = "setup_support lk b s"
    have 1: "b \<noteq> 1" using s by (auto simp: own_any_def)
    have "?set L ?t"
      using s ne [OF _ L] by (auto simp: own_any_def fresh_table_def unmapped_def setup_support_sel DIRTYON_not_valid)
    moreover have "permitted lk 1 False L s L ?t"
      by (rule permittedI) (use L s ne [OF _ L] in \<open>auto simp: setup_support_sel same_table_def\<close>)
    ultimately show "permitted lk 1 False L s L ?t \<and>
        sound lk 1 (Write ?area (Syscall CREATEPROCESS (a_local_state lk) PROCESS_PRIO_LOW (getSupport lk b) (\<lambda>_. k))) False L ?t"
      using area by blast
  qed (use o b(2) in simp_all)
qed

lemma sound_general:
  assumes lk: "link_ok lk" and o: "own lk a x L s"
    and ex: "executes (x GENERALEXCEPT) \<longrightarrow> a = 1 \<and> reg_a1 (x GENERALEXCEPT) \<notin> L"
  shows "sound lk a (generalExceptionHandler fuel lk) False L s"
proof -
  let ?su = "getSupport lk a" and ?st = "x GENERALEXCEPT"
  let ?I = "\<lambda>L s. own lk a x L s \<and> (executes ?st \<longrightarrow> a = 1 \<and> reg_a1 ?st \<notin> L)"
  have I: "stable lk a False ?I" by (rule stable_conj [OF stable_own]) (auto dest: interfere_sel(6))
  note t = continues_terminate [OF lk]
  have w: "continues lk a (writeTerminal lk ?su va len (return_to_user ?su))" for va len
    using link_ok_sel(1) [OF lk, of "TERMW_MUTEX 0"]
    by (auto simp: writeTerminal_def Let_def TERMW_MUTEX_def
        intro!: t continues_device continues_write_loop [OF lk] continues_return)
  have r: "continues lk a (readTerminal fuel lk ?su va (return_to_user ?su))" for va
    using link_ok_sel(1) [OF lk, of "TERMR_MUTEX 0"]
    by (auto simp: readTerminal_def Let_def TERMR_MUTEX_def
        intro!: t continues_device continues_read_loop [OF lk] continues_return)
  have e: "sound lk a (doExecute lk (reg_a1 ?st) (return_to_user ?su)) False L s"
    if "?I L s" "cause ?st AND CAUSE_EXCCODE_MASK = EXC_ECU" "sint (reg_a0 ?st) = SUP_EXECUTE" for L s
  proof (cases "executes ?st")
    case True
    then have a: "a = 1" "reg_a1 ?st \<notin> L" "reg_a1 ?st \<in> {1..8}" "own_any lk a L s"
      using that sint_asid [of "reg_a1 ?st"] by (auto simp: executes_def own_own_any)
    have "continues lk 1 (P (a_shellSemaphore lk) (return_to_user (getSupport lk 1) 0))"
      using link_ok_sel(5) [OF lk] by (intro continues_device continues_return) auto
    then have "sound lk 1 (launchUproc lk (reg_a1 ?st) (P (a_shellSemaphore lk) (return_to_user (getSupport lk 1) 0))) False L s"
      using a by (intro sound_launch) auto
    then show ?thesis using True a(1) by (simp add: doExecute_def executes_def not_less)
  next
    case False
    then have "sint (reg_a1 ?st) < 1 \<or> sint (reg_a1 ?st) > int UPROCMAX" using that by (auto simp: executes_def)
    then show ?thesis using that(1) continues_return by (auto simp: doExecute_def continues_def own_own_any)
  qed
  have nd: "\<not> doomed (doExecute lk b (return_to_user ?su))" for b
    by (simp add: doExecute_def launchUproc_def return_to_user_def)
  have sys: "sound lk a (supSyscallHandler fuel lk ?su) False L s"
    if "?I L s" "cause ?st AND CAUSE_EXCCODE_MASK = EXC_ECU" for L s
    unfolding supSyscallHandler_def Let_def
    by (rule sound_Read [where I = ?I, OF I that(1)])
      (use w r e t nd that(2) in \<open>auto simp: continues_def own_def own_any_def\<close>)
  have "sound lk a (Read (\<lambda>s. if cause (ex_state s ?su GENERALEXCEPT) AND CAUSE_EXCCODE_MASK = EXC_ECU
      then supSyscallHandler fuel lk ?su else terminate_self lk ?su Return)) False L s" if "?I L s" for L s
    by (rule sound_Read [where I = ?I, OF I that])
      (use sys sound_terminate_self [OF lk] in \<open>auto simp: not_doomed own_def supSyscallHandler_def\<close>)
  then show ?thesis
    unfolding generalExceptionHandler_def
    by (intro sound_Syscall [where I = ?I, OF I]) (use o ex in auto)
qed

end
