(* ===== verification/Vm_Runs.thy ===== *)
theory Vm_Runs
  imports Vm_Sound
begin

text \<open>
  All runs of the support level: in every state they reach the swap pool is consistent whenever its
  mutex is free, and the processes are isolated from each other.
\<close>

section \<open>The invariant\<close>

definition unique_asids :: "vm_system \<Rightarrow> bool" where
  "unique_asids \<sigma> \<longleftrightarrow> (\<forall>i j a. alive (tasks \<sigma> i) a \<longrightarrow> alive (tasks \<sigma> j) a \<longrightarrow> i = j)"

text \<open>
  \<open>h\<close> is the process that holds the mutex of the swap pool. A program that a page fault has
  interrupted can go on in any state.
\<close>

definition run_inv :: "link_addrs \<Rightarrow> nat option \<Rightarrow> vm_system \<Rightarrow> bool" where
  "run_inv lk h \<sigma> \<longleftrightarrow> (let L = launched \<sigma>; s = shared \<sigma> in
     L \<subseteq> {1..8} \<and> unique_asids \<sigma> \<and> (\<forall>a\<in>L. asid_of s (getSupport lk a) = a) \<and>
     sem \<sigma> (a_swapPoolSem lk) = (if h = None then 1 else 0) \<and> (h = None \<longrightarrow> pool_ok lk L s) \<and>
     (\<forall>i. h = Some i \<longrightarrow> (\<exists>a p rs. tasks \<sigma> i = Handler a p rs)) \<and>
     (\<forall>i a p rs. tasks \<sigma> i = Handler a p rs \<longrightarrow> sound lk a p (h = Some i) L s \<and> list_all (continues lk a) rs))"

lemma run_invD:
  assumes "run_inv lk h \<sigma>"
  shows "launched \<sigma> \<subseteq> {1..8}" "unique_asids \<sigma>" "a \<in> launched \<sigma> \<Longrightarrow> asid_of (shared \<sigma>) (getSupport lk a) = a"
    "sem \<sigma> (a_swapPoolSem lk) = (if h = None then 1 else 0)" "h = None \<Longrightarrow> pool_ok lk (launched \<sigma>) (shared \<sigma>)"
    "h = Some i \<Longrightarrow> \<exists>a p rs. tasks \<sigma> i = Handler a p rs"
    "tasks \<sigma> i = Handler a p rs \<Longrightarrow> sound lk a p (h = Some i) (launched \<sigma>) (shared \<sigma>)"
    "tasks \<sigma> i = Handler a p rs \<Longrightarrow> list_all (continues lk a) rs"
  using assms by (simp_all add: run_inv_def Let_def)

lemma alive_launched: "alive (tasks \<sigma> i) a \<Longrightarrow> a \<in> launched \<sigma>"
  by (auto simp: launched_def)

lemma alive_unique: "unique_asids \<sigma> \<Longrightarrow> alive (tasks \<sigma> i) a \<Longrightarrow> alive (tasks \<sigma> j) a \<Longrightarrow> i = j"
  by (simp add: unique_asids_def)

lemma launched_upd:
  assumes "unique_asids \<sigma>"
  shows "launched (\<sigma>\<lparr>tasks := (tasks \<sigma>)(i := t), shared := s, sem := w\<rparr>) =
    {b \<in> launched \<sigma>. \<not> alive (tasks \<sigma> i) b} \<union> {b. alive t b}"
  using assms unfolding launched_def unique_asids_def by auto

lemma permitted_others:
  assumes I: "run_inv lk h \<sigma>" and i: "alive (tasks \<sigma> i) a"
    and p: "permitted lk a (h = Some i) (launched \<sigma>) (shared \<sigma>) L' s'"
    and j: "j \<noteq> i" "tasks \<sigma> j = Handler b q qs"
  shows "interfere lk b (doomed q) (h = Some j) (launched \<sigma>) (shared \<sigma>) L' s'"
proof -
  have "b \<noteq> a \<and> b \<in> launched \<sigma>" if "\<not> doomed q"
  proof -
    have "alive (tasks \<sigma> j) b" using that j(2) by simp
    then show ?thesis using alive_unique [OF run_invD(2) [OF I] i] alive_launched j(1) by blast
  qed
  then show ?thesis using p j(1) by (auto simp: permitted_def)
qed

text \<open>A step of process \<open>i\<close> that starts no process.\<close>

lemma run_inv_upd:
  assumes I: "run_inv lk h \<sigma>" and sub: "\<And>b. alive t b \<Longrightarrow> alive (tasks \<sigma> i) b"
    and L': "launched (\<sigma>\<lparr>tasks := (tasks \<sigma>)(i := t), shared := s', sem := w\<rparr>) = L'"
    and others: "\<And>j b q qs. j \<noteq> i \<Longrightarrow> tasks \<sigma> j = Handler b q qs \<Longrightarrow>
      interfere lk b (doomed q) (h = Some j) (launched \<sigma>) (shared \<sigma>) L' s'"
    and asid: "\<And>a. a \<in> launched \<sigma> \<Longrightarrow> asid_of s' (getSupport lk a) = asid_of (shared \<sigma>) (getSupport lk a)"
    and sem: "w (a_swapPoolSem lk) = (if h' = None then 1 else 0)"
    and h': "h' = h \<or> (h = None \<and> h' = Some i) \<or> (h = Some i \<and> h' = None)"
    and pool: "h' = None \<Longrightarrow> pool_ok lk L' s'"
    and own: "\<And>a k rs. t = Handler a k rs \<Longrightarrow> sound lk a k (h' = Some i) L' s' \<and> list_all (continues lk a) rs"
    and hs: "h' = Some i \<Longrightarrow> \<exists>a k rs. t = Handler a k rs"
  shows "run_inv lk h' (\<sigma>\<lparr>tasks := (tasks \<sigma>)(i := t), shared := s', sem := w\<rparr>)"
proof -
  note I' = run_invD [OF I]
  have sub': "L' \<subseteq> launched \<sigma>" using sub L' launched_upd [OF I'(2)] alive_launched by blast
  have "unique_asids (\<sigma>\<lparr>tasks := (tasks \<sigma>)(i := t), shared := s', sem := w\<rparr>)"
    using I'(2) sub unfolding unique_asids_def by (auto split: if_splits)
  moreover have "sound lk b q (h' = Some j) L' s'" if "tasks \<sigma> j = Handler b q qs" "j \<noteq> i" for j b q qs
  proof -
    have "(h' = Some j) = (h = Some j)" using h' that(2) by auto
    then show ?thesis using sound_stable [OF I'(7) [OF that(1)] others [OF that(2,1)]] by simp
  qed
  ultimately show ?thesis
    using I' sub' asid sem pool own hs h' unfolding run_inv_def Let_def L' by (auto split: if_splits)
qed

section \<open>Every step keeps the invariant\<close>

lemmas sound_Syscall_iff = sound.simps(7) [unfolded Let_def]

lemma sound_SyscallD:
  assumes "sound lk a (Syscall c m y z k) h L s" and "L \<subseteq> {1..8}" and "d = doomed (Syscall c m y z k)"
  shows "h \<Longrightarrow> isolated lk (if d then L else L - {a}) s" "\<not> d \<Longrightarrow> \<not> doomed (k r)"
    "c = PASSEREN \<Longrightarrow> m = a_swapPoolSem lk \<Longrightarrow> \<not> h \<and> (pool_ok lk L s \<longrightarrow> sound lk a (k r) True L s)"
    "c = VERHOGEN \<Longrightarrow> m = a_swapPoolSem lk \<Longrightarrow> h \<and> pool_ok lk L s \<and> sound lk a (k r) False L s"
    "c = TERMPROCESS \<Longrightarrow> m = 0 \<Longrightarrow> \<not> h"
    "c = CREATEPROCESS \<Longrightarrow> \<exists>b\<in>{1..8} - L. z = getSupport lk b \<and> fresh_table lk b s \<and> a = 1 \<and> \<not> h \<and>
       (\<forall>r. sound lk a (k r) False L s \<and> sound lk a (k r) False (insert b L) s)"
    "c \<in> {GETSUPPORTPTR, DOIO} \<or> c \<in> {PASSEREN, VERHOGEN} \<and> m \<noteq> a_swapPoolSem lk \<Longrightarrow>
      (c = GETSUPPORTPTR \<longrightarrow> r = getSupport lk a) \<Longrightarrow> (c = DOIO \<and> flash_command lk m \<longrightarrow> r = READY) \<Longrightarrow>
      sound lk a (k r) h L s"
  using assms(1) [unfolded sound_Syscall_iff, THEN conjunct2, rule_format, OF interfere_refl [OF assms(2)]] assms(3)
  by (auto simp del: doomed.simps)

lemma alive_handler: "tasks \<sigma> i = Handler a p rs \<Longrightarrow> \<not> doomed p \<Longrightarrow> alive (tasks \<sigma> i) a"
  by simp

lemma same_state_others: "launched \<sigma> \<subseteq> {1..8} \<Longrightarrow> interfere lk b d k (launched \<sigma>) (shared \<sigma>) (launched \<sigma>) (shared \<sigma>)"
  by (rule interfere_refl)

text \<open>The process goes on, and the shared state is the same.\<close>

lemma run_inv_continue:
  assumes I: "run_inv lk h \<sigma>" and t: "tasks \<sigma> i = Handler a p rs" and d: "doomed k = doomed p"
    and sem: "w (a_swapPoolSem lk) = (if h' = None then 1 else 0)"
    and h': "h' = h \<or> (h = None \<and> h' = Some i) \<or> (h = Some i \<and> h' = None)"
    and pool: "h' = None \<Longrightarrow> pool_ok lk (launched \<sigma>) (shared \<sigma>)"
    and own: "sound lk a k (h' = Some i) (launched \<sigma>) (shared \<sigma>)"
  shows "run_inv lk h' (\<sigma>\<lparr>tasks := (tasks \<sigma>)(i := Handler a k rs), shared := shared \<sigma>, sem := w\<rparr>)"
proof (rule run_inv_upd [OF I, where L' = "launched \<sigma>"])
  show "launched (\<sigma>\<lparr>tasks := (tasks \<sigma>)(i := Handler a k rs), shared := shared \<sigma>, sem := w\<rparr>) = launched \<sigma>"
    unfolding launched_upd [OF run_invD(2) [OF I]] using t d alive_launched [of \<sigma> i a] by auto
qed (use t d sem h' pool own run_invD(8) [OF I t] same_state_others [OF run_invD(1) [OF I]] in auto)

lemma move_eq: "move j t \<rho> = \<rho>\<lparr>tasks := (tasks \<rho>)(j := t), shared := shared \<rho>, sem := sem \<rho>\<rparr>"
  by (simp add: move_def)

lemma move_sem: "(move j t \<rho>)\<lparr>sem := w\<rparr> = \<rho>\<lparr>tasks := (tasks \<rho>)(j := t), shared := shared \<rho>, sem := w\<rparr>"
  "(move j t \<rho>)\<lparr>shared := s\<rparr> = \<rho>\<lparr>tasks := (tasks \<rho>)(j := t), shared := s, sem := sem \<rho>\<rparr>"
  by (simp_all add: move_def)

lemma run_inv_P:
  assumes I: "run_inv lk h \<sigma>" and t: "tasks \<sigma> i = Handler a (Syscall PASSEREN m x y k) rs" and pos: "0 < sem \<sigma> m"
  shows "\<exists>h'. run_inv lk h' ((move i (Handler a (k r) rs) \<sigma>)\<lparr>sem := (sem \<sigma>)(m := sem \<sigma> m - 1)\<rparr>)"
proof (cases "m = a_swapPoolSem lk")
  case True
  note I' = run_invD [OF I]
  have h: "h = None" using I'(4) pos True by (auto split: if_splits)
  have "sound lk a (k r) True (launched \<sigma>) (shared \<sigma>)" "\<not> doomed (k r)"
    using sound_SyscallD(2,3) [OF I'(7) [OF t] I'(1) refl] I'(5) [OF h] True by auto
  then show ?thesis
    unfolding move_sem using I'(4) h True by (intro exI [of _ "Some i"] run_inv_continue [OF I t]) auto
next
  case False
  note I' = run_invD [OF I]
  have "sound lk a (k r) (h = Some i) (launched \<sigma>) (shared \<sigma>)" "\<not> doomed (k r)"
    using sound_SyscallD(2,7) [OF I'(7) [OF t] I'(1) refl] False by auto
  then show ?thesis
    unfolding move_sem using I'(4,5) False by (intro exI [of _ h] run_inv_continue [OF I t]) auto
qed

lemma run_inv_V:
  assumes I: "run_inv lk h \<sigma>" and t: "tasks \<sigma> i = Handler a (Syscall VERHOGEN m x y k) rs"
  shows "\<exists>h'. run_inv lk h' ((move i (Handler a (k r) rs) \<sigma>)\<lparr>sem := (sem \<sigma>)(m := sem \<sigma> m + 1)\<rparr>)"
proof -
  note I' = run_invD [OF I]
  note D = sound_SyscallD [OF I'(7) [OF t] I'(1) refl]
  have d: "doomed (k r) = doomed (Syscall VERHOGEN m x y k)" using D(2) by auto
  show ?thesis
  proof (cases "m = a_swapPoolSem lk")
    case True
    then have h: "h = Some i" and "pool_ok lk (launched \<sigma>) (shared \<sigma>)" "sound lk a (k r) False (launched \<sigma>) (shared \<sigma>)"
      using D(4) by auto
    then show ?thesis
      unfolding move_sem using I'(4) True by (intro exI [of _ None] run_inv_continue [OF I t d]) auto
  next
    case False
    then have "sound lk a (k r) (h = Some i) (launched \<sigma>) (shared \<sigma>)" using D(7) by auto
    then show ?thesis
      unfolding move_sem using I'(4,5) False by (intro exI [of _ h] run_inv_continue [OF I t d]) auto
  qed
qed

lemma run_inv_call:
  assumes I: "run_inv lk h \<sigma>" and t: "tasks \<sigma> i = Handler a (Syscall c m y z k) rs" and c: "c \<in> {GETSUPPORTPTR, DOIO}"
    and r: "c = GETSUPPORTPTR \<longrightarrow> r = getSupport lk a" "c = DOIO \<and> flash_command lk m \<longrightarrow> r = READY"
  shows "run_inv lk h (move i (Handler a (k r) rs) \<sigma>)"
proof -
  note I' = run_invD [OF I]
  note D = sound_SyscallD [OF I'(7) [OF t] I'(1) refl]
  have "sound lk a (k r) (h = Some i) (launched \<sigma>) (shared \<sigma>)" using D(7) c r by auto
  moreover have "doomed (k r) = doomed (Syscall c m y z k)" using D(2) c by auto
  ultimately show ?thesis
    unfolding move_eq using I'(4,5) by (intro run_inv_continue [OF I t]) auto
qed

lemma run_inv_write:
  assumes I: "run_inv lk h \<sigma>" and t: "tasks \<sigma> i = Handler a (Write f k) rs"
  shows "run_inv lk h ((move i (Handler a k rs) \<sigma>)\<lparr>shared := f (shared \<sigma>)\<rparr>)"
proof -
  note I' = run_invD [OF I]
  let ?L = "after_step a False k (launched \<sigma>)"
  have al: "alive (tasks \<sigma> i) a" using t by simp
  have p: "permitted lk a (h = Some i) (launched \<sigma>) (shared \<sigma>) ?L (f (shared \<sigma>))"
    and k: "sound lk a k (h = Some i) ?L (f (shared \<sigma>))"
    using I'(7) [OF t] interfere_refl [OF I'(1)] by (auto simp: sound.simps Let_def)
  show ?thesis
    unfolding move_sem
  proof (rule run_inv_upd [OF I, where L' = ?L])
    show "launched (\<sigma>\<lparr>tasks := (tasks \<sigma>)(i := Handler a k rs), shared := f (shared \<sigma>), sem := sem \<sigma>\<rparr>) = ?L"
      unfolding launched_upd [OF I'(2)] using t alive_launched [OF al] by (auto simp: after_step_def)
    show "interfere lk b (doomed q) (h = Some j) (launched \<sigma>) (shared \<sigma>) ?L (f (shared \<sigma>))"
      if "j \<noteq> i" "tasks \<sigma> j = Handler b q qs" for j b q qs
      by (rule permitted_others [OF I al p that])
    show "pool_ok lk ?L (f (shared \<sigma>))" if "h = None"
    proof -
      have "interfere lk a True True (launched \<sigma>) (shared \<sigma>) ?L (f (shared \<sigma>))" using p that by (simp add: permitted_def)
      then show ?thesis using interfere_pool I'(5) [OF that] unfolding pool_ok_def by blast
    qed
  qed (use p k t I'(4,6) I'(8) [OF t] in \<open>auto simp: permitted_def\<close>)
qed

lemma run_inv_access:
  assumes I: "run_inv lk h \<sigma>" and t: "tasks \<sigma> i = Handler a (Access su va f k) rs"
  shows "run_inv lk h ((move i (Handler a (k (shared \<sigma>)) rs) \<sigma>)\<lparr>shared := f (shared \<sigma>)\<rparr>)"
proof -
  note I' = run_invD [OF I]
  let ?L = "launched \<sigma>" and ?s = "f (shared \<sigma>)"
  have al: "alive (tasks \<sigma> i) a" using t by simp
  have h: "h \<noteq> Some i" and p: "permitted lk a (h = Some i) ?L (shared \<sigma>) ?L ?s"
    and k: "\<not> doomed (k (shared \<sigma>))" "sound lk a (k (shared \<sigma>)) (h = Some i) ?L ?s"
    using I'(1) I'(7) [OF t] unfolding sound.simps by force+
  show ?thesis
    unfolding move_sem
  proof (rule run_inv_upd [OF I, where L' = ?L])
    show "launched (\<sigma>\<lparr>tasks := (tasks \<sigma>)(i := Handler a (k (shared \<sigma>)) rs), shared := ?s, sem := sem \<sigma>\<rparr>) = ?L"
      unfolding launched_upd [OF I'(2)] using t alive_launched [OF al] k(1) by auto
    show "interfere lk b (doomed q) (h = Some j) ?L (shared \<sigma>) ?L ?s"
      if "j \<noteq> i" "tasks \<sigma> j = Handler b q qs" for j b q qs
      by (rule permitted_others [OF I al p that])
    show "pool_ok lk ?L ?s" if "h = None"
    proof -
      have "interfere lk a True True ?L (shared \<sigma>) ?L ?s" using p that by (simp add: permitted_def)
      then show ?thesis using interfere_pool I'(5) [OF that] unfolding pool_ok_def by blast
    qed
  qed (use p k t h I'(4) I'(8) [OF t] in \<open>auto simp: permitted_def\<close>)
qed

text \<open>A handler ends: it returns to the program it has interrupted, if any, or the process terminates.\<close>

lemma run_inv_leave:
  assumes I: "run_inv lk h \<sigma>" and t: "tasks \<sigma> i = Handler a p rs" and h: "h \<noteq> Some i"
    and u: "u = (if doomed p then gone a rs else resumed a rs)"
  shows "run_inv lk h (move i u \<sigma>)"
proof -
  note I' = run_invD [OF I]
  have al: "alive u b \<longleftrightarrow> alive (tasks \<sigma> i) b" for b
    using t I'(8) [OF t] by (auto simp: u gone_def resumed_def continues_def split: list.splits)
  have own: "sound lk b k False (launched \<sigma>) (shared \<sigma>) \<and> list_all (continues lk b) qs" if q: "u = Handler b k qs" for b k qs
  proof -
    have nd: "\<not> doomed p" and e: "b = a" "rs = k # qs"
      using q by (auto simp: u gone_def resumed_def split: if_splits list.splits)
    have "a \<in> launched \<sigma>" using t nd alive_launched [of \<sigma> i a] by simp
    then have "own_any lk a (launched \<sigma>) (shared \<sigma>)" using I'(3) by (simp add: own_any_def)
    then show ?thesis using I'(8) [OF t] by (simp add: e continues_def)
  qed
  show ?thesis
    unfolding move_eq
  proof (rule run_inv_upd [OF I, where L' = "launched \<sigma>"])
    show "launched (\<sigma>\<lparr>tasks := (tasks \<sigma>)(i := u), shared := shared \<sigma>, sem := sem \<sigma>\<rparr>) = launched \<sigma>"
      unfolding launched_upd [OF I'(2)] al using alive_launched by blast
  qed (use al own h I'(4,5) interfere_refl [OF I'(1)] in auto)
qed

text \<open>An exception of a process: the Nucleus saves its state and passes the exception up.\<close>

lemma run_inv_enter:
  assumes I: "run_inv lk h \<sigma>" and al: "\<And>b. alive (tasks \<sigma> i) b \<longleftrightarrow> b = a" and h: "h \<noteq> Some i" and nd: "\<not> doomed p"
    and rs: "list_all (continues lk a) rs"
    and p: "\<And>s. s = upd_ex_state (getSupport lk a) e (\<lambda>_. st) (shared \<sigma>) \<Longrightarrow>
      own lk a (ex_state s (getSupport lk a)) (launched \<sigma>) s \<Longrightarrow> sound lk a p False (launched \<sigma>) s"
  shows "run_inv lk h ((move i (Handler a p rs) \<sigma>)\<lparr>shared := upd_ex_state (getSupport lk a) e (\<lambda>_. st) (shared \<sigma>)\<rparr>)"
proof -
  note I' = run_invD [OF I]
  let ?s = "upd_ex_state (getSupport lk a) e (\<lambda>_. st) (shared \<sigma>)"
  have aa: "alive (tasks \<sigma> i) a" by (simp add: al)
  have aL: "a \<in> launched \<sigma>" by (rule alive_launched [OF aa])
  have P: "permitted lk a (h = Some i) (launched \<sigma>) (shared \<sigma>) (launched \<sigma>) ?s"
    by (rule permitted_quiet [OF I'(1)]) (use I'(1) aL in \<open>auto simp: upd_ex_state_keeps intro!: ex_state_other\<close>)
  have own: "own lk a (ex_state ?s (getSupport lk a)) (launched \<sigma>) ?s"
    using aL I'(3) by (simp add: own_def upd_ex_state_keeps)
  show ?thesis
    unfolding move_sem
  proof (rule run_inv_upd [OF I, where L' = "launched \<sigma>"])
    show "launched (\<sigma>\<lparr>tasks := (tasks \<sigma>)(i := Handler a p rs), shared := ?s, sem := sem \<sigma>\<rparr>) = launched \<sigma>"
      unfolding launched_upd [OF I'(2)] al using aL nd by auto
    show "interfere lk b (doomed q) (h = Some j) (launched \<sigma>) (shared \<sigma>) (launched \<sigma>) ?s"
      if "j \<noteq> i" "tasks \<sigma> j = Handler b q qs" for j b q qs
      by (rule permitted_others [OF I aa P that])
    show "pool_ok lk (launched \<sigma>) ?s" if "h = None"
      using I'(5) [OF that] unfolding pool_ok_def
      by (rule pool_except_cong) (simp_all add: upd_ex_state_keeps)
  qed (use al nd h rs I'(4) p [OF refl own] in \<open>auto simp: upd_ex_state_keeps\<close>)
qed

lemma run_inv_user: "run_inv lk h \<sigma> \<Longrightarrow> tasks \<sigma> i = User a \<Longrightarrow> h \<noteq> Some i"
  using run_invD(6) [of lk h \<sigma> i] by auto

lemma run_inv_page_fault:
  assumes lk: "link_ok lk" and I: "run_inv lk h \<sigma>" and t: "tasks \<sigma> i = Handler a (Access su va f k) rs"
    and va: "\<not> resident (shared \<sigma>) su va" "vpn_of (entry_hi st) = vpn_of va"
  shows "run_inv lk h ((move i (Handler a (pager lk) (Access su va f k # rs)) \<sigma>)
    \<lparr>shared := upd_ex_state su PGFAULTEXCEPT (\<lambda>_. st) (shared \<sigma>)\<rparr>)"
proof -
  note I' = run_invD [OF I]
  have A: "su = getSupport lk a" "h \<noteq> Some i" "continues lk a (Access su va f k)"
    using I'(7) [OF t] sound_Access_continues [OF I'(7) [OF t]] by (simp_all add: sound.simps)
  have m: "missing_page st = vpnToIndex va \<or> missing_page st < 0"
    using va(2) by (simp add: missing_page_def vpnToIndex_cases)
  show ?thesis
    unfolding A(1)
  proof (rule run_inv_enter [OF I])
    fix s
    assume s: "s = upd_ex_state (getSupport lk a) PGFAULTEXCEPT (\<lambda>_. st) (shared \<sigma>)"
      and o: "own lk a (ex_state s (getSupport lk a)) (launched \<sigma>) s"
    have "ex_state s (getSupport lk a) PGFAULTEXCEPT = st" "get_pte s = get_pte (shared \<sigma>)"
      by (simp_all add: s ex_state_upd upd_ex_state_keeps)
    then show "sound lk a (pager lk) False (launched \<sigma>) s"
      using m va(1) A(1) by (intro sound_pager [OF lk o]) (auto simp: resident_def)
  qed (use t A I'(8) [OF t] in \<open>simp_all add: pager_def\<close>)
qed

lemma run_inv_no_block:
  assumes I: "run_inv lk h \<sigma>" and t: "tasks \<sigma> i = Handler a (Syscall CREATEPROCESS x y su k) rs"
  shows "run_inv lk h (move i (Handler a (k r) rs) \<sigma>)"
proof -
  note I' = run_invD [OF I]
  note D = sound_SyscallD [OF I'(7) [OF t] I'(1) refl]
  have "\<not> doomed (k r)" "h \<noteq> Some i" "sound lk a (k r) False (launched \<sigma>) (shared \<sigma>)"
    using D(2,6) by auto
  then show ?thesis unfolding move_eq using I'(4,5) by (intro run_inv_continue [OF I t]) auto
qed

lemma run_inv_create:
  assumes I: "run_inv lk h \<sigma>" and t: "tasks \<sigma> i = Handler a (Syscall CREATEPROCESS x y su k) rs" and j: "tasks \<sigma> j = Off"
  shows "run_inv lk h (move j (User (asid_of (shared \<sigma>) su)) (move i (Handler a (k r) rs) \<sigma>))"
proof -
  note I' = run_invD [OF I]
  let ?L = "launched \<sigma>" and ?s = "shared \<sigma>"
  note D = sound_SyscallD [OF I'(7) [OF t] I'(1) refl]
  have nd: "\<not> doomed (k r)" using D(2) by simp
  obtain b where b: "b \<in> {1..8}" "b \<notin> ?L" "su = getSupport lk b" "fresh_table lk b ?s" and a: "a = 1" and h: "h \<noteq> Some i"
    and k: "sound lk a (k r) False ?L ?s" "sound lk a (k r) False (insert b ?L) ?s"
    using D(6) by blast
  have al: "alive (tasks \<sigma> i) a" using t by simp
  let ?\<tau> = "move j (User b) (move i (Handler a (k r) rs) \<sigma>)"
  have ij: "j \<noteq> i" using t j by auto
  have eq: "alive (tasks ?\<tau> l) c \<longleftrightarrow> (if l = j then c = b else alive (tasks \<sigma> l) c)" for l c
    using t nd j ij by (auto simp: move_def)
  have L: "launched ?\<tau> = insert b ?L" using j by (auto simp: launched_def eq) (metis alive.simps(1))
  have u: "unique_asids ?\<tau>"
    using I'(2) b(2) unfolding unique_asids_def eq by (auto simp: launched_def)
  have o: "interfere lk c (doomed q) (h = Some l) ?L ?s (insert b ?L) ?s"
    if "l \<noteq> i" "tasks \<sigma> l = Handler c q qs" for l c q qs
  proof -
    have "c \<noteq> 1" "c \<in> ?L" if "\<not> doomed q"
      using alive_unique [OF I'(2) al, of l] \<open>tasks \<sigma> l = Handler c q qs\<close> \<open>l \<noteq> i\<close> that a alive_launched [of \<sigma> l c] by auto
    then show ?thesis using b I'(1) by (auto simp: interfere_def Let_def)
  qed
  have "sound lk c q (h = Some l) (insert b ?L) ?s \<and> list_all (continues lk c) qs" if "tasks ?\<tau> l = Handler c q qs" for l c q qs
    using that k(2) h ij sound_stable [OF I'(7) o] I'(8) t by (auto simp: move_def split: if_splits)
  moreover have "pool_ok lk (insert b ?L) ?s" if "h = None"
  proof -
    have "interfere lk a True True ?L ?s (insert b ?L) ?s" using b I'(1) by (auto simp: interfere_def Let_def)
    from interfere_pool [OF this] I'(5) [OF that] show ?thesis by (simp add: pool_ok_def)
  qed
  moreover have "asid_of ?s su = b" using b(3,4) by (simp add: fresh_table_def)
  ultimately show "run_inv lk h (move j (User (asid_of ?s su)) (move i (Handler a (k r) rs) \<sigma>))"
    using I'(1,3,4,6) b u L ij j unfolding run_inv_def Let_def by (auto simp: move_def fresh_table_def)
qed

lemma run_inv_step:
  assumes lk: "link_ok lk" and I: "run_inv lk h \<sigma>" and s: "vm_step lk i \<sigma> \<sigma>'"
  shows "\<exists>h'. run_inv lk h' \<sigma>'"
  using s
proof cases
  case (read a k rs)
  have "\<not> doomed (k (shared \<sigma>)) \<and> sound lk a (k (shared \<sigma>)) (h = Some i) (launched \<sigma>) (shared \<sigma>)"
    using run_invD(7) [OF I read(2)] interfere_refl [OF run_invD(1) [OF I]] by (simp add: sound.simps) blast
  then show ?thesis
    unfolding read(1) move_eq using run_invD(4,5) [OF I] by (intro exI run_inv_continue [OF I read(2)]) auto
next
  case (store a f k rs)
  then show ?thesis using run_inv_write [OF I] by blast
next
  case (access a su va f k rs)
  then show ?thesis using run_inv_access [OF I] by blast
next
  case (page_fault a su va f k rs st)
  then show ?thesis using run_inv_page_fault [OF lk I] by blast
next
  case (load a st rs)
  have "h \<noteq> Some i" using run_invD(7) [OF I load(2)] by simp
  from run_inv_leave [OF I load(2) this] show ?thesis unfolding load(1) by auto
next
  case (P a m x y k rs r)
  then show ?thesis using run_inv_P [OF I] by blast
next
  case (V a m x y k rs r)
  then show ?thesis using run_inv_V [OF I] by blast
next
  case (support a x y z k rs)
  then show ?thesis using run_inv_call [OF I support(2)] by auto
next
  case (doio a m x y k rs r)
  then show ?thesis using run_inv_call [OF I doio(2)] by auto
next
  case (create a x y su k rs j r)
  then show ?thesis using run_inv_create [OF I] by blast
next
  case (no_block a x y su k rs)
  then show ?thesis using run_inv_no_block [OF I] by blast
next
  case (terminate a y z k rs)
  have "h \<noteq> Some i" using sound_SyscallD(5) [OF run_invD(7) [OF I terminate(2)] run_invD(1) [OF I] refl] by simp
  from run_inv_leave [OF I terminate(2) this] show ?thesis unfolding terminate(1) by auto
next
  case (fault a st)
  have al: "alive (tasks \<sigma> i) b \<longleftrightarrow> b = a" for b using fault(2) by simp
  show ?thesis
    unfolding fault(1)
    by (rule exI, rule run_inv_enter [OF I al run_inv_user [OF I fault(2)]], simp add: pager_def, simp,
        rule sound_pager [OF lk], assumption)
      (use fault(3) in \<open>simp add: upd_ex_state_keeps, simp add: ex_state_upd\<close>)
next
  case (trap a st fuel)
  have al: "alive (tasks \<sigma> i) b \<longleftrightarrow> b = a" for b using trap(2) by simp
  show ?thesis
    unfolding trap(1)
    by (rule exI, rule run_inv_enter [OF I al run_inv_user [OF I trap(2)]], simp add: generalExceptionHandler_def, simp,
        rule sound_general [OF lk], assumption)
      (use trap(3) in \<open>simp add: ex_state_upd\<close>)
qed

section \<open>Runs\<close>

lemma run_inv_outside:
  assumes I: "run_inv lk h \<sigma>" and o: "outside_step (shared \<sigma>) s"
  shows "run_inv lk h (\<sigma>\<lparr>shared := s\<rparr>)"
proof -
  note I' = run_invD [OF I]
  have e: "get_pte s = get_pte (shared \<sigma>)" "asid_of s = asid_of (shared \<sigma>)" "ex_state s = ex_state (shared \<sigma>)"
    "swapPool s = swapPool (shared \<sigma>)" "fifoNext s = fifoNext (shared \<sigma>)"
    using o by (auto simp: outside_step_def get_pte_def asid_of_def ex_state_def fun_eq_iff)
  have i: "interfere lk a d k (launched \<sigma>) (shared \<sigma>) (launched \<sigma>) s" for a d k
    using I'(1) by (simp add: interfere_def Let_def same_table_def e)
  have "pool_ok lk (launched \<sigma>) s" if "h = None"
    using I'(5) [OF that] interfere_pool [OF i] by (simp add: pool_ok_def)
  moreover have "launched (\<sigma>\<lparr>shared := s\<rparr>) = launched \<sigma>" by (simp add: launched_def)
  moreover have "unique_asids (\<sigma>\<lparr>shared := s\<rparr>)" using I'(2) by (simp add: unique_asids_def)
  ultimately show ?thesis
    using I' sound_stable [OF I'(7) i] unfolding run_inv_def Let_def by (simp add: e)
qed

lemma run_inv_start:
  assumes "link_ok lk"
  shows "run_inv lk None \<lparr>tasks = (\<lambda>_. Off)(0 := User 1), shared = setup_support lk 1 (initSwapStructs lk s),
     sem = (\<lambda>m. of_bool (m \<in> mutexes lk))\<rparr>"
    (is "run_inv lk None ?\<sigma>")
proof -
  have L: "launched ?\<sigma> = {1}" and u: "unique_asids ?\<sigma>" by (auto simp: launched_def unique_asids_def split: if_splits)
  have "pool_ok lk {1} (setup_support lk 1 (initSwapStructs lk s))"
    using setup_support_pool [OF initSwapStructs_pool] by simp
  then show ?thesis
    using u unfolding run_inv_def Let_def L by (simp add: setup_support_sel mutexes_def)
qed

lemma vm_run_inv: "vm_run lk \<sigma> \<Longrightarrow> link_ok lk \<Longrightarrow> \<exists>h. run_inv lk h \<sigma>"
proof (induction rule: vm_run.induct)
  case (start s)
  then show ?case using run_inv_start by blast
next
  case (step \<sigma> i \<sigma>')
  then show ?case using run_inv_step by blast
next
  case (outside \<sigma> s)
  then show ?case using run_inv_outside by blast
qed

text \<open>The processes that execute their user programs.\<close>

definition users :: "vm_system \<Rightarrow> u32 set" where
  "users \<sigma> = {a. \<exists>i. tasks \<sigma> i = User a}"

lemma users_launched: "users \<sigma> \<subseteq> launched \<sigma>"
  by (auto simp: users_def launched_def) (metis alive.simps(2))

lemma users_isolated:
  assumes I: "run_inv lk h \<sigma>"
  shows "isolated lk (users \<sigma>) (shared \<sigma>)"
proof (cases h)
  case None
  show ?thesis
    using isolated_subset [OF isolated_pool_ok [OF run_invD(5) [OF I None] run_invD(1) [OF I]] users_launched] .
next
  case (Some i)
  note I' = run_invD [OF I]
  obtain a p rs where t: "tasks \<sigma> i = Handler a p rs" using I'(6) Some by blast
  have "a \<notin> users \<sigma>" if "\<not> doomed p"
  proof
    assume "a \<in> users \<sigma>"
    then obtain j where j: "tasks \<sigma> j = User a" by (auto simp: users_def)
    then have "alive (tasks \<sigma> j) a" "alive (tasks \<sigma> i) a" using t that by simp_all
    then show False using alive_unique [OF I'(2)] j t by fastforce
  qed
  moreover have "isolated lk (if doomed p then launched \<sigma> else launched \<sigma> - {a}) (shared \<sigma>)"
    using I'(7) [OF t] Some interfere_refl [OF I'(1)] by (cases p) (auto simp: sound.simps Let_def)
  ultimately show ?thesis using users_launched by (elim isolated_subset) auto
qed

text \<open>
  C6. The swap pool is consistent in every run of the support level: whatever processes run, fault,
  print, read and end, also when \<open>WriteTerminal\<close> or \<open>ReadTerminal\<close> faults on the buffer and the pager
  runs in the middle of it, and however the single steps of the handlers interleave, at most one process
  is in the mutex of the swap pool, the pool and the page tables agree whenever the mutex is free, and
  at every moment no frame belongs to two pages of the processes that execute user programs. It
  relies on flash devices that do not fail and on the shell being the only process that launches
  programs, none of which is running.
\<close>

theorem swap_pool_consistent_in_all_runs:
  assumes "vm_run lk \<sigma>" and "link_ok lk"
  shows "sem \<sigma> (a_swapPoolSem lk) \<in> {0, 1} \<and>
    (sem \<sigma> (a_swapPoolSem lk) = 1 \<longrightarrow> pool_ok lk (launched \<sigma>) (shared \<sigma>)) \<and>
    isolated lk (users \<sigma>) (shared \<sigma>)"
proof -
  obtain h where I: "run_inv lk h \<sigma>" using vm_run_inv assms by blast
  show ?thesis using run_invD(4,5) [OF I] users_isolated [OF I] by auto
qed

text \<open>A run: the shell faults and enters the mutex.\<close>

lemma demo_run:
  "\<exists>\<sigma> p. vm_run demo_lk \<sigma> \<and> tasks \<sigma> = (\<lambda>_. Off)(0 := Handler 1 (Read p) []) \<and> sem \<sigma> (a_swapPoolSem demo_lk) = 0"
proof -
  let ?st = "zero_state\<lparr>entry_hi := 0x80005040\<rparr>" and ?su = "getSupport demo_lk 1"
  define \<sigma>0 where "\<sigma>0 = \<lparr>tasks = (\<lambda>_. Off)(0 := User 1), shared = demo_vm 0, sem = (\<lambda>m. of_bool (m \<in> mutexes demo_lk))\<rparr>"
  have c: "cause ?st = 0" by (simp add: zero_state_def)
  have r0: "vm_run demo_lk \<sigma>0" unfolding \<sigma>0_def demo_vm_def by (rule vm_run.start)
  define s where "s = upd_ex_state ?su PGFAULTEXCEPT (\<lambda>_. ?st) (demo_vm 0)"
  define \<sigma>1 where "\<sigma>1 = (move 0 (Handler 1 (pager demo_lk) []) \<sigma>0)\<lparr>shared := s\<rparr>"
  have "vm_step demo_lk 0 \<sigma>0 \<sigma>1"
    using vm_step.fault [of \<sigma>0 0 1 ?st demo_lk] unfolding \<sigma>1_def s_def by (simp add: \<sigma>0_def demo_vm_sel)
  then have r1: "vm_run demo_lk \<sigma>1" by (rule vm_run.step [OF r0])
  define p where "p = (\<lambda>s. serve demo_lk ?su (vpnToIndex (entry_hi (ex_state s ?su PGFAULTEXCEPT))) (fifoNext s))"
  let ?read = "Read (\<lambda>s. if cause (ex_state s ?su PGFAULTEXCEPT) AND CAUSE_EXCCODE_MASK = EXC_MOD
    then terminate_self demo_lk ?su Return else P (a_swapPoolSem demo_lk) (Read p))"
  have t1: "tasks \<sigma>1 0 = Handler 1 (pager demo_lk) []" "shared \<sigma>1 = s" "sem \<sigma>1 = sem \<sigma>0" by (simp_all add: \<sigma>1_def move_def)
  define \<sigma>2 where "\<sigma>2 = move 0 (Handler 1 ?read []) \<sigma>1"
  have "vm_step demo_lk 0 \<sigma>1 \<sigma>2"
    using vm_step.support [OF t1(1) [unfolded pager_eq], of demo_lk] by (simp only: \<sigma>2_def p_def)
  then have r2: "vm_run demo_lk \<sigma>2" by (rule vm_run.step [OF r1])
  have t2: "tasks \<sigma>2 0 = Handler 1 ?read []" "shared \<sigma>2 = s" "sem \<sigma>2 = sem \<sigma>0" using t1 by (simp_all add: \<sigma>2_def move_def)
  define \<sigma>3 where "\<sigma>3 = move 0 (Handler 1 (P (a_swapPoolSem demo_lk) (Read p)) []) \<sigma>2"
  have "ex_state s ?su PGFAULTEXCEPT = ?st" by (simp add: s_def upd_ex_state_def ex_state_def)
  then have "vm_step demo_lk 0 \<sigma>2 \<sigma>3" using vm_step.read [OF t2(1), of demo_lk] t2(2) c by (simp add: \<sigma>3_def)
  then have r3: "vm_run demo_lk \<sigma>3" by (rule vm_run.step [OF r2])
  have t3: "tasks \<sigma>3 0 = Handler 1 (P (a_swapPoolSem demo_lk) (Read p)) []" "sem \<sigma>3 = sem \<sigma>0"
    using t2 by (simp_all add: \<sigma>3_def move_def)
  have one: "sem \<sigma>3 (a_swapPoolSem demo_lk) = 1" by (simp add: t3(2) \<sigma>0_def mutexes_def)
  then have r4: "vm_run demo_lk ((move 0 (Handler 1 (Read p) []) \<sigma>3)
      \<lparr>sem := (sem \<sigma>3)(a_swapPoolSem demo_lk := sem \<sigma>3 (a_swapPoolSem demo_lk) - 1)\<rparr>)"
    using vm_run.step [OF r3 vm_step.P [OF t3(1)]] by simp
  show ?thesis
    by (intro exI conjI, rule r4) (simp_all add: move_def one mutexes_def \<sigma>0_def \<sigma>1_def \<sigma>2_def \<sigma>3_def)
qed

theorem swap_pool_consistent_in_all_runs_witness:
  "\<exists>\<sigma> p. vm_run demo_lk \<sigma> \<and> tasks \<sigma> 0 = Handler 1 (Read p) [] \<and> sem \<sigma> (a_swapPoolSem demo_lk) = 0 \<and>
     isolated demo_lk (users \<sigma>) (shared \<sigma>)"
  using demo_run swap_pool_consistent_in_all_runs [OF _ demo_link] by (metis fun_upd_same)

end
