(* ===== verification/Vm_Progress.thy ===== *)
theory Vm_Progress
  imports Vm_Runs
begin

text \<open>
  The handlers do not block each other: in every state of every run, if a process in a handler waits
  for a mutex, then some process in a handler can make a step, unless a process that was terminated at
  a fault on its buffer holds the mutex of the terminal. It follows from the order of the mutexes, which
  \<open>Mutex_Order\<close> shows of the programs, and from the values of the semaphores.
\<close>

section \<open>The mutexes held\<close>

text \<open>\<open>H i\<close> is the list of the mutexes process \<open>i\<close> holds, the last one taken first.\<close>

definition frames_ok :: "slevel \<Rightarrow> bool" where
  "frames_ok s \<longleftrightarrow> asids_ok undefined {} s"

text \<open>\<open>B\<close> is what the programs that a page fault has interrupted hold: nothing, or the mutex of a terminal.\<close>

primrec ordered_stack :: "link_addrs \<Rightarrow> u32 \<Rightarrow> prog list \<Rightarrow> u32 list \<Rightarrow> bool" where
  "ordered_stack lk a [] B \<longleftrightarrow> B = []"
| "ordered_stack lk a (q # qs) B \<longleftrightarrow> (\<exists>m\<in>term_mutexes lk. B = [m]) \<and>
     (\<exists>B'. ordered_stack lk a qs B' \<and> orderly lk B' {a} q B)"

primrec ordered_task :: "link_addrs \<Rightarrow> task \<Rightarrow> u32 list \<Rightarrow> bool" where
  "ordered_task lk Off G \<longleftrightarrow> G = []"
| "ordered_task lk (User a) G \<longleftrightarrow> G = []"
| "ordered_task lk (Handler a p rs) G \<longleftrightarrow> (\<exists>B. ordered_stack lk a rs B \<and> orderly lk B {a} p G)"
| "ordered_task lk (Killed a rs) G \<longleftrightarrow> ordered_stack lk a rs G"

lemma ordered_stack_base: "ordered_stack lk a rs B \<Longrightarrow> base_ok lk B"
  by (cases rs) (auto simp: base_ok_def)

lemma ordered_leave:
  assumes "ordered_stack lk a rs B"
  shows "ordered_task lk (resumed a rs) B" "ordered_task lk (gone a rs) B"
  using assms by (auto simp: resumed_def gone_def split: list.splits)

definition locks_inv :: "link_addrs \<Rightarrow> (nat \<Rightarrow> u32 list) \<Rightarrow> vm_system \<Rightarrow> bool" where
  "locks_inv lk H \<sigma> \<longleftrightarrow> frames_ok (shared \<sigma>) \<and>
     (\<forall>i. ordered_task lk (tasks \<sigma> i) (H i)) \<and>
     (\<forall>i. sorted_wrt (\<lambda>m m'. rank lk m' < rank lk m) (H i) \<and> list_all (\<lambda>m. rank lk m \<noteq> 0) (H i)) \<and>
     (\<forall>m. rank lk m \<noteq> 0 \<longrightarrow> sem \<sigma> m = (if \<exists>i. m \<in> set (H i) then 0 else 1)) \<and>
     (\<forall>i j m. m \<in> set (H i) \<longrightarrow> m \<in> set (H j) \<longrightarrow> i = j)"

lemma asids_ok_iff:
  "asids_ok lk L s \<longleftrightarrow> frames_ok s \<and> (\<forall>a\<in>L. asid_of s (getSupport lk a) = a)"
  by (auto simp: frames_ok_def asids_ok_def)

lemma locks_invD:
  assumes "locks_inv lk H \<sigma>"
  shows "frames_ok (shared \<sigma>)" "ordered_task lk (tasks \<sigma> i) (H i)"
    "tasks \<sigma> i = Handler a p rs \<Longrightarrow> \<exists>B. ordered_stack lk a rs B \<and> orderly lk B {a} p (H i)"
    "sorted_wrt (\<lambda>m m'. rank lk m' < rank lk m) (H i)" "list_all (\<lambda>m. rank lk m \<noteq> 0) (H i)"
    "rank lk m \<noteq> 0 \<Longrightarrow> sem \<sigma> m = (if \<exists>i. m \<in> set (H i) then 0 else 1)"
    "m \<in> set (H i) \<Longrightarrow> m \<in> set (H j) \<Longrightarrow> i = j"
proof -
  have o: "ordered_task lk (tasks \<sigma> i) (H i)" using assms by (simp add: locks_inv_def)
  then show "ordered_task lk (tasks \<sigma> i) (H i)" "tasks \<sigma> i = Handler a p rs \<Longrightarrow> \<exists>B. ordered_stack lk a rs B \<and> orderly lk B {a} p (H i)" by simp_all
qed (use assms in \<open>simp_all add: locks_inv_def\<close>)

text \<open>A step of process \<open>i\<close> that leaves the other processes and their mutexes alone.\<close>

lemma locks_inv_upd:
  assumes I: "locks_inv lk H \<sigma>" and fr: "frames_ok s'" and t: "ordered_task lk t Hi"
    and Hi: "sorted_wrt (\<lambda>m m'. rank lk m' < rank lk m) Hi" "list_all (\<lambda>m. rank lk m \<noteq> 0) Hi"
    and sem: "\<And>m. rank lk m \<noteq> 0 \<Longrightarrow> w m = (if m \<in> set Hi \<or> (\<exists>j. j \<noteq> i \<and> m \<in> set (H j)) then 0 else 1)"
    and own: "\<And>j m. j \<noteq> i \<Longrightarrow> m \<in> set (H j) \<Longrightarrow> m \<notin> set Hi"
  shows "locks_inv lk (H(i := Hi)) (\<sigma>\<lparr>tasks := (tasks \<sigma>)(i := t), shared := s', sem := w\<rparr>)"
proof -
  let ?H = "H(i := Hi)"
  have ex: "(\<exists>j. m \<in> set (?H j)) \<longleftrightarrow> m \<in> set Hi \<or> (\<exists>j. j \<noteq> i \<and> m \<in> set (H j))" for m
    by auto
  have one: "j = k" if "m \<in> set (?H j)" "m \<in> set (?H k)" for j k m
    using that own locks_invD(7) [OF I, of m j k] by (auto split: if_splits)
  have "ordered_task lk (((tasks \<sigma>)(i := t)) j) (?H j)" "sorted_wrt (\<lambda>m m'. rank lk m' < rank lk m) (?H j)"
    "list_all (\<lambda>m. rank lk m \<noteq> 0) (?H j)" for j
    using locks_invD(2,4,5) [OF I, of j] t Hi by auto
  moreover have "\<forall>m. rank lk m \<noteq> 0 \<longrightarrow> w m = (if \<exists>j. m \<in> set (?H j) then 0 else 1)"
    unfolding ex using sem by blast
  moreover have "\<forall>j k m. m \<in> set (?H j) \<longrightarrow> m \<in> set (?H k) \<longrightarrow> j = k" using one by blast
  moreover have "tasks (\<sigma>\<lparr>tasks := (tasks \<sigma>)(i := t), shared := s', sem := w\<rparr>) = (tasks \<sigma>)(i := t)"
    "shared (\<sigma>\<lparr>tasks := (tasks \<sigma>)(i := t), shared := s', sem := w\<rparr>) = s'"
    "sem (\<sigma>\<lparr>tasks := (tasks \<sigma>)(i := t), shared := s', sem := w\<rparr>) = w" by simp_all
  ultimately show ?thesis using fr unfolding locks_inv_def by (simp only:) blast
qed

lemma locks_inv_same:
  assumes I: "locks_inv lk H \<sigma>" and fr: "frames_ok s'" and t: "ordered_task lk t (H i)"
    and sem: "\<And>m. rank lk m \<noteq> 0 \<Longrightarrow> w m = sem \<sigma> m"
  shows "locks_inv lk H (\<sigma>\<lparr>tasks := (tasks \<sigma>)(i := t), shared := s', sem := w\<rparr>)"
proof -
  have "(\<exists>j. m \<in> set (H j)) \<longleftrightarrow> m \<in> set (H i) \<or> (\<exists>j. j \<noteq> i \<and> m \<in> set (H j))" for m by auto
  then have "locks_inv lk (H(i := H i)) (\<sigma>\<lparr>tasks := (tasks \<sigma>)(i := t), shared := s', sem := w\<rparr>)"
    using locks_invD(4-7) [OF I] sem by (intro locks_inv_upd [OF I fr t]) auto
  then show ?thesis by simp
qed

section \<open>Every step keeps the invariant\<close>

lemma locks_SyscallD:
  assumes I: "locks_inv lk H \<sigma>" and t: "tasks \<sigma> i = Handler a (Syscall c m y z k) rs"
  obtains B G' where "next_held lk B c m (H i) = Some G'" "ordered_stack lk a rs B"
    "\<And>r. (c = GETSUPPORTPTR \<Longrightarrow> r = getSupport lk a) \<Longrightarrow> ordered_task lk (Handler a (k r) rs) G'"
proof -
  obtain B where B: "ordered_stack lk a rs B" "orderly lk B {a} (Syscall c m y z k) (H i)" using locks_invD(3) [OF I t] by blast
  then obtain G' where "next_held lk B c m (H i) = Some G'"
    "\<And>r. (c = GETSUPPORTPTR \<Longrightarrow> r = getSupport lk a) \<Longrightarrow> orderly lk B {a} (k r) G'" by (auto split: option.splits)
  with B(1) show ?thesis by (intro that) auto
qed

lemma locks_inv_call:
  assumes I: "locks_inv lk H \<sigma>" and t: "tasks \<sigma> i = Handler a (Syscall c m y z k) rs"
    and c: "c \<in> {GETSUPPORTPTR, DOIO, CREATEPROCESS}" and r: "c = GETSUPPORTPTR \<longrightarrow> r = getSupport lk a"
  shows "locks_inv lk H (move i (Handler a (k r) rs) \<sigma>)"
proof -
  obtain B G' where g: "next_held lk B c m (H i) = Some G'" "ordered_task lk (Handler a (k r) rs) G'"
    using locks_SyscallD [OF I t] r by metis
  moreover have "G' = H i" using g(1) c by (auto simp: next_held_def split: if_splits)
  ultimately show ?thesis
    unfolding move_eq by (intro locks_inv_same [OF I locks_invD(1) [OF I]]) simp_all
qed

lemma locks_inv_P:
  assumes I: "locks_inv lk H \<sigma>" and t: "tasks \<sigma> i = Handler a (Syscall PASSEREN m y z k) rs" and pos: "0 < sem \<sigma> m"
  shows "\<exists>H'. locks_inv lk H' ((move i (Handler a (k r) rs) \<sigma>)\<lparr>sem := (sem \<sigma>)(m := sem \<sigma> m - 1)\<rparr>)"
proof -
  obtain B G' where g: "next_held lk B PASSEREN m (H i) = Some G'" "ordered_task lk (Handler a (k r) rs) G'"
    by (rule locks_SyscallD [OF I t]) simp
  note I' = locks_invD [OF I]
  show ?thesis
  proof (cases "rank lk m = 0")
    case True
    then have "H i = []" "G' = []" using g(1) by (auto simp: next_held_def split: if_splits)
    then show ?thesis
      unfolding move_sem using g(2) True by (intro exI [of _ H] locks_inv_same [OF I I'(1)]) auto
  next
    case False
    then have G': "G' = m # H i" and hr: "list_all (\<lambda>h. rank lk h < rank lk m) (H i)"
      using g(1) by (auto simp: next_held_def split: if_splits)
    have free: "m \<notin> set (H j)" for j using I'(6) [OF False] pos by (auto split: if_splits)
    have "locks_inv lk (H(i := G')) (\<sigma>\<lparr>tasks := (tasks \<sigma>)(i := Handler a (k r) rs), shared := shared \<sigma>,
        sem := (sem \<sigma>)(m := sem \<sigma> m - 1)\<rparr>)"
    proof (rule locks_inv_upd [OF I I'(1)])
      show "((sem \<sigma>)(m := sem \<sigma> m - 1)) n = (if n \<in> set G' \<or> (\<exists>j. j \<noteq> i \<and> n \<in> set (H j)) then 0 else 1)"
        if "rank lk n \<noteq> 0" for n
      proof -
        have "(\<exists>j. n \<in> set (H j)) \<longleftrightarrow> n \<in> set (H i) \<or> (\<exists>j. j \<noteq> i \<and> n \<in> set (H j))" by auto
        then show ?thesis using I'(6) [OF that] I'(6) [OF False] free by (cases "n = m") (simp_all add: G')
      qed
    qed (use g(2) I'(4,5) [of i] free hr False I'(7) in \<open>auto simp: G' list_all_iff\<close>)
    then show ?thesis unfolding move_sem by blast
  qed
qed

lemma locks_inv_V:
  assumes I: "locks_inv lk H \<sigma>" and t: "tasks \<sigma> i = Handler a (Syscall VERHOGEN m y z k) rs"
  shows "\<exists>H'. locks_inv lk H' ((move i (Handler a (k r) rs) \<sigma>)\<lparr>sem := (sem \<sigma>)(m := sem \<sigma> m + 1)\<rparr>)"
proof -
  obtain B G' where g: "next_held lk B VERHOGEN m (H i) = Some G'" "ordered_task lk (Handler a (k r) rs) G'"
    by (rule locks_SyscallD [OF I t]) simp
  note I' = locks_invD [OF I]
  show ?thesis
  proof (cases "rank lk m = 0")
    case True
    then have "G' = H i" using g(1) by (auto simp: next_held_def split: if_splits)
    then show ?thesis
      unfolding move_sem using g(2) True by (intro exI [of _ H] locks_inv_same [OF I I'(1)]) auto
  next
    case False
    then have H: "H i = m # G'" using g(1) by (auto simp: next_held_def split: list.splits if_splits)
    have out: "m \<notin> set G'" "\<And>j. j \<noteq> i \<Longrightarrow> m \<notin> set (H j)"
      using I'(4) [of i] I'(7) [of m i] by (auto simp: H)
    have keep: "n \<in> set G' \<longleftrightarrow> n \<in> set (H i) \<and> n \<noteq> m" for n using out(1) by (auto simp: H)
    have "locks_inv lk (H(i := G')) (\<sigma>\<lparr>tasks := (tasks \<sigma>)(i := Handler a (k r) rs), shared := shared \<sigma>,
        sem := (sem \<sigma>)(m := sem \<sigma> m + 1)\<rparr>)"
    proof (rule locks_inv_upd [OF I I'(1)])
      show "((sem \<sigma>)(m := sem \<sigma> m + 1)) n = (if n \<in> set G' \<or> (\<exists>j. j \<noteq> i \<and> n \<in> set (H j)) then 0 else 1)"
        if "rank lk n \<noteq> 0" for n
      proof (cases "n = m")
        case True
        have "sem \<sigma> m = 0" using I'(6) [OF False] by (auto simp: H intro: exI [of _ i])
        then show ?thesis using True out by auto
      next
        case False
        have "(\<exists>j. n \<in> set (H j)) \<longleftrightarrow> n \<in> set G' \<or> (\<exists>j. j \<noteq> i \<and> n \<in> set (H j))" using False by (auto simp: keep)
        then show ?thesis using I'(6) [OF that] False by simp
      qed
    qed (use g(2) I'(4,5) [of i] I'(7) in \<open>auto simp: H\<close>)
    then show ?thesis unfolding move_sem by blast
  qed
qed

lemma locks_inv_access:
  assumes R: "run_inv lk h \<sigma>" and I: "locks_inv lk H \<sigma>" and t: "tasks \<sigma> i = Handler a (Access su va f k) rs"
  shows "locks_inv lk H ((move i (Handler a (k (shared \<sigma>)) rs) \<sigma>)\<lparr>shared := f (shared \<sigma>)\<rparr>)"
    "\<exists>m\<in>term_mutexes lk. H i = [m]" "\<exists>B. ordered_stack lk a rs B \<and> orderly lk B {a} (Access su va f k) (H i)"
proof -
  note I' = locks_invD [OF I]
  obtain B where B: "ordered_stack lk a rs B" "orderly lk B {a} (Access su va f k) (H i)" using I'(3) [OF t] by blast
  have "asids_ok lk {a} (shared \<sigma>)"
    using run_invD(3) [OF R, of a] alive_launched [of \<sigma> i a] t I'(1) by (simp add: asids_ok_iff)
  then have "orderly lk B {a} (k (shared \<sigma>)) (H i)" "frames_ok (f (shared \<sigma>))"
    using B(2) by (auto simp: asids_ok_iff)
  then show "locks_inv lk H ((move i (Handler a (k (shared \<sigma>)) rs) \<sigma>)\<lparr>shared := f (shared \<sigma>)\<rparr>)"
    unfolding move_sem using B(1) by (intro locks_inv_same [OF I]) auto
  show "\<exists>m\<in>term_mutexes lk. H i = [m]" using B(2) by simp
  show "\<exists>B. ordered_stack lk a rs B \<and> orderly lk B {a} (Access su va f k) (H i)" using B by blast
qed

lemma locks_inv_page_fault:
  assumes lk: "link_ok lk" and R: "run_inv lk h \<sigma>" and I: "locks_inv lk H \<sigma>"
    and t: "tasks \<sigma> i = Handler a (Access su va f k) rs" and fr: "frames_ok s"
  shows "locks_inv lk H ((move i (Handler a (pager lk) (Access su va f k # rs)) \<sigma>)\<lparr>shared := s\<rparr>)"
proof -
  have a: "a \<in> {1..8}" using run_invD(1) [OF R] alive_launched [of \<sigma> i a] t by auto
  have "ordered_stack lk a (Access su va f k # rs) (H i)"
    using locks_inv_access(2,3) [OF R I t] by (simp del: orderly.simps)
  moreover have "orderly lk (H i) {a} (pager lk) (H i)"
    by (rule orderly_pager [OF lk ordered_stack_base [OF calculation]]) (use a in auto)
  ultimately show ?thesis unfolding move_sem by (intro locks_inv_same [OF I fr]) (auto simp del: orderly.simps ordered_stack.simps)
qed

lemma locks_inv_step:
  assumes lk: "link_ok lk" and R: "run_inv lk h \<sigma>" and I: "locks_inv lk H \<sigma>" and s: "vm_step lk i \<sigma> \<sigma>'"
  shows "\<exists>H'. locks_inv lk H' \<sigma>'"
  using s
proof cases
  note I' = locks_invD [OF I]
  have asid: "asids_ok lk {a} (shared \<sigma>)" if "tasks \<sigma> i = Handler a p rs" "\<not> doomed p" for a p rs
    using run_invD(3) [OF R, of a] alive_launched [of \<sigma> i a] that I'(1) by (simp add: asids_ok_iff)
  have ex: "frames_ok (upd_ex_state su e g (shared \<sigma>))" for su e g
    using I'(1) by (simp add: frames_ok_def asids_ok_def upd_ex_state_keeps)
  have none: "H i = []" if "tasks \<sigma> i = User a" for a using I'(2) [of i] that by simp
  {
    case (read a k rs)
    have "ordered_task lk (Handler a (k (shared \<sigma>)) rs) (H i)" using I'(3) [OF read(2)] asid [OF read(2)] by auto
    then show ?thesis unfolding read(1) move_eq by (intro exI [of _ H] locks_inv_same [OF I I'(1)]) auto
  next
    case (store a f k rs)
    have "ordered_task lk (Handler a k rs) (H i)" "frames_ok (f (shared \<sigma>))"
      using I'(3) [OF store(2)] asid [OF store(2)] by (auto simp: asids_ok_iff)
    then show ?thesis unfolding store(1) move_sem by (intro exI [of _ H] locks_inv_same [OF I]) auto
  next
    case (access a su va f k rs)
    then show ?thesis using locks_inv_access(1) [OF R I] by blast
  next
    case (page_fault a su va f k rs st)
    then show ?thesis using locks_inv_page_fault [OF lk R I _ ex] by blast
  next
    case (load a st rs)
    then show ?thesis
      unfolding load(1) move_eq using I'(3) [OF load(2)] ordered_leave(1)
      by (intro exI [of _ H] locks_inv_same [OF I I'(1)]) auto
  next
    case (P a m x y k rs r)
    then show ?thesis using locks_inv_P [OF I] by blast
  next
    case (V a m x y k rs r)
    then show ?thesis using locks_inv_V [OF I] by blast
  next
    case (support a x y z k rs)
    then show ?thesis using locks_inv_call [OF I support(2)] by auto
  next
    case (doio a m x y k rs r)
    then show ?thesis using locks_inv_call [OF I doio(2)] by auto
  next
    case (create a x y su k rs j r)
    have I1: "locks_inv lk H (move i (Handler a (k r) rs) \<sigma>)" using locks_inv_call [OF I create(2)] by auto
    have "tasks (move i (Handler a (k r) rs) \<sigma>) j = Off" using create(2,3) by (auto simp: move_def)
    then have "H j = []" using locks_invD(2) [OF I1, of j] by simp
    then show ?thesis
      unfolding create(1) move_eq [of j] by (intro exI [of _ H] locks_inv_same [OF I1 locks_invD(1) [OF I1]]) auto
  next
    case (no_block a x y su k rs)
    then show ?thesis using locks_inv_call [OF I no_block(2)] by auto
  next
    case (terminate a y z k rs)
    obtain B G where "next_held lk B TERMPROCESS 0 (H i) = Some G" "ordered_stack lk a rs B"
      using locks_SyscallD [OF I terminate(2)] by blast
    then have "ordered_task lk (gone a rs) (H i)" using ordered_leave(2) by (auto simp: next_held_def split: if_splits)
    then show ?thesis unfolding terminate(1) move_eq by (intro exI [of _ H] locks_inv_same [OF I I'(1)]) auto
  next
    case (fault a st)
    have "orderly lk [] {a} (pager lk) []"
      using run_invD(1) [OF R] alive_launched [of \<sigma> i a] fault(2) by (intro orderly_pager [OF lk]) auto
    then show ?thesis
      unfolding fault(1) move_sem using none [OF fault(2)] by (intro exI [of _ H] locks_inv_same [OF I ex]) auto
  next
    case (trap a st fuel)
    have "orderly lk [] {a} (generalExceptionHandler fuel lk) []"
      using run_invD(1) [OF R] alive_launched [of \<sigma> i a] trap(2) by (intro orderly_generalExceptionHandler [OF lk]) auto
    then show ?thesis
      unfolding trap(1) move_sem using none [OF trap(2)] by (intro exI [of _ H] locks_inv_same [OF I ex]) auto
  }
qed

lemma ranked_mutexes: "rank lk m \<noteq> 0 \<Longrightarrow> m \<in> mutexes lk"
  by (auto simp: rank_def mutexes_def term_mutexes_def flash_mutexes_def TERMW_MUTEX_def TERMR_MUTEX_def FLASH_MUTEX_def
      split: if_splits)

lemma vm_run_locks:
  "vm_run lk \<sigma> \<Longrightarrow> link_ok lk \<Longrightarrow> \<exists>H. locks_inv lk H \<sigma>"
proof (induction rule: vm_run.induct)
  case (start s)
  have "frames_ok (setup_support lk 1 (initSwapStructs lk s))"
    by (simp add: frames_ok_def asids_ok_def setup_support_sel initSwapStructs_sel)
  then show ?case
    using ranked_mutexes [of lk] by (intro exI [of _ "\<lambda>_. []"]) (simp add: locks_inv_def)
next
  case (step \<sigma> i \<sigma>')
  then show ?case using locks_inv_step vm_run_inv by meson
next
  case (outside \<sigma> s)
  then obtain H where I: "locks_inv lk H \<sigma>" by blast
  then have "frames_ok s" using outside.hyps(2) locks_invD(1) [OF I] by (simp add: outside_step_def frames_ok_def asids_ok_def)
  then have "locks_inv lk H (\<sigma>\<lparr>shared := s\<rparr>)" using I by (simp add: locks_inv_def)
  then show ?case by blast
qed

section \<open>Progress\<close>

text \<open>A process in a handler that cannot make a step waits for a semaphore, or its line is longer than its fuel.\<close>

lemma access_steps:
  assumes "tasks \<sigma> i = Handler a (Access su va f k) rs"
  shows "\<exists>\<sigma>'. vm_step lk i \<sigma> \<sigma>'"
proof (cases "resident (shared \<sigma>) su va \<or> cached (shared \<sigma>) su va")
  case True
  from vm_step.access [OF assms this] show ?thesis by blast
next
  case False
  moreover have "vpn_of (entry_hi (zero_state\<lparr>entry_hi := va\<rparr>)) = vpn_of va" by simp
  ultimately show ?thesis using vm_step.page_fault [OF assms] by blast
qed

lemma handler_steps:
  assumes R: "run_inv lk h \<sigma>" and t: "tasks \<sigma> i = Handler a p rs" and f: "p \<noteq> No_fuel"
  shows "(\<exists>\<sigma>'. vm_step lk i \<sigma> \<sigma>') \<or> (\<exists>m x y k. p = Syscall PASSEREN m x y k \<and> sem \<sigma> m \<le> 0)"
proof (cases p)
  case (Syscall c m y z k)
  note t' = t [unfolded Syscall]
  have "c \<in> {PASSEREN, VERHOGEN, DOIO, GETSUPPORTPTR, CREATEPROCESS} \<or> c = TERMPROCESS \<and> m = 0"
    using run_invD(7) [OF R t'] by (simp only: sound_Syscall_iff)
  then show ?thesis
    using t' Syscall vm_step.P [of \<sigma> i a m y z k rs lk] vm_step.V [of \<sigma> i a m y z k rs lk] vm_step.support [of \<sigma> i a m y z k rs lk]
      vm_step.doio [of \<sigma> i a m y z k rs lk READY] vm_step.no_block [of \<sigma> i a m y z k rs lk] vm_step.terminate [of \<sigma> i a y z k rs lk]
    by (cases "0 < sem \<sigma> m") auto
next
  case (Read k)
  then show ?thesis using vm_step.read t by blast
next
  case (Write g k)
  then show ?thesis using vm_step.store t by blast
next
  case (Access su va g k)
  then show ?thesis using access_steps t by blast
next
  case (Load st)
  then show ?thesis using vm_step.load t by blast
qed (use run_invD(7) [OF R t] f in auto)

text \<open>A process that has been terminated at a fault holds the mutex of a terminal, and no other.\<close>

lemma killed_holds:
  assumes "locks_inv lk H \<sigma>" and "tasks \<sigma> j = Killed b rs" and "m \<in> set (H j)"
  shows "m \<in> term_mutexes lk"
  using locks_invD(2) [OF assms(1), of j] assms(2,3) by (cases rs) auto

lemma progress_from:
  assumes lk: "link_ok lk" and R: "run_inv lk h \<sigma>" and I: "locks_inv lk H \<sigma>"
    and fuel: "\<And>j b rs. tasks \<sigma> j \<noteq> Handler b No_fuel rs"
    and t: "tasks \<sigma> i = Handler a p rs" and w: "\<And>m x y k. p = Syscall PASSEREN m x y k \<Longrightarrow>
      rank lk m \<noteq> 0 \<and> (rank lk m = 1 \<longrightarrow> (\<forall>j b rs. tasks \<sigma> j \<noteq> Killed b rs))"
  shows "\<exists>j b q qs \<sigma>'. tasks \<sigma> j = Handler b q qs \<and> vm_step lk j \<sigma> \<sigma>'"
  using t w
proof (induction "case p of Syscall c m x y k \<Rightarrow> 3 - rank lk m | _ \<Rightarrow> 0" arbitrary: i a p rs rule: less_induct)
  case less
  note I' = locks_invD [OF I]
  show ?case
  proof (cases "\<exists>\<sigma>'. vm_step lk i \<sigma> \<sigma>'")
    case True
    then show ?thesis using less.prems(1) by blast
  next
    case False
    then obtain m x y k where p: "p = Syscall PASSEREN m x y k" and s: "sem \<sigma> m \<le> 0"
      using handler_steps [OF R less.prems(1)] fuel less.prems(1) by blast
    have m: "rank lk m \<noteq> 0" "rank lk m = 1 \<longrightarrow> (\<forall>j b rs. tasks \<sigma> j \<noteq> Killed b rs)" using less.prems(2) [OF p] by simp_all
    obtain j where j: "m \<in> set (H j)" using I'(6) [OF m(1)] s by (auto split: if_splits)
    have "tasks \<sigma> j \<noteq> Killed b rs" for b rs
    proof
      assume kd: "tasks \<sigma> j = Killed b rs"
      have "rank lk m = 1" using killed_holds [OF I kd j] by (simp add: rank_def)
      then show False using m(2) kd by blast
    qed
    moreover have "tasks \<sigma> j \<noteq> Off" "tasks \<sigma> j \<noteq> User b" for b using I'(2) [of j] j by auto
    ultimately obtain b q qs where q: "tasks \<sigma> j = Handler b q qs" by (metis task.exhaust)
    have up: "rank lk m < rank lk m'" if q': "q = Syscall PASSEREN m' x' y' k'" for m' x' y' k'
    proof -
      obtain B G where "next_held lk B PASSEREN m' (H j) = Some G"
        using I'(3) [OF q] q' by (auto split: option.splits)
      then show ?thesis using j by (auto simp: next_held_def list_all_iff split: if_splits)
    qed
    show ?thesis
    proof (cases "\<exists>m' x' y' k'. q = Syscall PASSEREN m' x' y' k'")
      case True
      then obtain m' x' y' k' where q': "q = Syscall PASSEREN m' x' y' k'" by blast
      have "rank lk m' \<le> 3" by (simp add: rank_def)
      then have "(case q of Syscall c m x y k \<Rightarrow> 3 - rank lk m | _ \<Rightarrow> 0) < (case p of Syscall c m x y k \<Rightarrow> 3 - rank lk m | _ \<Rightarrow> 0)"
        using up [OF q'] by (simp add: q' p)
      from less.hyps [OF this q] show ?thesis using up m(1) by fastforce
    next
      case False
      then show ?thesis using handler_steps [OF R q] fuel q by blast
    qed
  qed
qed

text \<open>
  C9. The handlers of the support level do not deadlock, but for the mutex of a terminal: in every run,
  at every moment, if a process is in a handler, or in the pager that serves a fault of a handler, then
  some process in a handler can make a step; whoever waits for a mutex waits, perhaps through others,
  for a process that can go on. This is said of a process that does not wait for the end of a program
  it has launched, and, if it waits for the mutex of a terminal, only as long as no process has been
  terminated at a fatal fault inside \<open>WriteTerminal\<close> or \<open>ReadTerminal\<close>: such a process keeps the mutex
  (\<open>fatal_fault_keeps_terminal\<close>). The fuel of the lines that are being read must not be used up.
\<close>

theorem handlers_never_deadlock:
  assumes "vm_run lk \<sigma>" and "link_ok lk" and "tasks \<sigma> i = Handler a p rs"
    and "\<forall>m x y k. p = Syscall PASSEREN m x y k \<longrightarrow> m \<in> {a_swapPoolSem lk} \<union> term_mutexes lk \<union> flash_mutexes lk"
    and "\<forall>m x y k. p = Syscall PASSEREN m x y k \<longrightarrow> m \<in> term_mutexes lk \<longrightarrow> (\<forall>j b qs. tasks \<sigma> j \<noteq> Killed b qs)"
    and "\<forall>j b qs. tasks \<sigma> j \<noteq> Handler b No_fuel qs"
  shows "\<exists>j b q qs \<sigma>'. tasks \<sigma> j = Handler b q qs \<and> vm_step lk j \<sigma> \<sigma>'"
proof -
  obtain h H where "run_inv lk h \<sigma>" "locks_inv lk H \<sigma>" using vm_run_inv vm_run_locks assms(1,2) by blast
  moreover have "rank lk m \<noteq> 0" if "m \<in> {a_swapPoolSem lk} \<union> term_mutexes lk \<union> flash_mutexes lk" for m
    using that by (auto simp: rank_def)
  moreover have "m \<in> term_mutexes lk" if "rank lk m = 1" for m using that by (auto simp: rank_def split: if_splits)
  ultimately show ?thesis using assms(4-6) by (intro progress_from [OF assms(2) _ _ _ assms(3)]) auto
qed

theorem handlers_never_deadlock_witness:
  "\<exists>\<sigma> j b q qs \<sigma>'. vm_run demo_lk \<sigma> \<and> sem \<sigma> (a_swapPoolSem demo_lk) = 0 \<and> tasks \<sigma> j = Handler b q qs \<and> vm_step demo_lk j \<sigma> \<sigma>'"
proof -
  obtain \<sigma> p where r: "vm_run demo_lk \<sigma>" and t: "tasks \<sigma> = (\<lambda>_. Off)(0 := Handler 1 (Read p) [])"
    and s: "sem \<sigma> (a_swapPoolSem demo_lk) = 0" using demo_run by blast
  have "tasks \<sigma> 0 = Handler 1 (Read p) []" "\<forall>j b qs. tasks \<sigma> j \<noteq> Handler b No_fuel qs" by (simp_all add: t)
  from handlers_never_deadlock [OF r demo_link this(1) _ _ this(2)]
  obtain j b q qs \<sigma>' where "tasks \<sigma> j = Handler b q qs" "vm_step demo_lk j \<sigma> \<sigma>'" by auto
  then show ?thesis by (intro exI conjI) (rule r, rule s)
qed

end
