(* ===== verification/Syscall_Path.thy ===== *)
theory Syscall_Path
  imports Nucleus_Services Sys_Services
begin

text \<open>The way of a system call of a user program through the Nucleus and the support level.\<close>

text \<open>
  C34. A service of the support level returns to the wrong instruction. The Nucleus advances the
  program counter of a system call before it passes the call up, and \<open>supSyscallHandler\<close> advances it
  again: whatever the service did and its result, the user program goes on eight bytes after the
  \<open>ecall\<close>, and the instruction that follows the \<open>ecall\<close> is not executed.
\<close>

theorem passed_up_call_skips_instruction:
  assumes p: "currentProcess s = Some p" and a: "a = p_supportStruct (pcbs s p)" "a \<noteq> 0"
    and c: "cause (bios_state s) = EXC_ECU" and n: "sint (reg_a0 (bios_state s)) \<ge> 1"
  shows "\<exists>sp st pc u. exceptionHandler s = Some (Ldcxt sp st pc, u) \<and>
    (\<forall>env n l su r. supports l su = support_mem u a \<longrightarrow>
      (\<exists>x l'. run (return_to_user su r) env n l = ([], Loaded x, l') \<and>
        pc_epc x = pc_epc (bios_state s) + 2 * WORDLEN \<and> reg_a0 x = r))"
proof -
  have "\<not> sint (reg_a0 (bios_state s)) < 0" using n by simp
  then show ?thesis
    using assms by (auto simp: exceptionHandler_def syscallHandler_def passUpOrDie_def Let_def updateCPUTime_sel
        return_to_user_def upd_ex_state_def ex_state_def)
qed

theorem passed_up_call_skips_instruction_witness:
  "\<exists>sp st pc u. exceptionHandler (demo_sup ((syscall_state 4 0x80001000 5 0)\<lparr>cause := 8, pc_epc := 0x80000100\<rparr>)) =
      Some (Ldcxt sp st pc, u) \<and>
    (\<exists>x l'. run (return_to_user 0x20003000 5) (quiet (\<lambda>_. 0)) 0 ((demo_vm 0)\<lparr>supports := support_mem u\<rparr>) =
      ([], Loaded x, l') \<and> pc_epc x = 0x80000108)"
proof -
  let ?s = "demo_sup ((syscall_state 4 0x80001000 5 0)\<lparr>cause := 8, pc_epc := 0x80000100\<rparr>)"
  have "currentProcess ?s = Some 0" "0x20003000 = p_supportStruct (pcbs ?s 0)"
    "bios_state ?s = (syscall_state 4 0x80001000 5 0)\<lparr>cause := 8, pc_epc := 0x80000100\<rparr>"
    by (simp_all add: demo_sup)
  note path = passed_up_call_skips_instruction [OF this(1,2)] and b = this(3)
  obtain sp st pc u where e: "exceptionHandler ?s = Some (Ldcxt sp st pc, u)"
    and r: "\<forall>env n l su r. supports l su = support_mem u 0x20003000 \<longrightarrow>
      (\<exists>x l'. run (return_to_user su r) env n l = ([], Loaded x, l') \<and> pc_epc x = 0x80000108 \<and> reg_a0 x = r)"
    using path unfolding b by (simp del: split_paired_Ex) blast
  have "supports ((demo_vm 0)\<lparr>supports := support_mem u\<rparr>) 0x20003000 = support_mem u 0x20003000" by simp
  with e r show ?thesis by blast
qed

end
