(* ===== verification/User_Programs.thy ===== *)
theory User_Programs
  imports Pandos_Types "HOL-Library.Signed_Division"
begin

text \<open>
  The user programs of \<^verbatim>\<open>testers\<close>: the library \<^verbatim>\<open>h/libuser.h\<close>, the shell, the calculator and the
  small ones. A program is a tree of its system calls; a string is the list of its bytes before
  the end, and a buffer on the stack is the memory at and around it, by offset. The shell runs until
  it is told to exit, so it takes a bound on the number of its rounds (\<open>fuel\<close>).
\<close>

type_synonym bytes = "8 word list"
type_synonym buffer = "int \<Rightarrow> 8 word"

definition str :: "string \<Rightarrow> bytes" where
  "str s = map (\<lambda>c. of_nat (of_char c)) s"

abbreviation (input) NL :: char where "NL \<equiv> CHR 0x0A"

section \<open>System calls\<close>

text \<open>
  \<open>Readline buf k\<close>: \<open>k\<close> gets the result and the memory around \<open>buf\<close> after the call. \<open>Finish\<close> is the
  return from \<open>main\<close>.
\<close>

datatype uprog =
    Finish
  | Print bytes uprog
  | Readline buffer "int \<Rightarrow> buffer \<Rightarrow> uprog"
  | Execute int uprog
  | Terminate uprog
  | Out_of_fuel

section \<open>The library\<close>

definition u_strlen :: "bytes \<Rightarrow> int" where "u_strlen s = int (length s)"

text \<open>\<open>u_print\<close> passes the address of the string and its length, that is, its bytes.\<close>

definition u_print :: "bytes \<Rightarrow> uprog \<Rightarrow> uprog" where
  "u_print s k = Print (take (nat (u_strlen s)) s) k"

text \<open>The digits in \<open>tmp\<close>, the last one first, that is, in the order in which they are copied.\<close>

function itoa_loop :: "int \<Rightarrow> bytes \<Rightarrow> bytes" where
  "itoa_loop v tmp = (if v > 0 then itoa_loop (v div 10) ((48 + of_int (v mod 10)) # tmp) else tmp)"
  by pat_completeness auto
termination
  by (relation "measure (\<lambda>(v, _). nat v)") auto

declare itoa_loop.simps [simp del]

definition u_itoa :: "u32 \<Rightarrow> bytes" where
  "u_itoa v =
     (if v = 0 then [48]
      else
        let neg = sint v < 0; v = (if neg then - v else v); tmp = itoa_loop (sint v) []
        in (if neg then [45] else []) @ tmp)"

definition u_printint :: "u32 \<Rightarrow> uprog \<Rightarrow> uprog" where
  "u_printint v k = u_print (u_itoa v) k"

definition u_readline :: "buffer \<Rightarrow> (int \<Rightarrow> buffer \<Rightarrow> uprog) \<Rightarrow> uprog" where
  "u_readline buf k = Readline buf k"

definition u_execute :: "int \<Rightarrow> uprog \<Rightarrow> uprog" where
  "u_execute asid k = Execute asid k"

definition u_terminate :: "uprog \<Rightarrow> uprog" where
  "u_terminate k = Terminate k"

section \<open>The shell\<close>

text \<open>\<open>u_strcmp(a + i, b)\<close> for a buffer \<open>a\<close> and a string \<open>b\<close>.\<close>

fun u_strcmp :: "buffer \<Rightarrow> int \<Rightarrow> bytes \<Rightarrow> int" where
  "u_strcmp a i [] = uint (a i)"
| "u_strcmp a i (c # b) = (if a i \<noteq> 0 \<and> a i = c then u_strcmp a (i + 1) b else uint (a i) - uint c)"

definition nameToAsid :: "buffer \<Rightarrow> int" where
  "nameToAsid name =
     (if u_strcmp name 0 (str ''echo'') = 0 then 2
      else if u_strcmp name 0 (str ''fibEleven'') = 0 then 3
      else if u_strcmp name 0 (str ''uname'') = 0 then 4
      else if u_strcmp name 0 (str ''sl'') = 0 then 5
      else if u_strcmp name 0 (str ''calc'') = 0 then 6
      else -1)"

text \<open>\<open>buf[n]\<close> for a negative \<open>n\<close> is below the buffer.\<close>

definition strip_newline :: "int \<Rightarrow> buffer \<Rightarrow> buffer" where
  "strip_newline n buf = (if n > 0 \<and> buf (n - 1) = 10 then buf(n - 1 := 0) else buf(n := 0))"

primrec shell_loop :: "nat \<Rightarrow> buffer \<Rightarrow> uprog" where
  "shell_loop 0 buf = Out_of_fuel"
| "shell_loop (Suc fuel) buf =
     u_print (str ''> '')
       (u_readline buf (\<lambda>n buf.
         let buf = strip_newline n buf in
         if buf 0 = 0 then shell_loop fuel buf
         else
           let go_on =
             (let asid = nameToAsid buf in
              if asid < 0 then u_print (str (''shell: programma sconosciuto'' @ [NL])) (shell_loop fuel buf)
              else u_execute asid (shell_loop fuel buf))
           in if u_strcmp buf 0 (str ''exit'') = 0
              then u_print (str (''shell: arrivederci'' @ [NL])) (u_terminate go_on)
              else go_on))"

definition shell_main :: "nat \<Rightarrow> buffer \<Rightarrow> uprog" where
  "shell_main fuel buf =
     u_print (str (''PandOSsh shell'' @ [NL]))
    (u_print (str (''comandi: echo fibEleven uname sl calc | exit'' @ [NL]))
    (shell_loop fuel buf))"

section \<open>The calculator\<close>

text \<open>Its \<open>itoa\<close> is a copy of \<open>u_itoa\<close>. \<open>None\<close> stands for \<open>ok = 0\<close>.\<close>

definition itoa :: "u32 \<Rightarrow> bytes" where
  "itoa v =
     (if v = 0 then [48]
      else
        let neg = sint v < 0; v = (if neg then - v else v); tmp = itoa_loop (sint v) []
        in (if neg then [45] else []) @ tmp)"

definition calc_op :: "8 word \<Rightarrow> int \<Rightarrow> int \<Rightarrow> int option" where
  "calc_op c a b =
     (if c = 43 then Some (a + b)
      else if c = 45 then Some (a - b)
      else if c = 42 then Some (a * b)
      else if c = 47 then (if b = 0 then None else Some (a sdiv b))
      else None)"

definition calc_main :: "buffer \<Rightarrow> uprog" where
  "calc_main buf =
     u_print (str ''calc: inserisci <cifra><op><cifra> (es. 7*8): '')
       (u_readline buf (\<lambda>n buf.
         if n < 3 then u_print (str (''calc: input non valido'' @ [NL])) Finish
         else
           let a = uint (buf 0) - 48; c = buf 1; b = uint (buf 2) - 48 in
           case calc_op c a b of
             None \<Rightarrow> u_print (str (''calc: operazione non valida'' @ [NL])) Finish
           | Some r \<Rightarrow>
               u_print (str ''calc: risultato = '')
              (u_print (itoa (of_int r))
              (u_print (str [NL]) Finish))))"

section \<open>The other programs\<close>

definition fib :: "nat \<Rightarrow> u32" where
  "fib n = fst (fold (\<lambda>_ (a, b). let t = a + b; a = b; b = t in (a, b)) [0..<n] (0, 1))"

definition fibEleven_main :: uprog where
  "fibEleven_main =
     u_print (str ''fib(11) = '')
    (u_printint (fib 11)
    (u_print (str [NL]) Finish))"

definition echo_main :: "buffer \<Rightarrow> uprog" where
  "echo_main buf =
     u_print (str ''echo> '')
       (u_readline buf (\<lambda>n buf.
         if n < 0 then Finish else Print (map buf [0..n - 1]) Finish))"

definition uname_main :: uprog where
  "uname_main = u_print (str (''PandOSsh - Support Level (Phase 3) - uRISCV'' @ [NL])) Finish"

definition sl_main :: uprog where
  "sl_main =
     u_print (str (''      ====        ________                ___________'' @ [NL]))
    (u_print (str (''  _D _|  |_______/        '' @ [CHR 0x5C] @ ''__I_I_____===__|_________|'' @ [NL]))
    (u_print (str (''   |(_)---  |   H'' @ [CHR 0x5C] @ ''________/ |   |        =|___ ___|  '' @ [NL]))
    (u_print (str (''   /     |  |   H  |  |     |   |         ||_| |_||  '' @ [NL]))
    (u_print (str (''  |      |  |   H  |__--------------------| [___] |  '' @ [NL]))
    (u_print (str (''  | ________|___H__/__|_____/[][]~'' @ [CHR 0x5C] @ ''_______|       |  '' @ [NL]))
    (u_print (str (''  |/ |   |-----------I_____I [][] []  D   |=======|__'' @ [NL]))
    (u_print (str (''PandOSsh locomotive'' @ [NL])) Finish)))))))"

section \<open>Running a program\<close>

text \<open>
  The terminal gives the lines \<open>ls\<close>, without their newlines; each \<open>Readline\<close> takes one and stores it
  with its newline at the start of the buffer. With no line left the program waits for ever.
\<close>

datatype uevent = Printed bytes | Executed int

datatype uending = Finished | Terminated_by_call | Waiting | Fuel_gone

definition put_line :: "bytes \<Rightarrow> buffer \<Rightarrow> buffer" where
  "put_line l buf i = (if 0 \<le> i \<and> i < int (length l) then l ! nat i else buf i)"

fun run_user :: "uprog \<Rightarrow> bytes list \<Rightarrow> uevent list \<times> uending" where
  "run_user Finish ls = ([], Finished)"
| "run_user (Print s k) ls = (let (es, f) = run_user k ls in (Printed s # es, f))"
| "run_user (Readline buf k) [] = ([], Waiting)"
| "run_user (Readline buf k) (l # ls) = run_user (k (int (length l) + 1) (put_line (l @ [10]) buf)) ls"
| "run_user (Execute a k) ls = (let (es, f) = run_user k ls in (Executed a # es, f))"
| "run_user (Terminate k) ls = ([], Terminated_by_call)"
| "run_user Out_of_fuel ls = ([], Fuel_gone)"

end
