(* ===== verification/Klog.thy ===== *)
theory Klog
  imports Pandos_Types
begin

text \<open>
  \<^verbatim>\<open>klog.c\<close>, the circular log of 64 lines of 42 characters, and the debugging output of
  \<^verbatim>\<open>phase2/debug.h\<close>, which writes characters to a terminal command register. A string is the list of
  its bytes before the end.
\<close>

lemma unat_div_less: "0 < (num :: u32) div of_nat d \<Longrightarrow> 1 < d \<Longrightarrow> d < 2 ^ 32 \<Longrightarrow> unat (num div of_nat d) < unat num"
proof -
  assume a: "0 < num div of_nat d" "1 < d" "d < 2 ^ 32"
  then have "unat (of_nat d :: u32) = d" by (simp add: unat_of_nat)
  then show ?thesis using a by (cases "num = 0") (auto simp: unat_div unat_gt_0)
qed

section \<open>The log\<close>

abbreviation (input) KLOG_LINES :: nat where "KLOG_LINES \<equiv> 64"
abbreviation (input) KLOG_LINE_SIZE :: nat where "KLOG_LINE_SIZE \<equiv> 42"

record klog =
  klog_line_index :: nat
  klog_char_index :: nat
  klog_buffer :: "nat \<Rightarrow> nat \<Rightarrow> 8 word"

definition klog_put :: "8 word \<Rightarrow> klog \<Rightarrow> klog" where
  "klog_put c k = k\<lparr>klog_buffer := (klog_buffer k)(klog_line_index k :=
     (klog_buffer k (klog_line_index k))(klog_char_index k := c))\<rparr>"

definition next_line :: "klog \<Rightarrow> klog" where
  "next_line k =
     (let k = k\<lparr>klog_line_index := (klog_line_index k + 1) mod KLOG_LINES\<rparr>;
          k = k\<lparr>klog_char_index := 0\<rparr>
      in fold (\<lambda>i k. k\<lparr>klog_buffer := (klog_buffer k)(klog_line_index k :=
           (klog_buffer k (klog_line_index k))(i := 32))\<rparr>) [0..<KLOG_LINE_SIZE] k)"

definition next_char :: "klog \<Rightarrow> klog" where
  "next_char k =
     (let k = k\<lparr>klog_char_index := klog_char_index k + 1\<rparr> in
      if klog_char_index k \<ge> KLOG_LINE_SIZE then next_line (k\<lparr>klog_char_index := 0\<rparr>) else k)"

primrec klog_print :: "8 word list \<Rightarrow> klog \<Rightarrow> klog" where
  "klog_print [] k = k"
| "klog_print (c # s) k = (if c = 10 then klog_print s (next_line k) else klog_print s (next_char (klog_put c k)))"

text \<open>The character for a digit: \<open>digits[d]\<close>.\<close>

definition dec_digit :: "u32 \<Rightarrow> 8 word" where
  "dec_digit d = map (\<lambda>c. of_nat (of_char c)) ''0123456789'' ! unat d"

definition hex_digit :: "u32 \<Rightarrow> 8 word" where
  "hex_digit d = map (\<lambda>c. of_nat (of_char c)) ''0123456789ABCDEF'' ! unat d"

text \<open>The two \<open>do\<close> loops.\<close>

function dec_loop :: "u32 \<Rightarrow> klog \<Rightarrow> klog" where
  "dec_loop num k =
     (let k = klog_put (dec_digit (num mod 10)) k; num = num div 10; k = next_char k
      in if num > 0 then dec_loop num k else k)"
  by pat_completeness auto
termination
  by (relation "measure (\<lambda>(num, _). unat num)") (use unat_div_less [of _ 10] in auto)

definition klog_print_dec :: "u32 \<Rightarrow> klog \<Rightarrow> klog" where
  "klog_print_dec num k =
     (if num \<ge> 10 then dec_loop num k
      else
        let buff = num mod 10; num = num div 10;
            k = next_char (klog_put (dec_digit (num mod 10)) k)
        in next_char (klog_put (dec_digit buff) k))"

function klog_print_hex :: "u32 \<Rightarrow> klog \<Rightarrow> klog" where
  "klog_print_hex num k =
     (let k = klog_put (hex_digit (num mod 16)) k; num = num div 16; k = next_char k
      in if num > 0 then klog_print_hex num k else k)"
  by pat_completeness auto
termination
  by (relation "measure (\<lambda>(num, _). unat num)") (use unat_div_less [of _ 16] in auto)

declare dec_loop.simps [simp del] klog_print_hex.simps [simp del]

section \<open>Debugging output\<close>

text \<open>The words written to the command register of terminal 0, in order.\<close>

definition debug_cmd :: "8 word \<Rightarrow> u32" where
  "debug_cmd c = 2 OR push_bit 8 (ucast c)"

definition debug_print :: "8 word list \<Rightarrow> u32 list" where
  "debug_print msg = map debug_cmd msg"

definition nibble_char :: "u32 \<Rightarrow> 8 word" where
  "nibble_char nibble = (if nibble < 10 then 48 + ucast nibble else 97 + ucast nibble - 10)"

text \<open>The loop over \<open>hex[i]\<close>, from \<open>i = 7\<close> down.\<close>

primrec hex_loop :: "nat \<Rightarrow> u32 \<Rightarrow> 8 word list \<Rightarrow> 8 word list" where
  "hex_loop 0 val hex = hex"
| "hex_loop (Suc i) val hex = hex_loop i (drop_bit 4 val) (hex[i := nibble_char (val AND 0xF)])"

definition debug_hex :: "8 word list \<Rightarrow> u32 \<Rightarrow> u32 list" where
  "debug_hex label val =
     map debug_cmd label @ map debug_cmd (hex_loop 8 val (replicate 8 0)) @ [debug_cmd 32, debug_cmd 10]"

end
