(* ===== verification/User_Services.thy ===== *)
theory User_Services
  imports User_Programs Klog
begin

text \<open>
  What the user programs, the kernel log and the debugging output do for their users.
\<close>

section \<open>Decimal numbers\<close>

text \<open>The value of a decimal numeral.\<close>

definition parse_nat :: "bytes \<Rightarrow> int" where
  "parse_nat s = fold (\<lambda>c v. 10 * v + (uint c - 48)) s 0"

definition parse_int :: "bytes \<Rightarrow> int" where
  "parse_int s = (case s of c # s' \<Rightarrow> if c = 45 then - parse_nat s' else parse_nat s | [] \<Rightarrow> 0)"

definition is_digit :: "8 word \<Rightarrow> bool" where
  "is_digit c \<longleftrightarrow> 48 \<le> c \<and> c \<le> 57"

lemma digit_char:
  assumes "0 \<le> d" "d < 10"
  shows "uint (48 + of_int d :: 8 word) = 48 + d" "is_digit (48 + of_int d)"
proof -
  have "d \<in> {0, 1, 2, 3, 4, 5, 6, 7, 8, 9}" using assms by (simp, arith)
  then show "uint (48 + of_int d :: 8 word) = 48 + d" "is_digit (48 + of_int d)"
    by (auto simp: is_digit_def)
qed

lemma parse_snoc: "parse_nat (s @ [c]) = 10 * parse_nat s + (uint c - 48)"
  by (simp add: parse_nat_def)

lemma itoa_loop_digits:
  assumes "0 \<le> v"
  shows "\<exists>ds. itoa_loop v tmp = ds @ tmp \<and> list_all is_digit ds \<and> parse_nat ds = v \<and>
    (v = 0 \<longleftrightarrow> ds = []) \<and> (v < 10 ^ n \<longrightarrow> length ds \<le> n)"
  using assms
proof (induction v tmp arbitrary: n rule: itoa_loop.induct)
  case (1 v tmp)
  show ?case
  proof (cases "v = 0")
    case True
    then show ?thesis by (simp add: itoa_loop.simps parse_nat_def)
  next
    case False
    then have v: "v > 0" using 1(2) by simp
    let ?c = "48 + of_int (v mod 10) :: 8 word"
    obtain ds where ds: "itoa_loop (v div 10) (?c # tmp) = ds @ ?c # tmp" "list_all is_digit ds"
      "parse_nat ds = v div 10" "v div 10 < 10 ^ (n - 1) \<Longrightarrow> length ds \<le> n - 1"
      using 1(1) [OF v, of "n - 1"] v by (auto simp: pos_imp_zdiv_nonneg_iff)
    have c: "uint ?c = 48 + v mod 10" "is_digit ?c" using digit_char [of "v mod 10"] by simp_all
    have "itoa_loop v tmp = (ds @ [?c]) @ tmp" using v ds(1) by (subst itoa_loop.simps) simp
    moreover have "parse_nat (ds @ [?c]) = v" using ds(3) c(1) by (simp add: parse_snoc)
    moreover have "length (ds @ [?c]) \<le> n" if "v < 10 ^ n"
    proof -
      have "n \<noteq> 0" using that v by (cases n) auto
      then obtain m where n: "n = Suc m" by (cases n) auto
      have "v div 10 < 10 ^ m" using that by (simp add: n div_less_iff_less_mult)
      then show ?thesis using ds(4) by (simp add: n)
    qed
    ultimately show ?thesis using ds(2) c(2) v by (intro exI [of _ "ds @ [?c]"]) simp
  qed
qed

lemma itoa_digits:
  assumes "v > 0" and "v < 2 ^ 31"
  obtains d ds where "itoa_loop v [] = d # ds" and "list_all is_digit (d # ds)" and "parse_nat (d # ds) = v"
    and "length (d # ds) \<le> 10"
proof -
  obtain ds where ds: "itoa_loop v [] = ds" "list_all is_digit ds" "parse_nat ds = v" "ds \<noteq> []" "length ds \<le> 10"
    using itoa_loop_digits [of v "[]" 10] assms by auto
  then show thesis using that by (cases ds) auto
qed

lemma itoa_facts:
  "if v = 0x80000000 then u_itoa v = [45]
   else parse_int (u_itoa v) = sint v \<and> length (u_itoa v) \<le> 11 \<and>
     list_all is_digit (if sint v < 0 then tl (u_itoa v) else u_itoa v) \<and> last (u_itoa v) \<noteq> 45"
  "itoa v = u_itoa v"
proof -
  show "itoa v = u_itoa v" by (simp add: itoa_def u_itoa_def)
  have dig: "c \<noteq> 45" if "is_digit c" for c using that by (auto simp: is_digit_def)
  have inv: "of_int (sint v) = v" by simp
  have "sint v = 0 \<Longrightarrow> v = 0" using inv by simp
  then consider "v = 0" | "v = 0x80000000" | "sint v > 0" | "sint v < 0" "v \<noteq> 0x80000000"
    by fastforce
  then show "if v = 0x80000000 then u_itoa v = [45]
   else parse_int (u_itoa v) = sint v \<and> length (u_itoa v) \<le> 11 \<and>
     list_all is_digit (if sint v < 0 then tl (u_itoa v) else u_itoa v) \<and> last (u_itoa v) \<noteq> 45"
  proof cases
    case 1
    then show ?thesis by (simp add: u_itoa_def parse_int_def parse_nat_def is_digit_def)
  next
    case 2
    have "u_itoa 0x80000000 = [45]" by (simp add: u_itoa_def Let_def itoa_loop.simps)
    then show ?thesis using 2 by simp
  next
    case 3
    have "sint v < 2 ^ 31" using sint_lt [of v] by simp
    with 3 obtain d ds where d: "itoa_loop (sint v) [] = d # ds" "list_all is_digit (d # ds)" "parse_nat (d # ds) = sint v"
      "length (d # ds) \<le> 10" by (rule itoa_digits)
    have "u_itoa v = d # ds" using 3 d(1) by (auto simp: u_itoa_def)
    moreover have "last (d # ds) \<noteq> 45" using d(2) dig by (auto simp: list_all_iff)
    moreover have "v \<noteq> 0x80000000" using 3 by auto
    ultimately show ?thesis using 3 d dig by (auto simp: parse_int_def)
  next
    case 4
    have "sint v \<noteq> - 0x80000000"
    proof
      assume "sint v = - 0x80000000"
      then show False using inv 4(2) by simp
    qed
    then have b: "- sint v > 0" "- sint v < 2 ^ 31" using 4(1) sint_ge [of v] by simp_all
    then have m: "sint (- v) = - sint v" by (simp add: sint_word_minus signed_take_bit_int_eq_self)
    from b obtain d ds where d: "itoa_loop (- sint v) [] = d # ds" "list_all is_digit (d # ds)" "parse_nat (d # ds) = - sint v"
      "length (d # ds) \<le> 10" by (rule itoa_digits)
    have "u_itoa v = 45 # d # ds" using 4 d(1) m by (auto simp: u_itoa_def)
    moreover have "last (d # ds) \<noteq> 45" using d(2) dig by (auto simp: list_all_iff)
    ultimately show ?thesis using 4 d by (auto simp: parse_int_def)
  qed
qed

text \<open>
  C37. \<open>u_itoa\<close> and the \<open>itoa\<close> of the calculator write the decimal numeral of every number but one: a
  minus sign if it is negative, then digits whose value is the number, the first of them not
  missing, at most eleven characters, so that \<open>tmp\<close> and the buffers suffice. For the least number,
  whose negation overflows, they write the minus sign alone.
\<close>

theorem itoa_roundtrip:
  "(if v = 0x80000000 then u_itoa v = [45]
    else parse_int (u_itoa v) = sint v \<and> length (u_itoa v) \<le> 11 \<and>
      list_all is_digit (if sint v < 0 then tl (u_itoa v) else u_itoa v) \<and> last (u_itoa v) \<noteq> 45) \<and>
   itoa v = u_itoa v"
  using itoa_facts [of v] by simp

section \<open>The calculator\<close>

lemma u_print_eq [simp]: "u_print s k = Print s k"
  by (simp add: u_print_def u_strlen_def)

lemma parse_itoa:
  assumes "\<bar>r\<bar> \<le> 100"
  shows "parse_int (itoa (of_int r)) = r"
proof -
  have r: "- (2 ^ 31) \<le> r" "r < 2 ^ 31" "r \<noteq> - (2 ^ 31)" using assms by simp_all
  have si: "sint (of_int r :: u32) = r"
    unfolding sint_sbintrunc' using r(1,2) by (intro signed_take_bit_int_eq_self) simp_all
  have "(of_int r :: u32) \<noteq> 0x80000000"
  proof
    assume "(of_int r :: u32) = 0x80000000"
    then have "sint (of_int r :: u32) = sint (0x80000000 :: u32)" by (rule arg_cong)
    then show False using r(3) unfolding si by simp
  qed
  then show ?thesis using itoa_facts(1) [of "of_int r"] by (simp add: itoa_facts(2) si)
qed

text \<open>
  The calculator prints the decimal numeral of the sum, difference, product or integer quotient
  of two digits, and an error message for a division by zero, any other operation, and a line of
  less than two characters; after that it ends.
\<close>

theorem calc_computes:
  assumes "0 \<le> a" and "a < 10" and "0 \<le> b" and "b < 10"
  shows "let prompt = Printed (str ''calc: inserisci <cifra><op><cifra> (es. 7*8): '');
      outcome = \<lambda>l. run_user (calc_main buf) (l # ls);
      result = (if c = 43 then a + b else if c = 45 then a - b else if c = 42 then a * b else a div b)
    in outcome [] = ([prompt, Printed (str (''calc: input non valido'' @ [NL]))], Finished) \<and>
      outcome [x] = ([prompt, Printed (str (''calc: input non valido'' @ [NL]))], Finished) \<and>
      (if c \<in> {43, 45, 42} \<or> c = 47 \<and> b \<noteq> 0 then
        \<exists>out. outcome ((48 + of_int a) # c # (48 + of_int b) # rest) =
            ([prompt, Printed (str ''calc: risultato = ''), Printed out, Printed (str [NL])], Finished) \<and>
          parse_int out = result
       else outcome ((48 + of_int a) # c # (48 + of_int b) # rest) =
          ([prompt, Printed (str (''calc: operazione non valida'' @ [NL]))], Finished))"
proof -
  let ?r = "if c = 43 then a + b else if c = 45 then a - b else if c = 42 then a * b else a div b"
  let ?prompt = "Printed (str ''calc: inserisci <cifra><op><cifra> (es. 7*8): '')"
  let ?l = "(48 + of_int a) # c # (48 + of_int b) # rest :: bytes"
  have ab: "uint (48 + of_int a :: 8 word) - 48 = a" "uint (48 + of_int b :: 8 word) - 48 = b"
    using digit_char(1) assms by simp_all
  have buf: "put_line (?l @ [10]) buf 0 = 48 + of_int a" "put_line (?l @ [10]) buf 1 = c" "put_line (?l @ [10]) buf 2 = 48 + of_int b"
    by (simp_all add: put_line_def)
  have op: "calc_op c a b = (if c \<in> {43, 45, 42} \<or> c = 47 \<and> b \<noteq> 0 then Some ?r else None)"
    using assms(1,3) by (auto simp: calc_op_def signed_divide_int_def sgn_if)
  have s: "run_user (calc_main buf) (?l # ls) = (case calc_op c a b of
      None \<Rightarrow> ([?prompt, Printed (str (''calc: operazione non valida'' @ [NL]))], Finished)
    | Some r \<Rightarrow> ([?prompt, Printed (str ''calc: risultato = ''), Printed (itoa (of_int r)), Printed (str [NL])], Finished))"
    unfolding calc_main_def u_readline_def u_print_eq run_user.simps buf ab Let_def
    by (simp split: option.split)
  have "\<bar>?r\<bar> \<le> 100"
  proof -
    have "a * b \<le> 9 * 9" "0 \<le> a * b" using assms by (intro mult_mono, auto)
    moreover have "0 \<le> a div b" "a div b \<le> a"
      using assms(1,3) zdiv_mono2 [of a 1 b] by (cases "b = 0"; simp add: div_int_pos_iff)+
    ultimately show ?thesis using assms by auto
  qed
  then have p: "parse_int (itoa (of_int ?r)) = ?r" by (rule parse_itoa)
  have e: "run_user (calc_main buf) (l # ls) = ([?prompt, Printed (str (''calc: input non valido'' @ [NL]))], Finished)"
    if "length l < 2" for l
    using that by (simp add: calc_main_def u_readline_def)
  show ?thesis
    unfolding Let_def using e [of "[]"] e [of "[x]"] s p unfolding op by auto
qed

theorem calc_computes_witness:
  "\<exists>out. run_user (calc_main (\<lambda>_. 0)) [[55, 42, 56]] =
     ([Printed (str ''calc: inserisci <cifra><op><cifra> (es. 7*8): ''), Printed (str ''calc: risultato = ''),
       Printed out, Printed (str [NL])], Finished) \<and> parse_int out = 56"
  using calc_computes [of 7 8 "\<lambda>_. 0" "[]" 42 0 "[]"] by (simp add: Let_def)

section \<open>The shell\<close>

lemma put_line_at: "i < length l \<Longrightarrow> put_line l buf (int i) = l ! i"
  by (simp add: put_line_def)

text \<open>After a line has been read and its newline replaced, the buffer holds the line as a string.\<close>

definition holds_str :: "buffer \<Rightarrow> int \<Rightarrow> bytes \<Rightarrow> bool" where
  "holds_str buf i s \<longleftrightarrow> (\<forall>j<length s. buf (i + int j) = s ! j) \<and> buf (i + int (length s)) = 0"

lemma strip_newline_holds:
  "holds_str (strip_newline (int (length l) + 1) (put_line (l @ [10]) buf)) 0 l"
  using put_line_at [of "length l" "l @ [10]" buf] put_line_at [of _ "l @ [10]" buf]
  by (auto simp: holds_str_def strip_newline_def nth_append)

lemma holds_str_Cons: "holds_str buf i (c # s) \<longleftrightarrow> buf i = c \<and> holds_str buf (i + 1) s"
  by (auto simp: holds_str_def less_Suc_eq_0_disj algebra_simps)

lemma u_strcmp_eq:
  assumes "holds_str buf i l" and "0 \<notin> set l" and "0 \<notin> set s"
  shows "u_strcmp buf i s = 0 \<longleftrightarrow> l = s"
  using assms
proof (induction s arbitrary: i l)
  case Nil
  then show ?case by (cases l) (auto simp: holds_str_Cons uint_0_iff, simp add: holds_str_def)
next
  case (Cons c s)
  show ?case
  proof (cases l)
    case Nil
    then have "buf i = 0" using Cons.prems(1) by (simp add: holds_str_def)
    then show ?thesis using Cons.prems(3) Nil by (auto simp: uint_0_iff)
  next
    case (Cons d l')
    then have "buf i = d" "holds_str buf (i + 1) l'" using Cons.prems(1) by (simp_all add: holds_str_Cons)
    then show ?thesis using Cons.IH [of "i + 1" l'] Cons.prems(2,3) Cons by (auto simp: word_uint_eq_iff [symmetric])
  qed
qed

text \<open>The programs the shell knows.\<close>

definition programs :: "(bytes \<times> int) list" where
  "programs = [(str ''echo'', 2), (str ''fibEleven'', 3), (str ''uname'', 4), (str ''sl'', 5), (str ''calc'', 6)]"

definition shell_round :: "bytes \<Rightarrow> uevent list" where
  "shell_round l = Printed (str ''> '') # (if l = [] then [] else case map_of programs l of
     Some a \<Rightarrow> [Executed a] | None \<Rightarrow> [Printed (str (''shell: programma sconosciuto'' @ [NL]))])"

lemma nameToAsid_eq:
  assumes "holds_str buf 0 l" and "0 \<notin> set l"
  shows "nameToAsid buf = (case map_of programs l of Some a \<Rightarrow> a | None \<Rightarrow> -1)"
proof -
  have z: "0 \<notin> set (str ''echo'')" "0 \<notin> set (str ''fibEleven'')" "0 \<notin> set (str ''uname'')" "0 \<notin> set (str ''sl'')"
    "0 \<notin> set (str ''calc'')" by code_simp+
  show ?thesis
    by (simp add: nameToAsid_def u_strcmp_eq [OF assms z(1)] u_strcmp_eq [OF assms z(2)] u_strcmp_eq [OF assms z(3)]
        u_strcmp_eq [OF assms z(4)] u_strcmp_eq [OF assms z(5)] programs_def)
qed

lemma shell_loop_run:
  assumes "list_all (\<lambda>l. 0 \<notin> set l \<and> l \<noteq> str ''exit'') ls" and "length ls < fuel"
  shows "run_user (shell_loop fuel buf) (ls @ str ''exit'' # rest) =
    (concat (map shell_round ls) @ [Printed (str ''> ''), Printed (str (''shell: arrivederci'' @ [NL]))], Terminated_by_call)"
  using assms
proof (induction ls arbitrary: fuel buf)
  case Nil
  then obtain g where g: "fuel = Suc g" by (cases fuel) auto
  let ?b = "strip_newline (int (length (str ''exit'')) + 1) (put_line (str ''exit'' @ [10]) buf)"
  have z: "0 \<notin> set (str ''exit'')" by code_simp
  have "?b 0 \<noteq> 0" using strip_newline_holds [of "str ''exit''" buf] by (simp add: str_def holds_str_Cons)
  then show ?case
    using u_strcmp_eq [OF strip_newline_holds z z] by (simp add: g u_readline_def u_terminate_def Let_def)
next
  case (Cons l ls)
  then obtain g where g: "fuel = Suc g" "length ls < g" by (cases fuel) auto
  let ?b = "strip_newline (int (length l) + 1) (put_line (l @ [10]) buf)"
  have l: "0 \<notin> set l" "l \<noteq> str ''exit''" using Cons.prems by simp_all
  have z: "0 \<notin> set (str ''exit'')" by code_simp
  note h = strip_newline_holds [of l buf]
  have e: "?b 0 = 0 \<longleftrightarrow> l = []" using h l(1) by (cases l) (auto simp: holds_str_Cons, simp add: holds_str_def)
  note IH = Cons.IH [OF _ g(2), of ?b]
  have pos: "map_of programs l = Some a \<Longrightarrow> \<not> a < 0" for a by (auto simp: programs_def split: if_splits)
  show ?case
    using Cons.prems(1) IH u_strcmp_eq [OF h l(1) z] l(2)
    by (auto simp: g u_readline_def u_execute_def Let_def e nameToAsid_eq [OF h l(1)] shell_round_def pos split: option.splits)
qed

text \<open>
  C36. A session of the shell: for each line it prints the prompt and reads the line; an empty line
  is ignored, the name of one of the five programs executes the program with its identifier, any
  other line is answered by an error message; at the line \<open>exit\<close> the shell says good-bye and
  terminates. Fuel for one round more than the lines before \<open>exit\<close> is enough. The lines fit into
  the buffer and contain no byte 0.
\<close>

theorem shell_session:
  assumes "list_all (\<lambda>l. 0 \<notin> set l \<and> l \<noteq> str ''exit'' \<and> length l < 128) ls" and "length ls < fuel"
  shows "run_user (shell_main fuel buf) (ls @ str ''exit'' # rest) =
    ([Printed (str (''PandOSsh shell'' @ [NL])), Printed (str (''comandi: echo fibEleven uname sl calc | exit'' @ [NL]))] @
      concat (map (\<lambda>l. Printed (str ''> '') # (if l = [] then [] else case map_of programs l of
        Some a \<Rightarrow> [Executed a] | None \<Rightarrow> [Printed (str (''shell: programma sconosciuto'' @ [NL]))])) ls) @
      [Printed (str ''> ''), Printed (str (''shell: arrivederci'' @ [NL]))], Terminated_by_call)"
proof -
  have "list_all (\<lambda>l. 0 \<notin> set l \<and> l \<noteq> str ''exit'') ls" using assms(1) by (auto simp: list_all_iff)
  from shell_loop_run [OF this assms(2), of buf rest] show ?thesis
    by (simp add: shell_main_def shell_round_def [abs_def])
qed

theorem shell_session_witness:
  "run_user (shell_main 3 (\<lambda>_. 0)) [str ''calc'', str ''ls'', str ''exit''] =
    ([Printed (str (''PandOSsh shell'' @ [NL])), Printed (str (''comandi: echo fibEleven uname sl calc | exit'' @ [NL])),
      Printed (str ''> ''), Executed 6, Printed (str ''> ''), Printed (str (''shell: programma sconosciuto'' @ [NL])),
      Printed (str ''> ''), Printed (str (''shell: arrivederci'' @ [NL]))], Terminated_by_call)"
proof -
  have "list_all (\<lambda>l. 0 \<notin> set l \<and> l \<noteq> str ''exit'' \<and> length l < 128) [str ''calc'', str ''ls'']" by code_simp
  moreover have "map_of programs (str ''calc'') = Some 6" "map_of programs (str ''ls'') = None"
    "str ''calc'' \<noteq> []" "str ''ls'' \<noteq> []" by code_simp+
  ultimately show ?thesis
    using shell_session [of "[str ''calc'', str ''ls'']" 3 "\<lambda>_. 0" "[]"] by simp
qed

section \<open>Echo and Fibonacci\<close>

fun fib_spec :: "nat \<Rightarrow> nat" where
  "fib_spec 0 = 0"
| "fib_spec (Suc 0) = 1"
| "fib_spec (Suc (Suc n)) = fib_spec (Suc n) + fib_spec n"

lemma fib_correct: "fib n = of_nat (fib_spec n)"
proof -
  have "fold (\<lambda>_ (a, b). let t = a + b; a = b; b = t in (a, b)) [0..<n] (0, 1) =
      (of_nat (fib_spec n), of_nat (fib_spec (Suc n)) :: u32)"
    by (induction n) (simp_all add: Let_def algebra_simps)
  then show ?thesis by (simp add: fib_def)
qed

lemma echo_repeats: "run_user (echo_main buf) (l # ls) = ([Printed (str ''echo> ''), Printed (l @ [10])], Finished)"
proof -
  have u: "[0..int n] = map int [0..<Suc n]" for n
  proof (induction n)
    case (Suc n)
    have "[0..int (Suc n)] = [0..int n] @ [int (Suc n)]" using upto_rec2 [of 0 "int (Suc n)"] by simp
    then show ?case using Suc by simp
  qed simp
  have "map (put_line (l @ [10]) buf) [0..int (length l)] = l @ [10]"
    unfolding u by (rule nth_equalityI) (auto simp: put_line_def nth_append simp del: upt_Suc)
  then show ?thesis by (simp add: echo_main_def u_readline_def)
qed

lemma fibEleven_prints: "fst (run_user fibEleven_main ls) = [Printed (str ''fib(11) = ''), Printed (str ''89''), Printed (str [NL])]"
proof -
  have "u_itoa (fib 11) = str ''89''" by code_simp
  then show ?thesis by (simp add: fibEleven_main_def u_printint_def)
qed

section \<open>The kernel log\<close>

definition klog_ok :: "klog \<Rightarrow> bool" where
  "klog_ok k \<longleftrightarrow> klog_line_index k < KLOG_LINES \<and> klog_char_index k < KLOG_LINE_SIZE"

lemma next_line_eq:
  "next_line k = k\<lparr>klog_line_index := (klog_line_index k + 1) mod KLOG_LINES, klog_char_index := 0,
     klog_buffer := (klog_buffer k)((klog_line_index k + 1) mod KLOG_LINES :=
       (\<lambda>i. if i < KLOG_LINE_SIZE then 32 else klog_buffer k ((klog_line_index k + 1) mod KLOG_LINES) i))\<rparr>"
proof -
  have f: "fold (\<lambda>i k. k\<lparr>klog_buffer := (klog_buffer k)(klog_line_index k :=
           (klog_buffer k (klog_line_index k))(i := 32))\<rparr>) [0..<n] j =
      j\<lparr>klog_buffer := (klog_buffer j)(klog_line_index j := (\<lambda>i. if i < n then 32 else klog_buffer j (klog_line_index j) i))\<rparr>" for n j
    by (induction n) (auto simp: fun_eq_iff intro!: klog.equality)
  show ?thesis by (rule klog.equality) (simp_all add: next_line_def Let_def f fun_eq_iff)
qed

lemma next_char_ok: "klog_ok k \<Longrightarrow> klog_ok (next_char k)" "klog_ok k \<Longrightarrow> klog_ok (next_line k)" "klog_ok (klog_put c k) = klog_ok k"
  by (auto simp: klog_ok_def next_char_def Let_def next_line_eq klog_put_def)

lemma klog_print_ok: "klog_ok k \<Longrightarrow> klog_ok (klog_print s k)"
  by (induction s arbitrary: k) (simp_all add: next_char_ok)

lemma klog_print_append: "klog_print (s @ t) k = klog_print t (klog_print s k)"
  by (induction s arbitrary: k) simp_all

lemma klog_print_row:
  assumes "10 \<notin> set s" and "klog_char_index k + length s < KLOG_LINE_SIZE"
  shows "klog_print s k = k\<lparr>klog_char_index := klog_char_index k + length s,
    klog_buffer := (klog_buffer k)(klog_line_index k := (\<lambda>j.
      if klog_char_index k \<le> j \<and> j < klog_char_index k + length s then s ! (j - klog_char_index k)
      else klog_buffer k (klog_line_index k) j))\<rparr>"
  using assms
proof (induction s arbitrary: k)
  case Nil
  then show ?case by (auto simp: fun_eq_iff intro!: klog.equality)
next
  case (Cons c s)
  have n: "next_char (klog_put c k) = (klog_put c k)\<lparr>klog_char_index := klog_char_index k + 1\<rparr>"
    using Cons.prems(2) by (simp add: next_char_def Let_def klog_put_def)
  have "klog_print (c # s) k = klog_print s (next_char (klog_put c k))" using Cons.prems(1) by auto
  also have "\<dots> = k\<lparr>klog_char_index := klog_char_index k + length (c # s),
    klog_buffer := (klog_buffer k)(klog_line_index k := (\<lambda>j.
      if klog_char_index k \<le> j \<and> j < klog_char_index k + length (c # s) then (c # s) ! (j - klog_char_index k)
      else klog_buffer k (klog_line_index k) j))\<rparr>"
    unfolding n using Cons.prems by (subst Cons.IH) (auto simp: klog_put_def fun_eq_iff nth_Cons' intro!: klog.equality)
  finally show ?case .
qed

text \<open>
  Printing to the log never leaves the buffer. A text without newlines that fits into the
  current line is stored from the current position on, and no other cell changes; a newline moves
  to the start of the next line, cyclically, and blanks it.
\<close>

theorem klog_print_line:
  assumes "klog_ok k" and "10 \<notin> set s" and "klog_char_index k + length s < 42"
  shows "let r = klog_line_index k; c = klog_char_index k; k' = klog_print s k; k'' = klog_print (s @ [10]) k in
    klog_ok (klog_print t k) \<and>
    map (klog_buffer k' r) [c..<c + length s] = s \<and>
    (\<forall>i j. i \<noteq> r \<or> j < c \<or> c + length s \<le> j \<longrightarrow> klog_buffer k' i j = klog_buffer k i j) \<and>
    (klog_line_index k', klog_char_index k') = (r, c + length s) \<and>
    (klog_line_index k'', klog_char_index k'') = ((r + 1) mod 64, 0) \<and>
    map (klog_buffer k'' ((r + 1) mod 64)) [0..<42] = replicate 42 32 \<and>
    map (klog_buffer k'' r) [0..<42] = map (klog_buffer k' r) [0..<42]"
proof -
  have r: "(klog_line_index k + 1) mod 64 \<noteq> klog_line_index k"
    using assms(1) by (cases "klog_line_index k = 63") (auto simp: klog_ok_def)
  show ?thesis
    using klog_print_ok [OF assms(1), of t] r
    by (auto simp: Let_def klog_print_append klog_print_row [OF assms(2,3)] next_line_eq map_replicate_const [symmetric]
        intro!: nth_equalityI simp del: upt_rec_numeral)
qed

theorem klog_print_line_witness:
  "map (klog_buffer (klog_print (str ''ok'') \<lparr>klog_line_index = 63, klog_char_index = 0, klog_buffer = \<lambda>_ _. 0\<rparr>) 63) [0..<2] = str ''ok''"
proof -
  let ?k = "\<lparr>klog_line_index = 63, klog_char_index = 0, klog_buffer = \<lambda>_ _. 0\<rparr>"
  have "10 \<notin> set (str ''ok'')" and l: "length (str ''ok'') = 2" by code_simp+
  moreover have "klog_ok ?k" by (simp add: klog_ok_def)
  moreover have "klog_char_index ?k + length (str ''ok'') < 42" using l by simp
  ultimately have "map (klog_buffer (klog_print (str ''ok'') ?k) (klog_line_index ?k))
      [klog_char_index ?k..<klog_char_index ?k + length (str ''ok'')] = str ''ok''"
    using klog_print_line [of ?k "str ''ok''" "[]"] unfolding Let_def by blast
  then show ?thesis unfolding l by (simp only: klog.simps add_0)
qed

text \<open>
  Numbers are printed with the least significant digit first; in particular 10 is printed as 1 is,
  with two digits, the first of which is 0.
\<close>

lemma klog_print_hex_low_first:
  "\<exists>ds. klog_print_hex num k = klog_print (map (\<lambda>d. hex_digit (of_nat d)) ds) k \<and> list_all (\<lambda>d. d < 16) ds \<and>
    foldr (\<lambda>d v. d + 16 * v) ds 0 = unat num"
proof (induction num k rule: klog_print_hex.induct)
  case (1 num k)
  let ?d = "unat num mod 16"
  have h: "hex_digit (of_nat ?d) = hex_digit (num mod 16)" "hex_digit (num mod 16) \<noteq> 10"
  proof -
    have "list_all (\<lambda>d. hex_digit (of_nat d) \<noteq> 10) [0..<16]" by code_simp
    moreover have n: "of_nat ?d = num mod 16" using word_arith_nat_mod [of num 16] by simp
    ultimately show "hex_digit (num mod 16) \<noteq> 10" unfolding list_all_iff by (metis atLeastLessThan_iff mod_less_divisor set_upt zero_le zero_less_numeral)
    show "hex_digit (of_nat ?d) = hex_digit (num mod 16)" unfolding n by (rule refl)
  qed
  let ?k = "next_char (klog_put (hex_digit (num mod 16)) k)"
  have step: "klog_print_hex num k = (if num div 16 > 0 then klog_print_hex (num div 16) ?k else ?k)"
    by (subst klog_print_hex.simps) (simp add: Let_def)
  show ?case
  proof (cases "num div 16 > 0")
    case True
    then obtain ds where ds: "klog_print_hex (num div 16) ?k = klog_print (map (\<lambda>d. hex_digit (of_nat d)) ds) ?k"
      "list_all (\<lambda>d. d < 16) ds" "foldr (\<lambda>d v. d + 16 * v) ds 0 = unat (num div 16)"
      using 1 [OF refl refl refl True] by blast
    then show ?thesis
      using True h step by (intro exI [of _ "?d # ds"]) (simp add: unat_div)
  next
    case False
    then have "num div 16 = 0" by (simp add: word_gt_0)
    then have "unat (num div 16) = 0" by (rule unat_eq_zero [THEN iffD2])
    then have "unat num div 16 = 0" unfolding unat_div by simp
    then show ?thesis using False h step by (intro exI [of _ "[?d]"]) simp
  qed
qed

lemma klog_print_dec_10: "klog_print_dec 10 k = klog_print_dec 1 k"
proof -
  have "dec_loop 1 j = next_char (klog_put (dec_digit 1) j)" for j by (subst dec_loop.simps) (simp add: Let_def)
  then have "dec_loop 10 k = next_char (klog_put (dec_digit 1) (next_char (klog_put (dec_digit 0) k)))"
    by (subst dec_loop.simps) (simp add: Let_def)
  moreover have "\<not> (10 :: u32) \<le> 1" by code_simp
  ultimately show ?thesis by (simp add: klog_print_dec_def Let_def)
qed

section \<open>Debugging output\<close>

definition hex_value :: "8 word \<Rightarrow> int" where
  "hex_value c = (if c \<le> 57 then uint c - 48 else uint c - 87)"

definition parse_hex :: "bytes \<Rightarrow> int" where
  "parse_hex s = fold (\<lambda>c v. 16 * v + hex_value c) s 0"

lemma hex_value_nibble: "hex_value (nibble_char (v AND 0xF)) = uint v mod 16"
proof -
  have "list_all (\<lambda>d. hex_value (nibble_char (of_nat d)) = int d) [0..<16]" by code_simp
  then have d: "hex_value (nibble_char (of_nat d)) = int d" if "d < 16" for d using that by (simp add: list_all_iff)
  have u: "uint (v AND 0xF) = uint v mod 16"
  proof -
    have "v AND 0xF = take_bit 4 v" by (simp add: take_bit_eq_mask mask_eq_exp_minus_1)
    then show ?thesis by (simp add: take_bit_eq_mod uint_mod)
  qed
  have "v AND 0xF = of_nat (unat (v AND 0xF))" by simp
  moreover have "unat (v AND 0xF) < 16" using u by (simp add: unat_eq_nat_uint)
  ultimately show ?thesis using d [of "unat (v AND 0xF)"] u by simp
qed

lemma hex_loop_value:
  "n \<le> length hex \<Longrightarrow> \<exists>hs. hex_loop n val hex = hs @ drop n hex \<and> length hs = n \<and> parse_hex hs = uint val mod 16 ^ n"
proof (induction n arbitrary: val hex)
  case 0
  then show ?case by (simp add: parse_hex_def)
next
  case (Suc n)
  let ?c = "nibble_char (val AND 0xF)"
  obtain hs where hs: "hex_loop n (drop_bit 4 val) (hex[n := ?c]) = hs @ drop n (hex[n := ?c])" "length hs = n"
    "parse_hex hs = uint (drop_bit 4 val) mod 16 ^ n"
    using Suc.IH [of "hex[n := ?c]" "drop_bit 4 val"] Suc.prems by auto
  have "drop n (hex[n := ?c]) = ?c # drop (Suc n) hex"
    using Suc.prems by (simp add: Cons_nth_drop_Suc [symmetric] drop_update_cancel)
  moreover have "parse_hex (hs @ [?c]) = uint val mod 16 ^ Suc n"
  proof -
    have "uint (drop_bit 4 val) = uint val div 16" by (simp add: drop_bit_eq_div uint_div)
    then show ?thesis
      using hs(3) zmod_zmult2_eq [of "16 ^ n" "uint val" 16] by (simp add: parse_hex_def hex_value_nibble)
  qed
  ultimately show ?case using hs(1,2) by (intro exI [of _ "hs @ [?c]"]) simp
qed

text \<open>
  \<open>debug_hex\<close> writes the label, the value as eight hexadecimal digits, a space and a newline: the
  digits read as a number give the value back.
\<close>

theorem debug_hex_roundtrip:
  "\<exists>hex. debug_hex label val = debug_print (label @ hex @ [32, 10]) \<and> length hex = 8 \<and> parse_hex hex = uint val"
proof -
  obtain hs where "hex_loop 8 val (replicate 8 0) = hs" "length hs = 8" "parse_hex hs = uint val mod 16 ^ 8"
    using hex_loop_value [of 8 "replicate 8 0" val] by auto
  moreover have "uint val mod 16 ^ 8 = uint val" using uint_bounded [of val] by simp
  ultimately show ?thesis by (auto simp: debug_hex_def debug_print_def)
qed

end
