(* ===== verification/Spec2Isabelle.thy ===== *)
theory Spec2Isabelle
  imports Phase1_Verdict Phase2_Services Vm_Services Vm_Types Vm_Progress Syscall_Path User_Services
begin

text \<open>
  PandOSsh: a small operating system kernel for the uRISCV machine.

  The program. Phase 1 (\<^verbatim>\<open>src/phase1\<close>) keeps the process control blocks and the semaphores in
  intrusive lists (\<^verbatim>\<open>src/headers/listx.h\<close>). Phase 2 (\<^verbatim>\<open>src/phase2\<close>), the Nucleus, is entered by an
  exception or an interrupt, works with interrupts disabled and leaves with a processor state to
  load, or stops the machine. Phase 3 (\<^verbatim>\<open>src/phase3\<close>), the support level, runs the user programs.

  Theories and code.

  \<^item> \<open>Prelude\<close>: words, lists, and the collections of rewrite rules.
  \<^item> \<open>Listx\<close>: \<^verbatim>\<open>headers/listx.h\<close>. One memory \<open>list_mem\<close> of next and previous pointers; a list head is
    addressed by the object and field it lives in. \<open>ring\<close>, \<open>rings\<close>: lists and families of disjoint
    lists in this memory.
  \<^item> \<open>Pandos_Types\<close>: \<^verbatim>\<open>headers/types.h\<close>, \<^verbatim>\<open>headers/const.h\<close>; the locale \<open>link_field\<close> is the contract of
    \<open>container_of\<close>.
  \<^item> \<open>Pcb\<close>: \<^verbatim>\<open>phase1/pcb.c\<close>; the locale \<open>proc_queue\<close> is the contract of the process queues.
  \<^item> \<open>Asl\<close>: \<^verbatim>\<open>phase1/asl.c\<close>; \<open>asl_rep\<close> relates the descriptors to a map from addresses to queues.
  \<^item> \<open>Nucleus\<close>, \<open>Scheduler\<close>, \<open>Interrupts\<close>, \<open>Exceptions\<close>, \<open>Initial\<close>: \<^verbatim>\<open>phase2/headers/globals.h\<close>,
    \<^verbatim>\<open>phase2/scheduler.c\<close>, \<^verbatim>\<open>phase2/interrupts.c\<close>, \<^verbatim>\<open>phase2/exceptions.c\<close>, \<^verbatim>\<open>phase2/initial.c\<close>. The
    record \<open>nucleus\<close> extends the state of phase 1 with the global variables, the words of memory,
    the saved processor state of the BIOS data page and the timers. A handler is a function from
    states to an \<open>outcome\<close> (\<open>LDST\<close>, \<open>LDCXT\<close>, \<open>HALT\<close>, \<open>PANIC\<close>, \<open>WAIT\<close>) and a state; \<open>None\<close> is a loop that
    does not end or the use of a bad pointer.
  \<^item> \<open>Kernel_View\<close>: the refinement of phase 1: a \<open>view\<close> is the four families of lists as HOL lists, and
    every operation of phase 1 is shown to be the expected change of the view (\<open>krep\<close>).
  \<^item> \<open>Kernel_Invariant\<close>, \<open>Kernel_Create\<close>, \<open>Kernel_Terminate\<close>, \<open>Kernel_Handlers\<close>,
    \<open>Kernel_Exceptions\<close>, \<open>Kernel_Boot\<close>: the invariant \<open>kinv\<close> of the Nucleus and its preservation by
    each handler; the locale \<open>ready_enqueue\<close> is the contract of the two ways a woken process enters
    the ready queue.
  \<^item> \<open>Kernel_Run\<close>: the transition system of the whole machine and its reachable states.
  \<^item> \<open>Nucleus_Services\<close>: the functional behaviour of every service. \<open>Demo\<close>: a concrete machine.
  \<^item> \<open>Kernel_Effects\<close>: what every handler may do to a semaphore that a process uses. \<open>Kernel_Mutex\<close>:
    the runs in which the processes use a semaphore as a mutex; at most one of them is between \<open>P\<close> and
    \<open>V\<close>, and the value counts those that wait.
  \<^item> \<open>Phase1_Services\<close>: what the lists of phase 1 are for their callers: the process queues sort by
    priority, semaphores and children are queues (the locale \<open>fifo_queues\<close>, interpreted on both), and
    the pool of process blocks gives each block once.
  \<^item> \<open>Phase1_Test\<close>: \<^verbatim>\<open>phase1/p1test.c\<close>, a tree of the operations it calls, run on the code and on
    plain lists. \<open>Phase1_Refinement\<close>: phase 1 refines the lists. \<open>Phase1_Verdict\<close>: the test passes.
  \<^item> \<open>Phase2_Test\<close>: \<^verbatim>\<open>phase2/p2test.c\<close>, each of its processes as a tree of its system calls.
    \<open>Phase2_Run\<close>: these processes interleaved under the Nucleus; their messages do not mix.
    \<open>Phase2_Services\<close>: what a process does by itself, and the states it starts from.
  \<^item> \<open>Support\<close>, \<open>VmSupport\<close>, \<open>InitProc\<close>, \<open>SysSupport\<close>: \<^verbatim>\<open>phase3/headers/support.h\<close>,
    \<^verbatim>\<open>phase3/vmSupport.c\<close>, \<^verbatim>\<open>phase3/initProc.c\<close>, \<^verbatim>\<open>phase3/sysSupport.c\<close>. The support level runs
    with interrupts enabled, so its handlers are programs, trees of reads, writes, calls of the
    Nucleus and accesses to user memory, and \<open>run\<close> executes one in an environment that answers the calls
    and may change the state at each of them. An access (\<open>Access\<close>) to a page that is not present is a page
    fault in the middle of the handler: the environment stands for the pager, and the access is made
    again if the page is there afterwards; otherwise the process has been terminated (\<open>Faulted\<close>).
  \<^item> \<open>Support_Logic\<close>: \<open>wp\<close>, the rely-guarantee rule for programs: what every call satisfies and how the
    program ends, whatever answers the rely condition allows.
  \<^item> \<open>Vm_Consistency\<close>, \<open>Vm_Pager\<close>: the invariant \<open>pool_ok\<close> of the swap pool and the page tables, kept
    by the pager and by termination. \<open>Vm_Transparency\<close>: the contents of the pages. \<open>Vm_Tables\<close>: page
    tables, page indexes, launch and start. \<open>Mutex_Order\<close>: the discipline of the mutexes, also of a pager
    that runs while \<open>WriteTerminal\<close> or \<open>ReadTerminal\<close> holds the mutex of the terminal. \<open>Handler_Faults\<close>: the
    runs of a handler (\<open>paging\<close>) in which the pager of the code runs at each of its page faults.
  \<^item> \<open>Vm_Services\<close>, \<open>Sys_Services\<close>: what the support level promises. \<open>Support_Demo\<close>: a concrete state.
  \<^item> \<open>Vm_Types\<close>: the types of the page table entries and of the TLB, which the handlers keep even when
    devices fail.
  \<^item> \<open>Vm_System\<close>: the processes of the support level running together, the steps of their handlers
    interleaved one by one. A handler that faults on user memory is suspended, the pager runs on top of
    it and returns to it, or kills the process (\<open>Killed\<close>). \<open>Vm_Interleaving\<close>: \<open>sound\<close>, a rely-guarantee condition on programs under
    this interleaving; \<open>Vm_Sound\<close>: the handlers satisfy it. \<open>Vm_Runs\<close>: so the swap pool is consistent
    in every run. \<open>Vm_Progress\<close>: the handlers never deadlock, except that a process killed at a fault on
    its buffer keeps the mutex of the terminal.
  \<^item> \<open>Syscall_Path\<close>: a system call of a user program through the Nucleus and the support level.
  \<^item> \<open>Klog\<close>: \<^verbatim>\<open>klog.c\<close> and \<^verbatim>\<open>phase2/debug.h\<close>. \<open>User_Programs\<close>: \<^verbatim>\<open>testers\<close>, the shell and the
    other user programs as trees of their system calls. \<open>User_Services\<close>: what they do.

  Loops. \<open>list_for_each\<close>, the loop that empties the queue of the pseudo-clock and the recursion of
  \<open>terminateProcess\<close> are partial functions, so that their termination is a theorem and not an
  assumption. The loop of \<open>readTerminal\<close>, which ends when a newline arrives, has fuel, the number of
  characters it may read; one more than the characters before the newline is enough. The shell has fuel
  for its rounds, one more than the lines before \<open>exit\<close>.

  Environment. \<open>machine_step\<close> says what processes and devices may change between two activations of
  the Nucleus, \<open>callers_ok\<close> what arguments the system calls of kernel mode need: a semaphore of \<open>PASSEREN\<close>
  and \<open>VERHOGEN\<close> is not an element of \<open>devSems\<close>, nor at the address 0 for \<open>PASSEREN\<close>, \<open>DOIO\<close> names a device
  register, and fewer than \<open>2 ^ 31\<close> processes have been created. The calls of user mode, which the Nucleus
  turns into program traps, are not restricted. In the runs of \<open>p2test.c\<close> an instruction of a user-mode
  process can trap, at the fetch too. The clock is an arbitrary sequence of readings. \<open>vm_rely\<close> says
  what the pager relies on: mutual exclusion by the mutex of the swap pool, and a processor that
  reports a page fault only for a page that is not present. What the refill handler enters for an
  address outside the 32 pages is outside these runs. The addresses of the variables and
  \<open>DEV_REG_ADDR\<close> of the uRISCV library are parameters (\<open>link_addrs\<close>).

  Not modelled. The drivers \<^verbatim>\<open>test_asl_manuale.c\<close> and \<^verbatim>\<open>p2test_OLD.c\<close>, which are not built, the compiler
  probe of CMake, the start-up code of the user programs, which is not in the repository, and the
  effect of device commands other than those of the flash devices and of terminal 0. In the trees of
  \<^verbatim>\<open>p2test.c\<close> the loops that only pass time are left out.
\<close>

end
